(* ===== verification/Prelude.thy ===== *)
theory Prelude
  imports Main "HOL-Library.Word" "HOL-Library.Monad_Syntax"
begin

text \<open>
  Shared vocabulary of the development: the machine integer types of the C sources, the
  addresses of heap cells, the path predicate for linked lists threaded through a
  next-pointer function, and the fact collections the component theories extend.

  A C pointer is an \<open>addr option\<close>, \<^term>\<open>None\<close> being NULL.  Linked structures are modelled
  field by field: a pointer field \<open>next\<close> of the objects of one class is a function from the
  address of an object to the pointer stored there.
\<close>

type_synonym u8 = "8 word"
type_synonym u16 = "16 word"
type_synonym u32 = "32 word"
type_synonym u64 = "64 word"
type_synonym addr = nat
type_synonym ptr = "addr option"

named_theorems rep_simps "facts about the representation of linked structures"
named_theorems frame_simps "what an operation leaves unchanged"

subsection \<open>Paths through next pointers\<close>

text \<open>\<open>lpath n p xs q\<close>: starting at pointer \<open>p\<close> and following \<open>n\<close>, the addresses \<open>xs\<close> are
  visited in this order, and the pointer reached after them is \<open>q\<close>.\<close>

fun lpath :: "(addr \<Rightarrow> ptr) \<Rightarrow> ptr \<Rightarrow> addr list \<Rightarrow> ptr \<Rightarrow> bool" where
  "lpath n p [] q = (p = q)"
| "lpath n p (a # as) q = (p = Some a \<and> lpath n (n a) as q)"

lemma lpath_append [rep_simps]:
  "lpath n p (xs @ ys) q \<longleftrightarrow> (\<exists>m. lpath n p xs m \<and> lpath n m ys q)"
  by (induction xs arbitrary: p) auto

lemma lpath_upd_other [simp]:
  "a \<notin> set xs \<Longrightarrow> lpath (n(a := v)) p xs q = lpath n p xs q"
  by (induction xs arbitrary: p) auto

lemma lpath_cong:
  "(\<And>a. a \<in> set xs \<Longrightarrow> n a = m a) \<Longrightarrow> lpath n p xs q = lpath m p xs q"
  by (induction xs arbitrary: p) auto

lemma lpath_NoneD [simp]: "lpath n None xs q \<longleftrightarrow> xs = [] \<and> q = None"
  by (cases xs) auto

lemma lpath_head: "lpath n p xs None \<Longrightarrow> p = (if xs = [] then None else Some (hd xs))"
  by (cases xs) auto

lemma lpath_last_next: "lpath n p xs q \<Longrightarrow> xs \<noteq> [] \<Longrightarrow> n (last xs) = q"
  by (induction xs arbitrary: p) auto

lemma lpath_deterministic:
  "lpath n p xs None \<Longrightarrow> lpath n p ys None \<Longrightarrow> xs = ys"
proof (induction xs arbitrary: p ys)
  case Nil
  then show ?case by simp
next
  case (Cons x xs)
  then show ?case by (cases ys) auto
qed

text \<open>Extending a path at its end: the last cell is made to point to the new cell.\<close>

lemma lpath_snoc_upd:
  assumes "lpath n p xs q" "distinct xs" "xs \<noteq> []" "a \<notin> set xs"
  shows "lpath (n(last xs := Some a, a := r)) p (xs @ [a]) r"
proof -
  obtain ys y where xs: "xs = ys @ [y]" using assms(3) by (metis rev_exhaust)
  with assms have "lpath n p ys (Some y)" "y \<notin> set ys" "a \<notin> set ys" "a \<noteq> y"
    by (auto simp: rep_simps)
  then show ?thesis by (simp add: xs rep_simps)
qed

subsection \<open>Small list facts\<close>

lemma in_set_split: "x \<in> set xs \<Longrightarrow> \<exists>ys zs. xs = ys @ x # zs"
  by (rule split_list)

lemma sum_list_map_update:
  fixes f g :: "nat \<Rightarrow> int"
  assumes "i \<in> set is" "distinct is" "\<And>j. j \<in> set is \<Longrightarrow> j \<noteq> i \<Longrightarrow> g j = f j"
  shows "sum_list (map g is) = sum_list (map f is) - f i + g i"
  using assms
proof (induction "is")
  case Nil
  then show ?case by simp
next
  case (Cons j js)
  show ?case
  proof (cases "i = j")
    case True
    with Cons.prems have "map g js = map f js" by (intro map_cong) auto
    then have "sum_list (map g js) = sum_list (map f js)" by (rule arg_cong)
    with True show ?thesis by simp
  next
    case False
    with Cons show ?thesis by simp
  qed
qed

end
