(* ===== verification/Varint.thy ===== *)
theory Varint
  imports Prelude
begin

unbundle bit_operations_syntax

text \<open>
  The length prefix of the messages exchanged with the back end: \<^verbatim>\<open>encode_varint\<close> and
  \<^verbatim>\<open>decode_varint\<close> of \<^verbatim>\<open>server.c\<close>.  The encoder works on 64 bits.  The decoder shifts an
  \<^verbatim>\<open>int\<close>, so its arithmetic is that of 32-bit signed integers: \<open>int_shl\<close> is \<^term>\<open>None\<close>
  where the C++ shift is undefined, and the result is sign-extended when it is or-ed into
  the \<^verbatim>\<open>size_t\<close>.
\<close>

function encode_varint :: "u64 \<Rightarrow> u8 list" where
  "encode_varint value =
     (let next_byte = ucast (value AND 0x7F);
          value' = drop_bit 7 value
      in if value' \<noteq> 0 then (next_byte OR 0x80) # encode_varint value' else [next_byte])"
  by pat_completeness auto
termination
proof (relation "measure unat")
  fix v :: u64 and x v'
  assume "v' = drop_bit 7 v" and a: "v' \<noteq> 0"
  then have "unat v' = unat v div 128" and "unat v \<noteq> 0"
    by (auto simp: drop_bit_eq_div unat_div_distrib unat_eq_zero)
  then show "(v', v) \<in> measure unat" by simp
qed simp

declare encode_varint.simps [simp del]

definition int_shl :: "u8 \<Rightarrow> nat \<Rightarrow> u64 option" where
  "int_shl x s =
     (if s < 32 \<and> unat x * 2 ^ s < 2 ^ 32 then Some (scast (push_bit s (ucast x :: u32))) else None)"

text \<open>The socket is the list of the bytes the peer has sent; on an empty list \<^verbatim>\<open>recv\<close> returns
  less than 1 and the value read so far is returned.\<close>

fun decode_varint_loop :: "u64 \<Rightarrow> nat \<Rightarrow> u8 list \<Rightarrow> (u64 \<times> u8 list) option" where
  "decode_varint_loop value shifter [] = Some (value, [])"
| "decode_varint_loop value shifter (i # sock) = do {
     x \<leftarrow> int_shl (i AND 0x7F) shifter;
     (if i AND 0x80 \<noteq> 0 then decode_varint_loop (value OR x) (shifter + 7) sock
      else Some (value OR x, sock))
   }"

definition decode_varint :: "u8 list \<Rightarrow> (u64 \<times> u8 list) option" where
  "decode_varint sock = decode_varint_loop 0 0 sock"

subsection \<open>Word facts\<close>

lemma mask7: "(0x7F :: 'a::len word) = mask 7"
  by (simp add: mask_eq_exp_minus_1)

lemma bit_128 [simp]: "bit (128 :: int) n \<longleftrightarrow> n = 7"
proof -
  have "(128 :: int) = push_bit 7 1" by simp
  then show ?thesis by (simp only: bit_simps) auto
qed

lemma unat_drop7: "unat (drop_bit 7 (v :: u64)) = unat v div 128"
  by (simp add: drop_bit_eq_div unat_div_distrib)

lemma low7: "unat (ucast ((v :: u64) AND 0x7F) :: u8) = unat v mod 128"
proof -
  have "v AND 0x7F = v mod 128"
    unfolding mask7 by (simp flip: take_bit_eq_mask) (simp add: take_bit_eq_mod)
  then have "unat (v AND 0x7F) = unat v mod 128" by (simp add: unat_mod_distrib)
  moreover have "unat v mod 128 < 256" by (rule less_trans [of _ 128]) simp_all
  ultimately show ?thesis by (simp only: unsigned_ucast_eq take_bit_eq_mod) simp
qed

lemma high_bit_clear [simp]: "(ucast ((v :: u64) AND 0x7F) :: u8) AND 0x80 = 0"
  unfolding mask7 by (rule bit_word_eqI) (auto simp: bit_simps)

lemma high_bit_set [simp]: "((b :: u8) OR 0x80) AND 0x80 \<noteq> 0"
proof
  assume "(b OR 0x80) AND 0x80 = 0"
  then have "bit ((b OR 0x80) AND 0x80) 7 = bit (0 :: u8) 7" by simp
  then show False by (simp add: bit_simps)
qed

lemma strip_high_bit [simp]:
  "((ucast ((v :: u64) AND 0x7F) :: u8) OR 0x80) AND 0x7F = ucast (v AND 0x7F)"
  "(ucast (v AND 0x7F) :: u8) AND 0x7F = ucast (v AND 0x7F)"
  unfolding mask7 by (rule bit_word_eqI, auto simp: bit_simps)+

lemma scast_small: "unat (w :: u32) < 2 ^ 31 \<Longrightarrow> (scast w :: u64) = ucast w"
proof -
  assume a: "unat w < 2 ^ 31"
  have "bit w 31 = bit (unat w) 31" by (simp add: bit_unsigned_iff)
  with a have "\<not> bit w 31" by (simp add: bit_iff_odd)
  moreover have "n = 31" if "bit w n" "31 \<le> n" for n
    using bit_imp_le_length [OF that(1)] that(2) by simp
  ultimately show ?thesis by (intro bit_word_eqI) (auto simp: bit_simps min_def)
qed

lemma split7:
  "push_bit s (ucast (ucast ((v :: u64) AND 0x7F) :: u8)) OR push_bit (s + 7) (drop_bit 7 v)
   = push_bit s v"
proof (rule bit_word_eqI)
  fix n assume "n < LENGTH(64)"
  moreover have "7 + (n - (s + 7)) = n - s" if "\<not> n - s < 7" using that by simp
  ultimately show "bit (push_bit s (ucast (ucast (v AND 0x7F) :: u8)) OR
      push_bit (s + 7) (drop_bit 7 v)) n = bit (push_bit s v) n"
    unfolding mask7 by (cases "n - s < 7") (auto simp: bit_simps)
qed

text \<open>Below \<^term>\<open>2 ^ 31\<close> the decoder's \<^verbatim>\<open>int\<close> shift is an ordinary 64-bit shift.\<close>

lemma unat_ucast_u64: "unat (ucast (w :: u32) :: u64) = unat w"
proof -
  have "unat w < 2 ^ 64" using unsigned_less [of w, where 'a = nat] by simp
  then show ?thesis by (simp add: unsigned_ucast_eq take_bit_nat_eq_self)
qed

lemma int_shl_small:
  assumes "unat x * 2 ^ s < 2 ^ 31" "s < 32"
  shows "int_shl x s = Some (push_bit s (ucast x))"
proof -
  have fit: "take_bit n (unat x * 2 ^ s) = unat x * 2 ^ s" if "31 \<le> n" for n
    using assms(1) that by (intro take_bit_nat_eq_self) (meson less_le_trans one_le_numeral
        power_increasing)
  have x256: "unat x < 256" using unsigned_less [of x, where 'a = nat] by simp
  have x: "unat (ucast x :: u32) = unat x" "unat (ucast x :: u64) = unat x"
    using x256 by (simp_all add: unsigned_ucast_eq take_bit_nat_eq_self)
  have "unat (push_bit s (ucast x :: u32)) = unat x * 2 ^ s"
    "unat (push_bit s (ucast x :: u64)) = unat x * 2 ^ s"
    using fit [of 32] fit [of 64]
    by (simp_all add: unsigned_push_bit_eq x push_bit_eq_mult [where 'a = nat])
  moreover from this have "scast (push_bit s (ucast x :: u32)) = (ucast (push_bit s (ucast x :: u32)) :: u64)"
    using assms by (intro scast_small) simp
  moreover have "unat (ucast (push_bit s (ucast x :: u32)) :: u64) = unat (push_bit s (ucast x :: u32))"
    by (rule unat_ucast_u64)
  ultimately have "(scast (push_bit s (ucast x :: u32)) :: u64) = push_bit s (ucast x)"
    by (simp add: word_unat_eq_iff)
  with assms show ?thesis by (simp add: int_shl_def)
qed

subsection \<open>The framing\<close>

lemma decode_encode_loop:
  "unat v * 2 ^ s < 2 ^ 31 \<Longrightarrow> v \<noteq> 0 \<or> s = 0 \<Longrightarrow>
   decode_varint_loop acc s (encode_varint v @ rest) = Some (acc OR push_bit s v, rest)"
proof (induction v arbitrary: acc s rule: encode_varint.induct)
  case (1 v)
  let ?lo = "ucast (v AND 0x7F) :: u8" and ?hi = "drop_bit 7 v"
  have lo: "unat ?lo * 2 ^ s < 2 ^ 31"
    using "1.prems"(1) by (rule le_less_trans [rotated]) (simp add: low7)
  have s: "s < 32"
  proof (rule ccontr)
    assume "\<not> s < 32"
    then have "v \<noteq> 0" using "1.prems"(2) by auto
    have "(2::nat) ^ 31 \<le> 2 ^ s" using \<open>\<not> s < 32\<close> by (intro power_increasing) simp_all
    with \<open>v \<noteq> 0\<close> have "2 ^ 31 \<le> unat v * 2 ^ s"
      by (metis One_nat_def Suc_leI mult_le_mono nat_mult_1 neq0_conv unat_eq_zero)
    with "1.prems"(1) show False by simp
  qed
  note shl = int_shl_small [OF lo s]
  show ?case
  proof (cases "?hi = 0")
    case True
    then have "push_bit s (ucast ?lo) = push_bit s v" using split7 [of s v] by simp
    with True shl show ?thesis by (simp add: encode_varint.simps [of v])
  next
    case False
    have "unat ?hi * 2 ^ (s + 7) = unat v div 128 * 128 * 2 ^ s"
      by (simp add: unat_drop7 power_add)
    also have "\<dots> \<le> unat v * 2 ^ s" by simp
    finally have "unat ?hi * 2 ^ (s + 7) < 2 ^ 31" using "1.prems"(1) by simp
    with False "1.IH" [OF refl refl False, of "s + 7"] shl show ?thesis
      by (simp add: encode_varint.simps [of v] or.assoc split7)
  qed
qed

lemma encode_varint_length_le:
  "unat v < 2 ^ (7 * k) \<Longrightarrow> 0 < k \<Longrightarrow> length (encode_varint v) \<le> k"
proof (induction k arbitrary: v)
  case 0
  then show ?case by simp
next
  case (Suc k)
  show ?case
  proof (cases "drop_bit 7 v = 0")
    case True
    then show ?thesis by (simp add: encode_varint.simps [of v])
  next
    case False
    have "unat v < 2 ^ (7 * k) * 128" using Suc.prems by (simp add: power_add)
    then have lt: "unat (drop_bit 7 v) < 2 ^ (7 * k)"
      unfolding unat_drop7 by (intro less_mult_imp_div_less)
    moreover have "0 < k"
      using False lt by (cases k) (auto simp: unat_eq_zero)
    ultimately have "length (encode_varint (drop_bit 7 v)) \<le> k" by (rule Suc.IH)
    with False show ?thesis by (simp add: encode_varint.simps [of v])
  qed
qed

lemma encode_varint_nonempty: "encode_varint v \<noteq> []"
  by (simp add: encode_varint.simps [of v] Let_def)

text \<open>Round trip of the message length prefix: for every length below 2^31 the decoder of
  \<^verbatim>\<open>server.c\<close> reads back exactly the value the encoder wrote, and leaves the rest of the
  stream unread.\<close>

theorem varint_roundtrip:
  "unat v < 2 ^ 31 \<Longrightarrow> decode_varint (encode_varint v @ rest) = Some (v, rest)"
  using decode_encode_loop [of v 0 0 rest] by (simp add: decode_varint_def)

theorem varint_roundtrip_witness:
  "decode_varint (encode_varint 300 @ [7]) = Some (300, [7])"
  by (rule varint_roundtrip) simp

text \<open>The encoder never needs more than the 10 bytes its callers reserve, every byte but
  the last has the continuation bit set, and the last has it clear.\<close>

theorem encode_varint_format:
  "1 \<le> length (encode_varint v) \<and> length (encode_varint v) \<le> 10 \<and>
   last (encode_varint v) AND 0x80 = 0 \<and>
   list_all (\<lambda>b. b AND 0x80 \<noteq> 0) (butlast (encode_varint v))"
proof -
  have "unat v < 2 ^ (7 * 10)"
    using unsigned_less [of v] by (rule less_trans) simp
  then have "length (encode_varint v) \<le> 10" by (rule encode_varint_length_le) simp
  moreover have "last (encode_varint v) AND 0x80 = 0 \<and>
      list_all (\<lambda>b. b AND 0x80 \<noteq> 0) (butlast (encode_varint v))"
  proof (induction v rule: encode_varint.induct)
    case (1 v)
    then show ?case
      by (cases "drop_bit 7 v = 0")
        (simp_all add: encode_varint.simps [of v] encode_varint_nonempty)
  qed
  moreover have "1 \<le> length (encode_varint v)"
    using encode_varint_nonempty [of v] by (cases "encode_varint v") auto
  ultimately show ?thesis by blast
qed

text \<open>The bound of the round trip is sharp: from 2^31 on the decoder's \<^verbatim>\<open>int\<close> shift
  sign-extends the value, and from 2^32 on the shift is undefined behaviour.\<close>

theorem decode_varint_overflow:
  "decode_varint (encode_varint 0x80000000) = Some (0xFFFFFFFF80000000, []) \<and>
   decode_varint (encode_varint 0x100000000) = None"
  by (simp add: encode_varint.simps decode_varint_def int_shl_def)

end
