(* ===== verification/Clib.thy ===== *)
theory Clib
  imports Prelude
begin

text \<open>
  The parts of the C library the sources call on character data.  A buffer is the list of
  the characters of its allocation and a pointer into it is an index.  \<open>at\<close> reads one
  character; one past the end it yields NUL, as the payload buffers of the program are
  allocated one byte longer than their contents and zeroed.
\<close>

abbreviation NUL :: char where "NUL \<equiv> CHR 0x00"
abbreviation CR :: char where "CR \<equiv> CHR 0x0D"
abbreviation LF :: char where "LF \<equiv> CHR 0x0A"
abbreviation SP :: char where "SP \<equiv> CHR '' ''"

definition at :: "string \<Rightarrow> nat \<Rightarrow> char" where
  "at buf i = (if i < length buf then buf ! i else NUL)"

definition code :: "char \<Rightarrow> nat" where
  "code c = of_char c"

definition isdigit :: "char \<Rightarrow> bool" where
  "isdigit c \<longleftrightarrow> 48 \<le> code c \<and> code c \<le> 57"

definition isascii :: "char \<Rightarrow> bool" where
  "isascii c \<longleftrightarrow> code c < 128"

definition islower :: "char \<Rightarrow> bool" where
  "islower c \<longleftrightarrow> 97 \<le> code c \<and> code c \<le> 122"

definition isupper :: "char \<Rightarrow> bool" where
  "isupper c \<longleftrightarrow> 65 \<le> code c \<and> code c \<le> 90"

definition isxdigit :: "char \<Rightarrow> bool" where
  "isxdigit c \<longleftrightarrow> isdigit c \<or> 97 \<le> code c \<and> code c \<le> 102 \<or> 65 \<le> code c \<and> code c \<le> 70"

definition isspace :: "char \<Rightarrow> bool" where
  "isspace c \<longleftrightarrow> code c = 32 \<or> 9 \<le> code c \<and> code c \<le> 13"

definition tolower :: "char \<Rightarrow> char" where
  "tolower c = (if isupper c then char_of (code c + 32) else c)"

text \<open>\<^verbatim>\<open>memchr (buf + i, c, n)\<close> as the index of the first hit.\<close>

fun memchr :: "string \<Rightarrow> char \<Rightarrow> nat \<Rightarrow> nat \<Rightarrow> nat option" where
  "memchr buf c i 0 = None"
| "memchr buf c i (Suc n) = (if at buf i = c then Some i else memchr buf c (Suc i) n)"

text \<open>\<^verbatim>\<open>strncmp (buf + i, s, n) == 0\<close> for a NUL-terminated \<open>s\<close>, and the case-insensitive
  variant.\<close>

fun strncmp0 :: "string \<Rightarrow> nat \<Rightarrow> string \<Rightarrow> nat \<Rightarrow> bool" where
  "strncmp0 buf i s 0 = True"
| "strncmp0 buf i [] (Suc n) = (at buf i = NUL)"
| "strncmp0 buf i (c # s) (Suc n) = (at buf i = c \<and> strncmp0 buf (Suc i) s n)"

fun strncasecmp0 :: "string \<Rightarrow> nat \<Rightarrow> string \<Rightarrow> nat \<Rightarrow> bool" where
  "strncasecmp0 buf i s 0 = True"
| "strncasecmp0 buf i [] (Suc n) = (at buf i = NUL)"
| "strncasecmp0 buf i (c # s) (Suc n) =
     (tolower (at buf i) = tolower c \<and> strncasecmp0 buf (Suc i) s n)"

text \<open>\<^verbatim>\<open>sprintf\<close> of a number with \<^verbatim>\<open>%d\<close> or \<^verbatim>\<open>%ld\<close>.\<close>

fun show_nat :: "nat \<Rightarrow> string" where
  "show_nat n = (if n < 10 then [char_of (48 + n)]
                 else show_nat (n div 10) @ [char_of (48 + n mod 10)])"

declare show_nat.simps [simp del]

definition show_int :: "int \<Rightarrow> string" where
  "show_int i = (if i < 0 then CHR ''-'' # show_nat (nat (- i)) else show_nat (nat i))"

subsection \<open>Reading\<close>

lemma at_append1 [simp]: "i < length xs \<Longrightarrow> at (xs @ ys) i = at xs i"
  by (simp add: at_def nth_append)

lemma at_append2 [simp]: "length xs \<le> i \<Longrightarrow> at (xs @ ys) i = at ys (i - length xs)"
  by (auto simp: at_def nth_append)

lemma at_Cons_0 [simp]: "at (x # xs) 0 = x"
  by (simp add: at_def)

lemma at_Cons_Suc [simp]: "at (x # xs) (Suc i) = at xs i"
  by (simp add: at_def)

lemma at_Cons_numeral [simp]: "at (x # xs) (numeral k) = at xs (pred_numeral k)"
  by (simp add: at_def numeral_eq_Suc)

lemma at_Nil [simp]: "at [] i = NUL"
  by (simp add: at_def)

lemma memchr_Some:
  "memchr buf c i n = Some k \<longleftrightarrow>
     i \<le> k \<and> k < i + n \<and> at buf k = c \<and> (\<forall>j. i \<le> j \<and> j < k \<longrightarrow> at buf j \<noteq> c)"
proof (induction buf c i n rule: memchr.induct)
  case (1 buf c i)
  then show ?case by simp
next
  case (2 buf c i n)
  show ?case
  proof (cases "at buf i = c")
    case True
    then have "k = i" if "\<forall>j. i \<le> j \<and> j < k \<longrightarrow> at buf j \<noteq> c" "i \<le> k"
      using that True by (cases "i = k") auto
    with True show ?thesis by auto
  next
    case False
    have split: "(\<forall>j. i \<le> j \<and> j < k \<longrightarrow> at buf j \<noteq> c) \<longleftrightarrow>
        (\<forall>j. Suc i \<le> j \<and> j < k \<longrightarrow> at buf j \<noteq> c)"
      using False by (metis Suc_leI Suc_leD le_neq_implies_less)
    have "memchr buf c i (Suc n) = Some k \<longleftrightarrow> Suc i \<le> k \<and> k < Suc i + n \<and> at buf k = c \<and>
        (\<forall>j. Suc i \<le> j \<and> j < k \<longrightarrow> at buf j \<noteq> c)"
      using False "2.IH" by simp
    also have "\<dots> \<longleftrightarrow> i \<le> k \<and> k < i + Suc n \<and> at buf k = c \<and>
        (\<forall>j. i \<le> j \<and> j < k \<longrightarrow> at buf j \<noteq> c)"
      unfolding split using False by (cases "i = k") auto
    finally show ?thesis .
  qed
qed

lemma memchr_None:
  "memchr buf c i n = None \<longleftrightarrow> (\<forall>j. i \<le> j \<and> j < i + n \<longrightarrow> at buf j \<noteq> c)"
proof (induction buf c i n rule: memchr.induct)
  case (1 buf c i)
  then show ?case by auto
next
  case (2 buf c i n)
  show ?case
  proof (cases "at buf i = c")
    case True
    then show ?thesis by auto
  next
    case False
    with "2.IH" have "memchr buf c i (Suc n) = None \<longleftrightarrow>
        (\<forall>j. Suc i \<le> j \<and> j < Suc i + n \<longrightarrow> at buf j \<noteq> c)" by simp
    also have "\<dots> \<longleftrightarrow> (\<forall>j. i \<le> j \<and> j < i + Suc n \<longrightarrow> at buf j \<noteq> c)"
      using False by (metis Suc_leI Suc_leD add_Suc add_Suc_right le_neq_implies_less)
    finally show ?thesis .
  qed
qed

lemma strncmp0_iff_take:
  assumes "NUL \<notin> set s" "n \<le> length s"
  shows "strncmp0 buf i s n \<longleftrightarrow> (\<forall>j < n. at buf (i + j) = s ! j)"
  using assms
proof (induction buf i s n rule: strncmp0.induct)
  case (3 buf i c s n)
  then show ?case by (auto simp: less_Suc_eq_0_disj)
qed auto

subsection \<open>Decimal numbers\<close>

lemma code_char_of [simp]: "n < 256 \<Longrightarrow> code (char_of n) = n"
  by (simp add: code_def)

lemma code_eq_iff: "code a = code b \<longleftrightarrow> a = b"
  by (simp add: code_def)

lemma show_nat_nonempty [simp]: "show_nat n \<noteq> []"
  by (subst show_nat.simps) simp

lemma show_nat_digits: "c \<in> set (show_nat n) \<Longrightarrow> isdigit c"
proof (induction n rule: show_nat.induct)
  case (1 n)
  then show ?case
    by (subst (asm) show_nat.simps) (auto simp: isdigit_def split: if_splits)
qed

lemma show_nat_hd: "0 < n \<Longrightarrow> hd (show_nat n) \<noteq> CHR ''0''"
proof (induction n rule: show_nat.induct)
  case (1 n)
  show ?case
  proof (cases "n < 10")
    case True
    have "code (char_of (48 + n)) \<noteq> code CHR ''0''"
      using True "1.prems" by (simp add: code_def)
    then have "char_of (48 + n) \<noteq> CHR ''0''" by (simp only: code_eq_iff not_False_eq_True)
    with True show ?thesis by (subst show_nat.simps) simp
  next
    case False
    with "1.IH" show ?thesis by (subst show_nat.simps) simp
  qed
qed

lemma show_nat_length: "n < 10 ^ k \<Longrightarrow> 0 < k \<Longrightarrow> length (show_nat n) \<le> k"
proof (induction k arbitrary: n)
  case 0
  then show ?case by simp
next
  case (Suc k)
  show ?case
  proof (cases "n < 10")
    case True
    then show ?thesis by (subst show_nat.simps) simp
  next
    case False
    then have "0 < k" using Suc.prems by (cases k) auto
    moreover have "n div 10 < 10 ^ k"
      using Suc.prems(1) by (intro less_mult_imp_div_less) (simp add: mult.commute)
    ultimately show ?thesis using False Suc.IH by (subst show_nat.simps) simp
  qed
qed

text \<open>The value of a run of decimal digits, as the C parsers accumulate it.\<close>

definition dec_val :: "nat \<Rightarrow> string \<Rightarrow> nat" where
  "dec_val v cs = foldl (\<lambda>v c. v * 10 + (code c - 48)) v cs"

lemma dec_val_append: "dec_val v (xs @ ys) = dec_val (dec_val v xs) ys"
  by (simp add: dec_val_def)

lemma dec_val_show_nat [simp]: "dec_val 0 (show_nat n) = n"
proof (induction n rule: show_nat.induct)
  case (1 n)
  then show ?case
    by (subst show_nat.simps) (auto simp: dec_val_append, simp_all add: dec_val_def)
qed

end
