(* ===== verification/Util.thy ===== *)
theory Util
  imports Clib
begin

unbundle bit_operations_syntax

text \<open>
  \<^verbatim>\<open>util.c\<close>: printing and parsing IPv4 addresses.  An address is a 32-bit word in host
  order.  \<open>ip_ston\<close> returns 0 where the code rejects the text, as the C function does; its
  argument is the list of characters before the terminating NUL.
\<close>

section \<open>ip_ntos\<close>

definition octet1 :: "u32 \<Rightarrow> u32" where "octet1 n = drop_bit 24 (n AND 0xff000000)"
definition octet2 :: "u32 \<Rightarrow> u32" where "octet2 n = drop_bit 16 (n AND 0x00ff0000)"
definition octet3 :: "u32 \<Rightarrow> u32" where "octet3 n = drop_bit 8 (n AND 0x0000ff00)"
definition octet4 :: "u32 \<Rightarrow> u32" where "octet4 n = drop_bit 0 (n AND 0x000000ff)"

definition ip_ntos :: "u32 \<Rightarrow> string" where
  "ip_ntos n = show_nat (unat (octet1 n)) @ ''.'' @ show_nat (unat (octet2 n)) @ ''.'' @
               show_nat (unat (octet3 n)) @ ''.'' @ show_nat (unat (octet4 n))"

section \<open>ip_ston\<close>

definition peek :: "string \<Rightarrow> char" where
  "peek cs = (case cs of [] \<Rightarrow> NUL | c # _ \<Rightarrow> c)"

text \<open>The inner loop collects one number up to the next dot.\<close>

fun ip_digits :: "nat \<Rightarrow> u32 \<Rightarrow> string \<Rightarrow> u32 \<times> string" where
  "ip_digits base val [] = (val, [])"
| "ip_digits base val (c # cp) =
     (if isascii c \<and> isdigit c then
        ip_digits base (val * of_nat base + (of_nat (code c) - 48)) cp
      else if base = 16 \<and> isascii c \<and> isxdigit c then
        ip_digits base (push_bit 4 val OR (of_nat (code c + 10) - (if islower c then 97 else 65))) cp
      else (val, c # cp))"

text \<open>The outer loop; \<open>slots\<close> counts the places left before \<^verbatim>\<open>pp\<close> reaches \<^verbatim>\<open>parts + 3\<close>.
  \<^term>\<open>None\<close> is \<^verbatim>\<open>return (0)\<close>.\<close>

fun ip_parts :: "nat \<Rightarrow> u32 list \<Rightarrow> string \<Rightarrow> (u32 list \<times> u32 \<times> string) option" where
  "ip_parts slots parts cp =
     (if \<not> isdigit (peek cp) then None
      else
        let (base, cp1) =
              (if peek cp = CHR ''0'' then
                 (if peek (tl cp) = CHR ''x'' \<or> peek (tl cp) = CHR ''X'' then (16, tl (tl cp))
                  else (8, tl cp))
               else (10, cp));
            (val, cp2) = ip_digits base 0 cp1
        in if peek cp2 = CHR ''.'' then
             (case slots of 0 \<Rightarrow> None | Suc k \<Rightarrow> ip_parts k (parts @ [val]) (tl cp2))
           else Some (parts, val, cp2))"

declare ip_parts.simps [simp del]

definition ip_ston :: "string \<Rightarrow> u32" where
  "ip_ston cp =
     (case ip_parts 3 [] cp of
        None \<Rightarrow> 0
      | Some (parts, val, rest) \<Rightarrow>
          let c = peek rest in
          if c \<noteq> NUL \<and> (\<not> isascii c \<or> \<not> isspace c) then 0
          else (case parts of
              [] \<Rightarrow> val
            | [p0] \<Rightarrow> if val > 0xffffff \<or> p0 > 0xff then 0 else val OR push_bit 24 p0
            | [p0, p1] \<Rightarrow> if val > 0xffff \<or> p0 > 0xff \<or> p1 > 0xff then 0
                else val OR (push_bit 24 p0 OR push_bit 16 p1)
            | [p0, p1, p2] \<Rightarrow> if val > 0xff \<or> p0 > 0xff \<or> p1 > 0xff \<or> p2 > 0xff then 0
                else val OR (push_bit 24 p0 OR push_bit 16 p1 OR push_bit 8 p2)
            | _ \<Rightarrow> val))"

subsection \<open>Octets\<close>

lemma octet_alt:
  "octet1 n = take_bit 8 (drop_bit 24 n)" "octet2 n = take_bit 8 (drop_bit 16 n)"
  "octet3 n = take_bit 8 (drop_bit 8 n)" "octet4 n = take_bit 8 n"
proof -
  have m: "(0xff000000 :: u32) = push_bit 24 (mask 8)" "(0x00ff0000 :: u32) = push_bit 16 (mask 8)"
    "(0x0000ff00 :: u32) = push_bit 8 (mask 8)" "(0x000000ff :: u32) = mask 8"
    by (simp_all add: mask_eq_exp_minus_1)
  show "octet1 n = take_bit 8 (drop_bit 24 n)" "octet2 n = take_bit 8 (drop_bit 16 n)"
    "octet3 n = take_bit 8 (drop_bit 8 n)" "octet4 n = take_bit 8 n"
    unfolding octet1_def octet2_def octet3_def octet4_def m
    by (rule bit_word_eqI, auto simp: bit_simps)+
qed

lemma take8_less: "unat (take_bit 8 (w :: u32)) < 256"
  using take_bit_nat_less_exp [of 8 "unat w"] by (simp add: unsigned_take_bit_eq)

lemma take8_le [simp]: "\<not> take_bit 8 (w :: u32) > 0xff"
  using take8_less [of w] by (simp add: word_less_nat_alt)

lemma octets_join:
  "octet4 n OR (push_bit 24 (octet1 n) OR push_bit 16 (octet2 n) OR push_bit 8 (octet3 n)) = n"
proof (rule bit_word_eqI)
  fix i assume "i < LENGTH(32)"
  then consider "i < 8" | "8 \<le> i \<and> i < 16" | "16 \<le> i \<and> i < 24" | "24 \<le> i \<and> i < 32" by force
  then show "bit (octet4 n OR (push_bit 24 (octet1 n) OR push_bit 16 (octet2 n) OR
      push_bit 8 (octet3 n))) i = bit n i"
    by cases (auto simp: octet_alt bit_simps)
qed

subsection \<open>Parsing what was printed\<close>

lemma ip_digits_decimal:
  "list_all isdigit ds \<Longrightarrow> \<not> isdigit (peek rest) \<Longrightarrow>
   ip_digits 10 (of_nat v) (ds @ rest) = (of_nat (dec_val v ds), rest)"
proof (induction ds arbitrary: v)
  case Nil
  then show ?case by (cases rest) (auto simp: peek_def dec_val_def)
next
  case (Cons d ds)
  then have d: "isdigit d" "isascii d" "48 \<le> code d" by (auto simp: isdigit_def isascii_def)
  have "(of_nat v * of_nat 10 + (of_nat (code d) - 48) :: u32) = of_nat (v * 10 + (code d - 48))"
    using d by (simp add: of_nat_diff)
  then have "ip_digits 10 (of_nat v) ((d # ds) @ rest) =
      ip_digits 10 (of_nat (v * 10 + (code d - 48))) (ds @ rest)"
    using d by (simp only: append_Cons ip_digits.simps) simp
  also have "\<dots> = (of_nat (dec_val (v * 10 + (code d - 48)) ds), rest)"
    using Cons by (intro Cons.IH) simp_all
  finally show ?case by (simp only: dec_val_def foldl_Cons)
qed

lemma show_nat_small:
  "show_nat 0 = ''0''"
  by (simp add: show_nat.simps flip: code_eq_iff) (simp add: code_def)

lemma ip_parts_number:
  assumes rest: "\<not> isdigit (peek rest)" "peek rest \<noteq> CHR ''x''" "peek rest \<noteq> CHR ''X''"
  shows "ip_parts slots parts (show_nat n @ rest) =
    (if peek rest = CHR ''.'' then
       (case slots of 0 \<Rightarrow> None | Suc k \<Rightarrow> ip_parts k (parts @ [of_nat n]) (tl rest))
     else Some (parts, of_nat n, rest))"
proof (cases "n = 0")
  case True
  have "ip_digits 8 0 rest = (0, rest)"
    using rest by (cases rest) (auto simp: peek_def)
  with True rest show ?thesis
    by (cases slots) (simp_all add: ip_parts.simps show_nat_small peek_def [of "_ # _"] isdigit_def [of "CHR ''0''"]
        code_def)
next
  case False
  have digits: "list_all isdigit (show_nat n)" by (auto simp: list_all_iff dest: show_nat_digits)
  obtain d ds where d: "show_nat n = d # ds" by (cases "show_nat n") auto
  have "d \<noteq> CHR ''0''" using show_nat_hd [of n] False d by simp
  moreover have "isdigit d" using digits d by simp
  moreover have "ip_digits 10 0 (show_nat n @ rest) = (of_nat n, rest)"
    using ip_digits_decimal [OF digits rest(1), of 0] by simp
  ultimately show ?thesis
    using d by (simp add: ip_parts.simps [of slots] peek_def [of "_ # _"])
qed

text \<open>Printing an IPv4 address and parsing the text back gives the address again, for every
  32-bit address.\<close>

theorem ip_roundtrip: "ip_ston (ip_ntos n) = n"
proof -
  have dot: "\<not> isdigit CHR ''.''" by (simp add: isdigit_def code_def)
  have nul: "\<not> isdigit NUL" by (simp add: isdigit_def code_def)
  have "ip_parts 3 [] (ip_ntos n) = Some ([octet1 n, octet2 n, octet3 n], octet4 n, [])"
    using ip_parts_number [of "[]"] dot nul
    by (simp add: ip_ntos_def ip_parts_number peek_def numeral_3_eq_3)
  moreover have "\<not> octet1 n > 0xff" "\<not> octet2 n > 0xff" "\<not> octet3 n > 0xff" "\<not> octet4 n > 0xff"
    unfolding octet_alt by (rule take8_le)+
  ultimately show ?thesis
    by (simp add: ip_ston_def peek_def octets_join)
qed

text \<open>The text of an address, with its terminating NUL, always fits the 16 bytes
  (\<^verbatim>\<open>sizeof "aaa.bbb.ccc.ddd"\<close>) that \<^verbatim>\<open>ip_ntos\<close> allocates.\<close>

theorem ip_ntos_fits: "length (ip_ntos n) + 1 \<le> 16"
proof -
  have len: "length (show_nat (unat (take_bit 8 w))) \<le> 3" for w :: u32
    using take8_less [of w] by (intro show_nat_length) simp_all
  show ?thesis
    using len [of "drop_bit 24 n"] len [of "drop_bit 16 n"] len [of "drop_bit 8 n"] len [of n]
    by (simp add: ip_ntos_def octet_alt)
qed

end
