(* ===== verification/Packet.thy ===== *)
theory Packet
  imports Clib
begin

unbundle bit_operations_syntax

text \<open>
  \<^verbatim>\<open>packet.h\<close> and \<^verbatim>\<open>packet.c\<close>: the Ethernet, IPv4 and TCP headers, the packet structure the
  rest of the program passes around, and the header parsers.  A captured frame is the list
  of its bytes (\<^verbatim>\<open>char *\<close> in the source); the parsers take the frame and an offset and are
  \<^term>\<open>None\<close> where the C code would read past the frame.  The host is little endian, as the
  comments of \<^verbatim>\<open>packet.c\<close> say.
\<close>

section \<open>Structures\<close>

record ethhdr =
  ether_dhost :: "u8 list"
  ether_shost :: "u8 list"
  ether_type :: u16

record iphdr =
  ih_ihl :: "4 word"
  ih_version :: "4 word"
  ih_tos :: u8
  ih_tot_len :: u16
  ih_id :: u16
  ih_frag_off :: u16
  ih_ttl :: u8
  ih_protocol :: u8
  ih_check :: u16
  ih_saddr :: u32
  ih_daddr :: u32

record tcphdr =
  th_sport :: u16
  th_dport :: u16
  th_seq :: u32
  th_ack :: u32
  th_x2 :: "4 word"
  th_off :: "4 word"
  th_flags :: u8
  th_win :: u16
  th_sum :: u16
  th_urp :: u16

definition TH_FIN :: u8 where "TH_FIN = 0x01"
definition TH_SYN :: u8 where "TH_SYN = 0x02"
definition TH_RST :: u8 where "TH_RST = 0x04"
definition TH_PUSH :: u8 where "TH_PUSH = 0x08"
definition TH_ACK :: u8 where "TH_ACK = 0x10"
definition TH_URG :: u8 where "TH_URG = 0x20"

definition REQ :: u8 where "REQ = 0x01"
definition RSP :: u8 where "RSP = 0x10"

lemmas flag_defs = TH_FIN_def TH_SYN_def TH_RST_def TH_PUSH_def TH_ACK_def TH_URG_def
lemmas type_defs = REQ_def RSP_def

text \<open>\<^verbatim>\<open>tcp_data\<close> points into \<^verbatim>\<open>tcp_odata\<close> and is kept as an offset; the \<^verbatim>\<open>next\<close> link belongs
  to the queues.\<close>

record packet_t =
  cap_sec :: int
  cap_usec :: int
  raw_len :: u32
  saddr :: u32
  daddr :: u32
  sport :: u16
  dport :: u16
  ip_hl :: u8
  ip_tol :: u16
  ip_pro :: u8
  ip_pid :: u16
  tcp_seq :: u32
  tcp_ack :: u32
  tcp_flags :: u8
  tcp_win :: u16
  tcp_hl :: u8
  tcp_dl :: u16
  ptype :: u8
  tcp_odata :: "string option"
  tcp_data :: "nat option"

definition packet_new :: packet_t where
  "packet_new = \<lparr>cap_sec = 0, cap_usec = 0, raw_len = 0, saddr = 0, daddr = 0, sport = 0,
     dport = 0, ip_hl = 0, ip_tol = 0, ip_pro = 0, ip_pid = 0, tcp_seq = 0, tcp_ack = 0,
     tcp_flags = 0, tcp_win = 0, tcp_hl = 0, tcp_dl = 0, ptype = 0, tcp_odata = None,
     tcp_data = None\<rparr>"

section \<open>Loads and byte order\<close>

definition byte :: "string \<Rightarrow> nat \<Rightarrow> u8" where
  "byte p i = of_nat (code (at p i))"

text \<open>Little-endian loads, as the host performs them.\<close>

definition load16 :: "string \<Rightarrow> nat \<Rightarrow> u16" where
  "load16 p i = ucast (byte p i) OR push_bit 8 (ucast (byte p (i + 1)))"

definition load32 :: "string \<Rightarrow> nat \<Rightarrow> u32" where
  "load32 p i = ucast (load16 p i) OR push_bit 16 (ucast (load16 p (i + 2)))"

definition ntohs :: "u16 \<Rightarrow> u16" where
  "ntohs x = push_bit 8 x OR drop_bit 8 x"

definition ntohl :: "u32 \<Rightarrow> u32" where
  "ntohl x = push_bit 24 x OR push_bit 8 (x AND 0xff00) OR
             (drop_bit 8 x AND 0xff00) OR drop_bit 24 x"

section \<open>The parsers\<close>

definition sizeof_ethhdr :: nat where "sizeof_ethhdr = 14"
definition sizeof_iphdr :: nat where "sizeof_iphdr = 20"
definition sizeof_tcphdr :: nat where "sizeof_tcphdr = 20"

lemmas sizeof_defs = sizeof_ethhdr_def sizeof_iphdr_def sizeof_tcphdr_def

definition packet_parse_ethhdr :: "string \<Rightarrow> nat \<Rightarrow> ethhdr option" where
  "packet_parse_ethhdr p i =
     (if i + sizeof_ethhdr \<le> length p then
        Some \<lparr>ether_dhost = map (\<lambda>k. byte p (i + k)) [0..<6],
              ether_shost = map (\<lambda>k. byte p (i + 6 + k)) [0..<6],
              ether_type = ntohs (load16 p (i + 12))\<rparr>
      else None)"

definition packet_parse_iphdr :: "string \<Rightarrow> nat \<Rightarrow> iphdr option" where
  "packet_parse_iphdr p i =
     (if i + sizeof_iphdr \<le> length p then
        Some \<lparr>ih_ihl = ucast (byte p i AND 0x0f),
              ih_version = ucast (drop_bit 4 (byte p i)),
              ih_tos = byte p (i + 1),
              ih_tot_len = ntohs (load16 p (i + 2)),
              ih_id = ntohs (load16 p (i + 4)),
              ih_frag_off = ntohs (load16 p (i + 6)),
              ih_ttl = byte p (i + 8),
              ih_protocol = byte p (i + 9),
              ih_check = ntohs (load16 p (i + 10)),
              ih_saddr = ntohl (load32 p (i + 12)),
              ih_daddr = ntohl (load32 p (i + 16))\<rparr>
      else None)"

definition packet_parse_tcphdr :: "string \<Rightarrow> nat \<Rightarrow> tcphdr option" where
  "packet_parse_tcphdr p i =
     (if i + sizeof_tcphdr \<le> length p then
        Some \<lparr>th_sport = ntohs (load16 p i),
              th_dport = ntohs (load16 p (i + 2)),
              th_seq = ntohl (load32 p (i + 4)),
              th_ack = ntohl (load32 p (i + 8)),
              th_x2 = ucast (byte p (i + 12) AND 0x0f),
              th_off = ucast (drop_bit 4 (byte p (i + 12))),
              th_flags = byte p (i + 13),
              th_win = ntohs (load16 p (i + 14)),
              th_sum = ntohs (load16 p (i + 16)),
              th_urp = ntohs (load16 p (i + 18))\<rparr>
      else None)"

section \<open>The wire format\<close>

text \<open>The specification the parsers are held to: the big-endian layout of the headers
  (IEEE 802.3, RFC 791 and RFC 793), written down independently of the parsers.\<close>

definition chr :: "u8 \<Rightarrow> char" where
  "chr b = char_of (unat b)"

definition be16 :: "u16 \<Rightarrow> string" where
  "be16 x = [chr (ucast (drop_bit 8 x)), chr (ucast x)]"

definition be32 :: "u32 \<Rightarrow> string" where
  "be32 x = be16 (ucast (drop_bit 16 x)) @ be16 (ucast x)"

definition ethhdr_wire :: "ethhdr \<Rightarrow> string" where
  "ethhdr_wire h = map chr (ether_dhost h) @ map chr (ether_shost h) @ be16 (ether_type h)"

definition iphdr_wire :: "iphdr \<Rightarrow> string" where
  "iphdr_wire h = [chr (push_bit 4 (ucast (ih_version h)) OR ucast (ih_ihl h)), chr (ih_tos h)] @
     be16 (ih_tot_len h) @ be16 (ih_id h) @ be16 (ih_frag_off h) @
     [chr (ih_ttl h), chr (ih_protocol h)] @ be16 (ih_check h) @
     be32 (ih_saddr h) @ be32 (ih_daddr h)"

definition tcphdr_wire :: "tcphdr \<Rightarrow> string" where
  "tcphdr_wire h = be16 (th_sport h) @ be16 (th_dport h) @ be32 (th_seq h) @ be32 (th_ack h) @
     [chr (push_bit 4 (ucast (th_off h)) OR ucast (th_x2 h)), chr (th_flags h)] @
     be16 (th_win h) @ be16 (th_sum h) @ be16 (th_urp h)"

subsection \<open>Byte-level facts\<close>

lemma code_chr [simp]: "code (chr b) = unat b"
  using unsigned_less [of b, where 'a = nat] by (simp add: chr_def)

lemma of_nat_code_chr [simp]: "of_nat (code (chr b)) = b"
  by simp

lemma bit_ff00: "bit (0xff00 :: int) n \<longleftrightarrow> 8 \<le> n \<and> n < 16"
proof -
  have "(0xff00 :: int) = push_bit 8 (mask 8)" by (simp add: mask_eq_exp_minus_1)
  then show ?thesis by (simp only: bit_simps) auto
qed

lemma bit_ff0000: "bit (0xff0000 :: int) n \<longleftrightarrow> 16 \<le> n \<and> n < 24"
proof -
  have "(0xff0000 :: int) = push_bit 16 (mask 8)" by (simp add: mask_eq_exp_minus_1)
  then show ?thesis by (simp only: bit_simps) auto
qed

lemma bit_u8 [simp]: "8 \<le> n \<Longrightarrow> \<not> bit (b :: u8) n"
  using bit_imp_le_length [of b n] by auto

lemma bit_u16 [simp]: "16 \<le> n \<Longrightarrow> \<not> bit (w :: u16) n"
  using bit_imp_le_length [of w n] by auto

lemma ntohs_pair:
  "ntohs (ucast (a :: u8) OR push_bit 8 (ucast (b :: u8))) = push_bit 8 (ucast a) OR ucast b"
  unfolding ntohs_def
  by (rule bit_word_eqI) (auto simp: bit_simps not_less)

lemma be16_join: "push_bit 8 (ucast (ucast (drop_bit 8 x) :: u8)) OR ucast (ucast x :: u8) = (x :: u16)"
  by (rule bit_word_eqI) (auto simp: bit_simps)

lemma ntohs_be16:
  "ntohs (ucast (ucast (drop_bit 8 x) :: u8) OR push_bit 8 (ucast (ucast x :: u8))) = (x :: u16)"
  unfolding ntohs_pair by (rule be16_join)

lemma ntohl_be32:
  "ntohl (ucast (ucast (ucast (drop_bit 8 h) :: u8) OR push_bit 8 (ucast (ucast h :: u8)) :: u16) OR
     push_bit 16 (ucast (ucast (ucast (drop_bit 8 l) :: u8) OR push_bit 8 (ucast (ucast l :: u8)) :: u16)))
   = push_bit 16 (ucast (h :: u16)) OR ucast (l :: u16)"
  (is "ntohl ?w = ?r")
proof (rule bit_word_eqI)
  fix n assume "n < LENGTH(32)"
  then consider "n < 8" | "8 \<le> n \<and> n < 16" | "16 \<le> n \<and> n < 24" | "24 \<le> n \<and> n < 32" by force
  then show "bit (ntohl ?w) n = bit ?r n"
    by cases (auto simp: ntohl_def bit_simps bit_ff00 bit_ff0000)
qed

lemma be32_join: "push_bit 16 (ucast (ucast (drop_bit 16 x) :: u16)) OR ucast (ucast x :: u16) = (x :: u32)"
  by (rule bit_word_eqI) (auto simp: bit_simps)

lemma nibbles:
  "(ucast ((push_bit 4 (ucast (h :: 4 word)) OR ucast (l :: 4 word) :: u8) AND 0x0f) :: 4 word) = l"
  "(ucast (drop_bit 4 (push_bit 4 (ucast (h :: 4 word)) :: u8) OR drop_bit 4 (ucast (l :: 4 word) :: u8)) :: 4 word) = h"
proof -
  have m: "(0x0f :: u8) = mask 4" by (simp add: mask_eq_exp_minus_1)
  show "(ucast ((push_bit 4 (ucast h) OR ucast l :: u8) AND 0x0f) :: 4 word) = l"
    unfolding m by (rule bit_word_eqI) (auto simp: bit_simps)
  show "(ucast (drop_bit 4 (push_bit 4 (ucast h) :: u8) OR drop_bit 4 (ucast l :: u8)) :: 4 word) = h"
    by (rule bit_word_eqI) (auto simp: bit_simps dest: bit_imp_le_length)
qed

text \<open>Reading a big-endian field back with a little-endian load and a byte swap.\<close>

lemma ntohs_load16_be16:
  "code (at p i) = code (chr (ucast (drop_bit 8 x))) \<Longrightarrow>
   code (at p (i + 1)) = code (chr (ucast x)) \<Longrightarrow> ntohs (load16 p i) = x"
  by (simp add: load16_def byte_def ntohs_be16)

lemmas wire_simps = be16_def be32_def byte_def load16_def load32_def
  ntohs_be16 ntohl_be32 be32_join nibbles sizeof_defs

lemma packet_parse_iphdr_wire':
  "packet_parse_iphdr (pre @ iphdr_wire h @ post) (length pre) = Some h"
proof -
  have "length (iphdr_wire h) = 20" by (simp add: iphdr_wire_def be16_def be32_def)
  then show ?thesis
    by (simp add: packet_parse_iphdr_def iphdr_wire_def wire_simps)
qed

text \<open>The IPv4 parser inverts the RFC 791 wire format: wherever a header's 20 bytes lie in
  a frame, parsing at their offset returns exactly the header.\<close>

theorem packet_parse_iphdr_wire:
  "packet_parse_iphdr (pre @ iphdr_wire h @ post) (length pre) = Some h"
  by (rule packet_parse_iphdr_wire')

lemma packet_parse_tcphdr_wire':
  "packet_parse_tcphdr (pre @ tcphdr_wire h @ post) (length pre) = Some h"
proof -
  have "length (tcphdr_wire h) = 20" by (simp add: tcphdr_wire_def be16_def be32_def)
  then show ?thesis
    by (simp add: packet_parse_tcphdr_def tcphdr_wire_def wire_simps)
qed

text \<open>The TCP parser inverts the RFC 793 wire format.\<close>

theorem packet_parse_tcphdr_wire:
  "packet_parse_tcphdr (pre @ tcphdr_wire h @ post) (length pre) = Some h"
  by (rule packet_parse_tcphdr_wire')

text \<open>The Ethernet parser inverts the wire format of a header with 6-byte addresses.\<close>

lemma packet_parse_ethhdr_wire:
  assumes "length (ether_dhost h) = 6" "length (ether_shost h) = 6"
  shows "packet_parse_ethhdr (pre @ ethhdr_wire h @ post) (length pre) = Some h"
proof -
  have six: "\<exists>a b c d e f. xs = [a, b, c, d, e, f]" if "length xs = 6" for xs :: "u8 list"
    using that by (auto simp: numeral_eq_Suc length_Suc_conv)
  obtain a1 a2 a3 a4 a5 a6 b1 b2 b3 b4 b5 b6
    where ab: "ether_dhost h = [a1, a2, a3, a4, a5, a6]" "ether_shost h = [b1, b2, b3, b4, b5, b6]"
    using six assms by meson
  then have "length (ethhdr_wire h) = 14" by (simp add: ethhdr_wire_def be16_def)
  then show ?thesis
    using ab by (simp add: packet_parse_ethhdr_def ethhdr_wire_def wire_simps upt_rec)
qed

end
