(* ===== verification/Tcp_Order.thy ===== *)
theory Tcp_Order
  imports Packet
begin

unbundle bit_operations_syntax

text \<open>
  \<^verbatim>\<open>order.h\<close>, \<^verbatim>\<open>order.c\<close> and \<^verbatim>\<open>tcp.c\<close>: the per-direction lists of sequence records of a flow
  and the insertion that keeps them in TCP order.  A \<^verbatim>\<open>seq_t\<close> list linked through \<^verbatim>\<open>next\<close> is
  a HOL list, and a pointer to one of its elements (\<^verbatim>\<open>last_src\<close>, \<^verbatim>\<open>last_dst\<close>, the loop
  variables) is an index.
\<close>

section \<open>Sequence records and orders\<close>

record seq_t =
  sq_pkt :: "packet_t option"
  sq_seq :: u32
  sq_nxt :: u32
  sq_ack :: bool
  sq_flags :: u8
  sq_sec :: int
  sq_usec :: int
  sq_processed :: bool
  sq_size :: u32

record order_t =
  o_src :: "seq_t list"
  o_dst :: "seq_t list"
  o_last_src :: nat
  o_last_dst :: nat
  o_num :: u32
  o_rst :: bool

definition seq_new :: seq_t where
  "seq_new = \<lparr>sq_pkt = None, sq_seq = 0, sq_nxt = 0, sq_ack = False, sq_flags = 0, sq_sec = 0,
              sq_usec = 0, sq_processed = False, sq_size = 0\<rparr>"

definition order_new :: order_t where
  "order_new = \<lparr>o_src = [], o_dst = [], o_last_src = 0, o_last_dst = 0, o_num = 0, o_rst = False\<rparr>"

definition seq_pkt :: "packet_t \<Rightarrow> seq_t" where
  "seq_pkt p =
     \<lparr>sq_pkt = Some p,
      sq_seq = tcp_seq p,
      sq_nxt = (if tcp_flags p AND TH_SYN = TH_SYN \<or> tcp_flags p AND TH_FIN = TH_FIN
                then tcp_seq p + ucast (tcp_dl p) + 1
                else tcp_seq p + ucast (tcp_dl p)),
      sq_ack = (tcp_flags p AND TH_ACK = TH_ACK),
      sq_flags = tcp_flags p,
      sq_sec = cap_sec p,
      sq_usec = cap_usec p,
      sq_processed = False,
      sq_size = ucast (tcp_dl p)\<rparr>"

section \<open>tcp_order\<close>

text \<open>\<^verbatim>\<open>tcp_cont_seq\<close> from the head of a list: how many steps lead to the end of the run of
  adjacent segments.\<close>

fun cont_steps :: "seq_t list \<Rightarrow> nat" where
  "cont_steps (a # b # l) = (if sq_nxt a = sq_seq b then Suc (cont_steps (b # l)) else 0)"
| "cont_steps _ = 0"

definition tcp_cont_seq :: "seq_t list \<Rightarrow> nat \<Rightarrow> nat" where
  "tcp_cont_seq l i = i + cont_steps (drop i l)"

text \<open>The search for the position: \<open>(pre, cp)\<close> when the loop stops; \<open>cp\<close> is the length of the
  list where the code has NULL.\<close>

fun tcp_search :: "u32 \<Rightarrow> seq_t list \<Rightarrow> nat \<Rightarrow> nat \<Rightarrow> nat \<times> nat" where
  "tcp_search n [] pre cp = (pre, cp)"
| "tcp_search n (s # l) pre cp =
     (if sq_nxt s \<le> n then tcp_search n l cp (Suc cp) else (pre, cp))"

definition insert_after :: "nat \<Rightarrow> 'a \<Rightarrow> 'a list \<Rightarrow> 'a list" where
  "insert_after i x l = take (Suc i) l @ x # drop (Suc i) l"

text \<open>The part common to the two places that link the new record behind \<open>cp\<close>: with a
  follower the record is cut where it overlaps it, and it becomes \<^verbatim>\<open>plist_last\<close> and is
  counted.\<close>

definition cut_overlap :: "u32 \<Rightarrow> seq_t \<Rightarrow> seq_t" where
  "cut_overlap aft_seq s =
     (if sq_nxt s \<le> aft_seq then s
      else s\<lparr>sq_pkt := map_option (\<lambda>p. p\<lparr>tcp_dl := ucast (ucast (tcp_dl p) - (sq_nxt s - aft_seq) :: u32)\<rparr>)
                         (sq_pkt s),
             sq_nxt := aft_seq\<rparr>)"

text \<open>Cutting the front of a record that starts inside the run ending at \<open>bk\<close>.\<close>

definition cut_front :: "u32 \<Rightarrow> seq_t \<Rightarrow> seq_t" where
  "cut_front bk s =
     (let delta = (sq_nxt s - 1) - bk
      in s\<lparr>sq_pkt := map_option (\<lambda>p. p\<lparr>
               tcp_data := map_option (\<lambda>d. d + unat (ucast (tcp_dl p) - delta :: u32)) (tcp_data p),
               tcp_dl := ucast delta\<rparr>) (sq_pkt s),
           sq_seq := bk + 1\<rparr>)"

text \<open>The second half of \<^verbatim>\<open>tcp_order\<close>: with \<open>pre\<close> chosen, the variables \<^verbatim>\<open>fr\<close>, \<^verbatim>\<open>cp\<close>,
  \<^verbatim>\<open>aft\<close>, \<^verbatim>\<open>bk\<close> are set and the new record is dropped, cut or linked.\<close>

definition tcp_place :: "seq_t list \<Rightarrow> nat \<Rightarrow> u32 \<Rightarrow> seq_t \<Rightarrow> nat \<Rightarrow> int \<times> seq_t list \<times> nat \<times> u32" where
  "tcp_place l lst num new pre =
     (let fr = sq_seq (l ! pre);
          cp = tcp_cont_seq l pre;
          has_aft = Suc cp < length l;
          aft = l ! Suc cp;
          bk = sq_nxt (l ! cp) - 1
      in if sq_seq new \<ge> fr \<and> sq_seq new \<le> bk then
           (if sq_nxt new - 1 \<le> bk then (1, l, lst, num)
            else
              let new' = cut_front bk new
              in if has_aft
                 then (0, insert_after cp (cut_overlap (sq_seq aft) new') l, Suc cp, num + 1)
                 else (0, insert_after cp new' l, Suc cp, num))
         else if has_aft
         then (0, insert_after cp (cut_overlap (sq_seq aft) new) l, Suc cp, num + 1)
         else (0, insert_after cp new l, lst, num))"

text \<open>One direction of \<^verbatim>\<open>tcp_order\<close>: the list, the index of the last inserted record, the
  counter and the new record give the return value and the new list, index and counter.\<close>

definition tcp_order_side :: "seq_t list \<Rightarrow> nat \<Rightarrow> u32 \<Rightarrow> seq_t \<Rightarrow> int \<times> seq_t list \<times> nat \<times> u32" where
  "tcp_order_side l lst num new =
     (if l = [] then (0, [new], 0, num + 1)
      else if sq_nxt (l ! lst) = sq_seq new then tcp_place l lst num new lst
      else
        let (pre, cp) = tcp_search (sq_seq new) l 0 0
        in if cp = length l then (0, l @ [new], length l, num + 1)
           else tcp_place l lst num new pre)"

definition tcp_order :: "order_t \<Rightarrow> seq_t \<Rightarrow> bool \<Rightarrow> int \<times> order_t" where
  "tcp_order ord new_seq src =
     (if src then
        let (r, l, i, n) = tcp_order_side (o_src ord) (o_last_src ord) (o_num ord) new_seq
        in (r, ord\<lparr>o_src := l, o_last_src := i, o_num := n\<rparr>)
      else
        let (r, l, i, n) = tcp_order_side (o_dst ord) (o_last_dst ord) (o_num ord) new_seq
        in (r, ord\<lparr>o_dst := l, o_last_dst := i, o_num := n\<rparr>))"

section \<open>tcp_order_check\<close>

fun side_check :: "seq_t list \<Rightarrow> bool" where
  "side_check (a # b # l) = (sq_nxt a = sq_seq b \<and> side_check (b # l))"
| "side_check _ = True"

definition tcp_order_check :: "order_t option \<Rightarrow> bool" where
  "tcp_order_check order =
     (case order of None \<Rightarrow> False | Some ord \<Rightarrow> side_check (o_src ord) \<and> side_check (o_dst ord))"

section \<open>Well-ordered lists\<close>

text \<open>Records that are not empty and do not wrap, each ending at or before the start of the
  next.\<close>

fun seg_wf :: "seq_t list \<Rightarrow> bool" where
  "seg_wf [] = True"
| "seg_wf [a] = (sq_seq a < sq_nxt a)"
| "seg_wf (a # b # l) = (sq_seq a < sq_nxt a \<and> sq_nxt a \<le> sq_seq b \<and> seg_wf (b # l))"

subsection \<open>Helpers\<close>

lemma le_pred_iff: "(0 :: u32) < n \<Longrightarrow> w \<le> n - 1 \<longleftrightarrow> w < n"
  by (simp add: word_le_nat_alt word_less_nat_alt unat_minus_one word_neq_0_conv) linarith

lemma pred_le_pred_iff: "(0 :: u32) < n \<Longrightarrow> 0 < m \<Longrightarrow> m - 1 \<le> n - 1 \<longleftrightarrow> m \<le> n"
  by (simp add: word_le_nat_alt word_less_nat_alt unat_minus_one word_neq_0_conv) linarith

lemma seg_wf_append:
  "seg_wf (xs @ ys) \<longleftrightarrow> seg_wf xs \<and> seg_wf ys \<and>
     (xs \<noteq> [] \<longrightarrow> ys \<noteq> [] \<longrightarrow> sq_nxt (last xs) \<le> sq_seq (hd ys))"
proof (induction xs rule: seg_wf.induct)
  case (2 a)
  then show ?case by (cases ys) auto
qed auto

lemma seg_wf_nth: "seg_wf l \<Longrightarrow> i < length l \<Longrightarrow> sq_seq (l ! i) < sq_nxt (l ! i)"
proof (induction l arbitrary: i rule: seg_wf.induct)
  case (3 a b l)
  then show ?case by (cases i) auto
qed auto

lemma seg_wf_next:
  "seg_wf l \<Longrightarrow> Suc i < length l \<Longrightarrow> sq_nxt (l ! i) \<le> sq_seq (l ! Suc i)"
proof (induction l arbitrary: i rule: seg_wf.induct)
  case (3 a b l)
  then show ?case by (cases i) auto
qed auto

lemma seg_wf_mono:
  assumes "seg_wf l" "i < j" "j < length l"
  shows "sq_nxt (l ! i) \<le> sq_seq (l ! j)"
  using assms(2,3)
proof (induction j)
  case 0
  then show ?case by simp
next
  case (Suc j)
  show ?case
  proof (cases "i = j")
    case True
    with Suc seg_wf_next [OF assms(1)] show ?thesis by simp
  next
    case False
    with Suc have "sq_nxt (l ! i) \<le> sq_seq (l ! j)" by simp
    also have "\<dots> \<le> sq_nxt (l ! j)" using seg_wf_nth [OF assms(1)] Suc.prems by (simp add: less_imp_le)
    also have "\<dots> \<le> sq_seq (l ! Suc j)" using seg_wf_next [OF assms(1)] Suc.prems by simp
    finally show ?thesis .
  qed
qed

lemma tcp_search_takeWhile:
  "tcp_search n l pre cp =
     (let k = length (takeWhile (\<lambda>s. sq_nxt s \<le> n) l) in (if k = 0 then pre else cp + k - 1, cp + k))"
  by (induction n l pre cp rule: tcp_search.induct) (auto simp: Let_def)

lemma seg_wf_insert:
  assumes "seg_wf l" "i < length l" "sq_seq x < sq_nxt x" "sq_nxt (l ! i) \<le> sq_seq x"
    "Suc i < length l \<Longrightarrow> sq_nxt x \<le> sq_seq (l ! Suc i)"
  shows "seg_wf (insert_after i x l)"
proof -
  have "seg_wf (take (Suc i) l)" "seg_wf (drop (Suc i) l)"
    using assms(1) seg_wf_append [of "take (Suc i) l" "drop (Suc i) l"] by simp_all
  moreover have "last (take (Suc i) l) = l ! i" using assms(2) by (simp add: take_Suc_conv_app_nth)
  moreover have "hd (drop (Suc i) l) = l ! Suc i" if "Suc i < length l" using that by (simp add: hd_drop_conv_nth)
  ultimately show ?thesis
    using assms unfolding insert_after_def seg_wf_append
    by (cases "drop (Suc i) l") (auto simp: hd_drop_conv_nth, metis list.sel(1) drop_eq_Nil not_less list.distinct(1))
qed

lemma cont_steps_less: "l \<noteq> [] \<Longrightarrow> cont_steps l < length l"
  by (induction l rule: cont_steps.induct) auto

lemma tcp_cont_seq_bounds: "i < length l \<Longrightarrow> i \<le> tcp_cont_seq l i \<and> tcp_cont_seq l i < length l"
  using cont_steps_less [of "drop i l"] by (auto simp: tcp_cont_seq_def)

lemma cont_steps_stop:
  "Suc (cont_steps l) < length l \<Longrightarrow> sq_nxt (l ! cont_steps l) \<noteq> sq_seq (l ! Suc (cont_steps l))"
  by (induction l rule: cont_steps.induct) auto

lemma cont_steps_pos: "0 < cont_steps l \<longleftrightarrow> 1 < length l \<and> sq_nxt (l ! 0) = sq_seq (l ! 1)"
  by (cases l rule: cont_steps.cases) auto

lemma tcp_cont_seq_stop:
  "i < length l \<Longrightarrow> Suc (tcp_cont_seq l i) < length l \<Longrightarrow>
   sq_nxt (l ! tcp_cont_seq l i) \<noteq> sq_seq (l ! Suc (tcp_cont_seq l i))"
  using cont_steps_stop [of "drop i l"] by (simp add: tcp_cont_seq_def)

lemma tcp_cont_seq_stay:
  assumes "i < length l" "Suc i < length l \<Longrightarrow> sq_nxt (l ! i) \<noteq> sq_seq (l ! Suc i)"
  shows "tcp_cont_seq l i = i"
  using assms cont_steps_pos [of "drop i l"] by (cases "Suc i < length l") (auto simp: tcp_cont_seq_def)

lemma side_check_nth: "side_check l \<longleftrightarrow> (\<forall>i. Suc i < length l \<longrightarrow> sq_nxt (l ! i) = sq_seq (l ! Suc i))"
proof (induction l rule: side_check.induct)
  case (1 a b l)
  let ?P = "\<lambda>xs i. Suc i < length xs \<longrightarrow> sq_nxt (xs ! i) = sq_seq (xs ! Suc i)"
  have "(\<forall>i. ?P (a # b # l) i) \<longleftrightarrow> ?P (a # b # l) 0 \<and> (\<forall>i. ?P (a # b # l) (Suc i))"
    by (metis not0_implies_Suc)
  with 1 show ?case by simp
qed auto

lemma tcp_cont_seq_end:
  assumes "side_check l" "i < length l"
  shows "tcp_cont_seq l i = length l - 1"
proof (rule ccontr)
  assume "tcp_cont_seq l i \<noteq> length l - 1"
  then have "Suc (tcp_cont_seq l i) < length l" using tcp_cont_seq_bounds [OF assms(2)] by auto
  then show False using tcp_cont_seq_stop [OF assms(2)] assms(1) by (simp add: side_check_nth)
qed

lemma insert_after_end [simp]: "insert_after (length l - Suc 0) x l = l @ [x]"
  by (cases l) (simp_all add: insert_after_def)

lemma search_result:
  assumes "tcp_search n l 0 0 = (pre, pos)" "pos < length l"
  shows "\<not> sq_nxt (l ! pos) \<le> n" "\<forall>j < pos. sq_nxt (l ! j) \<le> n"
    "pre = pos - 1"
proof -
  let ?k = "length (takeWhile (\<lambda>s. sq_nxt s \<le> n) l)"
  have k: "pos = ?k" "pre = pos - 1" using assms(1) by (auto simp: tcp_search_takeWhile Let_def split: if_splits)
  then show "\<not> sq_nxt (l ! pos) \<le> n" using assms(2) nth_length_takeWhile by blast
  show "\<forall>j < pos. sq_nxt (l ! j) \<le> n"
    using k(1) by (metis nth_mem set_takeWhileD takeWhile_nth)
  show "pre = pos - 1" by (rule k(2))
qed

lemma search_end:
  assumes "tcp_search n l 0 0 = (pre, length l)" "i < length l"
  shows "sq_nxt (l ! i) \<le> n"
proof -
  have "length (takeWhile (\<lambda>s. sq_nxt s \<le> n) l) = length l"
    using assms(1) by (auto simp: tcp_search_takeWhile Let_def split: if_splits)
  then have "takeWhile (\<lambda>s. sq_nxt s \<le> n) l = l" by (metis takeWhile_eq_take take_all order_refl)
  then show ?thesis using assms(2) by (metis nth_mem set_takeWhileD)
qed

lemma search_le: "tcp_search n l 0 0 = (pre, pos) \<Longrightarrow> pos \<le> length l"
  by (auto simp: tcp_search_takeWhile Let_def length_takeWhile_le split: if_splits)

section \<open>Segments that start in a hole\<close>

lemma cut_overlap_simps [simp]:
  "sq_seq (cut_overlap a s) = sq_seq s"
  "sq_nxt (cut_overlap a s) = (if sq_nxt s \<le> a then sq_nxt s else a)"
  by (simp_all add: cut_overlap_def)

text \<open>In a well-ordered list, a record that starts after the head and inside no stored record
  has a predecessor \<open>i\<close> behind which \<^verbatim>\<open>tcp_order\<close> links it.\<close>

lemma tcp_order_side_hole:
  assumes wf: "seg_wf l" "l \<noteq> []" "lst < length l"
    and new: "sq_seq (hd l) \<le> sq_seq new" "sq_seq new < sq_nxt new"
    and hole: "\<forall>s \<in> set l. \<not> (sq_seq s \<le> sq_seq new \<and> sq_seq new < sq_nxt s)"
  shows "\<exists>i num' lst'. i < length l \<and> lst' \<le> length l \<and> sq_nxt (l ! i) \<le> sq_seq new \<and>
     (Suc i < length l \<longrightarrow> sq_seq new < sq_seq (l ! Suc i)) \<and>
     tcp_order_side l lst num new =
       (0, insert_after i (if Suc i < length l then cut_overlap (sq_seq (l ! Suc i)) new else new) l,
        lst', num')"
proof -
  have not_in: "sq_seq new < sq_seq (l ! j) \<or> sq_nxt (l ! j) \<le> sq_seq new" if "j < length l" for j
    using hole that by (meson not_le_imp_less nth_mem)
  have link: "\<exists>num' lst'. lst' \<le> length l \<and> tcp_place l lst num new i =
      (0, insert_after i (if Suc i < length l then cut_overlap (sq_seq (l ! Suc i)) new else new) l, lst', num')"
    if i: "i < length l" "sq_nxt (l ! i) \<le> sq_seq new"
      "Suc i < length l \<Longrightarrow> sq_seq new < sq_seq (l ! Suc i)" for i
  proof -
    have cp: "tcp_cont_seq l i = i" using i by (intro tcp_cont_seq_stay) auto
    have "0 < sq_nxt (l ! i)" using seg_wf_nth [OF wf(1) i(1)] by (metis word_gt_0 word_not_simps(1))
    then have "\<not> sq_seq new \<le> sq_nxt (l ! i) - 1" using i(2) by (simp add: le_pred_iff)
    with cp i(1) wf(3) show ?thesis by (auto simp: tcp_place_def Let_def)
  qed
  show ?thesis
  proof (cases "sq_nxt (l ! lst) = sq_seq new")
    case True
    have "sq_seq new < sq_seq (l ! Suc lst)" if "Suc lst < length l"
      using not_in [OF that] seg_wf_next [OF wf(1) that] seg_wf_nth [OF wf(1) that] True by auto
    with True link [of lst] wf show ?thesis
      unfolding tcp_order_side_def by (intro exI [of _ lst]) auto
  next
    case False
    obtain pre pos where search: "tcp_search (sq_seq new) l 0 0 = (pre, pos)" by fastforce
    show ?thesis
    proof (cases "pos = length l")
      case True
      let ?i = "length l - 1"
      have "sq_nxt (l ! ?i) \<le> sq_seq new"
        using search_end [of _ l pre] search True wf(2) by simp
      with True False search wf show ?thesis
        by (intro exI [of _ ?i]) (simp add: tcp_order_side_def)
    next
      case neq: False
      then have pos: "pos < length l" using search_le [OF search] by simp
      note res = search_result [OF search pos]
      have lt: "sq_seq new < sq_seq (l ! pos)" using not_in [OF pos] res(1) by auto
      moreover have "pos \<noteq> 0" using lt new(1) wf(2) by (metis hd_conv_nth leD)
      ultimately have "pre < length l" "Suc pre = pos" "sq_nxt (l ! pre) \<le> sq_seq new"
        using res pos by auto
      with lt link [of pre] False neq search wf show ?thesis
        unfolding tcp_order_side_def by (intro exI [of _ pre]) auto
    qed
  qed
qed


section \<open>Streams without gaps\<close>

definition in_stream :: "seq_t list \<Rightarrow> bool" where
  "in_stream l \<longleftrightarrow> side_check l \<and> (\<forall>s \<in> set l. sq_seq s < sq_nxt s)"

lemma in_stream_wf: "in_stream l \<Longrightarrow> seg_wf l"
  unfolding in_stream_def by (induction l rule: seg_wf.induct) auto

lemma in_stream_append1: "in_stream (xs @ [x]) \<longleftrightarrow>
   in_stream xs \<and> sq_seq x < sq_nxt x \<and> (xs \<noteq> [] \<longrightarrow> sq_nxt (last xs) = sq_seq x)"
proof (induction xs rule: side_check.induct)
  case (1 a b l)
  then show ?case by (auto simp: in_stream_def)
qed (auto simp: in_stream_def)

definition feed_src :: "order_t \<Rightarrow> seq_t list \<Rightarrow> order_t" where
  "feed_src ord new = foldl (\<lambda>ord s. snd (tcp_order ord s True)) ord new"

lemma tcp_place_append:
  assumes "in_stream l" "l \<noteq> []" "sq_nxt (last l) = sq_seq new"
  shows "tcp_place l lst num new (length l - Suc 0) = (0, l @ [new], lst, num)"
proof -
  let ?i = "length l - Suc 0"
  have i: "?i < length l" "l ! ?i = last l" using assms(2) by (simp_all add: last_conv_nth)
  have "sq_seq (last l) < sq_nxt (last l)" using assms(1,2) by (simp add: in_stream_def)
  then have "\<not> sq_seq new \<le> sq_nxt (last l) - 1"
    using le_pred_iff [of "sq_nxt (last l)" "sq_seq new"] assms(3)
    by (metis less_irrefl word_gt_0 word_not_simps(1))
  moreover have "tcp_cont_seq l ?i = ?i"
    using assms(1) i tcp_cont_seq_end by (simp add: in_stream_def)
  ultimately show ?thesis using i by (simp add: tcp_place_def Let_def)
qed

lemma feed_src_stream:
  "in_stream xs \<Longrightarrow> xs \<noteq> [] \<Longrightarrow>
   o_src (feed_src order_new xs) = xs \<and> o_dst (feed_src order_new xs) = [] \<and>
   o_last_src (feed_src order_new xs) = 2 * ((length xs - 1) div 2) \<and>
   o_num (feed_src order_new xs) = of_nat ((length xs + 1) div 2)"
proof (induction xs rule: rev_induct)
  case Nil
  then show ?case by simp
next
  case (snoc x xs)
  let ?o = "feed_src order_new xs"
  have feed: "feed_src order_new (xs @ [x]) = snd (tcp_order ?o x True)"
    by (simp add: feed_src_def)
  show ?case
  proof (cases "xs = []")
    case True
    then show ?thesis
      by (simp add: feed_src_def tcp_order_def tcp_order_side_def order_new_def)
  next
    case False
    let ?n = "length xs"
    have n: "0 < ?n" using False by simp
    have st: "in_stream xs" "sq_nxt (last xs) = sq_seq x"
      using snoc.prems False by (auto simp: in_stream_append1)
    then have IH: "o_src ?o = xs" "o_dst ?o = []" "o_last_src ?o = 2 * ((?n - 1) div 2)"
      "o_num ?o = of_nat ((?n + 1) div 2)"
      using snoc.IH False by auto
    show ?thesis
    proof (cases "odd ?n")
      case True
      then have "2 * ((?n - 1) div 2) = ?n - Suc 0" "(?n + 2) div 2 = (?n + 1) div 2"
        "2 * (?n div 2) = ?n - Suc 0" by (auto elim!: oddE)
      then show ?thesis
        using IH st False tcp_place_append [OF st(1) False st(2)]
        by (simp add: feed tcp_order_def tcp_order_side_def last_conv_nth)
    next
      case False
      then obtain b where b: "?n = 2 * b" by (auto elim: evenE)
      with n obtain c where "b = Suc c" by (cases b) auto
      with b have ev: "2 * ((?n - 1) div 2) = ?n - 2" "2 \<le> ?n" "2 * (?n div 2) = ?n"
        "(?n + 2) div 2 = (?n + 1) div 2 + 1" by simp_all
      have wf: "seg_wf (xs @ [x])" using snoc.prems(1) by (rule in_stream_wf)
      have le: "sq_nxt (xs ! j) \<le> sq_seq x" if "j < ?n" for j
        using seg_wf_mono [OF wf that] that by (simp add: nth_append)
      have "sq_nxt (xs ! (?n - 2)) = sq_seq (xs ! (?n - 1))"
        using st(1) b \<open>b = Suc c\<close> by (simp add: in_stream_def side_check_nth)
      also have "\<dots> < sq_nxt (xs ! (?n - 1))"
        using st(1) ev(2) by (simp add: in_stream_def)
      also have "\<dots> = sq_seq x" using st(2) \<open>xs \<noteq> []\<close> by (simp add: last_conv_nth)
      finally have "sq_nxt (xs ! (?n - 2)) \<noteq> sq_seq x" by simp
      moreover have "takeWhile (\<lambda>s. sq_nxt s \<le> sq_seq x) xs = xs"
        using le by (auto simp: takeWhile_eq_all_conv in_set_conv_nth)
      then have "tcp_search (sq_seq x) xs 0 0 = (?n - 1, ?n)"
        using n by (simp add: tcp_search_takeWhile Let_def del: takeWhile_eq_all_conv)
      ultimately show ?thesis
        using IH ev \<open>xs \<noteq> []\<close>
        by (simp add: feed tcp_order_def tcp_order_side_def)
    qed
  qed
qed

text \<open>In-order delivery: feeding the records of a gap-free stream in order leaves exactly
  these records in the list, in this order, and \<^verbatim>\<open>tcp_order_check\<close> accepts it.  The counter
  \<^verbatim>\<open>num\<close>, documented as the number of packets in the queue, counts only every second one.\<close>

theorem tcp_order_in_order:
  "in_stream xs \<Longrightarrow> xs \<noteq> [] \<Longrightarrow>
   o_src (feed_src order_new xs) = xs \<and> tcp_order_check (Some (feed_src order_new xs)) \<and>
   o_num (feed_src order_new xs) = of_nat ((length xs + 1) div 2)"
  using feed_src_stream [of xs] by (simp add: tcp_order_check_def in_stream_def)


section \<open>Records inside a detached segment\<close>

definition plain_seq :: "u32 \<Rightarrow> u32 \<Rightarrow> seq_t" where
  "plain_seq s n = seq_pkt (packet_new\<lparr>tcp_seq := s, tcp_dl := ucast (n - s)\<rparr>)"

text \<open>A record that starts inside a stored segment lying behind a gap is neither dropped
  nor cut correctly: it is linked in front of that segment with its end before its start and
  a payload length that has wrapped around below zero.  A record that starts before the
  first stored one is linked behind it.\<close>

theorem tcp_order_detached:
  "map (\<lambda>s. (sq_seq s, sq_nxt s, map_option tcp_dl (sq_pkt s)))
       (o_src (feed_src order_new [plain_seq 0 10, plain_seq 20 30, plain_seq 22 28])) =
     [(0, 10, Some 10), (22, 20, Some 65534), (20, 30, Some 10)] \<and>
   map (\<lambda>s. (sq_seq s, sq_nxt s)) (o_src (feed_src order_new [plain_seq 20 30, plain_seq 0 10])) =
     [(20, 30), (0, 10)]"
  by (simp add: feed_src_def tcp_order_def tcp_order_side_def tcp_place_def tcp_cont_seq_def
      insert_after_def cut_overlap_def plain_seq_def seq_pkt_def packet_new_def order_new_def Let_def
      flag_defs)

section \<open>Instances\<close>

definition two_runs :: order_t where
  "two_runs = order_new\<lparr>o_src := [plain_seq 0 10, plain_seq 20 30], o_last_src := 1\<rparr>"

lemma plain_seq_simps [simp]:
  "sq_seq (plain_seq s n) = s"
  "sq_nxt (plain_seq s n) = s + ucast (ucast (n - s) :: u16)"
  by (simp_all add: plain_seq_def seq_pkt_def packet_new_def flag_defs)


theorem tcp_order_in_order_witness:
  "o_src (feed_src order_new [plain_seq 5 10, plain_seq 10 30]) = [plain_seq 5 10, plain_seq 10 30] \<and>
   tcp_order_check (Some (feed_src order_new [plain_seq 5 10, plain_seq 10 30])) \<and>
   o_num (feed_src order_new [plain_seq 5 10, plain_seq 10 30]) = 1"
  using tcp_order_in_order [of "[plain_seq 5 10, plain_seq 10 30]"] by (simp add: in_stream_def)


end
