(* ===== verification/Queues.thy ===== *)
theory Queues
  imports Prelude
begin

text \<open>
  The three FIFO queues of the sniffer: the generic \<^verbatim>\<open>Queue\<close> of \<^verbatim>\<open>queue.cpp\<close>, whose cells
  (\<^verbatim>\<open>Qnode\<close>) are allocated by \<^verbatim>\<open>enq\<close>, and the intrusive \<^verbatim>\<open>FlowQueue\<close> and \<^verbatim>\<open>PacketQueue\<close>, which
  thread the queue through the \<^verbatim>\<open>next\<close> field of the queued objects.  Every operation runs
  under the queue's mutex and is one atomic step.  An operation returns \<^term>\<open>None\<close> where the
  C++ would dereference NULL or a cell that is not allocated; the interface \<open>fifo\<close> states
  that this never happens and that the queue behaves as a list, and each of the three
  classes is shown to provide it.
\<close>

section \<open>Queue (queue.hpp, queue.cpp)\<close>

record 'a Qnode =
  elem :: 'a
  qnext :: ptr

record 'a Queue =
  qfirst :: ptr
  qlast :: ptr
  qlen :: int
  qnodes :: "addr \<rightharpoonup> 'a Qnode"   \<comment> \<open>the heap cells holding Qnode objects\<close>
  qbrk :: addr                     \<comment> \<open>the allocator's next fresh cell\<close>

definition Qnode_new :: "'a \<Rightarrow> 'a Qnode" where
  "Qnode_new e = \<lparr>elem = e, qnext = None\<rparr>"

definition Queue_new :: "'a Queue" where
  "Queue_new = \<lparr>qfirst = None, qlast = None, qlen = 0, qnodes = Map.empty, qbrk = 0\<rparr>"

definition Queue_enq :: "'a \<Rightarrow> 'a Queue \<Rightarrow> 'a Queue option" where
  "Queue_enq e q0 =
     (let node = qbrk q0;
          q = q0\<lparr>qnodes := (qnodes q0)(node \<mapsto> Qnode_new e), qbrk := Suc node\<rparr>
      in if qlen q = 0
         then Some (q\<lparr>qfirst := Some node, qlast := Some node, qlen := qlen q + 1\<rparr>)
         else do {
           l \<leftarrow> qlast q;
           ln \<leftarrow> qnodes q l;
           Some (q\<lparr>qnodes := (qnodes q)(l \<mapsto> ln\<lparr>qnext := Some node\<rparr>),
                   qlast := Some node, qlen := qlen q + 1\<rparr>)
         })"

text \<open>\<^verbatim>\<open>deq\<close> returns NULL on an empty queue; the dequeued cell is not deleted by the code.\<close>

definition Queue_deq :: "'a Queue \<Rightarrow> ('a option \<times> 'a Queue) option" where
  "Queue_deq q0 =
     (if qlen q0 = 0 then Some (None, q0)
      else let q = (if qlen q0 = 1 then q0\<lparr>qlast := None\<rparr> else q0)
           in case qfirst q of
                None \<Rightarrow> Some (None, q)
              | Some node \<Rightarrow> do {
                  n \<leftarrow> qnodes q node;
                  Some (Some (elem n), q\<lparr>qfirst := qnext n, qlen := qlen q - 1\<rparr>)
                })"

text \<open>\<^verbatim>\<open>clear\<close>: the loop runs while \<^verbatim>\<open>qlen > 0\<close> and decrements it each time, so its iterations
  are counted by \<^term>\<open>nat (qlen q)\<close>.\<close>

fun Queue_clear_loop :: "nat \<Rightarrow> 'a Queue \<Rightarrow> 'a Queue option" where
  "Queue_clear_loop 0 q = Some q"
| "Queue_clear_loop (Suc k) q = do {
     node \<leftarrow> qfirst q;
     n \<leftarrow> qnodes q node;
     Queue_clear_loop k (q\<lparr>qfirst := qnext n, qnodes := (qnodes q)(node := None),
                           qlen := qlen q - 1\<rparr>)
   }"

definition Queue_clear :: "'a Queue \<Rightarrow> 'a Queue option" where
  "Queue_clear q = map_option (\<lambda>q. q\<lparr>qfirst := None, qlast := None, qlen := 0\<rparr>)
                     (Queue_clear_loop (nat (qlen q)) q)"

definition Queue_len :: "'a Queue \<Rightarrow> int" where
  "Queue_len q = qlen q"

subsection \<open>Representation\<close>

text \<open>The cells \<open>as\<close> reachable from \<^verbatim>\<open>first\<close> hold the queued elements.\<close>

definition Queue_next :: "('a, 'b) Queue_scheme \<Rightarrow> addr \<Rightarrow> ptr" where
  "Queue_next q a = Option.bind (qnodes q a) qnext"

definition Queue_cells :: "'a Queue \<Rightarrow> addr list \<Rightarrow> bool" where
  "Queue_cells q as \<longleftrightarrow>
     lpath (Queue_next q) (qfirst q) as None \<and> distinct as \<and>
     (\<forall>a \<in> set as. qnodes q a \<noteq> None \<and> a < qbrk q) \<and>
     qlen q = int (length as) \<and> (as \<noteq> [] \<longrightarrow> qlast q = Some (last as))"

definition Queue_rep :: "'a Queue \<Rightarrow> 'a list \<Rightarrow> bool" where
  "Queue_rep q xs \<longleftrightarrow>
     (\<exists>as. Queue_cells q as \<and> xs = map (\<lambda>a. elem (the (qnodes q a))) as)"

lemma Queue_rep_new: "Queue_rep Queue_new []"
  by (simp add: Queue_rep_def Queue_cells_def Queue_new_def)

lemma Queue_rep_len: "Queue_rep q xs \<Longrightarrow> Queue_len q = int (length xs)"
  by (auto simp: Queue_rep_def Queue_cells_def Queue_len_def)

lemma Queue_enq_rep:
  assumes "Queue_rep q xs"
  shows "\<exists>q'. Queue_enq e q = Some q' \<and> Queue_rep q' (xs @ [e])"
proof -
  from assms obtain as where cells: "Queue_cells q as"
    and xs: "xs = map (\<lambda>a. elem (the (qnodes q a))) as"
    by (auto simp: Queue_rep_def)
  let ?n = "qbrk q"
  have fresh: "?n \<notin> set as" using cells by (auto simp: Queue_cells_def)
  show ?thesis
  proof (cases "as = []")
    case True
    with cells xs show ?thesis
      by (auto simp: Queue_enq_def Let_def Queue_cells_def Queue_rep_def Queue_next_def
          Qnode_new_def intro!: exI [of _ "[?n]"])
  next
    case False
    let ?l = "last as"
    have "?l \<in> set as" using False by simp
    with False cells obtain ln where ln: "qnodes q ?l = Some ln" "qlast q = Some ?l"
      unfolding Queue_cells_def by blast
    have ne: "?l \<noteq> ?n" using \<open>?l \<in> set as\<close> fresh by metis
    let ?q = "q\<lparr>qnodes := (qnodes q)(?n \<mapsto> Qnode_new e, ?l \<mapsto> ln\<lparr>qnext := Some ?n\<rparr>),
                qbrk := Suc ?n, qlast := Some ?n, qlen := qlen q + 1\<rparr>"
    have enq: "Queue_enq e q = Some ?q"
      using False cells ln ne by (auto simp: Queue_enq_def Let_def Queue_cells_def)
    have nx: "Queue_next ?q = (Queue_next q)(?l := Some ?n, ?n := None)"
      using ne by (auto simp: Queue_next_def fun_eq_iff Qnode_new_def)
    have "lpath (Queue_next ?q) (qfirst q) (as @ [?n]) None"
      unfolding nx using cells False fresh
      by (intro lpath_snoc_upd) (auto simp: Queue_cells_def)
    then have "Queue_cells ?q (as @ [?n])"
      using cells fresh ln by (auto simp: Queue_cells_def less_Suc_eq)
    moreover have "xs @ [e] = map (\<lambda>a. elem (the (qnodes ?q a))) (as @ [?n])"
      using xs ln fresh ne by (auto simp: Qnode_new_def)
    ultimately have "Queue_rep ?q (xs @ [e])" unfolding Queue_rep_def by blast
    with enq show ?thesis by blast
  qed
qed

lemma Queue_deq_empty:
  assumes "Queue_rep q []"
  shows "Queue_deq q = Some (None, q)"
  using assms by (auto simp: Queue_rep_def Queue_cells_def Queue_deq_def)

lemma Queue_deq_rep:
  assumes "Queue_rep q (x # xs)"
  shows "\<exists>q'. Queue_deq q = Some (Some x, q') \<and> Queue_rep q' xs"
proof -
  from assms obtain a as where cells: "Queue_cells q (a # as)"
    and x: "x = elem (the (qnodes q a))" and xs: "xs = map (\<lambda>a. elem (the (qnodes q a))) as"
    by (auto simp: Queue_rep_def)
  from cells obtain n where n: "qnodes q a = Some n" "qfirst q = Some a"
    by (auto simp: Queue_cells_def)
  let ?q0 = "if qlen q = 1 then q\<lparr>qlast := None\<rparr> else q"
  let ?q = "?q0\<lparr>qfirst := qnext n, qlen := qlen q - 1\<rparr>"
  have deq: "Queue_deq q = Some (Some x, ?q)"
    using cells n x by (auto simp: Queue_deq_def Let_def Queue_cells_def)
  have "Queue_next ?q = Queue_next q" by (auto simp: Queue_next_def)
  moreover have "Queue_next q a = qnext n" using n by (simp add: Queue_next_def)
  ultimately have "Queue_cells ?q as"
    using cells by (cases as) (auto simp: Queue_cells_def split: if_splits)
  then have "Queue_rep ?q xs" using xs by (auto simp: Queue_rep_def intro!: exI [of _ as])
  with deq show ?thesis by blast
qed

lemma Queue_clear_loop_ok:
  assumes "Queue_cells q as"
  shows "\<exists>q'. Queue_clear_loop (length as) q = Some q' \<and>
           (\<forall>a. qnodes q' a = (if a \<in> set as then None else qnodes q a))"
  using assms
proof (induction as arbitrary: q)
  case Nil
  then show ?case by simp
next
  case (Cons a as)
  from Cons.prems obtain n where n: "qnodes q a = Some n" "qfirst q = Some a"
    by (auto simp: Queue_cells_def)
  let ?q = "q\<lparr>qfirst := qnext n, qnodes := (qnodes q)(a := None), qlen := qlen q - 1\<rparr>"
  have "Queue_next ?q = (Queue_next q)(a := None)"
    by (auto simp: Queue_next_def fun_eq_iff)
  moreover have "Queue_next q a = qnext n" using n by (simp add: Queue_next_def)
  ultimately have "Queue_cells ?q as"
    using Cons.prems by (cases as) (auto simp: Queue_cells_def)
  from Cons.IH [OF this] n show ?case by auto
qed

lemma Queue_clear_rep:
  assumes "Queue_cells q as"
  shows "\<exists>q'. Queue_clear q = Some q' \<and> Queue_rep q' [] \<and> (\<forall>a \<in> set as. qnodes q' a = None)"
proof -
  have "nat (qlen q) = length as" using assms by (simp add: Queue_cells_def)
  with Queue_clear_loop_ok [OF assms] show ?thesis
    by (auto simp: Queue_clear_def Queue_rep_def Queue_cells_def)
qed

section \<open>FlowQueue (flowQueue.hpp, flowQueue.cpp)\<close>

text \<open>The queue is threaded through \<^verbatim>\<open>Flow::next\<close>: \<open>fq_next\<close> maps the address of every live
  Flow object to the pointer stored in its \<^verbatim>\<open>next\<close> field.  An element is the address of a
  Flow.\<close>

record FlowQueue =
  fq_first :: ptr
  fq_last :: ptr
  fq_len :: int
  fq_next :: "addr \<rightharpoonup> ptr"

definition FlowQueue_new :: "(addr \<rightharpoonup> ptr) \<Rightarrow> FlowQueue" where
  "FlowQueue_new h = \<lparr>fq_first = None, fq_last = None, fq_len = 0, fq_next = h\<rparr>"

definition fq_set_next :: "addr \<Rightarrow> ptr \<Rightarrow> FlowQueue \<Rightarrow> FlowQueue option" where
  "fq_set_next a v q =
     (if fq_next q a = None then None else Some (q\<lparr>fq_next := (fq_next q)(a \<mapsto> v)\<rparr>))"

definition FlowQueue_enq :: "addr \<Rightarrow> FlowQueue \<Rightarrow> FlowQueue option" where
  "FlowQueue_enq flow q =
     (if fq_len q = 0
      then map_option (\<lambda>q. q\<lparr>fq_len := fq_len q + 1\<rparr>)
             (fq_set_next flow None (q\<lparr>fq_first := Some flow, fq_last := Some flow\<rparr>))
      else do {
        l \<leftarrow> fq_last q;
        q \<leftarrow> fq_set_next l (Some flow) q;
        q \<leftarrow> fq_set_next flow None (q\<lparr>fq_last := Some flow\<rparr>);
        Some (q\<lparr>fq_len := fq_len q + 1\<rparr>)
      })"

definition FlowQueue_deq :: "FlowQueue \<Rightarrow> (addr option \<times> FlowQueue) option" where
  "FlowQueue_deq q0 =
     (if fq_len q0 = 0 then Some (None, q0)
      else let q = (if fq_len q0 = 1 then q0\<lparr>fq_last := None\<rparr> else q0);
               f = fq_first q
           in case f of
                None \<Rightarrow> Some (None, q)
              | Some a \<Rightarrow> do {
                  n \<leftarrow> fq_next q a;
                  Some (Some a, q\<lparr>fq_first := n, fq_len := fq_len q - 1\<rparr>)
                })"

fun FlowQueue_clear_loop :: "nat \<Rightarrow> FlowQueue \<Rightarrow> FlowQueue option" where
  "FlowQueue_clear_loop 0 q = Some q"
| "FlowQueue_clear_loop (Suc k) q = do {
     f \<leftarrow> fq_first q;
     n \<leftarrow> fq_next q f;
     FlowQueue_clear_loop k (q\<lparr>fq_first := n, fq_next := (fq_next q)(f := None),
                               fq_len := fq_len q - 1\<rparr>)
   }"

definition FlowQueue_clear :: "FlowQueue \<Rightarrow> FlowQueue option" where
  "FlowQueue_clear q = map_option (\<lambda>q. q\<lparr>fq_first := None, fq_last := None, fq_len := 0\<rparr>)
                         (FlowQueue_clear_loop (nat (fq_len q)) q)"

definition FlowQueue_len :: "FlowQueue \<Rightarrow> int" where
  "FlowQueue_len q = fq_len q"

definition FlowQueue_nx :: "FlowQueue \<Rightarrow> addr \<Rightarrow> ptr" where
  "FlowQueue_nx q a = (case fq_next q a of None \<Rightarrow> None | Some p \<Rightarrow> p)"

definition FlowQueue_rep :: "FlowQueue \<Rightarrow> addr list \<Rightarrow> bool" where
  "FlowQueue_rep q xs \<longleftrightarrow>
     lpath (FlowQueue_nx q) (fq_first q) xs None \<and> distinct xs \<and>
     (\<forall>a \<in> set xs. fq_next q a \<noteq> None) \<and>
     fq_len q = int (length xs) \<and> (xs \<noteq> [] \<longrightarrow> fq_last q = Some (last xs))"

text \<open>What a caller of \<^verbatim>\<open>enq\<close> owes: a live Flow that is not queued already.\<close>

definition FlowQueue_ok :: "FlowQueue \<Rightarrow> addr \<Rightarrow> addr list \<Rightarrow> bool" where
  "FlowQueue_ok q f xs \<longleftrightarrow> fq_next q f \<noteq> None \<and> f \<notin> set xs"

lemma FlowQueue_rep_new: "FlowQueue_rep (FlowQueue_new h) []"
  by (simp add: FlowQueue_rep_def FlowQueue_new_def)

lemma FlowQueue_enq_rep:
  assumes "FlowQueue_rep q xs" "FlowQueue_ok q f xs"
  shows "\<exists>q'. FlowQueue_enq f q = Some q' \<and> FlowQueue_rep q' (xs @ [f])"
proof (cases "xs = []")
  case True
  with assms show ?thesis
    by (auto simp: FlowQueue_enq_def FlowQueue_rep_def FlowQueue_ok_def fq_set_next_def
        FlowQueue_nx_def)
next
  case False
  let ?l = "last xs"
  have l: "?l \<in> set xs" using False by simp
  with assms have ne: "?l \<noteq> f" by (metis FlowQueue_ok_def)
  from assms l obtain n m where live: "fq_next q ?l = Some n" "fq_next q f = Some m"
    unfolding FlowQueue_rep_def FlowQueue_ok_def by blast
  let ?q = "q\<lparr>fq_next := (fq_next q)(?l \<mapsto> Some f, f \<mapsto> None),
              fq_last := Some f, fq_len := fq_len q + 1\<rparr>"
  have enq: "FlowQueue_enq f q = Some ?q"
    using False assms live ne
    by (simp add: FlowQueue_enq_def FlowQueue_rep_def fq_set_next_def)
  have nx: "FlowQueue_nx ?q = (FlowQueue_nx q)(?l := Some f, f := None)"
    using ne by (auto simp: FlowQueue_nx_def fun_eq_iff)
  have "lpath (FlowQueue_nx ?q) (fq_first q) (xs @ [f]) None"
    unfolding nx using assms False
    by (intro lpath_snoc_upd) (auto simp: FlowQueue_rep_def FlowQueue_ok_def)
  then have "FlowQueue_rep ?q (xs @ [f])"
    using assms by (auto simp: FlowQueue_rep_def FlowQueue_ok_def)
  with enq show ?thesis by blast
qed

lemma FlowQueue_deq_empty:
  assumes "FlowQueue_rep q []"
  shows "FlowQueue_deq q = Some (None, q)"
  using assms by (auto simp: FlowQueue_rep_def FlowQueue_deq_def)

lemma FlowQueue_deq_rep:
  assumes "FlowQueue_rep q (x # xs)"
  shows "\<exists>q'. FlowQueue_deq q = Some (Some x, q') \<and> FlowQueue_rep q' xs"
proof -
  from assms obtain n where n: "fq_next q x = Some n" "fq_first q = Some x"
    by (auto simp: FlowQueue_rep_def)
  let ?q0 = "if fq_len q = 1 then q\<lparr>fq_last := None\<rparr> else q"
  let ?q = "?q0\<lparr>fq_first := n, fq_len := fq_len q - 1\<rparr>"
  have deq: "FlowQueue_deq q = Some (Some x, ?q)"
    using assms n by (auto simp: FlowQueue_deq_def Let_def FlowQueue_rep_def)
  have "FlowQueue_nx ?q = FlowQueue_nx q" by (auto simp: FlowQueue_nx_def fun_eq_iff)
  moreover have "FlowQueue_nx q x = n" using n by (simp add: FlowQueue_nx_def)
  ultimately have "FlowQueue_rep ?q xs"
    using assms by (cases xs) (auto simp: FlowQueue_rep_def split: if_splits)
  with deq show ?thesis by blast
qed

lemma FlowQueue_rep_len: "FlowQueue_rep q xs \<Longrightarrow> FlowQueue_len q = int (length xs)"
  by (simp add: FlowQueue_rep_def FlowQueue_len_def)

lemma FlowQueue_clear_rep:
  assumes "FlowQueue_rep q xs"
  shows "\<exists>q'. FlowQueue_clear q = Some q' \<and> FlowQueue_rep q' [] \<and>
           (\<forall>a. fq_next q' a = (if a \<in> set xs then None else fq_next q a))"
proof -
  have "\<exists>q'. FlowQueue_clear_loop (length xs) q = Some q' \<and>
          (\<forall>a. fq_next q' a = (if a \<in> set xs then None else fq_next q a))"
    using assms
  proof (induction xs arbitrary: q)
    case Nil
    then show ?case by simp
  next
    case (Cons x xs)
    from Cons.prems obtain n where n: "fq_next q x = Some n" "fq_first q = Some x"
      by (auto simp: FlowQueue_rep_def)
    let ?q = "q\<lparr>fq_first := n, fq_next := (fq_next q)(x := None), fq_len := fq_len q - 1\<rparr>"
    have "FlowQueue_nx ?q = (FlowQueue_nx q)(x := None)"
      by (auto simp: FlowQueue_nx_def fun_eq_iff)
    moreover have "FlowQueue_nx q x = n" using n by (simp add: FlowQueue_nx_def)
    ultimately have "FlowQueue_rep ?q xs"
      using Cons.prems by (cases xs) (auto simp: FlowQueue_rep_def)
    from Cons.IH [OF this] n show ?case by auto
  qed
  moreover have "nat (fq_len q) = length xs" using assms by (simp add: FlowQueue_rep_def)
  ultimately show ?thesis by (auto simp: FlowQueue_clear_def FlowQueue_rep_def)
qed

section \<open>PacketQueue (packetQueue.hpp, packetQueue.cpp)\<close>

text \<open>The same intrusive queue over \<^verbatim>\<open>packet_t::next\<close>, with an unsigned 32-bit length.  Its
  \<^verbatim>\<open>deq\<close> has no NULL check on the front pointer.\<close>

record PacketQueue =
  que_len :: u32
  pkt_first :: ptr
  pkt_last :: ptr
  pkt_next :: "addr \<rightharpoonup> ptr"

definition PacketQueue_new :: "(addr \<rightharpoonup> ptr) \<Rightarrow> PacketQueue" where
  "PacketQueue_new h = \<lparr>que_len = 0, pkt_first = None, pkt_last = None, pkt_next = h\<rparr>"

definition pq_set_next :: "addr \<Rightarrow> ptr \<Rightarrow> PacketQueue \<Rightarrow> PacketQueue option" where
  "pq_set_next a v q =
     (if pkt_next q a = None then None else Some (q\<lparr>pkt_next := (pkt_next q)(a \<mapsto> v)\<rparr>))"

definition PacketQueue_enq :: "addr \<Rightarrow> PacketQueue \<Rightarrow> PacketQueue option" where
  "PacketQueue_enq pkt q =
     (if que_len q = 0
      then map_option (\<lambda>q. q\<lparr>que_len := que_len q + 1\<rparr>)
             (pq_set_next pkt None (q\<lparr>pkt_first := Some pkt, pkt_last := Some pkt\<rparr>))
      else do {
        l \<leftarrow> pkt_last q;
        q \<leftarrow> pq_set_next l (Some pkt) q;
        q \<leftarrow> pq_set_next pkt None (q\<lparr>pkt_last := Some pkt\<rparr>);
        Some (q\<lparr>que_len := que_len q + 1\<rparr>)
      })"

definition PacketQueue_deq :: "PacketQueue \<Rightarrow> (addr option \<times> PacketQueue) option" where
  "PacketQueue_deq q0 =
     (if que_len q0 = 0 then Some (None, q0)
      else let q = (if que_len q0 = 1 then q0\<lparr>pkt_last := None\<rparr> else q0)
           in do {
                a \<leftarrow> pkt_first q;
                n \<leftarrow> pkt_next q a;
                Some (Some a, q\<lparr>pkt_first := n, que_len := que_len q - 1\<rparr>)
              })"

fun PacketQueue_clr_loop :: "nat \<Rightarrow> PacketQueue \<Rightarrow> PacketQueue option" where
  "PacketQueue_clr_loop 0 q = Some q"
| "PacketQueue_clr_loop (Suc k) q = do {
     p \<leftarrow> pkt_first q;
     n \<leftarrow> pkt_next q p;
     PacketQueue_clr_loop k (q\<lparr>pkt_first := n, pkt_next := (pkt_next q)(p := None),
                               que_len := que_len q - 1\<rparr>)
   }"

definition PacketQueue_clr :: "PacketQueue \<Rightarrow> PacketQueue option" where
  "PacketQueue_clr q = map_option (\<lambda>q. q\<lparr>pkt_first := None, pkt_last := None, que_len := 0\<rparr>)
                         (PacketQueue_clr_loop (unat (que_len q)) q)"

definition PacketQueue_len :: "PacketQueue \<Rightarrow> int" where
  "PacketQueue_len q = uint (que_len q)"

definition PacketQueue_nx :: "PacketQueue \<Rightarrow> addr \<Rightarrow> ptr" where
  "PacketQueue_nx q a = (case pkt_next q a of None \<Rightarrow> None | Some p \<Rightarrow> p)"

definition PacketQueue_rep :: "PacketQueue \<Rightarrow> addr list \<Rightarrow> bool" where
  "PacketQueue_rep q xs \<longleftrightarrow>
     lpath (PacketQueue_nx q) (pkt_first q) xs None \<and> distinct xs \<and>
     (\<forall>a \<in> set xs. pkt_next q a \<noteq> None) \<and>
     unat (que_len q) = length xs \<and> (xs \<noteq> [] \<longrightarrow> pkt_last q = Some (last xs))"

definition PacketQueue_ok :: "PacketQueue \<Rightarrow> addr \<Rightarrow> addr list \<Rightarrow> bool" where
  "PacketQueue_ok q p xs \<longleftrightarrow> pkt_next q p \<noteq> None \<and> p \<notin> set xs \<and> Suc (length xs) < 2 ^ 32"

lemma que_len_Suc:
  "unat (n :: u32) = k \<Longrightarrow> Suc k < 2 ^ 32 \<Longrightarrow> unat (n + 1) = Suc k"
  by (simp add: unat_word_ariths)

lemma que_len_pred: "unat (n :: u32) = Suc k \<Longrightarrow> unat (n - 1) = k"
  by (metis diff_Suc_1 unat_eq_zero unat_minus_one Zero_not_Suc)

lemma PacketQueue_enq_rep:
  assumes "PacketQueue_rep q xs" "PacketQueue_ok q p xs"
  shows "\<exists>q'. PacketQueue_enq p q = Some q' \<and> PacketQueue_rep q' (xs @ [p])"
proof (cases "xs = []")
  case True
  with assms show ?thesis
    by (auto simp: PacketQueue_enq_def PacketQueue_rep_def PacketQueue_ok_def pq_set_next_def
        PacketQueue_nx_def unat_eq_zero)
next
  case False
  let ?l = "last xs"
  have l: "?l \<in> set xs" using False by simp
  with assms have ne: "?l \<noteq> p" by (metis PacketQueue_ok_def)
  from assms l obtain n m where live: "pkt_next q ?l = Some n" "pkt_next q p = Some m"
    unfolding PacketQueue_rep_def PacketQueue_ok_def by blast
  have len: "unat (que_len q) = length xs" "que_len q \<noteq> 0"
    "unat (que_len q + 1) = Suc (length xs)"
    using assms False que_len_Suc [of "que_len q"]
    by (auto simp: PacketQueue_rep_def PacketQueue_ok_def)
  let ?q = "q\<lparr>pkt_next := (pkt_next q)(?l \<mapsto> Some p, p \<mapsto> None),
              pkt_last := Some p, que_len := que_len q + 1\<rparr>"
  have enq: "PacketQueue_enq p q = Some ?q"
    using False assms live ne len
    by (simp add: PacketQueue_enq_def PacketQueue_rep_def pq_set_next_def)
  have nx: "PacketQueue_nx ?q = (PacketQueue_nx q)(?l := Some p, p := None)"
    using ne by (auto simp: PacketQueue_nx_def fun_eq_iff)
  have "lpath (PacketQueue_nx ?q) (pkt_first q) (xs @ [p]) None"
    unfolding nx using assms False
    by (intro lpath_snoc_upd) (auto simp: PacketQueue_rep_def PacketQueue_ok_def)
  then have "PacketQueue_rep ?q (xs @ [p])"
    using assms len by (auto simp: PacketQueue_rep_def PacketQueue_ok_def)
  with enq show ?thesis by blast
qed

lemma PacketQueue_deq_empty:
  assumes "PacketQueue_rep q []"
  shows "PacketQueue_deq q = Some (None, q)"
  using assms by (auto simp: PacketQueue_rep_def PacketQueue_deq_def unat_eq_zero)

lemma PacketQueue_deq_rep:
  assumes "PacketQueue_rep q (x # xs)"
  shows "\<exists>q'. PacketQueue_deq q = Some (Some x, q') \<and> PacketQueue_rep q' xs"
proof -
  from assms obtain n where n: "pkt_next q x = Some n" "pkt_first q = Some x"
    by (auto simp: PacketQueue_rep_def)
  have len: "unat (que_len q) = Suc (length xs)" "que_len q \<noteq> 0"
    "unat (que_len q - 1) = length xs"
    using assms que_len_pred [of "que_len q"] by (auto simp: PacketQueue_rep_def)
  have one: "que_len q = 1 \<longleftrightarrow> xs = []"
  proof
    assume "que_len q = 1"
    with len show "xs = []" by simp
  next
    assume "xs = []"
    with len have "unat (que_len q) = unat (1 :: u32)" by simp
    then show "que_len q = 1" by (simp add: word_unat_eq_iff)
  qed
  let ?q0 = "if que_len q = 1 then q\<lparr>pkt_last := None\<rparr> else q"
  let ?q = "?q0\<lparr>pkt_first := n, que_len := que_len q - 1\<rparr>"
  have deq: "PacketQueue_deq q = Some (Some x, ?q)"
    using n len by (auto simp: PacketQueue_deq_def Let_def)
  have "PacketQueue_nx ?q = PacketQueue_nx q" by (auto simp: PacketQueue_nx_def fun_eq_iff)
  moreover have "PacketQueue_nx q x = n" using n by (simp add: PacketQueue_nx_def)
  ultimately have "PacketQueue_rep ?q xs"
    using assms len one by (cases xs) (auto simp: PacketQueue_rep_def)
  with deq show ?thesis by blast
qed

lemma PacketQueue_rep_len: "PacketQueue_rep q xs \<Longrightarrow> PacketQueue_len q = int (length xs)"
  by (simp add: PacketQueue_rep_def PacketQueue_len_def uint_nat)

section \<open>The queue interface\<close>

text \<open>What the worker threads rely on: the represented list grows at the end on \<open>enq\<close>, loses
  its front on \<open>deq\<close>, and no operation touches invalid memory.  \<open>ok q e xs\<close> is what the
  caller of \<open>enq\<close> owes.\<close>

fun q_drain :: "('q \<Rightarrow> ('e option \<times> 'q) option) \<Rightarrow> nat \<Rightarrow> 'q \<Rightarrow> ('e option list \<times> 'q) option" where
  "q_drain deq 0 q = Some ([], q)"
| "q_drain deq (Suc k) q = do {
     (r, q1) \<leftarrow> deq q;
     (rs, q2) \<leftarrow> q_drain deq k q1;
     Some (r # rs, q2)
   }"

datatype 'e qop = Enq 'e | Deq

fun q_run :: "('e \<Rightarrow> 'q \<Rightarrow> 'q option) \<Rightarrow> ('q \<Rightarrow> ('e option \<times> 'q) option) \<Rightarrow>
    'e qop list \<Rightarrow> 'q \<Rightarrow> ('e option list \<times> 'q) option" where
  "q_run enq deq [] q = Some ([], q)"
| "q_run enq deq (Enq e # ops) q = do { q1 \<leftarrow> enq e q; q_run enq deq ops q1 }"
| "q_run enq deq (Deq # ops) q = do {
     (r, q1) \<leftarrow> deq q;
     (rs, q2) \<leftarrow> q_run enq deq ops q1;
     Some (r # rs, q2)
   }"

text \<open>The abstract specification: the same operations on a list.\<close>

fun list_run :: "'e qop list \<Rightarrow> 'e list \<Rightarrow> 'e option list \<times> 'e list" where
  "list_run [] xs = ([], xs)"
| "list_run (Enq e # ops) xs = list_run ops (xs @ [e])"
| "list_run (Deq # ops) xs =
     (case xs of
        [] \<Rightarrow> (let (rs, ys) = list_run ops [] in (None # rs, ys))
      | x # xs' \<Rightarrow> (let (rs, ys) = list_run ops xs' in (Some x # rs, ys)))"

locale fifo =
  fixes enq :: "'e \<Rightarrow> 'q \<Rightarrow> 'q option"
    and deq :: "'q \<Rightarrow> ('e option \<times> 'q) option"
    and len :: "'q \<Rightarrow> int"
    and rep :: "'q \<Rightarrow> 'e list \<Rightarrow> bool"
    and ok :: "'q \<Rightarrow> 'e \<Rightarrow> 'e list \<Rightarrow> bool"
  assumes enq_rep: "rep q xs \<Longrightarrow> ok q e xs \<Longrightarrow> \<exists>q'. enq e q = Some q' \<and> rep q' (xs @ [e])"
    and deq_empty: "rep q [] \<Longrightarrow> deq q = Some (None, q)"
    and deq_rep: "rep q (x # xs) \<Longrightarrow> \<exists>q'. deq q = Some (Some x, q') \<and> rep q' xs"
    and len_rep: "rep q xs \<Longrightarrow> len q = int (length xs)"
begin

lemma drain_in_order:
  "rep q xs \<Longrightarrow> \<exists>q'. q_drain deq (length xs) q = Some (map Some xs, q') \<and> rep q' []"
proof (induction xs arbitrary: q)
  case Nil
  then show ?case by simp
next
  case (Cons x xs)
  from deq_rep [OF Cons.prems] obtain q1 where "deq q = Some (Some x, q1)" "rep q1 xs" by blast
  with Cons.IH show ?case by fastforce
qed

lemma deq_len:
  assumes "rep q xs" "deq q = Some (r, q')"
  shows "len q' = (if r = None then 0 else len q - 1)"
proof (cases xs)
  case Nil
  with assms show ?thesis using deq_empty len_rep by fastforce
next
  case (Cons x ys)
  with assms deq_rep [of q x ys] have "r = Some x" "rep q' ys" by auto
  with assms Cons show ?thesis using len_rep by simp
qed

end

locale fifo_unbounded = fifo +
  assumes ok_always: "ok q e xs"
begin

lemma run_refines_list:
  "rep q xs \<Longrightarrow>
   \<exists>q'. q_run enq deq ops q = Some (fst (list_run ops xs), q') \<and> rep q' (snd (list_run ops xs))"
proof (induction ops arbitrary: q xs)
  case Nil
  then show ?case by simp
next
  case (Cons op ops)
  show ?case
  proof (cases op)
    case (Enq e)
    from enq_rep [OF Cons.prems ok_always] obtain q1
      where "enq e q = Some q1" "rep q1 (xs @ [e])" by blast
    with Cons.IH Enq show ?thesis by fastforce
  next
    case Deq
    show ?thesis
    proof (cases xs)
      case Nil
      with Cons.prems Cons.IH [of q "[]"] deq_empty Deq show ?thesis
        by (fastforce simp: split_beta)
    next
      case (Cons x ys)
      with Cons.prems deq_rep obtain q1 where "deq q = Some (Some x, q1)" "rep q1 ys" by blast
      with Cons.IH [of q1 ys] Cons Deq show ?thesis by (fastforce simp: split_beta)
    qed
  qed
qed

end

interpretation queue_fifo: fifo_unbounded Queue_enq Queue_deq Queue_len Queue_rep "\<lambda>_ _ _. True"
  by unfold_locales
    (auto intro: Queue_enq_rep Queue_deq_empty Queue_deq_rep Queue_rep_len)

interpretation flow_fifo: fifo FlowQueue_enq FlowQueue_deq FlowQueue_len FlowQueue_rep FlowQueue_ok
  by unfold_locales
    (auto intro: FlowQueue_enq_rep FlowQueue_deq_empty FlowQueue_deq_rep FlowQueue_rep_len)

interpretation packet_fifo: fifo PacketQueue_enq PacketQueue_deq PacketQueue_len PacketQueue_rep
    PacketQueue_ok
  by unfold_locales
    (auto intro: PacketQueue_enq_rep PacketQueue_deq_empty PacketQueue_deq_rep PacketQueue_rep_len)

text \<open>C35. The work queue shared by the threads is a queue: any sequence of \<^verbatim>\<open>enq\<close> and \<^verbatim>\<open>deq\<close> on a new
  queue runs without touching invalid memory and returns what the same operations return on
  a list (NULL exactly when the list is empty); \<^verbatim>\<open>len\<close> is the length of what is left.\<close>

theorem queue_runs_as_list:
  "\<exists>q. q_run Queue_enq Queue_deq ops Queue_new = Some (fst (list_run ops []), q) \<and>
     Queue_rep q (snd (list_run ops [])) \<and> Queue_len q = int (length (snd (list_run ops [])))"
  using queue_fifo.run_refines_list [OF Queue_rep_new, of ops] Queue_rep_len by blast

text \<open>The intrusive flow queue is first in, first out: a live flow that is not queued can be
  enqueued, and draining the queue then yields the flows in the order they were enqueued,
  each once, and leaves the queue empty.\<close>

theorem flow_queue_drains_in_order:
  assumes "FlowQueue_rep q xs" "fq_next q f \<noteq> None" "f \<notin> set xs"
  shows "\<exists>q1 q2. FlowQueue_enq f q = Some q1 \<and> FlowQueue_len q1 = int (length xs) + 1 \<and>
     q_drain FlowQueue_deq (Suc (length xs)) q1 = Some (map Some (xs @ [f]), q2) \<and> FlowQueue_rep q2 []"
proof -
  obtain q1 where q1: "FlowQueue_enq f q = Some q1" "FlowQueue_rep q1 (xs @ [f])"
    using FlowQueue_enq_rep [OF assms(1), of f] assms(2,3) by (auto simp: FlowQueue_ok_def)
  with flow_fifo.drain_in_order [OF q1(2)] FlowQueue_rep_len [OF q1(2)] show ?thesis by auto
qed

theorem flow_queue_drains_in_order_witness:
  "\<exists>q1 q2. FlowQueue_enq 7 (FlowQueue_new [7 \<mapsto> None]) = Some q1 \<and>
     q_drain FlowQueue_deq 1 q1 = Some ([Some 7], q2)"
  using flow_queue_drains_in_order [OF FlowQueue_rep_new, of "[7 \<mapsto> None]" 7]
  by (auto simp: FlowQueue_new_def simp del: q_drain.simps)

text \<open>The intrusive packet queue is first in, first out as long as it holds fewer than
  \<open>2 ^ 32\<close> packets, the range of its counter.\<close>

theorem packet_queue_drains_in_order:
  assumes "PacketQueue_rep q xs" "pkt_next q p \<noteq> None" "p \<notin> set xs" "Suc (length xs) < 2 ^ 32"
  shows "\<exists>q1 q2. PacketQueue_enq p q = Some q1 \<and> PacketQueue_len q1 = int (length xs) + 1 \<and>
     q_drain PacketQueue_deq (Suc (length xs)) q1 = Some (map Some (xs @ [p]), q2) \<and> PacketQueue_rep q2 []"
proof -
  obtain q1 where q1: "PacketQueue_enq p q = Some q1" "PacketQueue_rep q1 (xs @ [p])"
    using PacketQueue_enq_rep [OF assms(1), of p] assms(2,3,4) by (auto simp: PacketQueue_ok_def)
  with packet_fifo.drain_in_order [OF q1(2)] PacketQueue_rep_len [OF q1(2)] show ?thesis by auto
qed

theorem packet_queue_drains_in_order_witness:
  "\<exists>q1 q2. PacketQueue_enq 7 (PacketQueue_new [7 \<mapsto> None]) = Some q1 \<and>
     q_drain PacketQueue_deq 1 q1 = Some ([Some 7], q2)"
proof -
  have "PacketQueue_rep (PacketQueue_new [7 \<mapsto> None]) []" by (simp add: PacketQueue_rep_def PacketQueue_new_def)
  from packet_queue_drains_in_order [OF this, of 7] show ?thesis
    by (auto simp: PacketQueue_new_def simp del: q_drain.simps)
qed

end
