(* ===== verification/Flow.thy ===== *)
theory Flow
  imports Tcp_Order
begin

unbundle bit_operations_syntax

text \<open>
  \<^verbatim>\<open>flow.hpp\<close> and the operations of \<^verbatim>\<open>flow.cpp\<close> that touch one flow only.  The packet chains,
  the pair chain and the order lists are HOL lists; the flow's links into the hash table and
  \<^verbatim>\<open>Flow::add_packet\<close>, which unlinks flows from it, are in theory \<open>Flow_Table\<close>.  The type
  parameter is the type of the request/response pairs.
\<close>

definition CLIENT_CLOSE :: u8 where "CLIENT_CLOSE = 0x01"
definition SERVER_CLOSE :: u8 where "SERVER_CLOSE = 0x02"
definition FORCED_CLOSE :: u8 where "FORCED_CLOSE = 0x04"

lemmas close_defs = CLIENT_CLOSE_def SERVER_CLOSE_def FORCED_CLOSE_def

record flow_s =
  fs_saddr :: u32
  fs_daddr :: u32
  fs_sport :: u16
  fs_dport :: u16

record 'pr flow =
  pkt_src :: "packet_t list"     \<comment> \<open>the chain from pkt_src_f to pkt_src_e\<close>
  pkt_dst :: "packet_t list"
  pkt_src_n :: u32
  pkt_dst_n :: u32
  pkts_src :: u32
  pkts_dst :: u32
  f_order :: order_t
  f_socket :: flow_s
  f_rtt :: u8
  syn_sec :: int
  syn_usec :: int
  ack2_sec :: int
  ack2_usec :: int
  fb_sec :: int
  fb_usec :: int
  lb_sec :: int
  lb_usec :: int
  payload_src :: u32
  payload_dst :: u32
  f_pairs :: "'pr list"          \<comment> \<open>the chain from pair_f to pair_e\<close>
  last_action_sec :: int
  last_action_usec :: int
  f_close :: u8
  f_init :: bool
  f_processed :: bool

text \<open>The constructor sets the fields of its initialiser list and the order; every other field
  keeps what the allocator left there, the argument \<open>junk\<close>.\<close>

definition Flow_new :: "'pr flow \<Rightarrow> 'pr flow" where
  "Flow_new junk = junk\<lparr>pkt_src_n := 0, pkt_dst_n := 0, pkts_src := 0, pkts_dst := 0,
     f_init := False, f_pairs := [], lb_sec := 0, lb_usec := 0, f_processed := False,
     f_order := order_new\<rparr>"

definition Flow_reset :: "'pr flow \<Rightarrow> 'pr flow" where
  "Flow_reset f = f\<lparr>pkt_dst := [], pkt_src := [], f_order := order_new, f_rtt := 0,
     syn_sec := 0, syn_usec := 0, ack2_sec := 0, ack2_usec := 0, fb_sec := 0, fb_usec := 0,
     lb_sec := 0, lb_usec := 0, last_action_sec := 0, last_action_usec := 0,
     payload_src := 0, payload_dst := 0, pkt_src_n := 0, pkt_dst_n := 0,
     pkts_src := 0, pkts_dst := 0, f_close := 0\<rparr>"

definition hook_packet :: "packet_t \<Rightarrow> bool \<Rightarrow> 'pr flow \<Rightarrow> 'pr flow" where
  "hook_packet packet src f =
     (if src
      then f\<lparr>pkt_src := (if pkt_src_n f = 0 then [packet] else pkt_src f @ [packet]),
             pkt_src_n := pkt_src_n f + 1\<rparr>
      else f\<lparr>pkt_dst := (if pkt_dst_n f = 0 then [packet] else pkt_dst f @ [packet]),
             pkt_dst_n := pkt_dst_n f + 1\<rparr>)"

text \<open>\<^verbatim>\<open>cal_packet\<close>; \<open>now\<close> is what \<^verbatim>\<open>gettimeofday\<close> returns.\<close>

definition cal_packet :: "int \<times> int \<Rightarrow> packet_t \<Rightarrow> bool \<Rightarrow> 'pr flow \<Rightarrow> 'pr flow" where
  "cal_packet now packet src f0 =
     (let f = (if src
               then f0\<lparr>pkts_src := pkts_src f0 + 1, payload_src := payload_src f0 + ucast (tcp_dl packet)\<rparr>
               else f0\<lparr>pkts_dst := pkts_dst f0 + 1, payload_dst := payload_dst f0 + ucast (tcp_dl packet)\<rparr>);
          f = f\<lparr>last_action_sec := fst now, last_action_usec := snd now\<rparr>;
          seq = seq_pkt packet;
          seq = (if ptype packet = 0 then seq\<lparr>sq_pkt := None\<rparr> else seq)
      in f\<lparr>f_order := snd (tcp_order (f_order f) seq src)\<rparr>)"

text \<open>The comparison narrows the capture times to 32 bits.\<close>

definition compare_sequence_time :: "seq_t \<Rightarrow> seq_t \<Rightarrow> int" where
  "compare_sequence_time seq1 seq2 =
     (let sec1 = (word_of_int (sq_sec seq1) :: u32); usec1 = (word_of_int (sq_usec seq1) :: u32);
          sec2 = (word_of_int (sq_sec seq2) :: u32); usec2 = (word_of_int (sq_usec seq2) :: u32)
      in if sec1 > sec2 \<or> (sec1 = sec2 \<and> usec1 > usec2) then 1
         else if sec1 < sec2 \<or> (sec1 = sec2 \<and> usec1 < usec2) then -1
         else 0)"

text \<open>\<^verbatim>\<open>flow_socket_cmp\<close> is a \<^verbatim>\<open>memcmp\<close> of the 12 bytes of two sockets without padding, of which
  the callers only test for 0.\<close>

definition flow_socket_cmp :: "'pr flow \<Rightarrow> flow_s \<Rightarrow> int" where
  "flow_socket_cmp f fs = (if f_socket f = fs then 0 else 1)"

definition add_pair :: "'pr \<Rightarrow> 'pr flow \<Rightarrow> 'pr flow" where
  "add_pair h f = f\<lparr>f_pairs := f_pairs f @ [h]\<rparr>"

section \<open>Frame facts\<close>

lemma hook_packet_frame [frame_simps]:
  "f_socket (hook_packet p src f) = f_socket f"
  "pkts_src (hook_packet p src f) = pkts_src f"
  "f_order (hook_packet p src f) = f_order f"
  "f_pairs (hook_packet p src f) = f_pairs f"
  by (simp_all add: hook_packet_def)

lemma cal_packet_frame [frame_simps]:
  "f_socket (cal_packet now p src f) = f_socket f"
  "pkt_src (cal_packet now p src f) = pkt_src f"
  "pkt_dst (cal_packet now p src f) = pkt_dst f"
  "pkt_src_n (cal_packet now p src f) = pkt_src_n f"
  "pkt_dst_n (cal_packet now p src f) = pkt_dst_n f"
  "f_pairs (cal_packet now p src f) = f_pairs f"
  "f_close (cal_packet now p src f) = f_close f"
  by (simp_all add: cal_packet_def Let_def)

lemma Flow_reset_frame [frame_simps]:
  "f_socket (Flow_reset f) = f_socket f"
  "f_pairs (Flow_reset f) = f_pairs f"
  "f_init (Flow_reset f) = f_init f"
  by (simp_all add: Flow_reset_def)

lemma Flow_new_frame [frame_simps]:
  "f_socket (Flow_new junk) = f_socket junk"
  by (simp add: Flow_new_def)

text \<open>The two directions of \<^verbatim>\<open>tcp_order\<close> do not touch each other's list.\<close>

lemma tcp_order_other_side:
  "o_dst (snd (tcp_order ord s True)) = o_dst ord"
  "o_src (snd (tcp_order ord s False)) = o_src ord"
  by (simp_all add: tcp_order_def split_beta)

section \<open>What hangs off a flow\<close>

text \<open>A sequence record of a well-formed flow refers to a packet only when the packet was
  hooked on the chain of the same direction, which is what keeps the record's pointer
  alive.  The packet is identified by the fields no later step changes.\<close>

definition packet_key :: "packet_t \<Rightarrow> int \<times> int \<times> u32 \<times> u32 \<times> u8 \<times> string option" where
  "packet_key p = (cap_sec p, cap_usec p, tcp_seq p, tcp_ack p, tcp_flags p, tcp_odata p)"

definition hooked :: "seq_t list \<Rightarrow> packet_t list \<Rightarrow> bool" where
  "hooked l chain \<longleftrightarrow>
     (\<forall>s \<in> set l. \<forall>p. sq_pkt s = Some p \<longrightarrow> packet_key p \<in> packet_key ` set chain)"

definition flow_refs_ok :: "'pr flow \<Rightarrow> bool" where
  "flow_refs_ok f \<longleftrightarrow>
     hooked (o_src (f_order f)) (pkt_src f) \<and> hooked (o_dst (f_order f)) (pkt_dst f) \<and>
     (pkt_src_n f = 0 \<longrightarrow> (\<forall>s \<in> set (o_src (f_order f)). sq_pkt s = None)) \<and>
     (pkt_dst_n f = 0 \<longrightarrow> (\<forall>s \<in> set (o_dst (f_order f)). sq_pkt s = None))"

lemma insert_after_set: "set (insert_after i x l) \<subseteq> insert x (set l)"
  unfolding insert_after_def by (auto dest: in_set_takeD in_set_dropD)

text \<open>Whatever \<^verbatim>\<open>tcp_order\<close> does, it adds at most one record, which refers to the packet of
  the new record if to any.\<close>

definition derived :: "seq_t \<Rightarrow> seq_t \<Rightarrow> bool" where
  "derived new x \<longleftrightarrow>
     (\<forall>p. sq_pkt x = Some p \<longrightarrow> (\<exists>q. sq_pkt new = Some q \<and> packet_key p = packet_key q))"

lemma derived_intros:
  "derived new new"
  "derived new x \<Longrightarrow> derived new (cut_overlap a x)"
  "derived new x \<Longrightarrow> derived new (cut_front b x)"
  by (auto simp: derived_def cut_overlap_def cut_front_def Let_def packet_key_def split: if_splits)

lemma tcp_place_derived:
  assumes "tcp_place l i n new pre = (r, l', i', n')"
  shows "\<exists>x. derived new x \<and> set l' \<subseteq> insert x (set l)"
proof -
  let ?cp = "tcp_cont_seq l pre"
  let ?a = "sq_seq (l ! Suc ?cp)" and ?b = "sq_nxt (l ! ?cp) - 1"
  let ?S = "{new, cut_overlap ?a new, cut_front ?b new, cut_overlap ?a (cut_front ?b new)}"
  have "fst (snd (tcp_place l i n new pre)) = l \<or>
      (\<exists>y \<in> ?S. fst (snd (tcp_place l i n new pre)) = insert_after ?cp y l)"
    by (simp add: tcp_place_def Let_def)
  with assms have "l' = l \<or> (\<exists>y \<in> ?S. l' = insert_after ?cp y l)" by (simp only: fst_conv snd_conv)
  then show ?thesis
  proof
    assume "l' = l"
    then show ?thesis using derived_intros(1) by (intro exI [of _ new]) auto
  next
    assume "\<exists>y \<in> ?S. l' = insert_after ?cp y l"
    then obtain y where y: "y \<in> ?S" "l' = insert_after ?cp y l" by (rule bexE)
    have "\<forall>y \<in> ?S. derived new y" by (simp add: derived_intros)
    then have "derived new y" using y(1) by (rule bspec)
    with y(2) insert_after_set show ?thesis by (intro exI [of _ y]) simp
  qed
qed

lemma tcp_order_side_derived:
  assumes "tcp_order_side l i n new = (r, l', i', n')"
  shows "\<exists>x. derived new x \<and> set l' \<subseteq> insert x (set l)"
  using assms tcp_place_derived derived_intros(1)
  by (fastforce simp: tcp_order_side_def split: if_splits prod.splits)

lemma hooked_mono: "hooked l c \<Longrightarrow> set c \<subseteq> set c' \<Longrightarrow> hooked l c'"
  unfolding hooked_def by blast

lemma hooked_tcp_order_side:
  assumes "hooked l c" "tcp_order_side l i n new = (r, l', i', n')"
    "\<And>q. sq_pkt new = Some q \<Longrightarrow> packet_key q \<in> packet_key ` set c"
  shows "hooked l' c"
proof -
  obtain x where "derived new x" "set l' \<subseteq> insert x (set l)"
    using tcp_order_side_derived [OF assms(2)] by blast
  with assms(1,3) show ?thesis unfolding hooked_def derived_def by (metis insertE subsetD)
qed

lemma tcp_order_side_none:
  assumes "tcp_order_side l i n new = (r, l', i', n')" "\<forall>s \<in> set l. sq_pkt s = None"
    "sq_pkt new = None"
  shows "\<forall>s \<in> set l'. sq_pkt s = None"
proof -
  obtain x where "derived new x" "set l' \<subseteq> insert x (set l)"
    using tcp_order_side_derived [OF assms(1)] by blast
  moreover from this assms(3) have "sq_pkt x = None"
    unfolding derived_def by (metis not_None_eq)
  ultimately show ?thesis using assms(2) by blast
qed

text \<open>One direction: chain \<open>c\<close>, its counter \<open>k\<close>, and the record list \<open>l\<close> of that direction.\<close>

definition side_ok :: "seq_t list \<Rightarrow> packet_t list \<Rightarrow> u32 \<Rightarrow> bool" where
  "side_ok l c k \<longleftrightarrow> hooked l c \<and> (k = 0 \<longrightarrow> (\<forall>s \<in> set l. sq_pkt s = None))"

lemma flow_refs_ok_sides:
  "flow_refs_ok f \<longleftrightarrow> side_ok (o_src (f_order f)) (pkt_src f) (pkt_src_n f) \<and>
     side_ok (o_dst (f_order f)) (pkt_dst f) (pkt_dst_n f)"
  by (auto simp: flow_refs_ok_def side_ok_def)

lemma side_ok_hooked:
  assumes "side_ok l c k" "k \<noteq> -1" "tcp_order_side l i n (seq_pkt packet) = (r, l', i', n')"
  shows "side_ok l' (if k = 0 then [packet] else c @ [packet]) (k + 1)"
proof -
  let ?c = "if k = 0 then [packet] else c @ [packet]"
  have "hooked l ?c" using assms(1) by (auto simp: side_ok_def hooked_def)
  then have "hooked l' ?c"
    by (rule hooked_tcp_order_side [OF _ assms(3)]) (auto simp: seq_pkt_def)
  moreover have "k + 1 \<noteq> 0" using assms(2) by (metis add_eq_0_iff2)
  ultimately show ?thesis by (simp add: side_ok_def)
qed

lemma side_ok_unhooked:
  assumes "side_ok l c k" "tcp_order_side l i n (new\<lparr>sq_pkt := None\<rparr>) = (r, l', i', n')"
  shows "side_ok l' c k"
  using assms hooked_tcp_order_side [OF _ assms(2)] tcp_order_side_none [OF assms(2)]
  by (auto simp: side_ok_def)

text \<open>Memory safety of the order lists: storing a packet (hooking it when it carries a
  message head, then accounting for it) keeps every packet pointer of a sequence record
  pointing to a packet on the chain of its direction.\<close>

theorem flow_store_refs_ok:
  assumes "flow_refs_ok f" "pkt_src_n f \<noteq> -1" "pkt_dst_n f \<noteq> -1"
  shows "flow_refs_ok (cal_packet now packet src
           (if ptype packet \<noteq> 0 then hook_packet packet src f else f))"
proof (cases src)
  case True
  obtain r l i n where side: "tcp_order_side (o_src (f_order f)) (o_last_src (f_order f))
      (o_num (f_order f)) (if ptype packet = 0 then (seq_pkt packet)\<lparr>sq_pkt := None\<rparr> else seq_pkt packet)
      = (r, l, i, n)"
    by (metis prod_cases4)
  with True assms show ?thesis
    using side_ok_hooked [of "o_src (f_order f)" "pkt_src f" "pkt_src_n f"]
      side_ok_unhooked [of "o_src (f_order f)" "pkt_src f" "pkt_src_n f"]
    by (auto simp: flow_refs_ok_sides cal_packet_def hook_packet_def tcp_order_def Let_def)
next
  case False
  obtain r l i n where side: "tcp_order_side (o_dst (f_order f)) (o_last_dst (f_order f))
      (o_num (f_order f)) (if ptype packet = 0 then (seq_pkt packet)\<lparr>sq_pkt := None\<rparr> else seq_pkt packet)
      = (r, l, i, n)"
    by (metis prod_cases4)
  with False assms show ?thesis
    using side_ok_hooked [of "o_dst (f_order f)" "pkt_dst f" "pkt_dst_n f"]
      side_ok_unhooked [of "o_dst (f_order f)" "pkt_dst f" "pkt_dst_n f"]
    by (auto simp: flow_refs_ok_sides cal_packet_def hook_packet_def tcp_order_def Let_def)
qed

section \<open>Concrete instances\<close>

definition blank_flow :: "'pr flow" where
  "blank_flow = \<lparr>pkt_src = [], pkt_dst = [], pkt_src_n = 0, pkt_dst_n = 0, pkts_src = 0,
     pkts_dst = 0, f_order = order_new,
     f_socket = \<lparr>fs_saddr = 0, fs_daddr = 0, fs_sport = 0, fs_dport = 0\<rparr>, f_rtt = 0,
     syn_sec = 0, syn_usec = 0, ack2_sec = 0, ack2_usec = 0, fb_sec = 0, fb_usec = 0,
     lb_sec = 0, lb_usec = 0, payload_src = 0, payload_dst = 0, f_pairs = [],
     last_action_sec = 0, last_action_usec = 0, f_close = 0, f_init = False,
     f_processed = False\<rparr>"

definition a_request :: packet_t where
  "a_request = packet_new\<lparr>saddr := 1, daddr := 2, sport := 1000, dport := 80, tcp_seq := 1,
     tcp_dl := 10, ptype := REQ, tcp_odata := Some ''GET / HTTP''\<rparr>"

theorem flow_store_refs_ok_witness:
  "flow_refs_ok (cal_packet (5, 6) a_request True (hook_packet a_request True (blank_flow :: unit flow))) \<and>
   pkt_src (hook_packet a_request True (blank_flow :: unit flow)) = [a_request]"
  using flow_store_refs_ok [of "blank_flow :: unit flow" "(5, 6)" a_request True]
  by (simp add: flow_refs_ok_def hooked_def blank_flow_def order_new_def a_request_def type_defs hook_packet_def)

end
