(* ===== verification/Bucket_List.thy ===== *)
theory Bucket_List
  imports Prelude
begin

text \<open>
  The doubly linked collision chains of the two hash tables.  \<^verbatim>\<open>FlowHashTable\<close> and \<^verbatim>\<open>Hash\<close>
  contain the same pointer surgery for appending to, searching and unlinking from a chain;
  it is modelled here once, over the \<^verbatim>\<open>next\<close> and \<^verbatim>\<open>prev\<close> fields of the chained objects.
  An operation is \<^term>\<open>None\<close> where the code would write through a NULL pointer.
\<close>

record bucket =
  b_first :: ptr
  b_last :: ptr
  elm_cnt :: int

text \<open>Both tables have 13200 buckets and walk over them in index order.\<close>

definition HASH_SIZE :: nat where "HASH_SIZE = 13200"

fun over_buckets :: "(nat \<Rightarrow> 'a \<Rightarrow> 'a option) \<Rightarrow> nat list \<Rightarrow> 'a \<Rightarrow> 'a option" where
  "over_buckets g [] t = Some t"
| "over_buckets g (h # hs) t = do { t \<leftarrow> g h t; over_buckets g hs t }"

definition bucket_empty :: bucket where
  "bucket_empty = \<lparr>b_first = None, b_last = None, elm_cnt = 0\<rparr>"

type_synonym chain_state = "bucket \<times> (addr \<Rightarrow> ptr) \<times> (addr \<Rightarrow> ptr)"

definition chain_append :: "addr \<Rightarrow> chain_state \<Rightarrow> chain_state option" where
  "chain_append f c =
     (let (hm, nxt, prv) = c in
      if elm_cnt hm = 0
      then Some (hm\<lparr>b_first := Some f, b_last := Some f, elm_cnt := elm_cnt hm + 1\<rparr>,
                 nxt(f := None), prv(f := None))
      else do {
        l \<leftarrow> b_last hm;
        Some (hm\<lparr>b_last := Some f, elm_cnt := elm_cnt hm + 1\<rparr>,
              nxt(l := Some f, f := None), prv(f := Some l))
      })"

definition chain_remove :: "addr \<Rightarrow> chain_state \<Rightarrow> chain_state option" where
  "chain_remove f c =
     (let (hm, nxt, prv) = c in
      do {
        (hm, nxt, prv) \<leftarrow>
          (if elm_cnt hm = 1 \<and> b_first hm = Some f
           then Some (hm\<lparr>b_first := None, b_last := None\<rparr>, nxt, prv)
           else case prv f of
             None \<Rightarrow> do {
               n \<leftarrow> nxt f;
               Some (hm\<lparr>b_first := Some n\<rparr>, nxt, prv(n := None))
             }
           | Some p \<Rightarrow>
               (case nxt f of
                  None \<Rightarrow> Some (hm\<lparr>b_last := Some p\<rparr>, nxt(p := None), prv)
                | Some n \<Rightarrow> Some (hm, nxt(p := Some n), prv(n := Some p))));
        Some (hm\<lparr>elm_cnt := elm_cnt hm - 1\<rparr>, nxt(f := None), prv(f := None))
      })"

text \<open>The search loop: \<open>test a\<close> reads the object at \<open>a\<close> and is \<^term>\<open>None\<close> if it is not live.\<close>

partial_function (option) chain_find :: "(addr \<Rightarrow> bool option) \<Rightarrow> (addr \<Rightarrow> ptr) \<Rightarrow> ptr \<Rightarrow> ptr option" where
  "chain_find test nxt p =
     (case p of
        None \<Rightarrow> Some None
      | Some a \<Rightarrow> do {
          t \<leftarrow> test a;
          (if t then Some (Some a) else chain_find test nxt (nxt a))
        })"

section \<open>Representation\<close>

definition chain_rep :: "bucket \<Rightarrow> (addr \<Rightarrow> ptr) \<Rightarrow> (addr \<Rightarrow> ptr) \<Rightarrow> addr list \<Rightarrow> bool" where
  "chain_rep hm nxt prv xs \<longleftrightarrow>
     lpath nxt (b_first hm) xs None \<and> lpath prv (b_last hm) (rev xs) None \<and>
     distinct xs \<and> elm_cnt hm = int (length xs)"

definition same_outside :: "addr set \<Rightarrow> (addr \<Rightarrow> ptr) \<Rightarrow> (addr \<Rightarrow> ptr) \<Rightarrow> bool" where
  "same_outside A m n \<longleftrightarrow> (\<forall>a. a \<notin> A \<longrightarrow> m a = n a)"

lemma chain_rep_empty: "chain_rep bucket_empty nxt prv []"
  by (simp add: chain_rep_def bucket_empty_def)

lemma chain_rep_frame:
  assumes "chain_rep hm nxt prv xs" "same_outside A nxt nxt'" "same_outside A prv prv'"
    "set xs \<inter> A = {}"
  shows "chain_rep hm nxt' prv' xs"
proof -
  have "nxt a = nxt' a" "prv a = prv' a" if "a \<in> set xs" for a
    using assms that by (auto simp: same_outside_def)
  then show ?thesis
    using assms(1) lpath_cong [of xs nxt nxt'] lpath_cong [of "rev xs" prv prv']
    by (simp add: chain_rep_def)
qed

lemma chain_rep_first: "chain_rep hm nxt prv xs \<Longrightarrow> b_first hm = None \<longleftrightarrow> xs = []"
  by (cases xs) (auto simp: chain_rep_def)

lemma chain_append_rep:
  assumes "chain_rep hm nxt prv xs" "f \<notin> set xs"
  shows "\<exists>hm' nxt' prv'. chain_append f (hm, nxt, prv) = Some (hm', nxt', prv') \<and>
     chain_rep hm' nxt' prv' (xs @ [f]) \<and>
     same_outside (insert f (set xs)) nxt nxt' \<and> same_outside (insert f (set xs)) prv prv'"
proof (cases "xs = []")
  case True
  with assms show ?thesis
    by (auto simp: chain_rep_def chain_append_def same_outside_def)
next
  case False
  let ?l = "last xs"
  have l: "b_last hm = Some ?l"
    using assms False by (cases xs rule: rev_cases) (auto simp: chain_rep_def)
  have "lpath (nxt(?l := Some f, f := None)) (b_first hm) (xs @ [f]) None"
    using assms False by (intro lpath_snoc_upd) (auto simp: chain_rep_def)
  moreover have "lpath (prv(f := Some ?l)) (Some f) (rev (xs @ [f])) None"
    using assms l by (simp add: chain_rep_def)
  ultimately show ?thesis
    using assms False l last_in_set [OF False]
    by (auto simp: chain_append_def chain_rep_def same_outside_def)
qed

lemma chain_remove_rep:
  assumes rep: "chain_rep hm nxt prv (ys @ f # zs)"
  shows "\<exists>hm' nxt' prv'. chain_remove f (hm, nxt, prv) = Some (hm', nxt', prv') \<and>
     chain_rep hm' nxt' prv' (ys @ zs) \<and>
     same_outside (set (ys @ f # zs)) nxt nxt' \<and> same_outside (set (ys @ f # zs)) prv prv'"
proof -
  have nx: "lpath nxt (b_first hm) ys (Some f)" "lpath nxt (nxt f) zs None"
    and pv: "lpath prv (b_last hm) (rev zs) (Some f)" "lpath prv (prv f) (rev ys) None"
    and d: "distinct (ys @ f # zs)"
    and cnt: "elm_cnt hm = 1 + int (length ys) + int (length zs)"
    using rep by (auto simp: chain_rep_def rep_simps)
  show ?thesis
  proof (cases ys rule: rev_cases)
    case Nil
    show ?thesis
    proof (cases zs)
      case Nil
      with \<open>ys = []\<close> nx cnt show ?thesis
        by (auto simp: chain_remove_def chain_rep_def same_outside_def)
    next
      case (Cons z zs')
      then have "lpath prv (b_last hm) (rev zs') (Some z)" "nxt f = Some z" "prv f = None"
        using nx pv Nil by (auto simp: rep_simps)
      with Cons \<open>ys = []\<close> nx d cnt show ?thesis
        by (auto simp: chain_remove_def chain_rep_def same_outside_def rep_simps)
    qed
  next
    case (snoc ys' y)
    then have y: "prv f = Some y" "lpath prv (prv y) (rev ys') None"
      "lpath nxt (b_first hm) ys' (Some y)" "nxt y = Some f"
      using nx pv by (auto simp: rep_simps)
    show ?thesis
    proof (cases zs)
      case Nil
      then show ?thesis
        using snoc y nx pv d cnt
        by (auto simp: chain_remove_def chain_rep_def same_outside_def rep_simps)
    next
      case (Cons z zs')
      then have z: "nxt f = Some z" "lpath nxt (nxt z) zs' None"
        "lpath prv (b_last hm) (rev zs') (Some z)" using nx pv by (auto simp: rep_simps)
      show ?thesis
        using Cons snoc y z nx pv d cnt
        by (auto simp: chain_remove_def chain_rep_def same_outside_def rep_simps)
    qed
  qed
qed

lemma chain_find_path:
  assumes "lpath nxt p xs None" "\<forall>a \<in> set xs. test a = Some (P a)"
  shows "chain_find test nxt p = Some (List.find P xs)"
  using assms
proof (induction xs arbitrary: p)
  case Nil
  then show ?case by (simp add: chain_find.simps)
next
  case (Cons x xs)
  then show ?case by (subst chain_find.simps) auto
qed

lemma chain_find_rep:
  assumes "chain_rep hm nxt prv xs" "\<forall>a \<in> set xs. test a = Some (P a)"
  shows "chain_find test nxt (b_first hm) = Some (List.find P xs)"
  using assms chain_find_path by (simp add: chain_rep_def)

end
