(* ===== verification/Flow_Table.thy ===== *)
theory Flow_Table
  imports Flow Bucket_List Queues
begin

unbundle bit_operations_syntax

text \<open>
  \<^verbatim>\<open>FlowHashTable\<close> (\<^verbatim>\<open>flowHashTable.hpp\<close>, \<^verbatim>\<open>flowHashTable.cpp\<close>) and \<^verbatim>\<open>Flow::add_packet\<close>
  (\<^verbatim>\<open>flow.cpp\<close>): the table of live flows, the dispatch of a packet to its flow, the closing
  of flows into the flow queue, the scrubber and \<^verbatim>\<open>clear\<close>.  Flows live at addresses; their
  link fields are the functions \<open>fl_next\<close>, \<open>fl_prev\<close> and \<open>fl_hmb\<close>, the last naming the
  bucket by its index.  An operation is \<^term>\<open>None\<close> where the code dereferences NULL or a
  deleted flow; \<open>fl_fault\<close> records the one place where the code reads a field of the flow it
  has just deleted (\<^verbatim>\<open>hmb->mutex\<close> after a RST) and goes on.
\<close>

definition HASH_FLOW :: "flow_s \<Rightarrow> nat" where
  "HASH_FLOW s = unat ((((ucast (fs_sport s AND 0xff) :: u32) OR
      push_bit 8 (ucast (fs_dport s AND 0xff))) OR
      push_bit 16 (fs_saddr s AND 0xff)) OR
      push_bit 24 (fs_daddr s AND 0xff)) mod HASH_SIZE"

record 'pr fht =
  flow_hash_table :: "nat \<Rightarrow> bucket"
  fl_next :: "addr \<Rightarrow> ptr"
  fl_prev :: "addr \<Rightarrow> ptr"
  fl_hmb :: "addr \<Rightarrow> nat"
  fl_obj :: "addr \<rightharpoonup> 'pr flow"
  flow_cnt :: int
  fht_fq :: "addr Queue"
  fl_brk :: addr
  fl_fault :: bool

definition FlowHashTable_new :: "addr Queue \<Rightarrow> 'pr fht" where
  "FlowHashTable_new fq = \<lparr>flow_hash_table = (\<lambda>_. bucket_empty), fl_next = (\<lambda>_. None),
     fl_prev = (\<lambda>_. None), fl_hmb = (\<lambda>_. 0), fl_obj = Map.empty, flow_cnt = 0, fht_fq = fq,
     fl_brk = 0, fl_fault = False\<rparr>"

definition fht_chain :: "nat \<Rightarrow> 'pr fht \<Rightarrow> chain_state" where
  "fht_chain h t = (flow_hash_table t h, fl_next t, fl_prev t)"

definition fht_set_chain :: "nat \<Rightarrow> chain_state \<Rightarrow> 'pr fht \<Rightarrow> 'pr fht" where
  "fht_set_chain h c t = (case c of (hm, nxt, prv) \<Rightarrow>
     t\<lparr>flow_hash_table := (flow_hash_table t)(h := hm), fl_next := nxt, fl_prev := prv\<rparr>)"

definition fht_create :: "'pr flow \<Rightarrow> flow_s \<Rightarrow> 'pr fht \<Rightarrow> (addr \<times> 'pr fht) option" where
  "fht_create junk s t =
     (let a = fl_brk t; h = HASH_FLOW s
      in do {
        c \<leftarrow> chain_append a (fht_chain h t);
        Some (a, (fht_set_chain h c t)\<lparr>fl_obj := (fl_obj t)(a \<mapsto> (Flow_new junk)\<lparr>f_socket := s\<rparr>),
          fl_hmb := (fl_hmb t)(a := h), fl_brk := Suc a, flow_cnt := flow_cnt t + 1\<rparr>)
      })"

definition fht_remove :: "addr \<Rightarrow> 'pr fht \<Rightarrow> 'pr fht option" where
  "fht_remove f t =
     (if fl_obj t f = None then None
      else do {
        c \<leftarrow> chain_remove f (fht_chain (fl_hmb t f) t);
        Some ((fht_set_chain (fl_hmb t f) c t)\<lparr>flow_cnt := flow_cnt t - 1\<rparr>)
      })"

definition fht_find :: "flow_s \<Rightarrow> 'pr fht \<Rightarrow> ptr option" where
  "fht_find s t =
     (let hm = flow_hash_table t (HASH_FLOW s)
      in if elm_cnt hm > 0
         then chain_find (\<lambda>a. map_option (\<lambda>f. flow_socket_cmp f s = 0) (fl_obj t a)) (fl_next t) (b_first hm)
         else Some None)"

definition upd_flow :: "addr \<Rightarrow> 'pr flow \<Rightarrow> 'pr fht \<Rightarrow> 'pr fht" where
  "upd_flow a f t = t\<lparr>fl_obj := (fl_obj t)(a \<mapsto> f)\<rparr>"

section \<open>Flow::add_packet\<close>

definition finish_flow :: "addr \<Rightarrow> 'pr fht \<Rightarrow> 'pr fht option" where
  "finish_flow a t = do {
     t \<leftarrow> fht_remove a t;
     q \<leftarrow> Queue_enq a (fht_fq t);
     Some (t\<lparr>fht_fq := q\<rparr>)
   }"

definition Flow_add_packet :: "int \<times> int \<Rightarrow> addr \<Rightarrow> packet_t \<Rightarrow> bool \<Rightarrow> 'pr fht \<Rightarrow> (int \<times> 'pr fht) option" where
  "Flow_add_packet now a packet src t = do {
     f \<leftarrow> fl_obj t a;
     let plain = packet\<lparr>ptype := 0\<rparr>;
     (if tcp_flags packet AND TH_RST = TH_RST then
        (if pkts_src f < 4 then do {
           t \<leftarrow> fht_remove a t;
           Some (1, t\<lparr>fl_obj := (fl_obj t)(a := None), fl_fault := True\<rparr>)
         } else do {
           t \<leftarrow> finish_flow a (upd_flow a ((cal_packet now plain src f)\<lparr>f_close := 1\<rparr>) t);
           Some (0, t)
         })
      else if tcp_flags packet AND TH_FIN = TH_FIN then
        let f1 = cal_packet now plain src (f\<lparr>f_close := (if src then CLIENT_CLOSE else SERVER_CLOSE)\<rparr>)
        in if f_close f1 = CLIENT_CLOSE \<or> f_close f1 = SERVER_CLOSE
           then do {
             t \<leftarrow> finish_flow a (upd_flow a (f1\<lparr>f_close := 1\<rparr>) t);
             Some (0, t)
           }
           else Some (0, upd_flow a f1 t)
      else if src then
        (if tcp_flags packet = TH_SYN \<and> pkts_src f = 0 then
           Some (0, upd_flow a (cal_packet now plain src
             (f\<lparr>syn_sec := cap_sec packet, syn_usec := cap_usec packet\<rparr>)) t)
         else if tcp_flags packet = TH_SYN then
           Some (0, upd_flow a (cal_packet now plain src
             ((Flow_reset f)\<lparr>syn_sec := cap_sec packet, syn_usec := cap_usec packet\<rparr>)) t)
         else if ptype packet \<noteq> 0 then
           Some (0, upd_flow a (cal_packet now packet src (hook_packet packet src f)) t)
         else Some (0, upd_flow a (cal_packet now packet src f) t))
      else if ptype packet \<noteq> 0 then
        Some (0, upd_flow a (cal_packet now packet src (hook_packet packet src f)) t)
      else Some (0, upd_flow a (cal_packet now packet src f) t))
   }"

section \<open>FlowHashTable::add_packet\<close>

definition sock_of :: "packet_t \<Rightarrow> flow_s" where
  "sock_of p = \<lparr>fs_saddr = saddr p, fs_daddr = daddr p, fs_sport = sport p, fs_dport = dport p\<rparr>"

definition sock_rev :: "packet_t \<Rightarrow> flow_s" where
  "sock_rev p = \<lparr>fs_saddr = daddr p, fs_daddr = saddr p, fs_sport = dport p, fs_dport = sport p\<rparr>"

definition fht_add_packet :: "'pr flow \<Rightarrow> int \<times> int \<Rightarrow> packet_t \<Rightarrow> 'pr fht \<Rightarrow> 'pr fht option" where
  "fht_add_packet junk now packet t = do {
     r \<leftarrow> fht_find (sock_rev packet) t;
     (case r of
        Some f \<Rightarrow> map_option snd (Flow_add_packet now f packet False t)
      | None \<Rightarrow> do {
          r \<leftarrow> fht_find (sock_of packet) t;
          (case r of
             Some f \<Rightarrow> map_option snd (Flow_add_packet now f packet True t)
           | None \<Rightarrow>
               if ptype packet = REQ then do {
                 (f, t) \<leftarrow> fht_create junk (sock_of packet) t;
                 map_option snd (Flow_add_packet now f packet True t)
               } else if ptype packet = RSP then do {
                 (f, t) \<leftarrow> fht_create junk (sock_rev packet) t;
                 map_option snd (Flow_add_packet now f packet False t)
               } else Some t)
        })
   }"

section \<open>Counters, clear and the scrubber\<close>

fun fht_clear_bucket :: "nat \<Rightarrow> nat \<Rightarrow> 'pr fht \<Rightarrow> 'pr fht option" where
  "fht_clear_bucket 0 h t = None"
| "fht_clear_bucket (Suc k) h t =
     (case b_first (flow_hash_table t h) of
        None \<Rightarrow> Some (t\<lparr>flow_hash_table := (flow_hash_table t)(h :=
                  (flow_hash_table t h)\<lparr>b_first := None, b_last := None\<rparr>)\<rparr>)
      | Some f \<Rightarrow>
          if fl_obj t f = None then None
          else fht_clear_bucket k h (t\<lparr>flow_hash_table := (flow_hash_table t)(h :=
                 (flow_hash_table t h)\<lparr>b_first := fl_next t f, elm_cnt := elm_cnt (flow_hash_table t h) - 1\<rparr>),
                 fl_obj := (fl_obj t)(f := None)\<rparr>))"

text \<open>The inner loop runs once per flow of the bucket and once more to see NULL, so its fuel is
  the bucket's element count plus one.\<close>

definition fht_clear :: "'pr fht \<Rightarrow> 'pr fht option" where
  "fht_clear t = over_buckets (\<lambda>h t. fht_clear_bucket (Suc (nat (elm_cnt (flow_hash_table t h)))) h t)
                   [0..<HASH_SIZE] (t\<lparr>flow_cnt := 0\<rparr>)"

definition fht_size :: "'pr fht \<Rightarrow> nat" where "fht_size t = HASH_SIZE"

definition fht_fcnt :: "'pr fht \<Rightarrow> int" where "fht_fcnt t = flow_cnt t"

definition fht_scnt :: "'pr fht \<Rightarrow> int" where
  "fht_scnt t = int (length (filter (\<lambda>h. b_first (flow_hash_table t h) \<noteq> None) [0..<HASH_SIZE]))"

text \<open>The scrubber compares an \<^verbatim>\<open>unsigned long\<close> with the \<^verbatim>\<open>int\<close> timeout, which is converted to
  \<^verbatim>\<open>unsigned long\<close>.  \<open>now a\<close> is the time read when the flow at \<open>a\<close> is examined.\<close>

definition timed_out :: "int \<Rightarrow> int \<Rightarrow> int \<Rightarrow> bool" where
  "timed_out timeout tv_sec last_sec \<longleftrightarrow>
     (word_of_int \<bar>tv_sec - last_sec\<bar> :: u64) > word_of_int timeout"

partial_function (option) scrub_bucket ::
    "int \<Rightarrow> (addr \<Rightarrow> int) \<Rightarrow> ptr \<Rightarrow> int \<Rightarrow> 'pr fht \<Rightarrow> (int \<times> 'pr fht) option" where
  "scrub_bucket timeout now p num t =
     (case p of
        None \<Rightarrow> Some (num, t)
      | Some a \<Rightarrow> do {
          f \<leftarrow> fl_obj t a;
          let flow_next = fl_next t a;
          (if timed_out timeout (now a) (last_action_sec f) then do {
             t \<leftarrow> finish_flow a (upd_flow a (f\<lparr>f_close := FORCED_CLOSE\<rparr>) t);
             scrub_bucket timeout now flow_next (num + 1) t
           } else scrub_bucket timeout now flow_next num t)
        })"

definition flow_scrubber :: "int \<Rightarrow> (addr \<Rightarrow> int) \<Rightarrow> 'pr fht \<Rightarrow> (int \<times> 'pr fht) option" where
  "flow_scrubber timeout now t =
     over_buckets (\<lambda>h (num, t). scrub_bucket timeout now (b_first (flow_hash_table t h)) num t)
       [0..<HASH_SIZE] (0, t)"

section \<open>Invariant\<close>

definition flip_sock :: "flow_s \<Rightarrow> flow_s" where
  "flip_sock s = \<lparr>fs_saddr = fs_daddr s, fs_daddr = fs_saddr s, fs_sport = fs_dport s, fs_dport = fs_sport s\<rparr>"

definition sock :: "'pr fht \<Rightarrow> addr \<Rightarrow> flow_s" where
  "sock t a = f_socket (the (fl_obj t a))"

text \<open>\<open>fht_rep t ch qs\<close>: bucket \<open>h\<close> holds the chain \<open>ch h\<close>, the flow queue holds \<open>qs\<close>; every
  chained flow is live, lies in the bucket of its socket, and no two flows of a bucket have
  the same socket.\<close>

definition fht_rep :: "'pr fht \<Rightarrow> (nat \<Rightarrow> addr list) \<Rightarrow> addr list \<Rightarrow> bool" where
  "fht_rep t ch qs \<longleftrightarrow>
     (\<forall>h. chain_rep (flow_hash_table t h) (fl_next t) (fl_prev t) (ch h)) \<and>
     (\<forall>h. \<forall>a \<in> set (ch h). fl_hmb t a = h \<and> a < fl_brk t \<and> fl_obj t a \<noteq> None \<and> HASH_FLOW (sock t a) = h) \<and>
     (\<forall>h. distinct (map (sock t) (ch h))) \<and>
     flow_cnt t = (\<Sum>h < HASH_SIZE. int (length (ch h))) \<and>
     Queue_rep (fht_fq t) qs"

text \<open>The table as a map from sockets to flows.\<close>

definition fht_abs :: "'pr fht \<Rightarrow> (nat \<Rightarrow> addr list) \<Rightarrow> flow_s \<Rightarrow> 'pr flow option" where
  "fht_abs t ch s = Option.bind (List.find (\<lambda>a. sock t a = s) (ch (HASH_FLOW s))) (fl_obj t)"

lemma HASH_FLOW_less [simp]: "HASH_FLOW s < HASH_SIZE"
  by (simp add: HASH_FLOW_def HASH_SIZE_def)

lemma flip_flip [simp]: "flip_sock (flip_sock s) = s"
  by (simp add: flip_sock_def)

lemma sock_rev_flip: "sock_rev p = flip_sock (sock_of p)"
  by (simp add: sock_rev_def sock_of_def flip_sock_def)

lemma fht_rep_new: "Queue_rep fq qs \<Longrightarrow> fht_rep (FlowHashTable_new fq) (\<lambda>_. []) qs"
  by (simp add: fht_rep_def FlowHashTable_new_def chain_rep_empty)

lemma fht_rep_bucket:
  assumes "fht_rep t ch qs" "a \<in> set (ch h)"
  shows "fl_hmb t a = h" "a < fl_brk t" "fl_obj t a \<noteq> None" "HASH_FLOW (sock t a) = h" "h < HASH_SIZE"
proof -
  show *: "fl_hmb t a = h" "a < fl_brk t" "fl_obj t a \<noteq> None" "HASH_FLOW (sock t a) = h"
    using assms unfolding fht_rep_def by blast+
  show "h < HASH_SIZE" using HASH_FLOW_less [of "sock t a"] *(4) by simp
qed

lemma fht_find_rep:
  assumes "fht_rep t ch qs"
  shows "fht_find s t = Some (List.find (\<lambda>a. sock t a = s) (ch (HASH_FLOW s)))"
proof -
  let ?h = "HASH_FLOW s"
  have rep: "chain_rep (flow_hash_table t ?h) (fl_next t) (fl_prev t) (ch ?h)"
    using assms by (simp add: fht_rep_def)
  have "map_option (\<lambda>f. flow_socket_cmp f s = 0) (fl_obj t a) = Some (sock t a = s)"
    if "a \<in> set (ch ?h)" for a
    using fht_rep_bucket(3) [OF assms that] by (auto simp: sock_def flow_socket_cmp_def)
  moreover have "elm_cnt (flow_hash_table t ?h) = int (length (ch ?h))"
    using rep by (simp add: chain_rep_def)
  ultimately show ?thesis
    using chain_find_rep [OF rep] by (auto simp: fht_find_def Let_def)
qed

lemma fht_find_abs:
  assumes "fht_rep t ch qs"
  shows "fht_find s t = Some None \<Longrightarrow> fht_abs t ch s = None"
    and "fht_find s t = Some (Some a) \<Longrightarrow>
      a \<in> set (ch (HASH_FLOW s)) \<and> sock t a = s \<and> fht_abs t ch s = fl_obj t a"
proof -
  note r = fht_find_rep [OF assms, of s]
  show "fht_abs t ch s = None" if "fht_find s t = Some None"
    using that unfolding r by (simp add: fht_abs_def)
  show "a \<in> set (ch (HASH_FLOW s)) \<and> sock t a = s \<and> fht_abs t ch s = fl_obj t a"
    if "fht_find s t = Some (Some a)"
  proof -
    have f: "List.find (\<lambda>a. sock t a = s) (ch (HASH_FLOW s)) = Some a"
      using that unfolding r by simp
    then have "a \<in> set (ch (HASH_FLOW s)) \<and> sock t a = s" by (auto simp: find_Some_iff)
    then show ?thesis by (simp add: fht_abs_def f)
  qed
qed

lemma fht_find_total: "fht_rep t ch qs \<Longrightarrow> \<exists>r. fht_find s t = Some r"
  using fht_find_rep by blast

subsection \<open>Updating one flow\<close>

lemma sock_upd: "f_socket f = sock t a \<Longrightarrow> sock (upd_flow a f t) = sock t"
  by (auto simp: sock_def upd_flow_def fun_eq_iff)

lemma upd_flow_rep:
  assumes "fht_rep t ch qs" "f_socket f = sock t a"
  shows "fht_rep (upd_flow a f t) ch qs"
  using assms(1) sock_upd [OF assms(2)] by (auto simp: fht_rep_def) (auto simp: upd_flow_def)

lemma find_distinct_map:
  assumes "distinct (map g xs)" "a \<in> set xs"
  shows "List.find (\<lambda>x. g x = g a) xs = Some a"
  using assms by (induction xs) auto

lemma upd_flow_abs:
  assumes "fht_rep t ch qs" "a \<in> set (ch h)" "f_socket f = sock t a"
  shows "fht_abs (upd_flow a f t) ch = (fht_abs t ch)(sock t a \<mapsto> f)"
proof
  fix s
  have d: "distinct (map (sock t) (ch (HASH_FLOW s)))" using assms(1) by (simp add: fht_rep_def)
  show "fht_abs (upd_flow a f t) ch s = ((fht_abs t ch)(sock t a \<mapsto> f)) s"
  proof (cases "s = sock t a")
    case True
    then have "a \<in> set (ch (HASH_FLOW s))" using assms fht_rep_bucket(4) by metis
    from find_distinct_map [OF d this] True show ?thesis
      by (simp add: fht_abs_def sock_upd [OF assms(3)]) (simp add: upd_flow_def)
  next
    case False
    then have "b \<noteq> a" if "List.find (\<lambda>a. sock t a = s) (ch (HASH_FLOW s)) = Some b" for b
      using that by (auto simp: find_Some_iff)
    then show ?thesis using False
      by (cases "List.find (\<lambda>a. sock t a = s) (ch (HASH_FLOW s))")
        (auto simp: fht_abs_def sock_upd [OF assms(3)], simp add: upd_flow_def)
  qed
qed

subsection \<open>One chain changes\<close>

lemma fht_cnt_update:
  fixes ch :: "nat \<Rightarrow> addr list"
  assumes "h < HASH_SIZE"
  shows "(\<Sum>k < HASH_SIZE. int (length ((ch(h := xs)) k))) =
     (\<Sum>k < HASH_SIZE. int (length (ch k))) - int (length (ch h)) + int (length xs)"
proof -
  have split: "{..<HASH_SIZE} = insert h ({..<HASH_SIZE} - {h})" using assms by auto
  have "(\<Sum>k < HASH_SIZE. int (length ((ch(h := xs)) k))) =
      int (length xs) + (\<Sum>k \<in> {..<HASH_SIZE} - {h}. int (length (ch k)))"
    by (subst split, subst sum.insert) simp_all
  moreover have "(\<Sum>k < HASH_SIZE. int (length (ch k))) =
      int (length (ch h)) + (\<Sum>k \<in> {..<HASH_SIZE} - {h}. int (length (ch k)))"
    by (subst split, subst sum.insert) simp_all
  ultimately show ?thesis by simp
qed

lemma other_chains:
  assumes "fht_rep t ch qs" "k \<noteq> h"
  shows "set (ch k) \<inter> insert (fl_brk t) (set (ch h)) = {}"
proof -
  have "a \<noteq> fl_brk t \<and> a \<notin> set (ch h)" if "a \<in> set (ch k)" for a
    using fht_rep_bucket(1,2) [OF assms(1) that] fht_rep_bucket(1) [OF assms(1), of a h] assms(2)
    by auto
  then show ?thesis by blast
qed

lemma fht_create_rep:
  assumes rep: "fht_rep t ch qs" and none: "fht_find s t = Some None"
  shows "\<exists>t'. fht_create junk s t = Some (fl_brk t, t') \<and>
     fht_rep t' (ch(HASH_FLOW s := ch (HASH_FLOW s) @ [fl_brk t])) qs \<and>
     fl_obj t' = (fl_obj t)(fl_brk t \<mapsto> (Flow_new junk)\<lparr>f_socket := s\<rparr>) \<and>
     sock t' (fl_brk t) = s \<and> (\<forall>h. \<forall>a \<in> set (ch h). sock t' a = sock t a) \<and> fl_fault t' = fl_fault t"
proof -
  let ?a = "fl_brk t" and ?h = "HASH_FLOW s"
  have ch: "chain_rep (flow_hash_table t ?h) (fl_next t) (fl_prev t) (ch ?h)"
    using rep by (simp add: fht_rep_def)
  have fresh: "?a \<notin> set (ch k)" for k using fht_rep_bucket(2) [OF rep] by blast
  obtain hm nxt prv where app: "chain_append ?a (fht_chain ?h t) = Some (hm, nxt, prv)"
    and new: "chain_rep hm nxt prv (ch ?h @ [?a])"
    and out: "same_outside (insert ?a (set (ch ?h))) (fl_next t) nxt"
      "same_outside (insert ?a (set (ch ?h))) (fl_prev t) prv"
    using chain_append_rep [OF ch fresh] unfolding fht_chain_def by blast
  define t' where "t' = (fht_set_chain ?h (hm, nxt, prv) t)\<lparr>fl_obj := (fl_obj t)(?a \<mapsto> (Flow_new junk)\<lparr>f_socket := s\<rparr>),
          fl_hmb := (fl_hmb t)(?a := ?h), fl_brk := Suc ?a, flow_cnt := flow_cnt t + 1\<rparr>"
  have sock: "sock t' ?a = s" "\<And>k a. a \<in> set (ch k) \<Longrightarrow> sock t' a = sock t a"
    using fresh by (auto simp: sock_def t'_def)
  have "distinct (map (sock t') ((ch(?h := ch ?h @ [?a])) k))" for k
  proof -
    have "distinct (map (sock t) (ch k))" using rep by (simp add: fht_rep_def)
    moreover have m: "map (sock t') (ch k) = map (sock t) (ch k)" for k using sock(2) by simp
    moreover have "s \<notin> set (map (sock t) (ch ?h))"
      using none fht_find_rep [OF rep, of s] by (auto simp: find_None_iff)
    ultimately show ?thesis using sock(1) by (cases "k = ?h") (simp_all del: set_map add: m)
  qed
  moreover have "chain_rep (flow_hash_table t' k) (fl_next t') (fl_prev t') ((ch(?h := ch ?h @ [?a])) k)" for k
  proof (cases "k = ?h")
    case True
    with new show ?thesis by (simp add: t'_def fht_set_chain_def)
  next
    case False
    have "chain_rep (flow_hash_table t k) (fl_next t) (fl_prev t) (ch k)"
      using rep by (simp add: fht_rep_def)
    from chain_rep_frame [OF this out other_chains [OF rep False]] False show ?thesis
      by (simp add: t'_def fht_set_chain_def)
  qed
  moreover have "flow_cnt t' = (\<Sum>k < HASH_SIZE. int (length ((ch(?h := ch ?h @ [?a])) k)))"
    using rep by (subst fht_cnt_update) (simp_all add: fht_rep_def t'_def)
  moreover have "fl_hmb t' a = k \<and> a < fl_brk t' \<and> fl_obj t' a \<noteq> None \<and> HASH_FLOW (sock t' a) = k"
    if "a \<in> set ((ch(?h := ch ?h @ [?a])) k)" for a k
  proof (cases "a = ?a")
    case True
    with that fresh sock(1) show ?thesis by (auto simp: t'_def split: if_splits)
  next
    case False
    then have "a \<in> set (ch k)" using that by (auto split: if_splits)
    with False fht_rep_bucket [OF rep this] sock(2) show ?thesis by (simp add: t'_def)
  qed
  ultimately have "fht_rep t' (ch(?h := ch ?h @ [?a])) qs"
    using rep unfolding fht_rep_def by (simp add: t'_def fht_set_chain_def)
  moreover have "fht_create junk s t = Some (?a, t')"
    using app by (simp add: fht_create_def t'_def Let_def)
  ultimately show ?thesis using sock by (auto simp: t'_def fht_set_chain_def)
qed

lemma fht_set_chain_fields [simp]:
  "fl_obj (fht_set_chain h c t) = fl_obj t" "fl_hmb (fht_set_chain h c t) = fl_hmb t"
  "fl_brk (fht_set_chain h c t) = fl_brk t" "fht_fq (fht_set_chain h c t) = fht_fq t"
  "fl_fault (fht_set_chain h c t) = fl_fault t" "flow_cnt (fht_set_chain h c t) = flow_cnt t"
  by (simp_all add: fht_set_chain_def split: prod.splits)

text \<open>Dropping a flow from its chain; the flow object itself is then unreachable from the table,
  so it does not matter what happens to it.\<close>

lemma fht_remove_rep:
  assumes rep: "fht_rep t ch qs" and h: "ch h = ys @ a # zs"
  shows "\<exists>t'. fht_remove a t = Some t' \<and> fht_rep t' (ch(h := ys @ zs)) qs \<and>
     fl_obj t' = fl_obj t \<and> fht_fq t' = fht_fq t \<and> fl_fault t' = fl_fault t \<and> fl_brk t' = fl_brk t \<and>
     same_outside (set (ch h)) (fl_next t) (fl_next t')"
proof -
  have a: "a \<in> set (ch h)" using h by simp
  note b = fht_rep_bucket [OF rep a]
  have "chain_rep (flow_hash_table t h) (fl_next t) (fl_prev t) (ys @ a # zs)"
    using rep unfolding fht_rep_def h [symmetric] by blast
  then obtain hm nxt prv where rem: "chain_remove a (fht_chain h t) = Some (hm, nxt, prv)"
    and new: "chain_rep hm nxt prv (ys @ zs)"
    and out: "same_outside (set (ch h)) (fl_next t) nxt" "same_outside (set (ch h)) (fl_prev t) prv"
    using chain_remove_rep unfolding fht_chain_def h by blast
  define t' where "t' = (fht_set_chain h (hm, nxt, prv) t)\<lparr>flow_cnt := flow_cnt t - 1\<rparr>"
  have sock: "sock t' = sock t" by (simp add: sock_def t'_def fun_eq_iff)
  have ds: "distinct (map (sock t) (ch k))" for k using rep by (simp add: fht_rep_def)
  have "distinct (map (sock t') ((ch(h := ys @ zs)) k))" for k
    using ds [of k] ds [of h] by (auto simp: sock h)
  moreover have "chain_rep (flow_hash_table t' k) (fl_next t') (fl_prev t') ((ch(h := ys @ zs)) k)" for k
  proof (cases "k = h")
    case True
    with new show ?thesis by (simp add: t'_def fht_set_chain_def)
  next
    case False
    have "chain_rep (flow_hash_table t k) (fl_next t) (fl_prev t) (ch k)"
      "set (ch k) \<inter> set (ch h) = {}"
      using rep other_chains [OF rep False] by (auto simp: fht_rep_def)
    from chain_rep_frame [OF this(1) out this(2)] False show ?thesis
      by (simp add: t'_def fht_set_chain_def)
  qed
  moreover have "flow_cnt t' = (\<Sum>k < HASH_SIZE. int (length ((ch(h := ys @ zs)) k)))"
    using rep b(5) by (subst fht_cnt_update) (simp_all add: fht_rep_def t'_def h)
  moreover have "fl_hmb t' x = k \<and> x < fl_brk t' \<and> fl_obj t' x \<noteq> None \<and> HASH_FLOW (sock t' x) = k"
    if "x \<in> set ((ch(h := ys @ zs)) k)" for x k
  proof -
    have "x \<in> set (ch k)" using that h by (auto split: if_splits)
    from fht_rep_bucket [OF rep this] show ?thesis by (simp add: sock) (simp add: t'_def)
  qed
  ultimately have "fht_rep t' (ch(h := ys @ zs)) qs"
    using rep unfolding fht_rep_def by (simp add: t'_def)
  moreover have "fht_remove a t = Some t'"
    using b(1,3) rem by (simp add: fht_remove_def t'_def)
  moreover have "fl_next t' = nxt" by (simp add: t'_def fht_set_chain_def)
  ultimately show ?thesis using out by (auto simp: t'_def)
qed

subsection \<open>Table and queue together\<close>

text \<open>\<open>fht_inv\<close>: the flows of the queue are live, distinct and in no chain.  \<open>fht_view t M d\<close>
  is the abstract content of the table: the map \<open>M\<close> from sockets to live flows and the flows
  \<open>d\<close> handed over to the flow queue.\<close>

definition fht_inv :: "'pr fht \<Rightarrow> (nat \<Rightarrow> addr list) \<Rightarrow> addr list \<Rightarrow> bool" where
  "fht_inv t ch qs \<longleftrightarrow> fht_rep t ch qs \<and> distinct qs \<and>
     (\<forall>a \<in> set qs. a < fl_brk t \<and> fl_obj t a \<noteq> None \<and> (\<forall>h. a \<notin> set (ch h)))"

definition fht_view :: "'pr fht \<Rightarrow> (flow_s \<rightharpoonup> 'pr flow) \<Rightarrow> 'pr flow list \<Rightarrow> bool" where
  "fht_view t M d \<longleftrightarrow>
     (\<exists>ch qs. fht_inv t ch qs \<and> M = fht_abs t ch \<and> d = map (\<lambda>a. the (fl_obj t a)) qs)"

lemma fht_view_new:
  "Queue_rep fq [] \<Longrightarrow> fht_view (FlowHashTable_new fq :: 'pr fht) Map.empty []"
  unfolding fht_view_def fht_inv_def
  by (intro exI [of _ "\<lambda>_. []"] exI [of _ "[]"])
    (simp add: fht_rep_new, simp add: fht_abs_def FlowHashTable_new_def fun_eq_iff)

lemma fht_abs_none:
  assumes "\<And>a. a \<in> set (ch (HASH_FLOW s)) \<Longrightarrow> sock t a \<noteq> s"
  shows "fht_abs t ch s = None"
proof -
  have "List.find (\<lambda>a. sock t a = s) (ch (HASH_FLOW s)) = None"
    using assms by (auto simp: find_None_iff)
  then show ?thesis by (simp add: fht_abs_def)
qed

lemma fht_abs_eqI:
  assumes "fht_rep t ch qs" "\<And>a. a \<in> set (ch (HASH_FLOW s)) \<Longrightarrow> sock t a = s \<Longrightarrow> fl_obj t a = x"
    "(\<And>a. a \<in> set (ch (HASH_FLOW s)) \<Longrightarrow> sock t a \<noteq> s) \<Longrightarrow> x = None"
  shows "fht_abs t ch s = x"
proof (cases "List.find (\<lambda>a. sock t a = s) (ch (HASH_FLOW s))")
  case None
  then have "x = None" using assms(3) by (auto simp: find_None_iff)
  with None show ?thesis by (simp add: fht_abs_def)
next
  case (Some a)
  then have "a \<in> set (ch (HASH_FLOW s)) \<and> sock t a = s" by (auto simp: find_Some_iff)
  with assms(2) Some show ?thesis by (simp add: fht_abs_def)
qed

lemma fht_abs_at:
  assumes rep: "fht_rep t ch qs" and a: "a \<in> set (ch h)"
  shows "fht_abs t ch (sock t a) = fl_obj t a"
proof -
  have "a \<in> set (ch (HASH_FLOW (sock t a)))" using fht_rep_bucket(4) [OF rep a] a by simp
  moreover have "distinct (map (sock t) (ch (HASH_FLOW (sock t a))))"
    using rep by (simp add: fht_rep_def)
  ultimately show ?thesis by (simp add: fht_abs_def find_distinct_map)
qed

lemma fht_abs_someD:
  assumes "fht_abs t ch s = Some f"
  shows "\<exists>a. a \<in> set (ch (HASH_FLOW s)) \<and> sock t a = s \<and> fl_obj t a = Some f"
proof -
  obtain a where a: "List.find (\<lambda>a. sock t a = s) (ch (HASH_FLOW s)) = Some a" "fl_obj t a = Some f"
    using assms by (auto simp: fht_abs_def bind_eq_Some_conv)
  then have "a \<in> set (ch (HASH_FLOW s)) \<and> sock t a = s" by (auto simp: find_Some_iff)
  with a show ?thesis by blast
qed

lemma fht_abs_socket: "fht_abs t ch s = Some f \<Longrightarrow> f_socket f = s"
  using fht_abs_someD [of t ch s f] by (auto simp: sock_def)

lemma fht_create_view:
  assumes inv: "fht_inv t ch qs" and none: "fht_find s t = Some None"
  shows "\<exists>t' ch'. fht_create junk s t = Some (fl_brk t, t') \<and> fht_inv t' ch' qs \<and>
     fl_brk t \<in> set (ch' (HASH_FLOW s)) \<and> sock t' (fl_brk t) = s \<and>
     fl_obj t' (fl_brk t) = Some ((Flow_new junk)\<lparr>f_socket := s\<rparr>) \<and>
     fht_abs t' ch' = (fht_abs t ch)(s \<mapsto> (Flow_new junk)\<lparr>f_socket := s\<rparr>) \<and>
     (\<forall>a \<in> set qs. fl_obj t' a = fl_obj t a) \<and> fl_fault t' = fl_fault t"
proof -
  have rep: "fht_rep t ch qs" using inv by (simp add: fht_inv_def)
  let ?a = "fl_brk t" and ?f = "(Flow_new junk)\<lparr>f_socket := s\<rparr>"
  let ?ch = "ch(HASH_FLOW s := ch (HASH_FLOW s) @ [?a])"
  obtain t' where t': "fht_create junk s t = Some (?a, t')" "fht_rep t' ?ch qs"
      "fl_obj t' = (fl_obj t)(?a \<mapsto> ?f)" "sock t' ?a = s"
      "\<And>h a. a \<in> set (ch h) \<Longrightarrow> sock t' a = sock t a" "fl_fault t' = fl_fault t"
    using fht_create_rep [OF rep none, of junk] by blast
  have brk: "fl_brk t' = Suc ?a" using t'(1) by (auto simp: fht_create_def Let_def bind_eq_Some_conv)
  have fresh: "?a \<notin> set (ch h)" for h using fht_rep_bucket(2) [OF rep] by blast
  have qs: "a \<noteq> ?a \<and> fl_obj t' a = fl_obj t a" if "a \<in> set qs" for a
    using inv that t'(3) by (auto simp: fht_inv_def)
  have "fht_inv t' ?ch qs"
    using inv t'(2) qs brk by (auto simp: fht_inv_def less_Suc_eq)
  moreover have "fht_abs t' ?ch = (fht_abs t ch)(s \<mapsto> ?f)"
  proof
    fix r
    show "fht_abs t' ?ch r = ((fht_abs t ch)(s \<mapsto> ?f)) r"
    proof (cases "r = s")
      case True
      have "?a \<in> set (?ch (HASH_FLOW s))" by simp
      from fht_abs_at [OF t'(2) this] True t'(3,4) show ?thesis by (simp del: fun_upd_apply) simp
    next
      case False
      show ?thesis
      proof (rule fht_abs_eqI [OF t'(2)])
        fix x assume x: "x \<in> set (?ch (HASH_FLOW r))" "sock t' x = r"
        then have "x \<in> set (ch (HASH_FLOW r))" "x \<noteq> ?a" using t'(4) False by (auto split: if_splits)
        with x(2) t'(3,5) fht_abs_at [OF rep this(1)] False
        show "fl_obj t' x = ((fht_abs t ch)(s \<mapsto> ?f)) r" by simp
      next
        assume none: "\<And>x. x \<in> set (?ch (HASH_FLOW r)) \<Longrightarrow> sock t' x \<noteq> r"
        have "sock t x \<noteq> r" if x: "x \<in> set (ch (HASH_FLOW r))" for x
        proof -
          have "x \<in> set (?ch (HASH_FLOW r))" using x by (cases "HASH_FLOW r = HASH_FLOW s") auto
          from none [OF this] t'(5) [OF x] show ?thesis by simp
        qed
        with False show "((fht_abs t ch)(s \<mapsto> ?f)) r = None" by (simp add: fht_abs_none)
      qed
    qed
  qed
  ultimately show ?thesis
    using t'(1,3,4,6) qs by (intro exI [of _ t'] exI [of _ ?ch]) simp
qed

lemma fht_remove_abs:
  assumes rep: "fht_rep t ch qs" and h: "ch h = ys @ a # zs"
    and rep': "fht_rep t' (ch(h := ys @ zs)) qs" and obj: "fl_obj t' = fl_obj t"
  shows "fht_abs t' (ch(h := ys @ zs)) = (fht_abs t ch)(sock t a := None)"
proof
  fix r
  have sock: "sock t' = sock t" by (simp add: sock_def obj fun_eq_iff)
  have a: "a \<in> set (ch h)" using h by simp
  have ha: "HASH_FLOW (sock t a) = h" by (rule fht_rep_bucket(4) [OF rep a])
  have d: "distinct (map (sock t) (ch h))" using rep by (simp add: fht_rep_def)
  show "fht_abs t' (ch(h := ys @ zs)) r = ((fht_abs t ch)(sock t a := None)) r"
  proof (cases "r = sock t a")
    case True
    have "x \<in> set (ys @ zs) \<Longrightarrow> sock t x \<noteq> sock t a" for x
      using d unfolding h by (auto simp: image_iff)
    with True show ?thesis using ha by (intro trans [OF fht_abs_none]) (simp_all add: sock)
  next
    case False
    show ?thesis
    proof (rule fht_abs_eqI [OF rep'])
      fix x assume x: "x \<in> set ((ch(h := ys @ zs)) (HASH_FLOW r))" "sock t' x = r"
      then have "x \<in> set (ch (HASH_FLOW r))" using h by (auto split: if_splits)
      with x(2) fht_abs_at [OF rep this] False
      show "fl_obj t' x = ((fht_abs t ch)(sock t a := None)) r" by (simp add: sock obj)
    next
      assume none: "\<And>x. x \<in> set ((ch(h := ys @ zs)) (HASH_FLOW r)) \<Longrightarrow> sock t' x \<noteq> r"
      have "sock t x \<noteq> r" if x: "x \<in> set (ch (HASH_FLOW r))" for x
      proof (cases "x = a")
        case True
        with False show ?thesis by simp
      next
        case False
        then have "x \<in> set ((ch(h := ys @ zs)) (HASH_FLOW r))"
          using x h by (cases "HASH_FLOW r = h") auto
        from none [OF this] show ?thesis by (simp add: sock)
      qed
      then show "((fht_abs t ch)(sock t a := None)) r = None" by (simp add: fht_abs_none)
    qed
  qed
qed

lemma finish_flow_view:
  assumes inv: "fht_inv t ch qs" and a: "a \<in> set (ch h)"
  shows "\<exists>t' ch'. finish_flow a t = Some t' \<and> fht_inv t' ch' (qs @ [a]) \<and> fl_obj t' = fl_obj t \<and>
     fht_abs t' ch' = (fht_abs t ch)(sock t a := None) \<and> fl_fault t' = fl_fault t \<and>
     ch' = ch(h := remove1 a (ch h)) \<and> same_outside (set (ch h)) (fl_next t) (fl_next t')"
proof -
  have rep: "fht_rep t ch qs" using inv by (simp add: fht_inv_def)
  obtain ys zs where h: "ch h = ys @ a # zs" using split_list [OF a] by blast
  have d: "distinct (ch h)" using rep by (auto simp: fht_rep_def distinct_map)
  then have r1: "remove1 a (ch h) = ys @ zs" by (simp add: h remove1_append)
  obtain t1 where t1: "fht_remove a t = Some t1" "fht_rep t1 (ch(h := ys @ zs)) qs"
      "fl_obj t1 = fl_obj t" "fht_fq t1 = fht_fq t" "fl_fault t1 = fl_fault t" "fl_brk t1 = fl_brk t"
      "same_outside (set (ch h)) (fl_next t) (fl_next t1)"
    using fht_remove_rep [OF rep h] by blast
  have fq: "Queue_rep (fht_fq t1) qs" using t1(2) by (simp add: fht_rep_def)
  obtain q where q: "Queue_enq a (fht_fq t1) = Some q" "Queue_rep q (qs @ [a])"
    using Queue_enq_rep [OF fq, of a] by (elim exE conjE)
  let ?t = "t1\<lparr>fht_fq := q\<rparr>"
  have sock: "sock ?t = sock t1" by (simp add: sock_def fun_eq_iff)
  have rep': "fht_rep ?t (ch(h := ys @ zs)) (qs @ [a])"
    using t1(2) q(2) unfolding fht_rep_def sock by simp
  have abs: "fht_abs ?t (ch(h := ys @ zs)) = (fht_abs t ch)(sock t a := None)"
    using fht_remove_abs [OF rep h t1(2,3)] by (simp add: fht_abs_def sock fun_eq_iff)
  have anot: "a \<notin> set ((ch(h := ys @ zs)) k)" for k
  proof (cases "k = h")
    case True
    with d h show ?thesis by simp
  next
    case False
    with fht_rep_bucket(1) [OF rep a] fht_rep_bucket(1) [OF rep, of a k] show ?thesis by auto
  qed
  have sub: "x \<notin> set ((ch(h := ys @ zs)) k)" if "x \<notin> set (ch k)" for x k
    using that h by (cases "k = h") auto
  have q2: "x < fl_brk t \<and> fl_obj t x \<noteq> None \<and> (\<forall>k. x \<notin> set (ch k))" if "x \<in> set qs" for x
    using inv that by (simp add: fht_inv_def)
  have q1: "distinct qs" "a \<notin> set qs" using inv q2 [of a] a by (auto simp: fht_inv_def)
  have "x < fl_brk ?t \<and> fl_obj ?t x \<noteq> None \<and> (\<forall>k. x \<notin> set ((ch(h := ys @ zs)) k))"
    if "x \<in> set (qs @ [a])" for x
  proof (cases "x = a")
    case True
    with anot fht_rep_bucket(2,3) [OF rep a] t1(3,6) show ?thesis by simp
  next
    case False
    with that have "x \<in> set qs" by simp
    from q2 [OF this] sub t1(3,6) show ?thesis by simp
  qed
  then have "fht_inv ?t (ch(h := ys @ zs)) (qs @ [a])"
    using rep' q1 unfolding fht_inv_def by simp
  moreover have "finish_flow a t = Some ?t" using t1(1) q(1) by (simp add: finish_flow_def)
  ultimately show ?thesis using abs t1 by (auto simp: r1)
qed

section \<open>The contract of the table\<close>

text \<open>What becomes of a flow that receives a packet, without addresses: it is kept, handed to
  the flow queue, or dropped.\<close>

datatype 'pr outcome = Keep "'pr flow" | Finish "'pr flow" | Drop

definition flow_outcome :: "int \<times> int \<Rightarrow> packet_t \<Rightarrow> bool \<Rightarrow> 'pr flow \<Rightarrow> 'pr outcome" where
  "flow_outcome now p src f =
     (let plain = p\<lparr>ptype := 0\<rparr>;
          with_syn = (\<lambda>f. f\<lparr>syn_sec := cap_sec p, syn_usec := cap_usec p\<rparr>)
      in if tcp_flags p AND TH_RST \<noteq> 0 then
           (if pkts_src f < 4 then Drop else Finish ((cal_packet now plain src f)\<lparr>f_close := 1\<rparr>))
         else if tcp_flags p AND TH_FIN \<noteq> 0 then
           Finish ((cal_packet now plain src f)\<lparr>f_close := 1\<rparr>)
         else if src \<and> tcp_flags p = TH_SYN then
           Keep (cal_packet now plain src (with_syn (if pkts_src f = 0 then f else Flow_reset f)))
         else Keep (cal_packet now p src (if ptype p \<noteq> 0 then hook_packet p src f else f)))"

definition tab_apply :: "flow_s \<Rightarrow> 'pr outcome \<Rightarrow> (flow_s \<rightharpoonup> 'pr flow) \<times> 'pr flow list \<Rightarrow>
    (flow_s \<rightharpoonup> 'pr flow) \<times> 'pr flow list" where
  "tab_apply s out T = (case T of (M, d) \<Rightarrow>
     (case out of
        Keep f \<Rightarrow> (M(s \<mapsto> f), d)
      | Finish f \<Rightarrow> (M(s := None), d @ [f])
      | Drop \<Rightarrow> (M(s := None), d)))"

text \<open>The flow a packet belongs to: its key in the table, whether the packet goes from client to
  server, and the flow as it is before the packet is accounted for.\<close>

definition tab_lookup :: "'pr flow \<Rightarrow> packet_t \<Rightarrow> (flow_s \<rightharpoonup> 'pr flow) \<Rightarrow> (flow_s \<times> bool \<times> 'pr flow) option" where
  "tab_lookup junk p M =
     (let s = sock_of p; r = flip_sock (sock_of p)
      in case M r of
        Some f \<Rightarrow> Some (r, False, f)
      | None \<Rightarrow>
          (case M s of
             Some f \<Rightarrow> Some (s, True, f)
           | None \<Rightarrow>
               if ptype p = REQ then Some (s, True, (Flow_new junk)\<lparr>f_socket := s\<rparr>)
               else if ptype p = RSP then Some (r, False, (Flow_new junk)\<lparr>f_socket := r\<rparr>)
               else None))"

definition tab_add :: "'pr flow \<Rightarrow> int \<times> int \<Rightarrow> packet_t \<Rightarrow> (flow_s \<rightharpoonup> 'pr flow) \<times> 'pr flow list \<Rightarrow>
    (flow_s \<rightharpoonup> 'pr flow) \<times> 'pr flow list" where
  "tab_add junk now p T =
     (case tab_lookup junk p (fst T) of
        None \<Rightarrow> T
      | Some (k, src, f) \<Rightarrow> tab_apply k (flow_outcome now p src f) T)"

lemma and_exp_word: "p AND 2 ^ n = (if bit p n then 2 ^ n else (0 :: 'a::len word))"
  by (rule bit_eqI) (auto simp: bit_simps)

lemma TH_masks:
  "p AND TH_RST = TH_RST \<longleftrightarrow> p AND TH_RST \<noteq> (0::u8)"
  "p AND TH_FIN = TH_FIN \<longleftrightarrow> p AND TH_FIN \<noteq> (0::u8)"
  "TH_RST \<noteq> (0::u8)" "TH_FIN \<noteq> (0::u8)"
  using and_exp_word [of p 2] and_exp_word [of p 0] by (simp_all add: flag_defs)

text \<open>Storing a flow of the same socket is one update of the abstract map.\<close>

lemma upd_flow_inv:
  assumes inv: "fht_inv t ch qs" and a: "a \<in> set (ch h)" and f: "f_socket f = sock t a"
  shows "fht_inv (upd_flow a f t) ch qs"
    and "\<And>x. x \<in> set qs \<Longrightarrow> fl_obj (upd_flow a f t) x = fl_obj t x"
proof -
  have rep: "fht_rep t ch qs" using inv by (simp add: fht_inv_def)
  have aq: "a \<notin> set qs" using inv a by (auto simp: fht_inv_def)
  then show "fl_obj (upd_flow a f t) x = fl_obj t x" if "x \<in> set qs" for x
    using that by (auto simp: upd_flow_def)
  then show "fht_inv (upd_flow a f t) ch qs"
    using inv upd_flow_rep [OF rep f] by (auto simp: fht_inv_def upd_flow_def)
qed

definition flow_step_ok :: "addr \<Rightarrow> 'pr outcome \<Rightarrow> 'pr fht \<Rightarrow> (nat \<Rightarrow> addr list) \<Rightarrow> addr list \<Rightarrow> 'pr fht \<Rightarrow> bool" where
  "flow_step_ok a out t ch qs t' \<longleftrightarrow>
     fht_view t' (fst (tab_apply (sock t a) out (fht_abs t ch, map (\<lambda>a. the (fl_obj t a)) qs)))
       (snd (tab_apply (sock t a) out (fht_abs t ch, map (\<lambda>a. the (fl_obj t a)) qs))) \<and>
     (fl_fault t' \<longleftrightarrow> fl_fault t \<or> out = Drop)"

lemma flow_step_okI:
  assumes "fht_inv t' ch' qs'"
    "tab_apply (sock t a) out (fht_abs t ch, map (\<lambda>a. the (fl_obj t a)) qs) =
       (fht_abs t' ch', map (\<lambda>a. the (fl_obj t' a)) qs')"
    "fl_fault t' \<longleftrightarrow> fl_fault t \<or> out = Drop"
  shows "flow_step_ok a out t ch qs t'"
  unfolding flow_step_ok_def fht_view_def
  by (rule conjI, rule exI [of _ ch'], rule exI [of _ qs']) (simp_all only: assms fst_conv snd_conv simp_thms)

lemma keep_step:
  assumes inv: "fht_inv t ch qs" and a: "a \<in> set (ch h)" and f: "f_socket f = sock t a"
  shows "flow_step_ok a (Keep f) t ch qs (upd_flow a f t)"
proof -
  have rep: "fht_rep t ch qs" using inv by (simp add: fht_inv_def)
  note i = upd_flow_inv [OF assms]
  have "map (\<lambda>x. the (fl_obj (upd_flow a f t) x)) qs = map (\<lambda>x. the (fl_obj t x)) qs"
    using i(2) by simp
  moreover have "fl_fault (upd_flow a f t) = fl_fault t" by (simp add: upd_flow_def)
  ultimately show ?thesis
    using upd_flow_abs [OF rep a f] by (intro flow_step_okI [OF i(1)]) (simp_all add: tab_apply_def)
qed

lemma finish_step:
  assumes inv: "fht_inv t ch qs" and a: "a \<in> set (ch h)" and f: "f_socket f = sock t a"
  shows "\<exists>t'. finish_flow a (upd_flow a f t) = Some t' \<and> flow_step_ok a (Finish f) t ch qs t'"
proof -
  have rep: "fht_rep t ch qs" using inv by (simp add: fht_inv_def)
  note i = upd_flow_inv [OF assms]
  let ?u = "upd_flow a f t"
  obtain t' ch' where t': "finish_flow a ?u = Some t'" "fht_inv t' ch' (qs @ [a])" "fl_obj t' = fl_obj ?u"
      "fht_abs t' ch' = (fht_abs ?u ch)(sock ?u a := None)" "fl_fault t' = fl_fault ?u"
    using finish_flow_view [OF i(1) a] by (elim exE conjE)
  have fa: "fl_obj ?u a = Some f" "fl_fault ?u = fl_fault t" by (simp_all add: upd_flow_def)
  have "map (\<lambda>x. the (fl_obj t' x)) (qs @ [a]) = map (\<lambda>x. the (fl_obj t x)) qs @ [f]"
    using i(2) t'(3) fa by simp
  moreover have "fht_abs t' ch' = (fht_abs t ch)(sock t a := None)"
    using t'(4) upd_flow_abs [OF rep a f] sock_upd [OF f] by simp
  ultimately have "flow_step_ok a (Finish f) t ch qs t'"
    using t'(5) fa(2) by (intro flow_step_okI [OF t'(2)]) (simp_all add: tab_apply_def)
  with t'(1) show ?thesis by blast
qed

text \<open>Deleting an object nothing refers to.\<close>

lemma fht_rep_forget:
  assumes rep: "fht_rep t ch qs" and a: "\<And>h. a \<notin> set (ch h)"
  shows "fht_rep (t\<lparr>fl_obj := (fl_obj t)(a := None), fl_fault := b\<rparr>) ch qs"
    and "fht_abs (t\<lparr>fl_obj := (fl_obj t)(a := None), fl_fault := b\<rparr>) ch = fht_abs t ch"
proof -
  let ?t = "t\<lparr>fl_obj := (fl_obj t)(a := None), fl_fault := b\<rparr>"
  have s: "sock ?t x = sock t x" "fl_obj ?t x = fl_obj t x" if "x \<in> set (ch h)" for x h
    using a that by (auto simp: sock_def)
  have m: "map (sock ?t) (ch h) = map (sock t) (ch h)" for h using s(1) by (intro map_cong) auto
  have "distinct (map (sock t) (ch h))" for h using rep by (simp add: fht_rep_def)
  then have "distinct (map (sock ?t) (ch h))" for h by (simp only: m)
  then show r: "fht_rep ?t ch qs" using rep s by (simp add: fht_rep_def del: fun_upd_apply)
  show "fht_abs ?t ch = fht_abs t ch"
  proof (rule ext, rule fht_abs_eqI [OF r])
    fix k x assume "x \<in> set (ch (HASH_FLOW k))" "sock ?t x = k"
    with s fht_abs_at [OF rep] show "fl_obj ?t x = fht_abs t ch k" by metis
  next
    fix k assume "\<And>x. x \<in> set (ch (HASH_FLOW k)) \<Longrightarrow> sock ?t x \<noteq> k"
    with s show "fht_abs t ch k = None" by (metis fht_abs_none)
  qed
qed

lemma drop_step:
  assumes inv: "fht_inv t ch qs" and a: "a \<in> set (ch h)"
  shows "\<exists>t'. fht_remove a t = Some t' \<and>
     flow_step_ok a Drop t ch qs (t'\<lparr>fl_obj := (fl_obj t')(a := None), fl_fault := True\<rparr>)"
proof -
  have rep: "fht_rep t ch qs" using inv by (simp add: fht_inv_def)
  obtain ys zs where h: "ch h = ys @ a # zs" using split_list [OF a] by blast
  let ?ch = "ch(h := ys @ zs)"
  obtain t1 where t1: "fht_remove a t = Some t1" "fht_rep t1 ?ch qs"
      "fl_obj t1 = fl_obj t" "fl_brk t1 = fl_brk t"
    using fht_remove_rep [OF rep h] by blast
  let ?t = "t1\<lparr>fl_obj := (fl_obj t1)(a := None), fl_fault := True\<rparr>"
  have d: "distinct (ch h)" using rep by (auto simp: fht_rep_def distinct_map)
  have anot: "a \<notin> set (?ch k)" for k
  proof (cases "k = h")
    case True
    with d h show ?thesis by simp
  next
    case False
    with fht_rep_bucket(1) [OF rep a] fht_rep_bucket(1) [OF rep, of a k] show ?thesis by auto
  qed
  have sub: "set (?ch k) \<subseteq> set (ch k)" for k using h by (cases "k = h") auto
  have aq: "a \<notin> set qs" using inv a by (auto simp: fht_inv_def)
  have live: "x < fl_brk t \<and> fl_obj t x \<noteq> None \<and> (\<forall>k. x \<notin> set (ch k))" if "x \<in> set qs" for x
    using inv that by (simp add: fht_inv_def)
  have "x < fl_brk ?t \<and> fl_obj ?t x \<noteq> None \<and> (\<forall>k. x \<notin> set (?ch k))" if x: "x \<in> set qs" for x
  proof -
    have "x \<notin> set (?ch k)" for k using sub [of k] live [OF x] by blast
    moreover have "x \<noteq> a" using aq x by blast
    ultimately show ?thesis using live [OF x] t1(3,4) by simp
  qed
  then have "fht_inv ?t ?ch qs"
    using inv fht_rep_forget(1) [OF t1(2) anot] by (simp add: fht_inv_def del: fun_upd_apply)
  moreover have "fht_abs ?t ?ch = (fht_abs t ch)(sock t a := None)"
    using fht_rep_forget(2) [OF t1(2) anot] fht_remove_abs [OF rep h t1(2,3)]
    by (simp del: fun_upd_apply)
  moreover have "map (\<lambda>x. the (fl_obj ?t x)) qs = map (\<lambda>x. the (fl_obj t x)) qs"
    using aq t1(3) by auto
  ultimately have "flow_step_ok a Drop t ch qs ?t"
    by (intro flow_step_okI [of ?t ?ch qs]) (simp_all add: tab_apply_def)
  with t1(1) show ?thesis by blast
qed

lemma Flow_add_packet_step:
  assumes inv: "fht_inv t ch qs" and a: "a \<in> set (ch h)" and f: "fl_obj t a = Some f"
  shows "\<exists>r t'. Flow_add_packet now a p src t = Some (r, t') \<and>
     flow_step_ok a (flow_outcome now p src f) t ch qs t'"
proof -
  let ?plain = "p\<lparr>ptype := 0\<rparr>"
  have sk: "f_socket f = sock t a" by (simp add: sock_def f)
  note keep = keep_step [OF inv a] and finish = finish_step [OF inv a] and drop = drop_step [OF inv a]
  consider (drop) "tcp_flags p AND TH_RST \<noteq> 0" "pkts_src f < 4"
    | (rst) "tcp_flags p AND TH_RST \<noteq> 0" "\<not> pkts_src f < 4"
    | (fin) "tcp_flags p AND TH_RST = 0" "tcp_flags p AND TH_FIN \<noteq> 0"
    | (keep) "tcp_flags p AND TH_RST = 0" "tcp_flags p AND TH_FIN = 0" by blast
  then show ?thesis
  proof cases
    case drop
    then show ?thesis using drop_step [OF inv a] f
      by (auto simp: Flow_add_packet_def flow_outcome_def TH_masks)
  next
    case rst
    let ?f = "(cal_packet now ?plain src f)\<lparr>f_close := 1\<rparr>"
    have "f_socket ?f = sock t a" using sk by (simp add: frame_simps)
    from finish [OF this] rst f show ?thesis
      by (auto simp: Flow_add_packet_def flow_outcome_def TH_masks)
  next
    case fin
    let ?f = "(cal_packet now ?plain src (f\<lparr>f_close := if src then CLIENT_CLOSE else SERVER_CLOSE\<rparr>))\<lparr>f_close := 1\<rparr>"
    have "f_socket ?f = sock t a" using sk by (simp add: frame_simps)
    moreover have "?f = (cal_packet now ?plain src f)\<lparr>f_close := 1\<rparr>"
      by (simp add: cal_packet_def Let_def)
    ultimately show ?thesis using finish [of ?f] fin f
      by (auto simp: Flow_add_packet_def flow_outcome_def TH_masks frame_simps Let_def)
  next
    case keep
    then have "\<exists>g. flow_outcome now p src f = Keep g \<and> f_socket g = sock t a \<and>
        Flow_add_packet now a p src t = Some (0, upd_flow a g t)"
      using f sk by (auto simp: Flow_add_packet_def flow_outcome_def TH_masks frame_simps Let_def)
    with keep_step [OF inv a] show ?thesis by auto
  qed
qed

text \<open>A packet is one step of the contract, and it sets the fault flag exactly when it drops
  its flow.\<close>

lemma fht_add_packet_step:
  assumes "fht_view t M d"
  shows "\<exists>t'. fht_add_packet junk now p t = Some t' \<and>
     fht_view t' (fst (tab_add junk now p (M, d))) (snd (tab_add junk now p (M, d))) \<and>
     (fl_fault t' \<longleftrightarrow> fl_fault t \<or>
        (\<exists>k src f. tab_lookup junk p M = Some (k, src, f) \<and> flow_outcome now p src f = Drop))"
proof -
  obtain ch qs where inv: "fht_inv t ch qs" and M: "M = fht_abs t ch"
    and d: "d = map (\<lambda>a. the (fl_obj t a)) qs"
    using assms by (auto simp: fht_view_def)
  then have rep: "fht_rep t ch qs" by (simp add: fht_inv_def)
  let ?s = "sock_of p" and ?r = "flip_sock (sock_of p)"
  have found: ?thesis if "fht_find k t = Some (Some a)"
      "\<And>f. M k = Some f \<Longrightarrow> tab_lookup junk p M = Some (k, src, f)"
      "fht_add_packet junk now p t = map_option snd (Flow_add_packet now a p src t)" for k a src
  proof -
    have a: "a \<in> set (ch (HASH_FLOW k))" "sock t a = k" "M k = fl_obj t a"
      using fht_find_abs(2) [OF rep that(1)] M by auto
    obtain f where f: "fl_obj t a = Some f" using fht_rep_bucket(3) [OF rep a(1)] by auto
    from Flow_add_packet_step [OF inv a(1) f, of now p src] that(2) [of f] that(3) a(2,3) f
    show ?thesis by (auto simp: flow_step_ok_def tab_add_def M d)
  qed
  have fresh: ?thesis if none: "fht_find k t = Some None"
      and spec: "tab_lookup junk p M = Some (k, src, (Flow_new junk)\<lparr>f_socket := k\<rparr>)"
      and code: "fht_add_packet junk now p t = do {
          (f, t) \<leftarrow> fht_create junk k t; map_option snd (Flow_add_packet now f p src t) }" for k src
  proof -
    let ?f = "(Flow_new junk)\<lparr>f_socket := k\<rparr>"
    obtain t' ch' where t': "fht_create junk k t = Some (fl_brk t, t')" "fht_inv t' ch' qs"
        "fl_brk t \<in> set (ch' (HASH_FLOW k))" "sock t' (fl_brk t) = k" "fl_obj t' (fl_brk t) = Some ?f"
        "fht_abs t' ch' = (fht_abs t ch)(k \<mapsto> ?f)" "\<forall>a \<in> set qs. fl_obj t' a = fl_obj t a"
        "fl_fault t' = fl_fault t"
      using fht_create_view [OF inv none, of junk] by (elim exE conjE)
    have "map (\<lambda>a. the (fl_obj t' a)) qs = d" using t'(7) by (simp add: d)
    moreover have "tab_apply k out ((fht_abs t ch)(k \<mapsto> ?f), d) = tab_apply k out (M, d)" for out
      by (cases out) (simp_all add: tab_apply_def M)
    ultimately show ?thesis
      using Flow_add_packet_step [OF t'(2,3,5), of now p src] t'(1,4,6,8) spec code
      by (auto simp: flow_step_ok_def tab_add_def)
  qed
  obtain x where x: "fht_find ?r t = Some x" using fht_find_total [OF rep] by blast
  obtain y where y: "fht_find ?s t = Some y" using fht_find_total [OF rep] by blast
  note defs = tab_lookup_def fht_add_packet_def sock_rev_flip Let_def
  show ?thesis
  proof (cases x)
    case (Some a)
    with x show ?thesis by (intro found [of ?r a False]) (auto simp: defs)
  next
    case None
    with x have nr: "M ?r = None" using fht_find_abs(1) [OF rep] M by simp
    show ?thesis
    proof (cases y)
      case (Some a)
      with x y None nr show ?thesis by (intro found [of ?s a True]) (auto simp: defs)
    next
      case none: None
      with y have ns: "M ?s = None" using fht_find_abs(1) [OF rep] M by simp
      consider (req) "ptype p = REQ" | (rsp) "ptype p \<noteq> REQ" "ptype p = RSP"
        | (other) "ptype p \<noteq> REQ" "ptype p \<noteq> RSP" by blast
      then show ?thesis
      proof cases
        case req
        with x y None none nr ns show ?thesis by (intro fresh [of ?s True]) (auto simp: defs)
      next
        case rsp
        with x y None none nr ns show ?thesis by (intro fresh [of ?r False]) (auto simp: defs)
      next
        case other
        with x y None none nr ns assms show ?thesis by (auto simp: defs tab_add_def)
      qed
    qed
  qed
qed


section \<open>The scrubber\<close>

definition list_ptr :: "addr list \<Rightarrow> ptr" where
  "list_ptr xs = (case xs of [] \<Rightarrow> None | x # _ \<Rightarrow> Some x)"

definition force_close :: "'pr flow \<Rightarrow> 'pr flow" where
  "force_close f = f\<lparr>f_close := FORCED_CLOSE\<rparr>"

lemma chain_next:
  assumes "fht_rep t ch qs" "ch h = ys @ a # zs"
  shows "fl_next t a = list_ptr zs"
proof -
  have "lpath (fl_next t) (b_first (flow_hash_table t h)) (ys @ a # zs) None"
    using assms by (metis chain_rep_def fht_rep_def)
  then have "lpath (fl_next t) (fl_next t a) zs None" by (auto simp: rep_simps)
  then show ?thesis by (cases zs) (auto simp: list_ptr_def)
qed

lemma chain_head:
  assumes "fht_rep t ch qs"
  shows "b_first (flow_hash_table t h) = list_ptr (ch h)"
proof -
  have "lpath (fl_next t) (b_first (flow_hash_table t h)) (ch h) None"
    using assms by (metis chain_rep_def fht_rep_def)
  then show ?thesis by (cases "ch h") (auto simp: list_ptr_def)
qed

lemma chain_distinct: "fht_rep t ch qs \<Longrightarrow> distinct (ch h)"
  by (auto simp: fht_rep_def distinct_map)

text \<open>One bucket: \<open>ys\<close> has been examined, \<open>zs\<close> is still to be.\<close>

lemma scrub_bucket_rep:
  assumes "fht_inv t ch qs" "ch h = ys @ zs"
    "\<forall>a \<in> set zs. timed_out timeout (now a) (last_action_sec (the (fl_obj t a))) = P a"
  shows "\<exists>t'. scrub_bucket timeout now (list_ptr zs) num t = Some (num + int (length (filter P zs)), t') \<and>
     fht_inv t' (ch(h := ys @ filter (\<lambda>a. \<not> P a) zs)) (qs @ filter P zs) \<and>
     (\<forall>a. fl_obj t' a = (if a \<in> set zs \<and> P a then map_option force_close (fl_obj t a) else fl_obj t a))"
  using assms
proof (induction zs arbitrary: t ch qs ys num)
  case Nil
  then show ?case by (auto simp: scrub_bucket.simps list_ptr_def fun_upd_idem)
next
  case (Cons a zs)
  then have rep: "fht_rep t ch qs" by (simp add: fht_inv_def)
  have a: "a \<in> set (ch h)" using Cons.prems(2) by simp
  obtain f where f: "fl_obj t a = Some f" using fht_rep_bucket(3) [OF rep a] by auto
  have d: "distinct (ys @ a # zs)" using chain_distinct [OF rep, of h] Cons.prems(2) by simp
  note nx = chain_next [OF rep Cons.prems(2)]
  show ?case
  proof (cases "P a")
    case False
    then have "scrub_bucket timeout now (list_ptr (a # zs)) num t = scrub_bucket timeout now (list_ptr zs) num t"
      using Cons.prems(3) f nx by (subst scrub_bucket.simps) (simp add: list_ptr_def [of "a # zs"])
    moreover have "ch h = (ys @ [a]) @ zs" using Cons.prems(2) by simp
    ultimately show ?thesis
      using Cons.IH [OF Cons.prems(1), of "ys @ [a]" num] Cons.prems(3) False by auto
  next
    case True
    let ?u = "upd_flow a (force_close f) t"
    have sk: "f_socket (force_close f) = sock t a" by (simp add: sock_def f force_close_def)
    obtain t1 where t1: "finish_flow a ?u = Some t1" "fht_inv t1 (ch(h := ys @ zs)) (qs @ [a])"
        "fl_obj t1 = fl_obj ?u"
      using finish_flow_view [OF upd_flow_inv(1) [OF Cons.prems(1) a sk] a] d Cons.prems(2)
      by (auto simp: remove1_append simp del: fun_upd_apply)
    have "scrub_bucket timeout now (list_ptr (a # zs)) num t = scrub_bucket timeout now (list_ptr zs) (num + 1) t1"
      using Cons.prems(3) f nx True t1(1)
      by (subst scrub_bucket.simps) (simp add: list_ptr_def [of "a # zs"] force_close_def)
    moreover have obj: "fl_obj t1 x = (if x = a then Some (force_close f) else fl_obj t x)" for x
      using t1(3) by (simp add: upd_flow_def)
    moreover have "\<forall>x \<in> set zs. timed_out timeout (now x) (last_action_sec (the (fl_obj t1 x))) = P x"
      using Cons.prems(3) d obj by auto
    moreover have "(ch(h := ys @ zs)) h = ys @ zs" by simp
    ultimately obtain t' where t': "scrub_bucket timeout now (list_ptr (a # zs)) num t =
          Some (num + 1 + int (length (filter P zs)), t')"
        "fht_inv t' (ch(h := ys @ filter (\<lambda>a. \<not> P a) zs)) ((qs @ [a]) @ filter P zs)"
        "\<And>x. fl_obj t' x = (if x \<in> set zs \<and> P x then map_option force_close (fl_obj t1 x) else fl_obj t1 x)"
      using Cons.IH [OF t1(2), of ys "num + 1"] by (auto simp del: fun_upd_apply)
    have "fl_obj t' x = (if x \<in> set (a # zs) \<and> P x then map_option force_close (fl_obj t x) else fl_obj t x)" for x
      using t'(3) [of x] obj [of x] f True d by auto
    with t'(1,2) True show ?thesis by (simp add: algebra_simps del: fun_upd_apply)
  qed
qed

text \<open>A list of buckets.\<close>

lemma scrub_buckets_rep:
  assumes "fht_inv t ch qs" "distinct hs"
    "\<forall>h \<in> set hs. \<forall>a \<in> set (ch h). timed_out timeout (now a) (last_action_sec (the (fl_obj t a))) = P a"
  shows "\<exists>t'. over_buckets (\<lambda>h (num, t). scrub_bucket timeout now (b_first (flow_hash_table t h)) num t) hs (num, t)
       = Some (num + int (length (filter P (concat (map ch hs)))), t') \<and>
     fht_inv t' (\<lambda>h. if h \<in> set hs then filter (\<lambda>a. \<not> P a) (ch h) else ch h) (qs @ filter P (concat (map ch hs))) \<and>
     (\<forall>a. fl_obj t' a = (if (\<exists>h \<in> set hs. a \<in> set (ch h)) \<and> P a then map_option force_close (fl_obj t a) else fl_obj t a))"
  using assms
proof (induction hs arbitrary: t ch qs num)
  case Nil
  then show ?case by auto
next
  case (Cons h hs)
  have rep: "fht_rep t ch qs" using Cons.prems by (simp add: fht_inv_def)
  let ?c = "ch(h := filter (\<lambda>a. \<not> P a) (ch h))"
  obtain t1 where t1: "scrub_bucket timeout now (b_first (flow_hash_table t h)) num t =
        Some (num + int (length (filter P (ch h))), t1)" "fht_inv t1 ?c (qs @ filter P (ch h))"
      "\<And>a. fl_obj t1 a = (if a \<in> set (ch h) \<and> P a then map_option force_close (fl_obj t a) else fl_obj t a)"
    using scrub_bucket_rep [OF Cons.prems(1), of h "[]" "ch h" timeout now P num] Cons.prems(3)
      chain_head [OF rep, of h] by (auto simp del: fun_upd_apply)
  have sep: "a \<notin> set (ch h)" if "k \<in> set hs" "a \<in> set (ch k)" for a k
    using that Cons.prems(2) fht_rep_bucket(1) [OF rep] by (metis distinct.simps(2))
  have c: "map ?c hs = map ch hs" using Cons.prems(2) by auto
  have "\<forall>k \<in> set hs. \<forall>a \<in> set (?c k). timed_out timeout (now a) (last_action_sec (the (fl_obj t1 a))) = P a"
    using Cons.prems(2,3) sep t1(3) by auto
  from Cons.IH [OF t1(2) _ this, of "num + int (length (filter P (ch h)))"] Cons.prems(2)
  obtain t' where t': "over_buckets (\<lambda>h (num, t). scrub_bucket timeout now (b_first (flow_hash_table t h)) num t) hs
         (num + int (length (filter P (ch h))), t1)
       = Some (num + int (length (filter P (ch h))) + int (length (filter P (concat (map ?c hs)))), t')"
     "fht_inv t' (\<lambda>k. if k \<in> set hs then filter (\<lambda>a. \<not> P a) (?c k) else ?c k) ((qs @ filter P (ch h)) @ filter P (concat (map ?c hs)))"
     "\<And>a. fl_obj t' a = (if (\<exists>k \<in> set hs. a \<in> set (?c k)) \<and> P a then map_option force_close (fl_obj t1 a) else fl_obj t1 a)"
    by (auto simp del: fun_upd_apply)
  have "(\<lambda>k. if k \<in> set hs then filter (\<lambda>a. \<not> P a) (?c k) else ?c k) =
      (\<lambda>k. if k \<in> set (h # hs) then filter (\<lambda>a. \<not> P a) (ch k) else ch k)"
    using Cons.prems(2) by auto
  moreover have "fl_obj t' a = (if (\<exists>k \<in> set (h # hs). a \<in> set (ch k)) \<and> P a
      then map_option force_close (fl_obj t a) else fl_obj t a)" for a
    using t'(3) [of a] t1(3) [of a] sep [of _ a] Cons.prems(2) by auto
  ultimately show ?case using t1(1) t'(1,2) by (simp add: c algebra_simps)
qed

lemma fht_live_empty:
  assumes "fht_rep t ch qs" "\<not> h < HASH_SIZE"
  shows "ch h = []"
  using fht_rep_bucket(5) [OF assms(1), of _ h] assms(2) by (cases "ch h") auto

lemma sock_inj:
  assumes rep: "fht_rep t ch qs" and ab: "a \<in> set (ch h)" "b \<in> set (ch k)" "sock t a = sock t b"
  shows "a = b"
proof -
  have "h = k" using fht_rep_bucket(4) [OF rep ab(1)] fht_rep_bucket(4) [OF rep ab(2)] ab(3) by simp
  moreover have "inj_on (sock t) (set (ch h))" using rep by (simp add: fht_rep_def distinct_map)
  ultimately show ?thesis using ab by (auto dest: inj_onD)
qed

lemma flow_scrubber_view:
  assumes inv: "fht_inv t ch qs"
  shows "\<exists>t' ch' qs'. flow_scrubber timeout (\<lambda>_. n) t = Some (int (length qs'), t') \<and>
     fht_inv t' ch' (qs @ qs') \<and> (\<forall>a \<in> set qs. fl_obj t' a = fl_obj t a) \<and>
     fht_abs t' ch' = (\<lambda>s. case fht_abs t ch s of None \<Rightarrow> None
        | Some f \<Rightarrow> if timed_out timeout n (last_action_sec f) then None else Some f) \<and>
     distinct (map (sock t) qs') \<and>
     (\<forall>a. a \<in> set qs' \<longleftrightarrow> (\<exists>s f. fht_abs t ch s = Some f \<and> fl_obj t a = Some f \<and> a \<in> set (ch (HASH_FLOW s)) \<and> timed_out timeout n (last_action_sec f))) \<and>
     (\<forall>a \<in> set qs'. fl_obj t' a = map_option force_close (fl_obj t a))"
proof -
  have rep: "fht_rep t ch qs" using inv by (simp add: fht_inv_def)
  let ?hs = "[0..<HASH_SIZE]"
  define P where "P a = timed_out timeout n (last_action_sec (the (fl_obj t a)))" for a
  define qs' where "qs' = filter P (concat (map ch ?hs))"
  define ch' where "ch' = (\<lambda>h. if h \<in> set ?hs then filter (\<lambda>a. \<not> P a) (ch h) else ch h)"
  have "\<forall>h \<in> set ?hs. \<forall>a \<in> set (ch h). timed_out timeout n (last_action_sec (the (fl_obj t a))) = P a"
    by (simp add: P_def)
  from scrub_buckets_rep [OF inv _ this, of 0] obtain t' where
    t': "flow_scrubber timeout (\<lambda>_. n) t = Some (int (length qs'), t')" "fht_inv t' ch' (qs @ qs')"
      and obj: "\<And>a. fl_obj t' a = (if (\<exists>h \<in> set ?hs. a \<in> set (ch h)) \<and> P a then map_option force_close (fl_obj t a) else fl_obj t a)"
    unfolding flow_scrubber_def qs'_def ch'_def by auto
  have live: "h < HASH_SIZE" if "a \<in> set (ch h)" for a h using fht_rep_bucket(5) [OF rep that] .
  have ch': "ch' = (\<lambda>h. filter (\<lambda>a. \<not> P a) (ch h))"
    using fht_live_empty [OF rep] by (auto simp: ch'_def fun_eq_iff)
  have rep': "fht_rep t' ch' (qs @ qs')" using t'(2) by (simp add: fht_inv_def)
  have kept: "fl_obj t' a = fl_obj t a \<and> sock t' a = sock t a \<and> a \<in> set (ch h)" if "a \<in> set (ch' h)" for a h
    using that obj [of a] by (auto simp: ch' sock_def)
  have abs: "fht_abs t' ch' s = (case fht_abs t ch s of None \<Rightarrow> None
        | Some f \<Rightarrow> if timed_out timeout n (last_action_sec f) then None else Some f)" for s
  proof (rule fht_abs_eqI [OF rep'])
    fix a assume a: "a \<in> set (ch' (HASH_FLOW s))" "sock t' a = s"
    from kept [OF a(1)] a(2) have k: "a \<in> set (ch (HASH_FLOW s))" "sock t a = s" "fl_obj t' a = fl_obj t a" by auto
    obtain f where f: "fl_obj t a = Some f" using fht_rep_bucket(3) [OF rep k(1)] by auto
    have "fht_abs t ch s = Some f" using fht_abs_at [OF rep k(1)] k(2) f by simp
    moreover have "\<not> P a" using a(1) by (simp add: ch')
    ultimately show "fl_obj t' a = (case fht_abs t ch s of None \<Rightarrow> None
        | Some f \<Rightarrow> if timed_out timeout n (last_action_sec f) then None else Some f)"
      using k(3) f by (simp add: P_def)
  next
    assume none: "\<And>a. a \<in> set (ch' (HASH_FLOW s)) \<Longrightarrow> sock t' a \<noteq> s"
    show "(case fht_abs t ch s of None \<Rightarrow> None
        | Some f \<Rightarrow> if timed_out timeout n (last_action_sec f) then None else Some f) = None"
    proof (cases "fht_abs t ch s")
      case (Some f)
      then obtain a where a: "a \<in> set (ch (HASH_FLOW s))" "sock t a = s" "fl_obj t a = Some f"
        using fht_abs_someD by blast
      then have "P a" using none [of a] obj [of a] by (auto simp: ch' sock_def)
      with Some a(3) show ?thesis by (simp add: P_def)
    qed simp
  qed
  have set': "a \<in> set qs' \<longleftrightarrow> P a \<and> (\<exists>h. a \<in> set (ch h))" for a using live by (auto simp: qs'_def)
  have "distinct (map (sock t) qs')"
  proof -
    have "distinct qs'" using t'(2) by (simp add: fht_inv_def)
    then show ?thesis using sock_inj [OF rep] by (auto simp: distinct_map inj_on_def set')
  qed
  moreover have "fl_obj t' a = fl_obj t a" if "a \<in> set qs" for a
    using inv that obj [of a] by (auto simp: fht_inv_def)
  moreover have "fl_obj t' a = map_option force_close (fl_obj t a)" if "a \<in> set qs'" for a
    using that obj [of a] live by (auto simp: set')
  moreover have "a \<in> set qs' \<longleftrightarrow> (\<exists>s f. fht_abs t ch s = Some f \<and> fl_obj t a = Some f \<and> a \<in> set (ch (HASH_FLOW s)) \<and> timed_out timeout n (last_action_sec f))" for a
  proof
    assume "a \<in> set qs'"
    then obtain h where h: "P a" "a \<in> set (ch h)" by (auto simp: set')
    then show "\<exists>s f. fht_abs t ch s = Some f \<and> fl_obj t a = Some f \<and> a \<in> set (ch (HASH_FLOW s)) \<and> timed_out timeout n (last_action_sec f)"
      using fht_abs_at [OF rep h(2)] fht_rep_bucket(3,4) [OF rep h(2)] by (auto simp: P_def)
  next
    assume "\<exists>s f. fht_abs t ch s = Some f \<and> fl_obj t a = Some f \<and> a \<in> set (ch (HASH_FLOW s)) \<and> timed_out timeout n (last_action_sec f)"
    then show "a \<in> set qs'" by (auto simp: set' P_def)
  qed
  ultimately show ?thesis using t' abs
    by (intro exI [of _ t'] exI [of _ ch'] exI [of _ qs']) (auto simp: fun_eq_iff)
qed

lemma flow_scrubber_closes_idle_aux:
  assumes "fht_view t M d"
  shows "\<exists>t' closed. flow_scrubber timeout (\<lambda>_. n) t = Some (int (length closed), t') \<and>
     fht_view t' (\<lambda>s. case M s of None \<Rightarrow> None
        | Some f \<Rightarrow> if timed_out timeout n (last_action_sec f) then None else Some f) (d @ closed) \<and>
     distinct (map f_socket closed) \<and>
     set closed = {force_close f |f. \<exists>s. M s = Some f \<and> timed_out timeout n (last_action_sec f)}"
proof -
  obtain ch qs where inv: "fht_inv t ch qs" and M: "M = fht_abs t ch"
    and d: "d = map (\<lambda>a. the (fl_obj t a)) qs"
    using assms by (auto simp: fht_view_def)
  obtain t' ch' qs' where t': "flow_scrubber timeout (\<lambda>_. n) t = Some (int (length qs'), t')"
      "fht_inv t' ch' (qs @ qs')" "\<forall>a \<in> set qs. fl_obj t' a = fl_obj t a"
      "fht_abs t' ch' = (\<lambda>s. case fht_abs t ch s of None \<Rightarrow> None
        | Some f \<Rightarrow> if timed_out timeout n (last_action_sec f) then None else Some f)"
      "distinct (map (sock t) qs')"
      and qs': "\<forall>a. a \<in> set qs' \<longleftrightarrow> (\<exists>s f. fht_abs t ch s = Some f \<and> fl_obj t a = Some f \<and> a \<in> set (ch (HASH_FLOW s)) \<and> timed_out timeout n (last_action_sec f))"
      and obj: "\<forall>a \<in> set qs'. fl_obj t' a = map_option force_close (fl_obj t a)"
    using flow_scrubber_view [OF inv, of timeout n] by (elim exE conjE)
  define closed where "closed = map (\<lambda>a. the (fl_obj t' a)) qs'"
  have live: "\<exists>f. fl_obj t a = Some f \<and> the (fl_obj t' a) = force_close f" if "a \<in> set qs'" for a
    using that qs' obj by (metis option.map(2) option.sel)
  have "f_socket (the (fl_obj t' a)) = sock t a" if "a \<in> set qs'" for a
    using live [OF that] by (auto simp: sock_def force_close_def)
  then have "map f_socket closed = map (sock t) qs'" by (simp add: closed_def)
  with t'(5) have ds: "distinct (map f_socket closed)" by (simp only:)
  moreover have "set closed = {force_close f |f. \<exists>s. M s = Some f \<and> timed_out timeout n (last_action_sec f)}"
  proof (intro set_eqI iffI)
    fix g assume "g \<in> set closed"
    then show "g \<in> {force_close f |f. \<exists>s. M s = Some f \<and> timed_out timeout n (last_action_sec f)}"
      using qs' obj by (fastforce simp: closed_def M)
  next
    fix g assume "g \<in> {force_close f |f. \<exists>s. M s = Some f \<and> timed_out timeout n (last_action_sec f)}"
    then obtain f s where f: "g = force_close f" "fht_abs t ch s = Some f" "timed_out timeout n (last_action_sec f)"
      by (auto simp: M)
    obtain a where a: "a \<in> set (ch (HASH_FLOW s))" "fl_obj t a = Some f"
      using fht_abs_someD [OF f(2)] by blast
    then have "a \<in> set qs'" using qs' f by blast
    with obj a(2) f(1) show "g \<in> set closed" by (force simp: closed_def)
  qed
  moreover have "fht_view t' (fht_abs t' ch') (d @ closed)"
    unfolding fht_view_def using t'(2,3)
    by (intro exI [of _ ch'] exI [of _ "qs @ qs'"]) (simp add: d closed_def)
  ultimately show ?thesis using t'(1,4,5) M
    by (intro exI [of _ t'] exI [of _ closed]) (simp add: closed_def del: map_map distinct_map)
qed

text \<open>C31. The scrubber closes exactly the flows that were idle for longer than the timeout:
  it never fails, removes those flows from the table, marks them as forcibly closed, puts
  each of them into the flow queue once, and returns their number; the others stay.  (The
  clock is read once per flow; here it shows the same second throughout the pass.)\<close>

theorem flow_scrubber_closes_idle:
  assumes "fht_view t M d"
  shows "\<exists>t' closed. flow_scrubber timeout (\<lambda>_. n) t = Some (int (length closed), t') \<and>
     fht_view t' (\<lambda>s. case M s of None \<Rightarrow> None
        | Some f \<Rightarrow> if timed_out timeout n (last_action_sec f) then None else Some f) (d @ closed) \<and>
     distinct (map f_socket closed) \<and>
     set closed = {force_close f |f. \<exists>s. M s = Some f \<and> timed_out timeout n (last_action_sec f)}"
  using flow_scrubber_closes_idle_aux [OF assms] .

text \<open>The pass that is meant to cleanse all flows when the analysis stops, which calls the
  scrubber with the timeout \<open>-1\<close>, closes no flow at all: the \<^verbatim>\<open>int\<close> is converted to the largest
  \<^verbatim>\<open>unsigned long\<close>, which no idle time exceeds.\<close>

theorem scrub_all_closes_none:
  assumes "fht_view t M d"
  shows "\<exists>t'. flow_scrubber (-1) (\<lambda>_. n) t = Some (0, t') \<and> fht_view t' M d"
proof -
  have never: "\<not> timed_out (-1) n l" for l
    unfolding timed_out_def by (simp add: not_less word_order.extremum)
  then have "(\<lambda>s. case M s of None \<Rightarrow> None
      | Some f \<Rightarrow> if timed_out (-1) n (last_action_sec f) then None else Some f) = M"
    by (auto simp: fun_eq_iff split: option.splits)
  with flow_scrubber_closes_idle_aux [OF assms, of "-1" n] never show ?thesis by auto
qed

section \<open>Counting and clearing\<close>

lemma fht_view_fcnt:
  assumes "fht_view t M d"
  shows "finite (dom M)" "fht_fcnt t = int (card (dom M))"
proof -
  obtain ch qs where inv: "fht_inv t ch qs" and M: "M = fht_abs t ch"
    using assms by (auto simp: fht_view_def)
  then have rep: "fht_rep t ch qs" by (simp add: fht_inv_def)
  let ?live = "\<Union>h \<in> {..<HASH_SIZE}. set (ch h)"
  have dom: "dom M = sock t ` ?live"
  proof
    show "dom M \<subseteq> sock t ` ?live"
    proof
      fix s assume "s \<in> dom M"
      then obtain a where "a \<in> set (ch (HASH_FLOW s))" "sock t a = s"
        using fht_abs_someD [of t ch s] by (auto simp: M)
      then show "s \<in> sock t ` ?live" using HASH_FLOW_less [of s] by blast
    qed
    show "sock t ` ?live \<subseteq> dom M"
      using fht_abs_at [OF rep] fht_rep_bucket(3) [OF rep] by (auto simp: M)
  qed
  then show "finite (dom M)" by simp
  have "card (dom M) = card ?live"
    unfolding dom by (rule card_image) (auto simp: inj_on_def dest: sock_inj [OF rep])
  also have "\<dots> = (\<Sum>h < HASH_SIZE. card (set (ch h)))"
    using fht_rep_bucket(1) [OF rep] by (intro card_UN_disjoint) auto
  also have "\<dots> = (\<Sum>h < HASH_SIZE. length (ch h))"
    using chain_distinct [OF rep] by (simp add: distinct_card)
  finally show "fht_fcnt t = int (card (dom M))"
    using rep by (simp add: fht_rep_def fht_fcnt_def)
qed

lemma fht_clear_bucket_path:
  assumes "lpath (fl_next t) (b_first (flow_hash_table t h)) xs None" "distinct xs"
    "\<forall>a \<in> set xs. fl_obj t a \<noteq> None" "elm_cnt (flow_hash_table t h) = int (length xs)"
  shows "fht_clear_bucket (Suc (length xs)) h t = Some (t\<lparr>
    flow_hash_table := (flow_hash_table t)(h := bucket_empty),
    fl_obj := (fl_obj t) |` (- set xs)\<rparr>)"
  using assms
proof (induction xs arbitrary: t)
  case Nil
  then have "(flow_hash_table t h)\<lparr>b_first := None, b_last := None\<rparr> = bucket_empty"
    by (cases "flow_hash_table t h") (simp add: bucket_empty_def)
  with Nil show ?case by (simp add: fun_upd_def)
next
  case (Cons a xs)
  let ?t = "t\<lparr>flow_hash_table := (flow_hash_table t)(h :=
       (flow_hash_table t h)\<lparr>b_first := fl_next t a, elm_cnt := elm_cnt (flow_hash_table t h) - 1\<rparr>),
     fl_obj := (fl_obj t)(a := None)\<rparr>"
  have "fht_clear_bucket (Suc (length (a # xs))) h t = fht_clear_bucket (Suc (length xs)) h ?t"
    using Cons.prems by (auto split: option.splits)
  also have "\<dots> = Some (?t\<lparr>flow_hash_table := (flow_hash_table ?t)(h := bucket_empty),
      fl_obj := (fl_obj ?t) |` (- set xs)\<rparr>)"
    using Cons.prems by (intro Cons.IH) auto
  also have "((fl_obj t)(a := None)) |` (- set xs) = (fl_obj t) |` (- set (a # xs))"
    by (auto simp: restrict_map_def fun_eq_iff)
  then have "Some (?t\<lparr>flow_hash_table := (flow_hash_table ?t)(h := bucket_empty),
      fl_obj := (fl_obj ?t) |` (- set xs)\<rparr>) = Some (t\<lparr>
    flow_hash_table := (flow_hash_table t)(h := bucket_empty),
    fl_obj := (fl_obj t) |` (- set (a # xs))\<rparr>)"
    by simp
  finally show ?case .
qed

lemma fht_clear_buckets:
  assumes "distinct hs"
    "\<forall>h \<in> set hs. lpath (fl_next t) (b_first (flow_hash_table t h)) (ch h) None \<and> distinct (ch h) \<and>
       (\<forall>a \<in> set (ch h). fl_obj t a \<noteq> None) \<and> elm_cnt (flow_hash_table t h) = int (length (ch h))"
    "\<forall>h \<in> set hs. \<forall>k \<in> set hs. h \<noteq> k \<longrightarrow> set (ch h) \<inter> set (ch k) = {}"
  shows "over_buckets (\<lambda>h t. fht_clear_bucket (Suc (nat (elm_cnt (flow_hash_table t h)))) h t) hs t =
     Some (t\<lparr>flow_hash_table := (\<lambda>h. if h \<in> set hs then bucket_empty else flow_hash_table t h),
       fl_obj := (fl_obj t) |` (- (\<Union>h \<in> set hs. set (ch h)))\<rparr>)"
  using assms
proof (induction hs arbitrary: t)
  case Nil
  then show ?case by simp
next
  case (Cons h hs)
  let ?t = "t\<lparr>flow_hash_table := (flow_hash_table t)(h := bucket_empty),
    fl_obj := (fl_obj t) |` (- set (ch h))\<rparr>"
  have "fht_clear_bucket (Suc (nat (elm_cnt (flow_hash_table t h)))) h t = Some ?t"
    using fht_clear_bucket_path [of t h "ch h"] Cons.prems(2) by simp
  moreover have "fl_obj ?t a \<noteq> None" if "k \<in> set hs" "a \<in> set (ch k)" for k a
  proof -
    have "h \<noteq> k" using Cons.prems(1) that(1) by auto
    then have "a \<notin> set (ch h)" using Cons.prems(3) that by auto
    then show ?thesis using Cons.prems(2) that by auto
  qed
  then have "over_buckets (\<lambda>h t. fht_clear_bucket (Suc (nat (elm_cnt (flow_hash_table t h)))) h t) hs ?t =
     Some (?t\<lparr>flow_hash_table := (\<lambda>h. if h \<in> set hs then bucket_empty else flow_hash_table ?t h),
       fl_obj := (fl_obj ?t) |` (- (\<Union>h \<in> set hs. set (ch h)))\<rparr>)"
    using Cons.prems by (intro Cons.IH) auto
  moreover have "(\<lambda>k. if k \<in> set hs then bucket_empty else flow_hash_table ?t k) =
      (\<lambda>k. if k \<in> set (h # hs) then bucket_empty else flow_hash_table t k)"
    by (auto simp: fun_eq_iff)
  moreover have "((fl_obj t) |` (- set (ch h))) |` (- (\<Union>h \<in> set hs. set (ch h))) =
      (fl_obj t) |` (- (\<Union>h \<in> set (h # hs). set (ch h)))"
    by (auto simp: restrict_map_def fun_eq_iff)
  ultimately show ?case by simp
qed

lemma fht_clear_view:
  assumes "fht_view t M d"
  shows "\<exists>t'. fht_clear t = Some t' \<and> fht_view t' Map.empty d"
proof -
  obtain ch qs where inv: "fht_inv t ch qs" and d: "d = map (\<lambda>a. the (fl_obj t a)) qs"
    using assms by (auto simp: fht_view_def)
  then have rep: "fht_rep t ch qs" by (simp add: fht_inv_def)
  let ?hs = "[0..<HASH_SIZE]"
  let ?old = "t\<lparr>flow_cnt := 0\<rparr>"
  let ?t = "?old\<lparr>flow_hash_table := (\<lambda>h. if h \<in> set ?hs then bucket_empty else flow_hash_table ?old h),
       fl_obj := (fl_obj ?old) |` (- (\<Union>h \<in> set ?hs. set (ch h)))\<rparr>"
  have cr: "chain_rep (flow_hash_table t h) (fl_next t) (fl_prev t) (ch h)" for h
    using rep by (simp add: fht_rep_def)
  have clear: "fht_clear t = Some ?t"
    unfolding fht_clear_def
  proof (rule fht_clear_buckets)
    show "\<forall>h \<in> set ?hs. lpath (fl_next ?old) (b_first (flow_hash_table ?old h)) (ch h) None \<and>
        distinct (ch h) \<and> (\<forall>a \<in> set (ch h). fl_obj ?old a \<noteq> None) \<and>
        elm_cnt (flow_hash_table ?old h) = int (length (ch h))"
      using cr fht_rep_bucket(3) [OF rep] by (simp add: chain_rep_def)
    show "\<forall>h \<in> set ?hs. \<forall>k \<in> set ?hs. h \<noteq> k \<longrightarrow> set (ch h) \<inter> set (ch k) = {}"
      using other_chains [OF rep] by blast
  qed simp
  have "fht_rep ?t (\<lambda>_. []) qs"
  proof -
    have "chain_rep (flow_hash_table ?t h) nxt prv []" for h nxt prv
    proof (cases "h < HASH_SIZE")
      case False
      then show ?thesis using cr [of h] fht_live_empty [OF rep False] by (simp add: chain_rep_def)
    qed (simp add: chain_rep_empty)
    then show ?thesis using rep by (simp add: fht_rep_def)
  qed
  moreover have dead: "fl_obj ?t a = fl_obj t a" if "a \<in> set qs" for a
    using inv that by (simp add: fht_inv_def)
  ultimately have i: "fht_inv ?t (\<lambda>_. []) qs" using inv by (simp add: fht_inv_def)
  have "map (\<lambda>a. the (fl_obj ?t a)) qs = map (\<lambda>a. the (fl_obj t a)) qs" using dead by simp
  then have m: "d = map (\<lambda>a. the (fl_obj ?t a)) qs" by (simp only: d)
  have "fht_abs ?t (\<lambda>_. []) = Map.empty" by (simp add: fht_abs_def fun_eq_iff)
  with i m have "fht_view ?t Map.empty d"
    unfolding fht_view_def by (intro exI [of _ "\<lambda>_. []"] exI [of _ qs]) (simp only: simp_thms)
  with clear show ?thesis by (intro exI [of _ ?t]) (simp only: simp_thms)
qed

text \<open>Clearing the table deletes every flow in it and leaves an empty table, on which all
  operations work as on a new one; the flows in the flow queue are untouched.\<close>

theorem fht_clear_empties:
  assumes "fht_view t M d"
  shows "\<exists>t'. fht_clear t = Some t' \<and> fht_view t' Map.empty d \<and> fht_fcnt t' = 0"
  using fht_clear_view [OF assms] fht_view_fcnt(2) by force

section \<open>Sequences of packets\<close>

fun fht_add_packets :: "'pr flow \<Rightarrow> ((int \<times> int) \<times> packet_t) list \<Rightarrow> 'pr fht \<Rightarrow> 'pr fht option" where
  "fht_add_packets junk [] t = Some t"
| "fht_add_packets junk ((now, p) # ps) t = do {
     t \<leftarrow> fht_add_packet junk now p t;
     fht_add_packets junk ps t
   }"

definition tab_ok :: "(flow_s \<rightharpoonup> 'pr flow) \<Rightarrow> bool" where
  "tab_ok M \<longleftrightarrow> (\<forall>s f. M s = Some f \<longrightarrow> f_socket f = s \<and> (M (flip_sock s) \<noteq> None \<longrightarrow> flip_sock s = s))"

lemma flow_outcome_socket:
  "flow_outcome now p src f = Keep g \<Longrightarrow> f_socket g = f_socket f"
  by (auto simp: flow_outcome_def Let_def frame_simps split: if_splits)

lemma tab_okD:
  "tab_ok M \<Longrightarrow> M s = Some f \<Longrightarrow> f_socket f = s \<and> (M (flip_sock s) = None \<or> flip_sock s = s)"
  unfolding tab_ok_def by blast

lemma tab_add_ok:
  assumes ok: "tab_ok M"
  shows "tab_ok (fst (tab_add junk now p (M, d)))"
proof (cases "tab_lookup junk p M")
  case None
  with ok show ?thesis by (simp add: tab_add_def)
next
  case (Some x)
  obtain k src f where x: "x = (k, src, f)" by (cases x)
  have "M k = Some f \<or> f_socket f = k \<and> M (flip_sock k) = None"
    using Some x by (auto simp: tab_lookup_def Let_def split: option.splits if_splits)
  then have f: "f_socket f = k" and flip: "M (flip_sock k) = None \<or> flip_sock k = k"
    using tab_okD [OF ok, of k f] by blast+
  have del: "tab_ok (M(k := None))" using ok by (auto simp: tab_ok_def)
  have upd: "tab_ok (M(k \<mapsto> g))" if "f_socket g = k" for g
    unfolding tab_ok_def
  proof (intro allI impI)
    fix s h assume h: "(M(k \<mapsto> g)) s = Some h"
    show "f_socket h = s \<and> ((M(k \<mapsto> g)) (flip_sock s) \<noteq> None \<longrightarrow> flip_sock s = s)"
    proof (cases "s = k")
      case True
      with h that flip show ?thesis by (cases "flip_sock k = k") simp_all
    next
      case False
      then have s: "M s = Some h" using h by simp
      have "flip_sock s \<noteq> k"
      proof
        assume "flip_sock s = k"
        then have "flip_sock k = s" by (metis flip_flip)
        with flip s False show False by (metis option.distinct(1))
      qed
      with tab_okD [OF ok s] show ?thesis by (metis fun_upd_apply)
    qed
  qed
  show ?thesis
    using Some x del upd f flow_outcome_socket [of now p src f]
    by (cases "flow_outcome now p src f") (auto simp: tab_add_def tab_apply_def)
qed

lemma fht_add_packets_ok:
  assumes "fht_view t M d" "tab_ok M"
  shows "\<exists>t' M' d'. fht_add_packets junk ps t = Some t' \<and> fht_view t' M' d' \<and> tab_ok M'"
  using assms
proof (induction ps arbitrary: t M d)
  case Nil
  then show ?case by auto
next
  case (Cons np ps)
  obtain now p where np: "np = (now, p)" by (cases np)
  obtain t1 where "fht_add_packet junk now p t = Some t1"
      "fht_view t1 (fst (tab_add junk now p (M, d))) (snd (tab_add junk now p (M, d)))"
    using fht_add_packet_step [OF Cons.prems(1), of junk now p] by blast
  with Cons.IH [OF this(2) tab_add_ok [OF Cons.prems(2)]] show ?case by (simp add: np)
qed


text \<open>The continuation of a dropped flow: a RST for a flow with fewer than four client
  packets makes \<^verbatim>\<open>add_packet\<close> go on with a flow object it has deleted, and nothing else does.\<close>

theorem short_rst_uses_deleted_flow:
  assumes "fht_view t M d" "\<not> fl_fault t" "fht_add_packet junk now p t = Some t'"
  shows "fl_fault t' \<longleftrightarrow>
     (\<exists>k src f. tab_lookup junk p M = Some (k, src, f) \<and> pkts_src f < 4 \<and> tcp_flags p AND TH_RST \<noteq> 0)"
proof -
  have "flow_outcome now p src f = Drop \<longleftrightarrow> pkts_src f < 4 \<and> tcp_flags p AND TH_RST \<noteq> 0" for src and f :: "'a flow"
    by (auto simp: flow_outcome_def Let_def)
  then show ?thesis using fht_add_packet_step [OF assms(1), of junk now p] assms(2,3) by simp
qed

section \<open>Concrete instances\<close>

definition a_reset :: packet_t where
  "a_reset = packet_new\<lparr>saddr := 1, daddr := 2, sport := 1000, dport := 80, tcp_seq := 11,
     tcp_flags := TH_RST\<rparr>"

definition one_flow :: "unit flow" where
  "one_flow = cal_packet (5, 6) a_request True (hook_packet a_request True
     ((Flow_new blank_flow)\<lparr>f_socket := sock_of a_request\<rparr>))"

lemma one_flow_add:
  "tab_add blank_flow (5, 6) a_request (Map.empty, []) = ([sock_of a_request \<mapsto> one_flow], [])"
  by (simp add: tab_add_def tab_lookup_def tab_apply_def flow_outcome_def one_flow_def Let_def)
    (simp add: a_request_def packet_new_def type_defs flag_defs)

lemma one_flow_view: "\<exists>t. fht_view t [sock_of a_request \<mapsto> one_flow] [] \<and> \<not> fl_fault t"
proof -
  have "flow_outcome now a_request src f \<noteq> Drop" for now src and f :: "unit flow"
    by (simp add: flow_outcome_def Let_def) (simp add: a_request_def packet_new_def flag_defs)
  moreover have "\<not> fl_fault (FlowHashTable_new Queue_new)" by (simp add: FlowHashTable_new_def)
  ultimately show ?thesis
    using fht_add_packet_step [OF fht_view_new [OF Queue_rep_new], of "blank_flow :: unit flow" "(5, 6)" a_request]
    by (auto simp: one_flow_add)
qed


theorem flow_scrubber_closes_idle_witness:
  "\<exists>t t'. fht_view t [sock_of a_request \<mapsto> one_flow] [] \<and>
     flow_scrubber 600 (\<lambda>_. 1000) t = Some (1, t') \<and> fht_view t' Map.empty [force_close one_flow]"
proof -
  obtain t where t: "fht_view t [sock_of a_request \<mapsto> one_flow] []" using one_flow_view by blast
  have o: "timed_out 600 1000 (last_action_sec one_flow)"
    by (simp add: timed_out_def one_flow_def cal_packet_def Let_def)
  obtain t' closed where c: "flow_scrubber 600 (\<lambda>_. 1000) t = Some (int (length closed), t')"
      "fht_view t' Map.empty closed" "distinct (map f_socket closed)" "set closed = {force_close one_flow}"
    using flow_scrubber_closes_idle [OF t, of 600 1000] o
    by (auto simp: fun_eq_iff if_distrib cong: if_cong)
  have "closed = [force_close one_flow]"
    using c(3,4) by (cases closed; cases "tl closed") auto
  with t c(1,2) show ?thesis by auto
qed

theorem scrub_all_closes_none_witness:
  "\<exists>t t'. fht_view t [sock_of a_request \<mapsto> one_flow] [] \<and>
     flow_scrubber (-1) (\<lambda>_. 1000) t = Some (0, t') \<and> fht_view t' [sock_of a_request \<mapsto> one_flow] []"
  using one_flow_view scrub_all_closes_none [where M = "[sock_of a_request \<mapsto> one_flow]" and n = 1000] by blast

theorem fht_clear_empties_witness:
  "\<exists>t t'. fht_view t [sock_of a_request \<mapsto> one_flow] [] \<and> fht_clear t = Some t' \<and> fht_view t' Map.empty []"
  using one_flow_view fht_clear_empties [where M = "[sock_of a_request \<mapsto> one_flow]"] by blast

theorem short_rst_uses_deleted_flow_witness:
  "\<exists>t t'. fht_view t [sock_of a_request \<mapsto> one_flow] [] \<and>
     fht_add_packet blank_flow (7, 8) a_reset t = Some t' \<and> fl_fault t'"
proof -
  obtain t where t: "fht_view t [sock_of a_request \<mapsto> one_flow] []" "\<not> fl_fault t"
    using one_flow_view by blast
  then obtain t' where t': "fht_add_packet blank_flow (7, 8) a_reset t = Some t'"
    using fht_add_packet_step by blast
  have "sock_of a_reset = sock_of a_request" "flip_sock (sock_of a_request) \<noteq> sock_of a_request"
    by (simp_all add: sock_of_def flip_sock_def a_reset_def a_request_def packet_new_def)
  then have "tab_lookup blank_flow a_reset [sock_of a_request \<mapsto> one_flow] = Some (sock_of a_request, True, one_flow)"
    by (simp add: tab_lookup_def Let_def)
  moreover have "pkts_src one_flow < 4"
    by (simp add: one_flow_def cal_packet_def Let_def hook_packet_def Flow_new_def)
  moreover have "tcp_flags a_reset AND TH_RST \<noteq> 0" by (simp add: a_reset_def packet_new_def flag_defs)
  ultimately show ?thesis using short_rst_uses_deleted_flow [OF t t'] t t' by blast
qed


end
