(* ===== verification/Hash_Table.thy ===== *)
theory Hash_Table
  imports Bucket_List Clib
begin

unbundle bit_operations_syntax

text \<open>
  The counting hash table \<^verbatim>\<open>Hash\<close> (\<^verbatim>\<open>hashTable.hpp\<close>, \<^verbatim>\<open>hashTable.cpp\<close>) and the two classes of
  keys used with it, \<^verbatim>\<open>StringHash\<close> (\<^verbatim>\<open>stringHash.hpp\<close>) and \<^verbatim>\<open>Addr2\<close> (\<^verbatim>\<open>client.cpp\<close>).  The
  abstract class \<^verbatim>\<open>Hashable\<close> is the interface between the two: its virtual methods are the
  arguments \<open>hash\<close> and \<open>compare\<close> of the operations, and what the table needs of them is the
  locale \<open>hashable\<close>.
\<close>

record 'v hash_t =
  h_size :: nat
  h_cnt :: int
  h_buckets :: "nat \<Rightarrow> bucket"
  n_next :: "addr \<Rightarrow> ptr"
  n_prev :: "addr \<Rightarrow> ptr"
  n_bucket :: "addr \<Rightarrow> nat"
  n_value :: "addr \<rightharpoonup> 'v"
  n_cnt :: "addr \<Rightarrow> int"
  n_brk :: addr

definition Hash_new :: "'v hash_t" where
  "Hash_new = \<lparr>h_size = HASH_SIZE, h_cnt = 0, h_buckets = (\<lambda>_. bucket_empty), n_next = (\<lambda>_. None),
     n_prev = (\<lambda>_. None), n_bucket = (\<lambda>_. 0), n_value = Map.empty, n_cnt = (\<lambda>_. 0), n_brk = 0\<rparr>"

definition bucket_of :: "('v \<Rightarrow> u32) \<Rightarrow> 'v \<Rightarrow> 'v hash_t \<Rightarrow> nat" where
  "bucket_of hash v t = unat (hash v) mod h_size t"

definition Hash_create :: "('v \<Rightarrow> u32) \<Rightarrow> 'v \<Rightarrow> 'v hash_t \<Rightarrow> (addr \<times> 'v hash_t) option" where
  "Hash_create hash v t =
     (let n = n_brk t; b = bucket_of hash v t
      in do {
        (hm, nxt, prv) \<leftarrow> chain_append n (h_buckets t b, n_next t, n_prev t);
        Some (n, t\<lparr>h_buckets := (h_buckets t)(b := hm), n_next := nxt, n_prev := prv,
          n_bucket := (n_bucket t)(n := b), n_value := (n_value t)(n \<mapsto> v),
          n_cnt := (n_cnt t)(n := 1), n_brk := Suc n, h_cnt := h_cnt t + 1\<rparr>)
      })"

definition Hash_find :: "('v \<Rightarrow> u32) \<Rightarrow> ('v \<Rightarrow> 'v \<Rightarrow> int) \<Rightarrow> 'v \<Rightarrow> 'v hash_t \<Rightarrow> ptr option" where
  "Hash_find hash compare v t =
     (let b = h_buckets t (bucket_of hash v t)
      in if elm_cnt b > 0
         then chain_find (\<lambda>a. map_option (\<lambda>e. compare v e = 0) (n_value t a)) (n_next t) (b_first b)
         else Some None)"

definition Hash_remove :: "('v \<Rightarrow> u32) \<Rightarrow> ('v \<Rightarrow> 'v \<Rightarrow> int) \<Rightarrow> 'v \<Rightarrow> 'v hash_t \<Rightarrow> (ptr \<times> 'v hash_t) option" where
  "Hash_remove hash compare v t = do {
     n \<leftarrow> Hash_find hash compare v t;
     (case n of
        None \<Rightarrow> Some (None, t)
      | Some n \<Rightarrow> do {
          (hm, nxt, prv) \<leftarrow> chain_remove n (h_buckets t (n_bucket t n), n_next t, n_prev t);
          Some (Some n, t\<lparr>h_buckets := (h_buckets t)(n_bucket t n := hm), n_next := nxt, n_prev := prv,
            h_cnt := h_cnt t - 1\<rparr>)
        })
   }"

definition Hash_add :: "('v \<Rightarrow> u32) \<Rightarrow> ('v \<Rightarrow> 'v \<Rightarrow> int) \<Rightarrow> 'v \<Rightarrow> 'v hash_t \<Rightarrow> (int \<times> 'v hash_t) option" where
  "Hash_add hash compare v t = do {
     e \<leftarrow> Hash_find hash compare v t;
     (case e of
        None \<Rightarrow> do { (e, t) \<leftarrow> Hash_create hash v t; Some (0, t) }
      | Some e \<Rightarrow> Some (1, t\<lparr>n_cnt := (n_cnt t)(e := n_cnt t e + 1)\<rparr>))
   }"

text \<open>The inner loop of \<^verbatim>\<open>clear\<close>; its fuel is the number of nodes of the bucket plus one.\<close>

fun Hash_clear_bucket :: "nat \<Rightarrow> nat \<Rightarrow> 'v hash_t \<Rightarrow> 'v hash_t option" where
  "Hash_clear_bucket 0 h t = None"
| "Hash_clear_bucket (Suc k) h t =
     (case b_first (h_buckets t h) of
        None \<Rightarrow> Some (t\<lparr>h_buckets := (h_buckets t)(h := (h_buckets t h)\<lparr>b_first := None, b_last := None\<rparr>)\<rparr>)
      | Some e \<Rightarrow>
          if n_value t e = None then None
          else Hash_clear_bucket k h (t\<lparr>h_buckets := (h_buckets t)(h :=
                 (h_buckets t h)\<lparr>b_first := n_next t e, elm_cnt := elm_cnt (h_buckets t h) - 1\<rparr>),
                 n_value := (n_value t)(e := None)\<rparr>))"

definition Hash_clear :: "'v hash_t \<Rightarrow> 'v hash_t option" where
  "Hash_clear t =
     over_buckets (\<lambda>h t. Hash_clear_bucket (Suc (nat (elm_cnt (h_buckets t h)))) h t)
       [0..<h_size t] (t\<lparr>h_cnt := 0\<rparr>)"

definition Hash_getSize :: "'v hash_t \<Rightarrow> nat" where "Hash_getSize t = h_size t"

definition Hash_getCnt :: "'v hash_t \<Rightarrow> int" where "Hash_getCnt t = h_cnt t"

definition Hash_getScnt :: "'v hash_t \<Rightarrow> int" where
  "Hash_getScnt t = int (length (filter (\<lambda>h. b_first (h_buckets t h) \<noteq> None) [0..<h_size t]))"

section \<open>The keys\<close>

text \<open>\<^verbatim>\<open>StringHash\<close>: djb2 over the bytes of the string up to its NUL, in an \<^verbatim>\<open>unsigned long\<close>
  that the return truncates to 32 bits.  A byte is a (signed) \<^verbatim>\<open>char\<close>.\<close>

definition MAGIC_HASH_NUMBER :: u64 where "MAGIC_HASH_NUMBER = 5381"

definition char_val :: "char \<Rightarrow> int" where
  "char_val c = (let n = int (of_char c :: nat) in if n < 128 then n else n - 256)"

fun djb2 :: "u64 \<Rightarrow> string \<Rightarrow> u64" where
  "djb2 h [] = h"
| "djb2 h (c # cs) = (if c = NUL then h else djb2 ((push_bit 5 h + h) + word_of_int (char_val c)) cs)"

definition StringHash_hash :: "string \<Rightarrow> u32" where
  "StringHash_hash s = ucast (djb2 MAGIC_HASH_NUMBER s)"

definition c_str :: "string \<Rightarrow> string" where
  "c_str s = takeWhile (\<lambda>c. c \<noteq> NUL) s"

fun strcmp :: "string \<Rightarrow> string \<Rightarrow> int" where
  "strcmp [] [] = 0"
| "strcmp [] (d # _) = (if d = NUL then 0 else -1)"
| "strcmp (c # _) [] = (if c = NUL then 0 else 1)"
| "strcmp (c # cs) (d # ds) =
     (if c = d then (if c = NUL then 0 else strcmp cs ds)
      else if (of_char c :: nat) < of_char d then -1 else 1)"

definition StringHash_compare :: "string \<Rightarrow> string \<Rightarrow> int" where
  "StringHash_compare a b = strcmp a b"

text \<open>\<^verbatim>\<open>Addr2\<close>: a pointer to an IPv4 address; unequal addresses are ordered by the pointers.\<close>

type_synonym addr2 = "addr \<times> u32"

definition Addr2_hash :: "addr2 \<Rightarrow> u32" where "Addr2_hash v = snd v"

definition Addr2_compare :: "addr2 \<Rightarrow> addr2 \<Rightarrow> int" where
  "Addr2_compare v e = (if snd v = snd e then 0 else if fst v > fst e then 1 else -1)"

section \<open>The interface\<close>

text \<open>Two objects that compare equal have the same key, and the key determines the hash.\<close>

locale hashable =
  fixes hash :: "'v \<Rightarrow> u32" and compare :: "'v \<Rightarrow> 'v \<Rightarrow> int" and key :: "'v \<Rightarrow> 'k"
  assumes compare_key: "compare a b = 0 \<longleftrightarrow> key a = key b"
    and hash_key: "key a = key b \<Longrightarrow> hash a = hash b"

definition node_key :: "('v \<Rightarrow> 'k) \<Rightarrow> 'v hash_t \<Rightarrow> addr \<Rightarrow> 'k" where
  "node_key key t a = key (the (n_value t a))"

definition hash_rep :: "('v \<Rightarrow> u32) \<Rightarrow> ('v \<Rightarrow> 'k) \<Rightarrow> 'v hash_t \<Rightarrow> (nat \<Rightarrow> addr list) \<Rightarrow> bool" where
  "hash_rep hash key t ch \<longleftrightarrow>
     (\<forall>h. chain_rep (h_buckets t h) (n_next t) (n_prev t) (ch h)) \<and>
     (\<forall>h. \<forall>a \<in> set (ch h). n_bucket t a = h \<and> a < n_brk t \<and> n_value t a \<noteq> None \<and>
        bucket_of hash (the (n_value t a)) t = h) \<and>
     (\<forall>h. distinct (map (node_key key t) (ch h))) \<and>
     h_size t = HASH_SIZE \<and> h_cnt t = (\<Sum>h < HASH_SIZE. int (length (ch h)))"

text \<open>The count recorded under a key, if any.\<close>

definition live :: "(nat \<Rightarrow> addr list) \<Rightarrow> addr set" where
  "live ch = (\<Union>h. set (ch h))"

definition counted :: "('v \<Rightarrow> 'k) \<Rightarrow> 'v hash_t \<Rightarrow> (nat \<Rightarrow> addr list) \<Rightarrow> 'k \<Rightarrow> int \<Rightarrow> bool" where
  "counted key t ch k n \<longleftrightarrow> (\<exists>a \<in> live ch. node_key key t a = k \<and> n_cnt t a = n)"

definition hash_view :: "('v \<Rightarrow> u32) \<Rightarrow> ('v \<Rightarrow> 'k) \<Rightarrow> 'v hash_t \<Rightarrow> ('k \<rightharpoonup> int) \<Rightarrow> bool" where
  "hash_view hash key t M \<longleftrightarrow>
     (\<exists>ch. hash_rep hash key t ch \<and> (\<forall>k n. M k = Some n \<longleftrightarrow> counted key t ch k n))"

lemma bucket_of_less [simp]: "h_size t = HASH_SIZE \<Longrightarrow> bucket_of hash v t < HASH_SIZE"
  by (simp add: bucket_of_def HASH_SIZE_def)

lemma sum_chain_update:
  fixes ch :: "nat \<Rightarrow> addr list"
  assumes "h < HASH_SIZE"
  shows "(\<Sum>k < HASH_SIZE. int (length ((ch(h := xs)) k))) =
     (\<Sum>k < HASH_SIZE. int (length (ch k))) - int (length (ch h)) + int (length xs)"
proof -
  have split: "{..<HASH_SIZE} = insert h ({..<HASH_SIZE} - {h})" using assms by auto
  have "(\<Sum>k < HASH_SIZE. int (length ((ch(h := xs)) k))) =
      int (length xs) + (\<Sum>k \<in> {..<HASH_SIZE} - {h}. int (length (ch k)))"
    by (subst split, subst sum.insert) simp_all
  moreover have "(\<Sum>k < HASH_SIZE. int (length (ch k))) =
      int (length (ch h)) + (\<Sum>k \<in> {..<HASH_SIZE} - {h}. int (length (ch k)))"
    by (subst split, subst sum.insert) simp_all
  ultimately show ?thesis by simp
qed

lemma live_append: "live (ch(h := ch h @ [n])) = insert n (live ch)"
proof -
  have "x \<in> set ((ch(h := ch h @ [n])) k) \<longleftrightarrow> x \<in> set (ch k) \<or> (k = h \<and> x = n)" for x k
    by (cases "k = h") auto
  then show ?thesis by (auto simp: live_def)
qed

lemma live_remove:
  assumes "ch h = ys @ a # zs" "distinct (ch h)" "\<And>k. k \<noteq> h \<Longrightarrow> a \<notin> set (ch k)"
  shows "live (ch(h := ys @ zs)) = live ch - {a}"
proof -
  have "x \<in> set ((ch(h := ys @ zs)) k) \<longleftrightarrow> x \<in> set (ch k) \<and> x \<noteq> a" for x k
    using assms by (cases "k = h") auto
  then show ?thesis by (auto simp: live_def)
qed

lemma hash_rep_new: "hash_rep hash key Hash_new (\<lambda>_. [])"
  by (simp add: hash_rep_def Hash_new_def chain_rep_empty)

lemma hash_view_new: "hash_view hash key Hash_new Map.empty"
  unfolding hash_view_def by (intro exI [of _ "\<lambda>_. []"]) (simp add: hash_rep_new counted_def live_def)

lemma hash_rep_node:
  assumes "hash_rep hash key t ch" "a \<in> set (ch h)"
  shows "n_bucket t a = h" "a < n_brk t" "n_value t a \<noteq> None" "bucket_of hash (the (n_value t a)) t = h"
    "h < HASH_SIZE"
proof -
  show *: "n_bucket t a = h" "a < n_brk t" "n_value t a \<noteq> None" "bucket_of hash (the (n_value t a)) t = h"
    using assms unfolding hash_rep_def by blast+
  have "h_size t = HASH_SIZE" using assms(1) by (simp add: hash_rep_def)
  from bucket_of_less [OF this] *(4) show "h < HASH_SIZE" by metis
qed

lemma hash_other_chains:
  assumes "hash_rep hash key t ch" "k \<noteq> h"
  shows "set (ch k) \<inter> insert (n_brk t) (set (ch h)) = {}"
proof -
  have "a \<noteq> n_brk t \<and> a \<notin> set (ch h)" if "a \<in> set (ch k)" for a
    using hash_rep_node(1,2) [OF assms(1) that] hash_rep_node(1) [OF assms(1), of a h] assms(2)
    by auto
  then show ?thesis by blast
qed

text \<open>One chain of the table is replaced.\<close>

lemma hash_rep_chain:
  assumes rep: "hash_rep hash key t ch" and h: "h < HASH_SIZE"
    and new: "chain_rep hm nxt prv xs"
    and out: "same_outside (insert (n_brk t) (set (ch h))) (n_next t) nxt"
      "same_outside (insert (n_brk t) (set (ch h))) (n_prev t) prv"
    and t': "h_buckets t' = (h_buckets t)(h := hm)" "n_next t' = nxt" "n_prev t' = prv"
      "h_size t' = h_size t" "h_cnt t' = h_cnt t - int (length (ch h)) + int (length xs)"
    and same: "\<And>k a. k \<noteq> h \<Longrightarrow> a \<in> set (ch k) \<Longrightarrow> n_bucket t' a = n_bucket t a \<and> n_value t' a = n_value t a \<and> a < n_brk t'"
    and xs: "\<And>a. a \<in> set xs \<Longrightarrow> n_bucket t' a = h \<and> a < n_brk t' \<and> n_value t' a \<noteq> None \<and>
        bucket_of hash (the (n_value t' a)) t = h" "distinct (map (node_key key t') xs)"
  shows "hash_rep hash key t' (ch(h := xs))"
proof -
  have bo: "bucket_of hash v t' = bucket_of hash v t" for v using t'(4) by (simp add: bucket_of_def)
  have "chain_rep (h_buckets t' k) (n_next t') (n_prev t') ((ch(h := xs)) k)" for k
  proof (cases "k = h")
    case True
    with new t' show ?thesis by simp
  next
    case False
    have "chain_rep (h_buckets t k) (n_next t) (n_prev t) (ch k)" using rep by (simp add: hash_rep_def)
    from chain_rep_frame [OF this out hash_other_chains [OF rep False]] False t' show ?thesis by simp
  qed
  moreover have "n_bucket t' a = k \<and> a < n_brk t' \<and> n_value t' a \<noteq> None \<and> bucket_of hash (the (n_value t' a)) t' = k"
    if "a \<in> set ((ch(h := xs)) k)" for a k
  proof (cases "k = h")
    case True
    with xs(1) that bo show ?thesis by auto
  next
    case False
    with that have a: "a \<in> set (ch k)" by simp
    with hash_rep_node [OF rep a] same [OF False a] bo show ?thesis by simp
  qed
  moreover have "distinct (map (node_key key t') ((ch(h := xs)) k))" for k
  proof (cases "k = h")
    case True
    with xs(2) show ?thesis by simp
  next
    case False
    have m: "map (node_key key t') (ch k) = map (node_key key t) (ch k)"
      using same [OF False] by (simp add: node_key_def)
    have "distinct (map (node_key key t) (ch k))" using rep by (simp add: hash_rep_def)
    with False show ?thesis by (simp only: m fun_upd_other not_False_eq_True)
  qed
  moreover have "h_size t' = HASH_SIZE" using rep t'(4) by (simp add: hash_rep_def)
  moreover have "h_cnt t' = (\<Sum>k < HASH_SIZE. int (length ((ch(h := xs)) k)))"
    using rep t'(5) sum_chain_update [OF h, of ch xs] by (simp add: hash_rep_def)
  ultimately show ?thesis unfolding hash_rep_def by blast
qed

context hashable
begin

lemma same_bucket: "key a = key b \<Longrightarrow> bucket_of hash a t = bucket_of hash b t"
  using hash_key [of a b] by (simp add: bucket_of_def)

lemma find_rep:
  assumes rep: "hash_rep hash key t ch"
  shows "Hash_find hash compare v t =
     Some (List.find (\<lambda>a. node_key key t a = key v) (ch (bucket_of hash v t)))"
proof -
  let ?h = "bucket_of hash v t"
  have c: "chain_rep (h_buckets t ?h) (n_next t) (n_prev t) (ch ?h)"
    using rep by (simp add: hash_rep_def)
  have "map_option (\<lambda>e. compare v e = 0) (n_value t a) = Some (node_key key t a = key v)"
    if "a \<in> set (ch ?h)" for a
    using hash_rep_node(3) [OF rep that] by (auto simp: node_key_def compare_key)
  moreover have "elm_cnt (h_buckets t ?h) = int (length (ch ?h))" using c by (simp add: chain_rep_def)
  ultimately show ?thesis using chain_find_rep [OF c] by (auto simp: Hash_find_def Let_def)
qed

lemma find_cases:
  assumes rep: "hash_rep hash key t ch"
  obtains (absent) "Hash_find hash compare v t = Some None" "\<And>h a. a \<in> set (ch h) \<Longrightarrow> node_key key t a \<noteq> key v"
  | (present) a where "Hash_find hash compare v t = Some (Some a)" "a \<in> set (ch (bucket_of hash v t))"
      "node_key key t a = key v"
proof (cases "List.find (\<lambda>a. node_key key t a = key v) (ch (bucket_of hash v t))")
  case None
  have "node_key key t a \<noteq> key v" if "a \<in> set (ch h)" for h a
  proof
    assume k: "node_key key t a = key v"
    then have "bucket_of hash v t = h"
      using same_bucket hash_rep_node(4) [OF rep that] by (metis node_key_def)
    with None that k show False by (auto simp: find_None_iff)
  qed
  with None find_rep [OF rep] show ?thesis by (intro absent) simp_all
next
  case (Some a)
  moreover from Some have "a \<in> set (ch (bucket_of hash v t)) \<and> node_key key t a = key v"
    by (auto simp: find_Some_iff)
  ultimately show ?thesis using find_rep [OF rep] by (intro present [of a]) simp_all
qed

lemma node_inj:
  assumes rep: "hash_rep hash key t ch"
    and ab: "a \<in> set (ch h)" "b \<in> set (ch k)" "node_key key t a = node_key key t b"
  shows "a = b"
proof -
  have "h = k"
    using hash_rep_node(4) [OF rep ab(1)] hash_rep_node(4) [OF rep ab(2)] same_bucket ab(3)
    by (metis node_key_def)
  moreover have "inj_on (node_key key t) (set (ch h))" using rep by (simp add: hash_rep_def distinct_map)
  ultimately show ?thesis using ab by (auto dest: inj_onD)
qed

lemma create_view:
  assumes view: "hash_view hash key t M" and absent: "Hash_find hash compare v t = Some None"
  shows "\<exists>n t'. Hash_create hash v t = Some (n, t') \<and> hash_view hash key t' (M(key v \<mapsto> 1))"
proof -
  obtain ch where rep: "hash_rep hash key t ch" and M: "\<And>k n. M k = Some n \<longleftrightarrow> counted key t ch k n"
    using view by (auto simp: hash_view_def)
  let ?n = "n_brk t" and ?h = "bucket_of hash v t"
  have none: "node_key key t a \<noteq> key v" if "a \<in> set (ch h)" for h a
    using find_cases [OF rep, of v] absent that by (metis option.distinct(1) option.inject)
  have c: "chain_rep (h_buckets t ?h) (n_next t) (n_prev t) (ch ?h)" and hs: "h_size t = HASH_SIZE"
    using rep by (simp_all add: hash_rep_def)
  have fresh: "?n \<notin> set (ch k)" for k using hash_rep_node(2) [OF rep] by blast
  obtain hm nxt prv where app: "chain_append ?n (h_buckets t ?h, n_next t, n_prev t) = Some (hm, nxt, prv)"
    and new: "chain_rep hm nxt prv (ch ?h @ [?n])"
    and out: "same_outside (insert ?n (set (ch ?h))) (n_next t) nxt"
      "same_outside (insert ?n (set (ch ?h))) (n_prev t) prv"
    using chain_append_rep [OF c fresh] by blast
  define t' where "t' = t\<lparr>h_buckets := (h_buckets t)(?h := hm), n_next := nxt, n_prev := prv,
          n_bucket := (n_bucket t)(?n := ?h), n_value := (n_value t)(?n \<mapsto> v),
          n_cnt := (n_cnt t)(?n := 1), n_brk := Suc ?n, h_cnt := h_cnt t + 1\<rparr>"
  have key': "node_key key t' ?n = key v" "\<And>k a. a \<in> set (ch k) \<Longrightarrow> node_key key t' a = node_key key t a"
    using fresh by (auto simp: node_key_def t'_def)
  have m: "map (node_key key t') (ch ?h) = map (node_key key t) (ch ?h)" using key'(2) by simp
  have "key v \<notin> set (map (node_key key t) (ch ?h))" using none by (metis imageE set_map)
  moreover have "distinct (map (node_key key t) (ch ?h))" using rep by (simp add: hash_rep_def)
  ultimately have dis: "distinct (map (node_key key t') (ch ?h @ [?n]))"
    by (simp add: key'(1) m del: set_map)
  have other: "n_bucket t' a = n_bucket t a \<and> n_value t' a = n_value t a \<and> a < n_brk t' \<and> n_cnt t' a = n_cnt t a"
    if a: "a \<in> set (ch k)" for k a
  proof -
    have "a \<noteq> ?n" using fresh a by blast
    with hash_rep_node(2) [OF rep a] show ?thesis by (simp add: t'_def)
  qed
  have own: "n_bucket t' a = ?h \<and> a < n_brk t' \<and> n_value t' a \<noteq> None \<and> bucket_of hash (the (n_value t' a)) t = ?h"
    if "a \<in> set (ch ?h @ [?n])" for a
  proof (cases "a = ?n")
    case True
    then show ?thesis by (simp add: t'_def)
  next
    case False
    then have a: "a \<in> set (ch ?h)" using that by simp
    from other [OF a] hash_rep_node [OF rep a] show ?thesis by simp
  qed
  have rep': "hash_rep hash key t' (ch(?h := ch ?h @ [?n]))"
    by (rule hash_rep_chain [OF rep bucket_of_less [OF hs] new out])
      (use other own dis in \<open>simp_all add: t'_def\<close>)
  have "counted key t' (ch(?h := ch ?h @ [?n])) k n \<longleftrightarrow> (if k = key v then n = 1 else counted key t ch k n)" for k n
  proof -
    have "counted key t' (ch(?h := ch ?h @ [?n])) k n \<longleftrightarrow>
        (k = key v \<and> n = 1) \<or> counted key t' ch k n"
      using key'(1) by (auto simp: counted_def live_append) (auto simp: t'_def)
    also have "counted key t' ch k n \<longleftrightarrow> counted key t ch k n"
      using key'(2) other by (auto simp: counted_def live_def)
    finally show ?thesis using none by (auto simp: counted_def live_def)
  qed
  with M have "(M(key v \<mapsto> 1)) k = Some n \<longleftrightarrow> counted key t' (ch(?h := ch ?h @ [?n])) k n" for k n
    by simp
  with rep' have "hash_view hash key t' (M(key v \<mapsto> 1))"
    unfolding hash_view_def by blast
  moreover have "Hash_create hash v t = Some (?n, t')"
    using app by (simp add: Hash_create_def t'_def Let_def)
  ultimately show ?thesis by blast
qed

lemma add_view:
  assumes view: "hash_view hash key t M"
  shows "\<exists>r t'. Hash_add hash compare v t = Some (r, t') \<and>
     hash_view hash key t' (M(key v \<mapsto> (case M (key v) of None \<Rightarrow> 1 | Some n \<Rightarrow> n + 1))) \<and>
     (r = 0 \<longleftrightarrow> M (key v) = None)"
proof -
  obtain ch where rep: "hash_rep hash key t ch" and M: "\<And>k n. M k = Some n \<longleftrightarrow> counted key t ch k n"
    using view by (auto simp: hash_view_def)
  show ?thesis
  proof (rule find_cases [OF rep, of v], goal_cases absent present)
    case absent
    have "M (key v) = None" using absent(2) M [of "key v"] by (auto simp: counted_def live_def)
    moreover obtain n t' where "Hash_create hash v t = Some (n, t')" "hash_view hash key t' (M(key v \<mapsto> 1))"
      using create_view [OF view absent(1)] by blast
    ultimately show ?thesis using absent(1) by (simp add: Hash_add_def)
  next
    case (present a)
    let ?t = "t\<lparr>n_cnt := (n_cnt t)(a := n_cnt t a + 1)\<rparr>"
    have a: "a \<in> live ch" using present(2) by (auto simp: live_def)
    have k: "node_key key ?t = node_key key t" by (simp add: node_key_def fun_eq_iff)
    have select_convs_cnt: "n_cnt ?t = (n_cnt t)(a := n_cnt t a + 1)" by simp
    have bo: "bucket_of hash w ?t = bucket_of hash w t" for w by (simp add: bucket_of_def)
    have rep': "hash_rep hash key ?t ch"
      using rep unfolding hash_rep_def k bo by simp
    have Ma: "M (key v) = Some (n_cnt t a)" using M present(3) a by (auto simp: counted_def)
    have inj: "b = a" if "b \<in> live ch" "node_key key t b = key v" for b
      using that a present(3) node_inj [OF rep] by (auto simp: live_def)
    have "(M(key v \<mapsto> n_cnt t a + 1)) k = Some n \<longleftrightarrow> counted key ?t ch k n" for k n
    proof (cases "k = key v")
      case True
      then have "counted key ?t ch k n \<longleftrightarrow> n = n_cnt t a + 1"
        unfolding counted_def k using inj a present(3) by (metis fun_upd_same select_convs_cnt)
      with True show ?thesis by auto
    next
      case False
      then have "counted key ?t ch k n \<longleftrightarrow> counted key t ch k n"
        unfolding counted_def k using present(3) select_convs_cnt by (metis fun_upd_other)
      with False M show ?thesis by simp
    qed
    with rep' have "hash_view hash key ?t (M(key v \<mapsto> n_cnt t a + 1))" unfolding hash_view_def by blast
    with Ma present(1) show ?thesis by (simp add: Hash_add_def)
  qed
qed

lemma remove_view:
  assumes view: "hash_view hash key t M"
  shows "\<exists>r t'. Hash_remove hash compare v t = Some (r, t') \<and> hash_view hash key t' (M(key v := None)) \<and>
     (r = None \<longleftrightarrow> M (key v) = None)"
proof -
  obtain ch where rep: "hash_rep hash key t ch" and M: "\<And>k n. M k = Some n \<longleftrightarrow> counted key t ch k n"
    using view by (auto simp: hash_view_def)
  show ?thesis
  proof (rule find_cases [OF rep, of v], goal_cases absent present)
    case absent
    have none: "M (key v) = None" using absent(2) M [of "key v"] by (auto simp: counted_def live_def)
    then have "M(key v := None) = M" by auto
    with view absent(1) none show ?thesis by (simp add: Hash_remove_def)
  next
    case (present a)
    let ?h = "bucket_of hash v t"
    note node = hash_rep_node [OF rep present(2)]
    obtain ys zs where h: "ch ?h = ys @ a # zs" using split_list [OF present(2)] by blast
    have "chain_rep (h_buckets t ?h) (n_next t) (n_prev t) (ys @ a # zs)"
      using rep unfolding hash_rep_def h [symmetric] by blast
    then obtain hm nxt prv where rem: "chain_remove a (h_buckets t ?h, n_next t, n_prev t) = Some (hm, nxt, prv)"
      and new: "chain_rep hm nxt prv (ys @ zs)"
      and out: "same_outside (set (ch ?h)) (n_next t) nxt" "same_outside (set (ch ?h)) (n_prev t) prv"
      using chain_remove_rep unfolding h by blast
    have out': "same_outside (insert (n_brk t) (set (ch ?h))) (n_next t) nxt"
      "same_outside (insert (n_brk t) (set (ch ?h))) (n_prev t) prv"
      using out by (auto simp: same_outside_def)
    define t' where "t' = t\<lparr>h_buckets := (h_buckets t)(?h := hm), n_next := nxt, n_prev := prv,
            h_cnt := h_cnt t - 1\<rparr>"
    have k: "node_key key t' = node_key key t" by (simp add: node_key_def t'_def fun_eq_iff)
    have d: "distinct (map (node_key key t) (ch ?h))" using rep by (simp add: hash_rep_def)
    then have dk: "distinct (map (node_key key t') (ys @ zs))" by (auto simp: k h)
    have own: "n_bucket t' b = ?h \<and> b < n_brk t' \<and> n_value t' b \<noteq> None \<and> bucket_of hash (the (n_value t' b)) t = ?h"
      if "b \<in> set (ys @ zs)" for b
    proof -
      have b: "b \<in> set (ch ?h)" using that h by auto
      from hash_rep_node [OF rep b] show ?thesis by (simp add: t'_def)
    qed
    have other: "n_bucket t' b = n_bucket t b \<and> n_value t' b = n_value t b \<and> b < n_brk t'"
      if "b \<in> set (ch k)" for b k
      using hash_rep_node(2) [OF rep that] by (simp add: t'_def)
    have rep': "hash_rep hash key t' (ch(?h := ys @ zs))"
      by (rule hash_rep_chain [OF rep node(5) new out'])
        (use own other dk in \<open>simp_all add: t'_def h\<close>)
    have lv: "live (ch(?h := ys @ zs)) = live ch - {a}"
    proof (rule live_remove)
      show "ch ?h = ys @ a # zs" by (rule h)
      show "distinct (ch ?h)" using d by (simp add: distinct_map)
      show "\<And>k. k \<noteq> ?h \<Longrightarrow> a \<notin> set (ch k)" using hash_rep_node(1) [OF rep] node(1) by blast
    qed
    have a: "a \<in> live ch" using present(2) by (auto simp: live_def)
    have inj: "b = a" if "b \<in> live ch" "node_key key t b = key v" for b
      using that a present(3) node_inj [OF rep] by (auto simp: live_def)
    have "(M(key v := None)) k = Some n \<longleftrightarrow> counted key t' (ch(?h := ys @ zs)) k n" for k n
    proof -
      have "counted key t' (ch(?h := ys @ zs)) k n \<longleftrightarrow> k \<noteq> key v \<and> counted key t ch k n"
        using inj present(3) by (auto simp: counted_def lv k) (auto simp: t'_def)
      with M show ?thesis by simp
    qed
    with rep' have v: "hash_view hash key t' (M(key v := None))" unfolding hash_view_def by blast
    have Ma: "M (key v) = Some (n_cnt t a)" using M present(3) a by (auto simp: counted_def)
    have "Hash_remove hash compare v t = Some (Some a, t')"
      using present(1) rem node(1) by (simp add: Hash_remove_def t'_def)
    with v Ma show ?thesis by simp
  qed
qed

end

section \<open>The two instances\<close>

lemma strcmp_c_str: "strcmp a b = 0 \<longleftrightarrow> c_str a = c_str b"
proof (induction a b rule: strcmp.induct)
  case (4 c cs d ds)
  then show ?case by (auto simp: c_str_def)
qed (auto simp: c_str_def)

lemma djb2_c_str: "djb2 h s = djb2 h (c_str s)"
  by (induction h s rule: djb2.induct) (auto simp: c_str_def)

interpretation str_key: hashable StringHash_hash StringHash_compare c_str
proof
  show "StringHash_compare a b = 0 \<longleftrightarrow> c_str a = c_str b" for a b
    by (simp add: StringHash_compare_def strcmp_c_str)
  show "c_str a = c_str b \<Longrightarrow> StringHash_hash a = StringHash_hash b" for a b
    unfolding StringHash_hash_def using djb2_c_str by metis
qed

interpretation addr_key: hashable Addr2_hash Addr2_compare snd
  by unfold_locales (auto simp: Addr2_hash_def Addr2_compare_def)

fun Hash_adds :: "('v \<Rightarrow> u32) \<Rightarrow> ('v \<Rightarrow> 'v \<Rightarrow> int) \<Rightarrow> 'v list \<Rightarrow> 'v hash_t \<Rightarrow> 'v hash_t option" where
  "Hash_adds hash compare [] t = Some t"
| "Hash_adds hash compare (v # vs) t = do {
     (r, t) \<leftarrow> Hash_add hash compare v t;
     Hash_adds hash compare vs t
   }"

definition key_counts :: "('v \<Rightarrow> 'k) \<Rightarrow> 'v list \<Rightarrow> 'k \<rightharpoonup> int" where
  "key_counts key vs k = (let n = length (filter (\<lambda>v. key v = k) vs) in if n = 0 then None else Some (int n))"

context hashable
begin

lemma key_counts_snoc:
  "key_counts key (vs @ [v]) = (key_counts key vs)(key v \<mapsto>
     (case key_counts key vs (key v) of None \<Rightarrow> 1 | Some n \<Rightarrow> n + 1))"
  by (auto simp: key_counts_def Let_def fun_eq_iff)

lemma adds_view:
  assumes "hash_view hash key t (key_counts key us)"
  shows "\<exists>t'. Hash_adds hash compare vs t = Some t' \<and> hash_view hash key t' (key_counts key (us @ vs))"
  using assms
proof (induction vs arbitrary: us t)
  case Nil
  then show ?case by simp
next
  case (Cons v vs)
  obtain r t1 where "Hash_add hash compare v t = Some (r, t1)"
      "hash_view hash key t1 (key_counts key (us @ [v]))"
    using add_view [OF Cons.prems, of v] by (auto simp: key_counts_snoc)
  with Cons.IH [of t1 "us @ [v]"] show ?case by auto
qed

lemma counts_occurrences:
  "\<exists>t. Hash_adds hash compare vs Hash_new = Some t \<and> hash_view hash key t (key_counts key vs)"
proof -
  have "key_counts key [] = Map.empty" by (auto simp: key_counts_def)
  then have "hash_view hash key Hash_new (key_counts key [])" using hash_view_new by simp
  from adds_view [OF this, of vs] show ?thesis by simp
qed

end


text \<open>The same for the table of client addresses: the counter of an address is the number
  of requests added for it, however the addresses are allocated.\<close>

theorem addr_table_counts:
  "\<exists>t. Hash_adds Addr2_hash Addr2_compare vs Hash_new = Some t \<and>
     hash_view Addr2_hash snd t (key_counts snd vs)"
  by (rule addr_key.counts_occurrences)

text \<open>Removing a string unlinks the node of that string and no other: the call returns NULL
  exactly if the string was not counted, and every other counter is as before.\<close>

theorem string_table_remove:
  assumes "hash_view StringHash_hash c_str t M"
  shows "\<exists>r t'. Hash_remove StringHash_hash StringHash_compare v t = Some (r, t') \<and>
     hash_view StringHash_hash c_str t' (M(c_str v := None)) \<and> (r = None \<longleftrightarrow> M (c_str v) = None)"
  by (rule str_key.remove_view [OF assms])

theorem string_table_remove_witness:
  "\<exists>t r t'. hash_view StringHash_hash c_str t (key_counts c_str [''a'', ''b'', ''a'']) \<and>
     Hash_remove StringHash_hash StringHash_compare ''a'' t = Some (Some r, t') \<and>
     hash_view StringHash_hash c_str t' ((key_counts c_str [''a'', ''b'', ''a''])(''a'' := None))"
proof -
  obtain t where t: "hash_view StringHash_hash c_str t (key_counts c_str [''a'', ''b'', ''a''])"
    using str_key.counts_occurrences by blast
  have "c_str ''a'' = ''a''" "c_str ''b'' = ''b''" by (simp_all add: c_str_def)
  then have "key_counts c_str [''a'', ''b'', ''a''] (c_str ''a'') = Some 2"
    by (simp add: key_counts_def)
  with string_table_remove [OF t, of "''a''"] t \<open>c_str ''a'' = ''a''\<close> show ?thesis by fastforce
qed

end
