(* ===== verification/Lines.thy ===== *)
theory Lines
  imports Clib
begin

text \<open>
  The text routines of \<^verbatim>\<open>protocol.cpp\<close> that the protocols share: finding the end of a line and
  of a message head, splitting a line into tokens, and extracting a header field.  A pointer
  into the payload buffer is an index; \<^verbatim>\<open>dataend\<close> is the last index a search may read.
\<close>

definition find_line_end :: "string \<Rightarrow> nat \<Rightarrow> nat \<Rightarrow> nat \<times> nat" where
  "find_line_end buf data dataend =
     (case memchr buf LF data (Suc dataend - data) of
        None \<Rightarrow> (dataend, dataend)
      | Some lineend \<Rightarrow>
          if lineend > data then
            (if at buf (lineend - 1) = CR then (lineend, lineend - 1)
             else (if lineend < dataend - 1 \<and> at buf (lineend + 1) = CR then lineend + 1 else lineend, lineend))
          else (lineend, lineend))"

lemma memchr_bound: "memchr buf c i n = Some k \<Longrightarrow> i \<le> k \<and> k < i + n"
  by (simp add: memchr_Some)

function header_scan :: "string \<Rightarrow> nat \<Rightarrow> nat \<Rightarrow> int \<Rightarrow> nat option \<times> int" where
  "header_scan buf lf dataend line_cnt =
     (case memchr buf LF lf (Suc dataend - lf) of
        None \<Rightarrow> (None, line_cnt)
      | Some nxtlf \<Rightarrow>
          if nxtlf - lf < 2 then (Some nxtlf, line_cnt)
          else header_scan buf (Suc nxtlf) dataend (line_cnt + 1))"
  by pat_completeness auto
termination
  by (relation "measure (\<lambda>(buf, lf, dataend, cnt). Suc dataend - lf)") (auto dest: memchr_bound)

declare header_scan.simps [simp del]

definition find_header_end :: "string \<Rightarrow> nat \<Rightarrow> nat \<Rightarrow> int \<Rightarrow> nat option \<times> int" where
  "find_header_end buf data dataend line_cnt =
     (case memchr buf LF data (Suc dataend - data) of
        None \<Rightarrow> (None, line_cnt)
      | Some lf \<Rightarrow> header_scan buf (Suc lf) dataend (line_cnt + 1))"

fun token_end :: "string \<Rightarrow> nat \<Rightarrow> nat \<Rightarrow> nat" where
  "token_end buf i 0 = i"
| "token_end buf i (Suc n) =
     (if at buf i \<noteq> SP \<and> at buf i \<noteq> CR \<and> at buf i \<noteq> LF then token_end buf (Suc i) n else i)"

fun skip_blanks :: "string \<Rightarrow> nat \<Rightarrow> nat \<Rightarrow> nat" where
  "skip_blanks buf i 0 = i"
| "skip_blanks buf i (Suc n) = (if at buf i = SP then skip_blanks buf (Suc i) n else i)"

text \<open>The token length and the start of the next token.\<close>

definition get_token_len :: "string \<Rightarrow> nat \<Rightarrow> nat \<Rightarrow> nat \<times> nat" where
  "get_token_len buf linep lineend =
     (let e = token_end buf linep (lineend - linep)
      in (e - linep, skip_blanks buf e (lineend - e)))"

text \<open>\<^verbatim>\<open>header_param\<close>.  Moving the EOL pointer back stops at the value's first character.\<close>

fun back_eol :: "string \<Rightarrow> nat \<Rightarrow> nat \<Rightarrow> nat" where
  "back_eol buf c 0 = 0"
| "back_eol buf c (Suc eol) =
     (if (at buf (Suc eol) = CR \<or> at buf (Suc eol) = LF) \<and> Suc eol > c then back_eol buf c eol else Suc eol)"

definition slice :: "string \<Rightarrow> nat \<Rightarrow> nat \<Rightarrow> string" where
  "slice buf i n = map (at buf) [i..<i + n]"

function header_lines :: "string \<Rightarrow> nat \<Rightarrow> nat \<Rightarrow> string \<Rightarrow> string option" where
  "header_lines buf line hend param =
     (let (lineend, eol) = find_line_end buf line hend;
          param_len = length param
      in if lineend \<noteq> hend \<and> (at buf eol = CR \<or> at buf eol = LF) \<and> strncasecmp0 buf line param param_len
         then (let c = skip_blanks buf (line + param_len) (lineend - (line + param_len));
                   eol = back_eol buf c eol
               in Some (slice buf c (Suc eol - c)))
         else if lineend < hend then header_lines buf (lineend + 1) hend param
         else None)"
  by pat_completeness auto
termination
proof (relation "measure (\<lambda>(buf, line, hend, param). Suc hend - line)", goal_cases)
  case 1
  then show ?case by simp
next
  case (2 buf line hend param x lineend eol y)
  have "line \<le> lineend"
  proof (cases "memchr buf LF line (Suc hend - line)")
    case None
    with 2 show ?thesis by (simp add: find_line_end_def)
  next
    case (Some k)
    with 2 memchr_bound [OF Some] show ?thesis by (auto simp: find_line_end_def split: if_splits)
  qed
  with 2 show ?case by auto
qed

declare header_lines.simps [simp del]

definition header_param :: "string \<Rightarrow> nat \<Rightarrow> nat \<Rightarrow> string \<Rightarrow> string option" where
  "header_param buf header hlen param = header_lines buf header (header + hlen - 1) param"

section \<open>Well-formed heads\<close>

text \<open>A head made of lines: every line ends with CR LF, and an empty line ends the head.\<close>

definition crlf :: "string \<Rightarrow> string" where
  "crlf l = l @ [CR, LF]"

definition render_lines :: "string list \<Rightarrow> string" where
  "render_lines ls = concat (map crlf ls)"

definition plain_line :: "string \<Rightarrow> bool" where
  "plain_line l \<longleftrightarrow> CR \<notin> set l \<and> LF \<notin> set l"

lemma render_lines_simps [simp]:
  "render_lines [] = []" "render_lines (l # ls) = l @ CR # LF # render_lines ls"
  by (simp_all add: render_lines_def crlf_def)

lemma memchr_hit:
  assumes "\<And>j. j < k \<Longrightarrow> at buf (i + j) \<noteq> c" "at buf (i + k) = c" "k < n"
  shows "memchr buf c i n = Some (i + k)"
proof -
  have "at buf j \<noteq> c" if "i \<le> j" "j < i + k" for j
    using assms(1) [of "j - i"] that by simp
  with assms show ?thesis by (auto simp: memchr_Some)
qed

lemma at_mid: "at (pre @ l @ rest) (length pre + j) = at (l @ rest) j"
  by simp

lemma memchr_line:
  assumes "plain_line l" "length l + 1 < n"
  shows "memchr (pre @ l @ CR # LF # rest) LF (length pre) n = Some (length pre + (length l + 1))"
proof (rule memchr_hit)
  fix j assume j: "j < length l + 1"
  show "at (pre @ l @ CR # LF # rest) (length pre + j) \<noteq> LF"
  proof (cases "j < length l")
    case True
    then have "at (l @ CR # LF # rest) j \<in> set l" by (simp add: at_def nth_append)
    with assms(1) show ?thesis by (auto simp: plain_line_def)
  next
    case False
    with j have "j = length l" by simp
    then show ?thesis by simp
  qed
qed (use assms in simp_all)

lemma find_line_end_line:
  assumes "plain_line l" "length pre + length l + 1 \<le> e"
  shows "find_line_end (pre @ l @ CR # LF # rest) (length pre) e =
     (length pre + length l + 1, length pre + length l)"
  using memchr_line [OF assms(1), of "Suc e - length pre" pre rest] assms(2)
  by (simp add: find_line_end_def)

lemma header_scan_lines:
  assumes "\<forall>l \<in> set ls. plain_line l \<and> l \<noteq> []"
    "length pre + length (render_lines ls) + 1 \<le> e"
  shows "header_scan (pre @ render_lines ls @ CR # LF # rest) (length pre) e cnt =
     (Some (length pre + length (render_lines ls) + 1), cnt + int (length ls))"
  using assms
proof (induction ls arbitrary: pre cnt)
  case Nil
  have "memchr (pre @ CR # LF # rest) LF (length pre) (Suc e - length pre) = Some (length pre + 1)"
    using Nil memchr_line [of "[]" "Suc e - length pre" pre rest] by (simp add: plain_line_def)
  then show ?case by (subst header_scan.simps) simp
next
  case (Cons l ls)
  let ?rest = "render_lines ls @ CR # LF # rest"
  have "memchr (pre @ l @ CR # LF # ?rest) LF (length pre) (Suc e - length pre) = Some (length pre + (length l + 1))"
    using Cons.prems by (intro memchr_line) auto
  moreover have "l \<noteq> []" using Cons.prems by simp
  ultimately have "header_scan (pre @ l @ CR # LF # ?rest) (length pre) e cnt =
      header_scan (pre @ l @ CR # LF # ?rest) (Suc (length pre + (length l + 1))) e (cnt + 1)"
    by (subst header_scan.simps) (cases l, auto)
  also have "\<dots> = header_scan ((pre @ l @ [CR, LF]) @ ?rest) (length (pre @ l @ [CR, LF])) e (cnt + 1)"
    by simp
  also have "\<dots> = (Some (length (pre @ l @ [CR, LF]) + length (render_lines ls) + 1), (cnt + 1) + int (length ls))"
    using Cons.prems by (intro Cons.IH) auto
  finally show ?case by simp
qed

lemma find_header_end_lines:
  assumes "plain_line l" "\<forall>l \<in> set ls. plain_line l \<and> l \<noteq> []"
    "length (render_lines (l # ls)) + 1 \<le> e"
  shows "find_header_end (render_lines (l # ls) @ CR # LF # body) 0 e 0 =
     (Some (length (render_lines (l # ls)) + 1), 1 + int (length ls))"
proof -
  let ?rest = "render_lines ls @ CR # LF # body"
  have "memchr (l @ CR # LF # ?rest) LF 0 (Suc e) = Some (length l + 1)"
    using assms memchr_line [of l "Suc e" "[]" ?rest] by simp
  then have "find_header_end (render_lines (l # ls) @ CR # LF # body) 0 e 0 =
      header_scan ((l @ [CR, LF]) @ ?rest) (length (l @ [CR, LF])) e 1"
    by (simp add: find_header_end_def)
  also have "\<dots> = (Some (length (l @ [CR, LF]) + length (render_lines ls) + 1), 1 + int (length ls))"
    using assms by (intro header_scan_lines) auto
  finally show ?thesis by simp
qed

text \<open>Finding the end of a message head: in a message that consists of a first line, further
  non-empty lines, an empty line (each ended by CR LF) and a body, \<^verbatim>\<open>find_header_end\<close> returns
  the line feed of the empty line and counts the lines before it, whatever the body is and
  wherever in the body the search would have to stop.\<close>

theorem find_header_end_correct:
  assumes "plain_line l" "\<forall>l \<in> set ls. plain_line l \<and> l \<noteq> []"
    "length (render_lines (l # ls)) + 1 \<le> e"
  shows "find_header_end (render_lines (l # ls) @ CR # LF # body) 0 e 0 =
     (Some (length (render_lines (l # ls)) + 1), 1 + int (length ls))"
  by (rule find_header_end_lines [OF assms])

theorem find_header_end_correct_witness:
  "find_header_end (render_lines [''GET / HTTP/1.1'', ''Host: a''] @ CR # LF # ''body'') 0 30 0 = (Some 26, 2)"
  using find_header_end_correct [of "''GET / HTTP/1.1''" "[''Host: a'']" 30 "''body''"]
  by (simp add: plain_line_def)

section \<open>Header fields\<close>

definition ci_prefix :: "string \<Rightarrow> string \<Rightarrow> bool" where
  "ci_prefix param l \<longleftrightarrow> length param \<le> length l \<and>
     map tolower (take (length param) l) = map tolower param"

definition field_value :: "string \<Rightarrow> string \<Rightarrow> string" where
  "field_value param l =
     (let v = dropWhile (\<lambda>c. c = SP) (drop (length param) l) in if v = [] then [CR] else v)"

lemma tolower_eq_low:
  assumes "code y < 65"
  shows "tolower x = y \<longleftrightarrow> x = y"
proof (cases "isupper x")
  case True
  then have "code (tolower x) = code x + 32" "code x \<ge> 65" by (simp_all add: tolower_def isupper_def)
  with assms have "tolower x \<noteq> y" "x \<noteq> y" by auto
  then show ?thesis by simp
qed (simp add: tolower_def)

lemma tolower_CR [simp]: "tolower c = CR \<longleftrightarrow> c = CR"
  by (rule tolower_eq_low) (simp add: code_def)

lemma tolower_CR' [simp]: "tolower CR = CR"
  by (simp add: tolower_CR)

lemma strncasecmp0_take:
  "strncasecmp0 buf i s (length s) \<longleftrightarrow> (\<forall>j < length s. tolower (at buf (i + j)) = tolower (s ! j))"
proof (induction s arbitrary: i)
  case (Cons c s)
  show ?case by (simp add: Cons.IH All_less_Suc2)
qed simp

lemma strncasecmp0_line:
  assumes "CR \<notin> set param"
  shows "strncasecmp0 (pre @ l @ CR # rest) (length pre) param (length param) \<longleftrightarrow> ci_prefix param l"
proof (cases "length param \<le> length l")
  case True
  have "at (pre @ l @ CR # rest) (length pre + j) = l ! j" if "j < length param" for j
    using that True by (simp add: at_def nth_append)
  with True show ?thesis
    by (auto simp: strncasecmp0_take ci_prefix_def list_eq_iff_nth_eq)
next
  case False
  then have "length l < length param" by simp
  then have "param ! length l \<in> set param" by simp
  with assms have "tolower (param ! length l) \<noteq> CR" by auto
  moreover have "tolower (at (pre @ l @ CR # rest) (length pre + length l)) = CR" by simp
  ultimately have "tolower (at (pre @ l @ CR # rest) (length pre + length l)) \<noteq> tolower (param ! length l)"
    by metis
  with \<open>length l < length param\<close> have "\<not> strncasecmp0 (pre @ l @ CR # rest) (length pre) param (length param)"
    unfolding strncasecmp0_take by blast
  with False show ?thesis by (simp add: ci_prefix_def)
qed

lemma skip_blanks_spec:
  "i + n \<le> length buf \<Longrightarrow> skip_blanks buf i n = i + length (takeWhile (\<lambda>c. c = SP) (take n (drop i buf)))"
proof (induction buf i n rule: skip_blanks.induct)
  case (2 buf i n)
  then have "drop i buf = at buf i # drop (Suc i) buf" by (simp add: at_def Cons_nth_drop_Suc)
  with 2 show ?case by simp
qed simp

text \<open>The value of a matching field.\<close>

lemma back_eol_stop:
  "c \<le> eol \<Longrightarrow> at buf eol \<noteq> CR \<and> at buf eol \<noteq> LF \<or> eol = c \<Longrightarrow> back_eol buf c eol = eol"
  by (cases eol) auto

lemma back_eol_line:
  assumes "at buf eol = CR" "c < eol" "at buf (eol - 1) \<noteq> CR" "at buf (eol - 1) \<noteq> LF"
  shows "back_eol buf c eol = eol - 1"
  using assms back_eol_stop [of c "eol - 1" buf] by (cases eol) auto

lemma slice_mid: "slice (pre @ l @ rest) (length pre) (length l) = l"
proof -
  have "at (pre @ l @ rest) (length pre + j) = l ! j" if "j < length l" for j
    using that by (simp add: at_def nth_append)
  then show ?thesis by (intro nth_equalityI) (simp_all add: slice_def)
qed

lemma skip_blanks_line:
  assumes "v = [] \<or> hd v \<noteq> SP"
  shows "skip_blanks (pre @ replicate k SP @ v @ CR # rest) (length pre) (k + length v + 1) = length pre + k"
proof -
  have t: "skip_blanks buf i n = i + k"
    if "\<And>j. j < k \<Longrightarrow> at buf (i + j) = SP" "at buf (i + k) \<noteq> SP" "k < n" for buf i k n
    using that
  proof (induction k arbitrary: i n)
    case 0
    then show ?case by (cases n) auto
  next
    case (Suc k)
    obtain n' where n: "n = Suc n'" using Suc.prems(3) by (cases n) auto
    have "at buf i = SP" using Suc.prems(1) [of 0] by simp
    moreover have "skip_blanks buf (Suc i) n' = Suc i + k"
    proof (rule Suc.IH)
      show "at buf (Suc i + j) = SP" if "j < k" for j using Suc.prems(1) [of "Suc j"] that by simp
    qed (use Suc.prems n in simp_all)
    ultimately show ?case by (simp add: n)
  qed
  show ?thesis
  proof (rule t)
    show "at (pre @ replicate k SP @ v @ CR # rest) (length pre + j) = SP" if "j < k" for j
      using that by (simp add: at_def nth_append)
    show "at (pre @ replicate k SP @ v @ CR # rest) (length pre + k) \<noteq> SP"
      using assms by (cases v) (auto simp: at_def nth_append)
  qed simp
qed

lemma field_extract:
  fixes pre rest :: string
  assumes "plain_line l" "ci_prefix param l"
  defines "buf \<equiv> pre @ l @ CR # LF # rest" and "p \<equiv> length pre + length param"
    and "e \<equiv> length pre + length l"
  defines "c \<equiv> skip_blanks buf p (e + 1 - p)"
  shows "slice buf c (Suc (back_eol buf c e) - c) = field_value param l"
proof -
  let ?w = "drop (length param) l"
  define k where "k = length (takeWhile (\<lambda>c. c = SP) ?w)"
  define v where "v = dropWhile (\<lambda>c. c = SP) ?w"
  have "takeWhile (\<lambda>c. c = SP) ?w = replicate k SP"
    unfolding k_def by (rule replicate_length_same [symmetric]) (auto dest: set_takeWhileD)
  then have w: "?w = replicate k SP @ v" using takeWhile_dropWhile_id unfolding v_def by metis
  have len: "length param \<le> length l" using assms(2) by (simp add: ci_prefix_def)
  let ?pre = "pre @ take (length param) l"
  have lsplit: "l = take (length param) l @ replicate k SP @ v" using w by (metis append_take_drop_id)
  have buf: "buf = ?pre @ replicate k SP @ v @ CR # LF # rest"
    unfolding buf_def by (subst lsplit) simp
  have p: "p = length ?pre" using len by (simp add: p_def)
  have "length l = length param + k + length v" using w len by (metis append_take_drop_id length_append length_replicate length_take min.absorb2 add.assoc)
  then have e: "e = length ?pre + k + length v" using len by (simp add: e_def)
  have hd: "v = [] \<or> hd v \<noteq> SP" unfolding v_def using hd_dropWhile by blast
  have "e + 1 - p = k + length v + 1" unfolding e p by simp
  then have c: "c = length ?pre + k"
    unfolding c_def buf p using skip_blanks_line [OF hd, of ?pre k "LF # rest"] by simp
  have ve: "at buf e = CR" unfolding buf e by simp
  show ?thesis
  proof (cases "v = []")
    case True
    then have "back_eol buf c e = c" using ve e c by (intro trans [OF back_eol_stop]) auto
    moreover have "slice buf c 1 = [CR]" using ve True e c by (simp add: slice_def)
    ultimately show ?thesis using True by (simp add: field_value_def v_def [symmetric])
  next
    case False
    have "set v \<subseteq> set l" unfolding v_def by (auto dest: set_dropWhileD in_set_dropD)
    moreover have "at buf (e - 1) = last v" using False unfolding buf e
      by (cases v rule: rev_cases) (auto simp: at_def nth_append)
    ultimately have "at buf (e - 1) \<noteq> CR" "at buf (e - 1) \<noteq> LF"
      using assms(1) last_in_set [OF False] unfolding plain_line_def by (metis subsetD)+
    then have "back_eol buf c e = e - 1" using ve e c False by (intro back_eol_line) auto
    moreover have "Suc (e - 1) - c = length v" using False e c by (cases v) auto
    moreover have "slice buf c (length v) = v"
      using slice_mid [of "?pre @ replicate k SP" v "CR # LF # rest"] unfolding c buf by (simp add: add.assoc)
    ultimately show ?thesis using False by (simp add: field_value_def v_def [symmetric])
  qed
qed

lemma header_lines_correct:
  assumes "\<forall>l \<in> set ls. plain_line l" "CR \<notin> set param" "param \<noteq> []"
  shows "header_lines (pre @ render_lines ls @ CR # LF # rest) (length pre) (length pre + length (render_lines ls) + 1) param =
     map_option (field_value param) (List.find (ci_prefix param) ls)"
  using assms
proof (induction ls arbitrary: pre)
  case Nil
  have "find_line_end (pre @ [] @ CR # LF # rest) (length pre) (length pre + 1) = (length pre + 1, length pre)"
    using find_line_end_line [of "[]" pre "length pre + 1" rest] by (simp add: plain_line_def)
  then show ?case by (subst header_lines.simps) simp
next
  case (Cons l ls)
  let ?rest = "render_lines ls @ CR # LF # rest"
  let ?buf = "pre @ l @ CR # LF # ?rest"
  let ?hend = "length pre + length (render_lines (l # ls)) + 1"
  have fle: "find_line_end ?buf (length pre) ?hend = (length pre + length l + 1, length pre + length l)"
    using Cons.prems(1) by (intro find_line_end_line) auto
  have eol: "at ?buf (length pre + length l) = CR" by simp
  have ne: "length pre + length l + 1 \<noteq> ?hend" "length pre + length l + 1 < ?hend" by simp_all
  have pre: "strncasecmp0 ?buf (length pre) param (length param) \<longleftrightarrow> ci_prefix param l"
    using strncasecmp0_line [OF Cons.prems(2)] by simp
  show ?case
  proof (cases "ci_prefix param l")
    case True
    have "plain_line l" using Cons.prems(1) by simp
    from field_extract [OF this True, of pre ?rest] True ne fle eol pre show ?thesis
      by (subst header_lines.simps) (simp add: Let_def)
  next
    case False
    have "header_lines ?buf (length pre) ?hend param = header_lines ?buf (length pre + length l + 2) ?hend param"
      using False ne fle eol pre by (subst header_lines.simps) (simp add: Let_def)
    also have "\<dots> = header_lines ((pre @ l @ [CR, LF]) @ ?rest) (length (pre @ l @ [CR, LF]))
        (length (pre @ l @ [CR, LF]) + length (render_lines ls) + 1) param"
      by (simp add: algebra_simps)
    also have "\<dots> = map_option (field_value param) (List.find (ci_prefix param) ls)"
      using Cons.prems by (intro Cons.IH) auto
    finally show ?thesis using False by simp
  qed
qed

text \<open>Extracting a header field: from a head of lines (the first of them the request or
  status line) \<^verbatim>\<open>header_param\<close> returns the value of the first line that starts with the
  field's name, in any mixture of cases, without the blanks after the name; it is NULL if no
  line does.  A field without a value yields the string that consists of a carriage return.\<close>

theorem header_param_correct:
  assumes "\<forall>l \<in> set ls. plain_line l" "CR \<notin> set param" "param \<noteq> []"
  shows "header_param (render_lines ls @ CR # LF # body) 0 (length (render_lines ls) + 2) param =
     map_option (field_value param) (List.find (ci_prefix param) ls)"
  using header_lines_correct [OF assms, of "[]" body] by (simp add: header_param_def)

theorem header_param_correct_witness:
  "header_param (render_lines [''GET / HTTP/1.1'', ''Age:'', ''hOST:  a.b''] @ CR # LF # ''x'') 0 36 ''Host:'' = Some ''a.b'' \<and>
   header_param (render_lines [''GET / HTTP/1.1'', ''Age:'', ''hOST:  a.b''] @ CR # LF # ''x'') 0 36 ''Age:'' = Some [CR]"
proof -
  let ?ls = "[''GET / HTTP/1.1'', ''Age:'', ''hOST:  a.b'']"
  have len: "length (render_lines ?ls) + 2 = 36" by simp
  have p: "\<forall>l \<in> set ?ls. plain_line l" by (simp add: plain_line_def)
  have v: "map_option (field_value ''Host:'') (List.find (ci_prefix ''Host:'') ?ls) = Some ''a.b''"
    "map_option (field_value ''Age:'') (List.find (ci_prefix ''Age:'') ?ls) = Some [CR]"
    by code_simp+
  show ?thesis
    using header_param_correct [OF p, of "''Host:''" "''x''"] header_param_correct [OF p, of "''Age:''" "''x''"]
    unfolding len v by simp
qed

section \<open>Tokens\<close>

lemma token_end_hit:
  assumes "\<And>j. j < k \<Longrightarrow> at buf (i + j) \<notin> {SP, CR, LF}" "at buf (i + k) \<in> {SP, CR, LF}" "k < n"
  shows "token_end buf i n = i + k"
  using assms
proof (induction k arbitrary: i n)
  case 0
  then show ?case by (cases n) auto
next
  case (Suc k)
  obtain n' where n: "n = Suc n'" using Suc.prems(3) by (cases n) auto
  have "at buf i \<notin> {SP, CR, LF}" using Suc.prems(1) [of 0] by simp
  moreover have "token_end buf (Suc i) n' = Suc i + k"
  proof (rule Suc.IH)
    show "at buf (Suc i + j) \<notin> {SP, CR, LF}" if "j < k" for j using Suc.prems(1) [of "Suc j"] that by simp
  qed (use Suc.prems n in simp_all)
  ultimately show ?case by (simp add: n)
qed

definition token :: "string \<Rightarrow> bool" where
  "token w \<longleftrightarrow> w \<noteq> [] \<and> SP \<notin> set w \<and> CR \<notin> set w \<and> LF \<notin> set w"

lemma token_end_word:
  assumes "token w" "c \<in> {SP, CR, LF}" "length w < n"
  shows "token_end (pre @ w @ c # rest) (length pre) n = length pre + length w"
proof (rule token_end_hit)
  fix j assume "j < length w"
  then have "at (pre @ w @ c # rest) (length pre + j) \<in> set w" by (simp add: at_def nth_append)
  with assms(1) show "at (pre @ w @ c # rest) (length pre + j) \<notin> {SP, CR, LF}" by (auto simp: token_def)
qed (use assms in simp_all)

lemma get_token_word:
  assumes "token w" "r \<noteq> SP" "length pre + length w + 1 < lineend"
  shows "get_token_len (pre @ w @ SP # r # rest) (length pre) lineend = (length w, length pre + length w + 1)"
proof -
  have t: "token_end (pre @ w @ SP # r # rest) (length pre) (lineend - length pre) = length pre + length w"
    using assms by (intro token_end_word) auto
  obtain n where n: "lineend - (length pre + length w) = Suc (Suc n)"
    using assms(3) by (metis Suc_diff_Suc add.commute add_lessD1 plus_1_eq_Suc)
  have "skip_blanks (pre @ w @ SP # r # rest) (length pre + length w) (Suc (Suc n)) = length pre + length w + 1"
    using assms(2) by simp
  with t n show ?thesis by (simp add: get_token_len_def)
qed

end
