(* ===== verification/Messages.thy ===== *)
theory Messages
  imports Lines
begin

text \<open>
  The message classes of \<^verbatim>\<open>protocol.hpp\<close>, \<^verbatim>\<open>requestMethod.hpp\<close>, \<^verbatim>\<open>responseStatus.hpp\<close> and the
  data of their derived classes in \<^verbatim>\<open>http.hpp\<close>, \<^verbatim>\<open>memcached.hpp\<close> and \<^verbatim>\<open>mysql.hpp\<close>.  A request
  is a record of the base-class fields with the derived part as one of the constructors of
  \<open>req_ext\<close>; likewise for responses.  \<^verbatim>\<open>char *\<close> fields are \<^typ>\<open>string option\<close>.
\<close>

datatype Version = HTTP_VER_1_0 | HTTP_VER_1_1 | HTTP_VER_NONE

record http_req =
  hq_version :: Version
  hq_host :: "string option"
  hq_uri :: "string option"
  hq_user_agent :: "string option"
  hq_referer :: "string option"
  hq_connection :: "string option"
  hq_accept :: "string option"
  hq_accept_encoding :: "string option"
  hq_accept_language :: "string option"
  hq_accept_charset :: "string option"
  hq_cookie :: "string option"
  hq_content_type :: "string option"
  hq_content_encoding :: "string option"
  hq_content_length :: "string option"
  hq_methodCode :: nat

record http_rsp =
  hs_version :: Version
  hs_server :: "string option"
  hs_date :: "string option"
  hs_expires :: "string option"
  hs_location :: "string option"
  hs_etag :: "string option"
  hs_accept_ranges :: "string option"
  hs_last_modified :: "string option"
  hs_content_type :: "string option"
  hs_content_encoding :: "string option"
  hs_content_length :: "string option"
  hs_age :: "string option"
  hs_acknowledgement :: u32
  hs_statusCode :: int

record mc_req =
  mq_keys :: "string list"
  mq_expiration :: u32
  mq_flags :: u8
  mq_methodCode :: nat

record mc_rsp =
  ms_acknowledgement :: u32
  ms_keys :: "string list"
  ms_flags :: u8
  ms_bodylen :: u32
  ms_statusCode :: int

record my_req =
  yq_cmd :: int
  yq_sql_command :: nat
  yq_size :: u32

record my_rsp =
  ys_cmd :: int
  ys_size :: u32

datatype req_ext = Http_Req http_req | Memcached_Req mc_req | MySQL_Req my_req
datatype rsp_ext = Http_Rsp http_rsp | Memcached_Rsp mc_rsp | MySQL_Rsp my_rsp

record request =
  rq_time :: "string option"
  rq_hdlen :: int
  rq_processed :: bool
  rq_seq :: u32
  rq_nxt_seq :: u32
  rq_ext :: req_ext

record response =
  rs_time :: string
  rs_size :: string
  rs_hdlen :: int
  rs_processed :: bool
  rs_ext :: rsp_ext

text \<open>The lookup of a method name by the characters up to the first separator: the first name
  that agrees with the data on \<open>n\<close> characters, 0 if none does.\<close>

definition first_match :: "string list \<Rightarrow> string \<Rightarrow> nat \<Rightarrow> nat \<Rightarrow> nat" where
  "first_match names buf data n =
     (case List.find (\<lambda>k. strncmp0 buf data (names ! k) n) [0..<length names] of
        None \<Rightarrow> 0 | Some k \<Rightarrow> k)"

fun index_until :: "char set \<Rightarrow> string \<Rightarrow> nat \<Rightarrow> nat \<Rightarrow> nat" where
  "index_until stop buf i 0 = 0"
| "index_until stop buf i (Suc n) = (if at buf i \<in> stop then 0 else Suc (index_until stop buf (Suc i) n))"

text \<open>\<^verbatim>\<open>getMethodName\<close> of \<^verbatim>\<open>RequestMethod\<close>.\<close>

definition getMethodName :: "string list \<Rightarrow> int \<Rightarrow> string option" where
  "getMethodName methodsName methodsCode =
     (if methodsCode < 0 \<or> methodsCode > int (length methodsName) - 1 then None
      else Some (methodsName ! nat methodsCode))"

text \<open>\<^verbatim>\<open>getStatusName\<close> of \<^verbatim>\<open>ResponseStatus\<close>; the \<^verbatim>\<open>std::map\<close> is the list of its entries in key
  order.\<close>

definition getStatusName :: "(int \<times> string) list \<Rightarrow> int \<Rightarrow> string option" where
  "getStatusName status statusCode = map_of status statusCode"

section \<open>sscanf\<close>

definition digit_of :: "nat \<Rightarrow> char \<Rightarrow> nat option" where
  "digit_of base c =
     (let v = (if isdigit c then Some (code c - 48)
               else if 97 \<le> code c \<and> code c \<le> 122 then Some (code c - 87)
               else if 65 \<le> code c \<and> code c \<le> 90 then Some (code c - 55) else None)
      in case v of None \<Rightarrow> None | Some d \<Rightarrow> if d < base then Some d else None)"

fun scan_digits :: "nat \<Rightarrow> nat \<Rightarrow> string \<Rightarrow> nat" where
  "scan_digits base v [] = v"
| "scan_digits base v (c # cs) =
     (case digit_of base c of None \<Rightarrow> v | Some d \<Rightarrow> scan_digits base (v * base + d) cs)"

definition scan_number :: "nat \<Rightarrow> string \<Rightarrow> nat option" where
  "scan_number base cs =
     (case cs of [] \<Rightarrow> None
      | c # _ \<Rightarrow> if digit_of base c = None then None else Some (scan_digits base 0 cs))"

text \<open>\<^verbatim>\<open>%i\<close> (base from the prefix) and \<^verbatim>\<open>%u\<close> (decimal); \<^term>\<open>None\<close> means that the conversion
  failed, so \<^verbatim>\<open>sscanf\<close> does not return 1.\<close>

definition scan_sign :: "string \<Rightarrow> bool \<times> string" where
  "scan_sign cs =
     (case dropWhile isspace cs of
        [] \<Rightarrow> (False, [])
      | c # cs \<Rightarrow> if c = CHR ''-'' then (True, cs) else if c = CHR ''+'' then (False, cs) else (False, c # cs))"

definition sscanf_i :: "string \<Rightarrow> int option" where
  "sscanf_i s =
     (let (neg, cs) = scan_sign s;
          n = (case cs of
                 a # b # ds \<Rightarrow>
                   if a = CHR ''0'' \<and> (b = CHR ''x'' \<or> b = CHR ''X'') then scan_number 16 ds
                   else if a = CHR ''0'' then scan_number 8 cs else scan_number 10 cs
               | _ \<Rightarrow> scan_number 10 cs)
      in map_option (\<lambda>n. if neg then - int n else int n) n)"

definition sscanf_u :: "string \<Rightarrow> int option" where
  "sscanf_u s =
     (let (neg, cs) = scan_sign s
      in map_option (\<lambda>n. if neg then - int n else int n) (scan_number 10 cs))"

section \<open>Names\<close>

lemma index_until_hit:
  assumes "\<And>j. j < k \<Longrightarrow> at buf (i + j) \<notin> stop" "at buf (i + k) \<in> stop" "k < n"
  shows "index_until stop buf i n = k"
  using assms
proof (induction k arbitrary: i n)
  case 0
  then show ?case by (cases n) auto
next
  case (Suc k)
  obtain n' where n: "n = Suc n'" using Suc.prems(3) by (cases n) auto
  have "at buf i \<notin> stop" using Suc.prems(1) [of 0] by simp
  moreover have "index_until stop buf (Suc i) n' = k"
  proof (rule Suc.IH)
    show "at buf (Suc i + j) \<notin> stop" if "j < k" for j using Suc.prems(1) [of "Suc j"] that by simp
  qed (use Suc.prems n in simp_all)
  ultimately show ?case by (simp add: n)
qed

text \<open>Comparing a name with the data on the length of the word at its start.\<close>

lemma strncmp0_word:
  assumes "NUL \<notin> set m"
  shows "strncmp0 (pre @ m @ rest) (length pre) s (length m) \<longleftrightarrow> take (length m) s = m"
  using assms
proof (induction m arbitrary: s pre)
  case Nil
  then show ?case by simp
next
  case (Cons c m)
  have step: "strncmp0 (pre @ (c # m) @ rest) (Suc (length pre)) s (length m) \<longleftrightarrow> take (length m) s = m" for s
    using Cons.IH [of "pre @ [c]" s] Cons.prems by simp
  show ?case
  proof (cases s)
    case Nil
    with Cons.prems show ?thesis by auto
  next
    case (Cons d s')
    with step [of s'] show ?thesis by auto
  qed
qed

lemma first_match_word:
  assumes "NUL \<notin> set m"
  shows "first_match names (pre @ m @ rest) (length pre) (length m) =
     (case List.find (\<lambda>k. take (length m) (names ! k) = m) [0..<length names] of None \<Rightarrow> 0 | Some k \<Rightarrow> k)"
  using strncmp0_word [OF assms, of pre rest] by (simp add: first_match_def)

section \<open>Reading numbers\<close>

lemma digit_of_dec: "isdigit c \<Longrightarrow> digit_of 10 c = Some (code c - 48)"
  by (auto simp: digit_of_def isdigit_def)

lemma scan_digits_dec:
  assumes "\<And>c. c \<in> set ds \<Longrightarrow> isdigit c" "digit_of 10 r = None"
  shows "scan_digits 10 v (ds @ r # rest) = dec_val v ds"
  using assms
proof (induction ds arbitrary: v)
  case Nil
  then show ?case by (simp add: dec_val_def)
next
  case (Cons c ds)
  then show ?case by (simp add: digit_of_dec dec_val_def)
qed

lemma show_nat_cases: "\<exists>c cs. show_nat n = c # cs \<and> isdigit c"
  using show_nat_nonempty [of n] show_nat_digits [of _ n] by (cases "show_nat n") auto

lemma scan_sign_digit: "isdigit c \<Longrightarrow> scan_sign (c # cs) = (False, c # cs)"
  by (auto simp: scan_sign_def isspace_def isdigit_def code_def)

lemma scan_number_show_nat:
  assumes "digit_of 10 r = None"
  shows "scan_number 10 (show_nat n @ r # rest) = Some n"
proof -
  obtain c cs where c: "show_nat n = c # cs" "isdigit c" using show_nat_cases by blast
  have "scan_digits 10 0 (show_nat n @ r # rest) = n"
    using scan_digits_dec [of "show_nat n" r 0 rest] show_nat_digits assms by simp
  with c show ?thesis by (simp add: scan_number_def digit_of_dec)
qed

lemma sscanf_show_nat:
  assumes "digit_of 10 r = None"
  shows "sscanf_u (show_nat n @ r # rest) = Some (int n)"
    and "0 < n \<Longrightarrow> sscanf_i (show_nat n @ r # rest) = Some (int n)"
proof -
  obtain c cs where c: "show_nat n = c # cs" "isdigit c" using show_nat_cases by blast
  note num = scan_number_show_nat [OF assms, of n rest]
  show "sscanf_u (show_nat n @ r # rest) = Some (int n)"
    using num scan_sign_digit [OF c(2)] by (simp add: sscanf_u_def c(1))
  assume "0 < n"
  then have "c \<noteq> CHR ''0''" using show_nat_hd [of n] c(1) by simp
  with num scan_sign_digit [OF c(2)] show "sscanf_i (show_nat n @ r # rest) = Some (int n)"
    by (cases "cs @ r # rest") (simp_all add: sscanf_i_def c(1))
qed

end
