(* ===== verification/Http.thy ===== *)
theory Http
  imports Messages
begin

text \<open>
  \<^verbatim>\<open>http.cpp\<close>: recognising HTTP requests and responses and parsing their heads.  A payload is
  the buffer \<open>buf\<close> (NUL beyond its end); the parsers are \<^term>\<open>None\<close> where the code would
  subtract from a NULL end of head.
\<close>

section \<open>Tables\<close>

definition http_methods :: "string list" where
  "http_methods = [
    ''NONE'', ''OPTIONS'', ''GET'', ''HEAD'', ''POST'', ''PUT'', ''DELETE'', ''TRACE'',
    ''CONNECT'', ''PATCH'', ''LINK'', ''UNLINK'', ''PROPFIND'', ''MKCOL'', ''COPY'', ''MOVE'',
    ''LOCK'', ''UNLOCK'', ''POLL'', ''BCOPY'', ''BMOVE'', ''SEARCH'', ''BDELETE'',
    ''PROPPATCH'', ''BPROPFIND'', ''BPROPPATCH'', ''LABEL'', ''MERGE'', ''REPORT'', ''UPDATE'',
    ''CHECKIN'', ''CHECKOUT'', ''UNCHECKOUT'', ''MKACTIVITY'', ''MKWORKSPACE'',
    ''VERSION_CONTROL'', ''BASELINE_CONTROL'', ''NOTIFY'', ''SUBSCRIBE'', ''UNSUBSCRIBE'',
    ''ICY'']"

definition http_status :: "(int \<times> string) list" where
  "http_status = [
    (0, ''None''), (100, ''100 Continue''), (101, ''101 Switching Protocols''),
    (102, ''102 Processing''), (199, ''199 Miscellaneous Warning''), (200, ''200 OK''),
    (201, ''201 Created''), (202, ''202 Accepted''),
    (203, ''203 Non-Authoritative Information''), (204, ''204 No Content''),
    (205, ''205 Reset Content''), (206, ''206 Partial Content''), (207, ''207 Multi-Status''),
    (299, ''299 Miscellaneous Persistent Warning''), (300, ''300 Multiple Choices''),
    (301, ''301 Moved Permanently''), (302, ''302 Found''), (303, ''303 See Other''),
    (304, ''304 Not Modified''), (305, ''305 Use Proxy''), (307, ''307 Temporary Redirect''),
    (399, ''399''), (400, ''400 Bad Request''), (401, ''401 Unauthorized''),
    (402, ''402 Payment Required''), (403, ''403 Forbidden''), (404, ''404 Not Found''),
    (405, ''405 Method Not Allowed''), (406, ''406 Not Acceptable''),
    (407, ''407 Proxy Authentication Required''), (408, ''408 Request Timeout''),
    (409, ''409 Conflict''), (410, ''410 Gone''), (411, ''411 Length Required''),
    (412, ''412 Precondition Failed''), (413, ''413 Payload Too Large''),
    (414, ''414 URI Too Long''), (415, ''415 Unsupported Media Type''),
    (416, ''416 Range Not Satisfiable''), (417, ''417 Expectation Failed''),
    (422, ''422 Unprocessable Entity''), (423, ''423 Locked''),
    (424, ''424 Failed Dependency''), (499, ''499 Client Closed Request''),
    (500, ''500 Internal Server Error''), (501, ''501 Not Implemented''),
    (502, ''502 Bad Gateway''), (503, ''503 Service Unavailable''),
    (504, ''504 Gateway Timeout''), (505, ''505 HTTP Version Not Supported''),
    (507, ''507 Insufficient Storage''), (599, ''599 Network Connect Timeout Error'')]"

section \<open>Parsing the first line\<close>

definition http_parseMethod :: "string \<Rightarrow> nat \<Rightarrow> int \<Rightarrow> nat" where
  "http_parseMethod buf data linelen =
     (let (data, linelen) =
            (if linelen \<ge> 2 \<and> (strncmp0 buf data ''M-'' 2 \<or> strncmp0 buf data [CR, LF] 2)
             then (data + 2, linelen - 2) else (data, linelen));
          index = index_until {SP} buf data (nat linelen)
      in first_match http_methods buf data index)"

definition http_isRequest :: "string \<Rightarrow> nat \<Rightarrow> nat option" where
  "http_isRequest buf datalen =
     (if http_parseMethod buf 0 (int datalen) = 0 then None
      else fst (find_header_end buf 0 (datalen - 1) 0))"

definition http_version_at :: "string \<Rightarrow> nat \<Rightarrow> Version" where
  "http_version_at buf line =
     (if strncmp0 buf line ''HTTP/1.0'' 8 then HTTP_VER_1_0
      else if strncmp0 buf line ''HTTP/1.1'' 8 then HTTP_VER_1_1 else HTTP_VER_NONE)"

definition http_rsp_parseVersion :: "string \<Rightarrow> nat \<Rightarrow> nat \<Rightarrow> Version" where
  "http_rsp_parseVersion buf line len = http_version_at buf line"

definition http_isResponse :: "string \<Rightarrow> nat \<Rightarrow> nat option" where
  "http_isResponse buf datalen =
     (if datalen < 8 then None
      else if http_rsp_parseVersion buf 0 datalen = HTTP_VER_NONE then None
      else fst (find_header_end buf 0 (datalen - 1) 0))"

definition http_parseUri :: "string \<Rightarrow> nat \<Rightarrow> nat \<Rightarrow> string option" where
  "http_parseUri buf line len =
     (let lineend = line + len;
          (tokenlen, next_token) = get_token_len buf line lineend
      in if tokenlen = 0 \<or> at buf (line + tokenlen) \<noteq> SP then None
         else let line = next_token;
                  (tokenlen, next_token) = get_token_len buf line lineend
              in if tokenlen = 0 \<or> at buf (line + tokenlen) \<noteq> SP then None
                 else Some (slice buf line tokenlen))"

definition http_req_parseVersion :: "string \<Rightarrow> nat \<Rightarrow> nat \<Rightarrow> Version" where
  "http_req_parseVersion buf line len =
     (let lineend = line + len;
          (tokenlen, next_token) = get_token_len buf line lineend
      in if tokenlen = 0 \<or> at buf (line + tokenlen) \<noteq> SP then HTTP_VER_NONE
         else let line = next_token;
                  (tokenlen, next_token) = get_token_len buf line lineend
              in if tokenlen = 0 \<or> at buf (line + tokenlen) \<noteq> SP then HTTP_VER_NONE
                 else if lineend - next_token = 0 then HTTP_VER_NONE
                 else http_version_at buf next_token)"

definition http_parseStatus :: "string \<Rightarrow> nat \<Rightarrow> nat \<Rightarrow> int" where
  "http_parseStatus buf line len =
     (let lineend = line + len;
          (tokenlen, next_token) = get_token_len buf line lineend
      in if tokenlen = 0 \<or> at buf (line + tokenlen) \<noteq> SP then 0
         else let line = next_token;
                  (tokenlen, next_token) = get_token_len buf line lineend;
                  c = at buf (line + tokenlen)
              in if tokenlen = 0 \<or> (c \<noteq> SP \<and> c \<noteq> CR \<and> c \<noteq> LF) then 0
                 else case sscanf_i (drop line buf) of
                        None \<Rightarrow> 0
                      | Some val \<Rightarrow> if val \<in> fst ` set http_status then val else 0)"

function leading_digit :: "int \<Rightarrow> int" where
  "leading_digit i = (if i \<ge> 10 then leading_digit (i div 10) else i)"
  by pat_completeness auto
termination by (relation "measure nat") auto

declare leading_digit.simps [simp del]

definition http_hasErrorStatus :: "int \<Rightarrow> bool" where
  "http_hasErrorStatus statusCode \<longleftrightarrow> leading_digit statusCode > 3"

section \<open>The constructors\<close>

text \<open>\<open>junk\<close> is what the allocator left in the fields that are not set.  The constructor's
  \<^verbatim>\<open>time = strdup(time)\<close> assigns its own parameter, so the member keeps the NULL of the base
  class.  The method name is compared by pointer with a literal of the same file.\<close>

definition http_Request :: "http_req \<Rightarrow> string \<Rightarrow> nat \<Rightarrow> u32 \<Rightarrow> u32 \<Rightarrow> request option" where
  "http_Request junk buf dataend sq nxt = do {
     eoh \<leftarrow> fst (find_header_end buf 0 dataend 0);
     let hdl = eoh + 1;
     let lineep = fst (find_line_end buf 0 eoh);
     let lnl = lineep + 1;
     let code = http_parseMethod buf 0 (int lnl);
     let base = (\<lambda>h. \<lparr>rq_time = None, rq_hdlen = int hdl, rq_processed = False, rq_seq = sq,
                       rq_nxt_seq = nxt, rq_ext = Http_Req h\<rparr>);
     let h0 = junk\<lparr>hq_methodCode := code\<rparr>;
     Some (if http_methods ! code = ''NONE'' then base h0
           else
             let param = header_param buf 0 hdl;
                 h1 = h0\<lparr>hq_uri := http_parseUri buf 0 lnl, hq_version := http_req_parseVersion buf 0 lnl,
                        hq_host := param ''Host:'', hq_referer := param ''Referer:'',
                        hq_user_agent := param ''User-Agent:'', hq_connection := param ''Connection:'',
                        hq_accept := param ''Accept:'', hq_accept_encoding := param ''Accept-Encoding:'',
                        hq_accept_language := param ''Accept-Language:'',
                        hq_accept_charset := param ''Accept-Charset:'', hq_cookie := param ''Cookie:''\<rparr>
             in base (if http_methods ! code = ''POST''
                      then h1\<lparr>hq_content_type := param ''Content-Type:'',
                              hq_content_encoding := param ''Content-Encoding:'',
                              hq_content_length := param ''Content-Length:''\<rparr>
                      else h1))
   }"

definition http_Response :: "http_rsp \<Rightarrow> string \<Rightarrow> nat \<Rightarrow> u32 \<Rightarrow> response option" where
  "http_Response junk buf dataend ack = do {
     eoh \<leftarrow> fst (find_header_end buf 0 dataend 0);
     let hdl = eoh + 1;
     let lineep = fst (find_line_end buf 0 eoh);
     let lnl = lineep + 1;
     let code = http_parseStatus buf 0 lnl;
     let base = (\<lambda>h. \<lparr>rs_time = [], rs_size = [], rs_hdlen = int hdl, rs_processed = False,
                       rs_ext = Http_Rsp h\<rparr>);
     let h0 = junk\<lparr>hs_acknowledgement := ack, hs_statusCode := code\<rparr>;
     Some (base (if code = 0 then h0
           else
             let param = header_param buf 0 hdl
             in h0\<lparr>hs_version := http_rsp_parseVersion buf 0 lnl, hs_server := param ''Server:'',
                   hs_date := param ''Date:'', hs_expires := param ''Expires:'',
                   hs_last_modified := param ''Last-Modified:'', hs_etag := param ''ETag:'',
                   hs_age := param ''Age:'', hs_accept_ranges := param ''Accept-Ranges:'',
                   hs_content_type := param ''Content-Type:'',
                   hs_content_encoding := param ''Content-Encoding:'',
                   hs_content_length := param ''Content-Length:'', hs_location := param ''Location:''\<rparr>))
   }"

section \<open>Recognising and parsing well-formed messages\<close>

definition http_first_line :: "string \<Rightarrow> string \<Rightarrow> string \<Rightarrow> string" where
  "http_first_line a b c = a @ SP # b @ SP # c"

definition http_message :: "string \<Rightarrow> string list \<Rightarrow> string \<Rightarrow> string" where
  "http_message l hdrs body = render_lines (l # hdrs) @ CR # LF # body"

definition http_field :: "string list \<Rightarrow> string \<Rightarrow> string option" where
  "http_field hdrs name = map_option (field_value name) (List.find (ci_prefix name) hdrs)"

definition method_word :: "string \<Rightarrow> bool" where
  "method_word m \<longleftrightarrow> list_all (\<lambda>c. isupper c \<or> c = CHR ''_'') m \<and> length m \<ge> 3"

lemma method_words: "list_all method_word http_methods"
  by code_simp

lemma http_methods_0: "http_methods ! 0 = ''NONE''"
  by code_simp

lemma method_positions:
  "list_all (\<lambda>k. List.find (\<lambda>j. take (length (http_methods ! k)) (http_methods ! j) = http_methods ! k)
     [0..<length http_methods] = Some k) [0..<length http_methods]"
  by code_simp

lemma method_wordD:
  assumes "method_word m"
  shows "token m" "NUL \<notin> set m" "c \<in> set m \<Longrightarrow> c \<noteq> CHR '':'' \<and> c \<noteq> CHR ''-'' \<and> c \<noteq> LF \<and> c \<noteq> CR"
    "length m \<ge> 3"
proof -
  have u: "isupper c \<or> c = CHR ''_''" if "c \<in> set m" for c
    using assms that by (auto simp: method_word_def list_all_iff)
  then have *: "c \<noteq> CHR '':'' \<and> c \<noteq> CHR ''-'' \<and> c \<noteq> LF \<and> c \<noteq> CR \<and> c \<noteq> SP \<and> c \<noteq> NUL" if "c \<in> set m" for c
    using u [OF that] by (auto simp: isupper_def code_def)
  show "length m \<ge> 3" using assms by (simp add: method_word_def)
  then have "m \<noteq> []" by auto
  with * show "token m" "NUL \<notin> set m" by (auto simp: token_def)
  show "c \<in> set m \<Longrightarrow> c \<noteq> CHR '':'' \<and> c \<noteq> CHR ''-'' \<and> c \<noteq> LF \<and> c \<noteq> CR" using * by blast
qed

lemma http_method_known:
  assumes "m \<in> set http_methods" "int (length m) < n"
  shows "http_parseMethod (m @ SP # rest) 0 n < length http_methods \<and>
    http_methods ! http_parseMethod (m @ SP # rest) 0 n = m"
proof -
  have w: "method_word m" using method_words assms(1) by (auto simp: list_all_iff)
  note wd = method_wordD [OF w]
  obtain k where k: "k < length http_methods" "http_methods ! k = m" using assms(1) by (auto simp: in_set_conv_nth)
  obtain a b m' where m: "m = a # b # m'" using wd(4) by (cases m; cases "tl m") auto
  have "b \<noteq> CHR ''-''" "a \<noteq> CR" using wd(3) m by auto
  then have no: "\<not> strncmp0 (m @ SP # rest) 0 ''M-'' 2" "\<not> strncmp0 (m @ SP # rest) 0 [CR, LF] 2"
    by (auto simp: m numeral_2_eq_2)
  have "index_until {SP} (m @ SP # rest) 0 (nat n) = length m"
  proof (rule index_until_hit)
    fix j assume "j < length m"
    then have "at (m @ SP # rest) (0 + j) \<in> set m" by (simp add: at_def nth_append)
    with wd(1) show "at (m @ SP # rest) (0 + j) \<notin> {SP}" by (auto simp: token_def)
  qed (use assms(2) in \<open>simp_all\<close>)
  then have "http_parseMethod (m @ SP # rest) 0 n = first_match http_methods (m @ SP # rest) 0 (length m)"
    using no by (simp add: http_parseMethod_def)
  also have "\<dots> = (case List.find (\<lambda>j. take (length m) (http_methods ! j) = m) [0..<length http_methods] of None \<Rightarrow> 0 | Some k \<Rightarrow> k)"
    using first_match_word [OF wd(2), of http_methods "[]" "SP # rest"] by simp
  also have "List.find (\<lambda>j. take (length m) (http_methods ! j) = m) [0..<length http_methods] = Some k"
    using method_positions k by (auto simp: list_all_iff)
  finally show ?thesis using k by simp
qed

lemma field_not_first:
  assumes "method_word m" "SP \<notin> set name" "name \<noteq> []" "last name = CHR '':''"
  shows "\<not> ci_prefix name (http_first_line m b c)"
proof
  assume "ci_prefix name (http_first_line m b c)"
  then have t: "tolower (http_first_line m b c ! j) = tolower (name ! j)" if "j < length name" for j
    using that by (auto simp: ci_prefix_def list_eq_iff_nth_eq)
  have low: "tolower x = y \<longleftrightarrow> x = y" if "y \<in> {SP, CHR '':''}" for x y
    using that tolower_eq_low [of y x] by (auto simp: code_def)
  show False
  proof (cases "length name \<le> length m")
    case True
    let ?j = "length name - 1"
    have "?j < length name" "?j < length m" using True assms(3) by (cases name; simp)+
    then have "tolower (m ! ?j) = tolower (last name)"
      using t [of ?j] assms(3) True by (simp add: http_first_line_def nth_append last_conv_nth)
    then have "m ! ?j = CHR '':''" using assms(4) low by (metis insertCI)
    moreover have "m ! ?j \<in> set m" using True assms(3) by (intro nth_mem) (cases name, auto)
    ultimately show False using method_wordD(3) [OF assms(1)] by blast
  next
    case False
    then have "tolower (name ! length m) = tolower SP"
      using t [of "length m"] by (simp add: http_first_line_def nth_append)
    then have "name ! length m = SP" using low by (metis insertCI)
    with False assms(2) show False by (metis not_le_imp_less nth_mem)
  qed
qed

lemma first_line_tokens:
  assumes "token a" "token b" "ver \<noteq> []" "hd ver \<noteq> SP" and "buf = http_first_line a b ver @ rest"
    and "length (http_first_line a b ver) \<le> lineend"
  shows "get_token_len buf 0 lineend = (length a, length a + 1)"
    "get_token_len buf (length a + 1) lineend = (length b, length a + 1 + length b + 1)"
    "at buf (length a) = SP" "at buf (length a + 1 + length b) = SP"
    "slice buf (length a + 1) (length b) = b" "drop (length a + 1) buf = b @ SP # ver @ rest"
    "drop (length a + 1 + length b + 1) buf = ver @ rest"
proof -
  obtain c b' where b: "b = c # b'" "c \<noteq> SP" using assms(2) by (cases b) (auto simp: token_def)
  obtain v ver' where v: "ver = v # ver'" "v \<noteq> SP" using assms(3,4) by (cases ver) auto
  have buf: "buf = [] @ a @ SP # c # (b' @ SP # ver @ rest)"
    "buf = (a @ [SP]) @ b @ SP # v # (ver' @ rest)"
    using assms(5) b v by (simp_all add: http_first_line_def)
  have len: "length a + length b + 2 + length ver' + 1 \<le> lineend"
    using assms(6) v by (simp add: http_first_line_def)
  show "get_token_len buf 0 lineend = (length a, length a + 1)"
    using get_token_word [OF assms(1) b(2), of "[]" lineend "b' @ SP # ver @ rest"] len
    by (subst buf(1)) (simp add: b)
  show "get_token_len buf (length a + 1) lineend = (length b, length a + 1 + length b + 1)"
    using get_token_word [OF assms(2) v(2), of "a @ [SP]" lineend "ver' @ rest"] len
    by (subst buf(2)) simp
  show "at buf (length a) = SP" by (subst buf(1)) (simp add: at_def)
  show "at buf (length a + 1 + length b) = SP" by (subst buf(2)) (simp add: at_def nth_append)
  show "slice buf (length a + 1) (length b) = b"
    using slice_mid [of "a @ [SP]" b "SP # v # (ver' @ rest)"] by (subst buf(2)) simp
  show "drop (length a + 1) buf = b @ SP # ver @ rest" "drop (length a + 1 + length b + 1) buf = ver @ rest"
    using assms(5) by (simp_all add: http_first_line_def)
qed

lemma at_drop: "at buf (k + j) = at (drop k buf) j"
  by (simp add: at_def add.commute less_diff_conv nth_drop)

lemma strncmp0_drop: "strncmp0 buf (k + i) s n = strncmp0 (drop k buf) i s n"
proof (induction "drop k buf" i s n rule: strncmp0.induct)
  case (2 i n)
  then show ?case by (simp add: at_drop)
next
  case (3 i c s n)
  then show ?case by (simp add: at_drop flip: add_Suc_right)
qed simp

lemma http_version_drop: "http_version_at buf k = http_version_at (drop k buf) 0"
  using strncmp0_drop [of buf k 0] by (simp add: http_version_at_def)

lemma http_version_known:
  "http_version_at (''HTTP/1.0'' @ rest) 0 = HTTP_VER_1_0"
  "http_version_at (''HTTP/1.1'' @ rest) 0 = HTTP_VER_1_1"
  by (simp_all add: http_version_at_def eval_nat_numeral)

text \<open>The head of a well-formed message and its first line are found.\<close>

lemma http_message_head:
  assumes "plain_line l" "\<forall>h \<in> set hdrs. plain_line h \<and> h \<noteq> []"
    and "buf = http_message l hdrs body" and "length (render_lines (l # hdrs)) + 1 \<le> e"
  shows "fst (find_header_end buf 0 e 0) = Some (length (render_lines (l # hdrs)) + 1)"
    "fst (find_line_end buf 0 (length (render_lines (l # hdrs)) + 1)) = length l + 1"
    "CR \<notin> set name \<Longrightarrow> name \<noteq> [] \<Longrightarrow>
       header_param buf 0 (length (render_lines (l # hdrs)) + 2) name = http_field (l # hdrs) name"
proof -
  show "fst (find_header_end buf 0 e 0) = Some (length (render_lines (l # hdrs)) + 1)"
    using find_header_end_lines [OF assms(1,2,4), of body] assms(3) by (simp add: http_message_def)
  show "fst (find_line_end buf 0 (length (render_lines (l # hdrs)) + 1)) = length l + 1"
    using find_line_end_line [OF assms(1), of "[]" "length (render_lines (l # hdrs)) + 1"]
    by (simp add: assms(3) http_message_def)
  assume "CR \<notin> set name" "name \<noteq> []"
  then show "header_param buf 0 (length (render_lines (l # hdrs)) + 2) name = http_field (l # hdrs) name"
    using header_lines_correct [of "l # hdrs" name "[]" body] assms(1,2)
    by (simp add: assms(3) http_message_def http_field_def header_param_def)
qed

lemma http_field_skip:
  assumes "method_word m" "SP \<notin> set name" "name \<noteq> []" "last name = CHR '':''"
  shows "http_field (http_first_line m b c # hdrs) name = http_field hdrs name"
  using field_not_first [OF assms] by (simp add: http_field_def)

definition http_version_text :: "Version \<Rightarrow> string" where
  "http_version_text v = (case v of HTTP_VER_1_0 \<Rightarrow> ''HTTP/1.0'' | HTTP_VER_1_1 \<Rightarrow> ''HTTP/1.1'' | HTTP_VER_NONE \<Rightarrow> [])"



lemma status_codes: "\<forall>p \<in> set http_status. fst p \<ge> 0 \<and> (fst p \<noteq> 0 \<longrightarrow> fst p \<ge> 100)"
  by code_simp



text \<open>The error rate counts exactly the client and server errors: among the codes of the
  status table, the only ones a parsed response can have, \<^verbatim>\<open>hasErrorStatus\<close> holds of those from
  400 to 599.\<close>

theorem http_errors_are_4xx_5xx:
  "\<forall>p \<in> set http_status. http_hasErrorStatus (fst p) \<longleftrightarrow> 400 \<le> fst p \<and> fst p \<le> 599"
  by code_simp

theorem http_errors_are_4xx_5xx_witness:
  "http_hasErrorStatus 404 \<and> \<not> http_hasErrorStatus 302"
  using bspec [OF http_errors_are_4xx_5xx, of "(404, ''404 Not Found'')"]
    bspec [OF http_errors_are_4xx_5xx, of "(302, ''302 Found'')"]
  by (simp add: http_status_def)

lemma strncmp0_two: "strncmp0 buf i (a # b # s) 2 \<longleftrightarrow> at buf i = a \<and> at buf (Suc i) = b"
  by (simp add: numeral_2_eq_2)

text \<open>The method lookup accepts abbreviations: a request line whose first word is a proper
  prefix of a method name is taken for a request of that method (here \<^verbatim>\<open>G\<close> for GET), whereas
  a word that extends a name (here \<^verbatim>\<open>GETX\<close>) is not a method.\<close>

theorem http_method_prefixes:
  "http_methods ! http_parseMethod (''G '' @ rest) 0 2 = ''GET'' \<and>
   http_methods ! http_parseMethod (''GETX '' @ rest) 0 5 = ''NONE''"
proof -
  have i: "index_until {SP} (''G'' @ SP # rest) 0 2 = 1" "index_until {SP} (''GETX'' @ SP # rest) 0 5 = 4"
    by (simp_all add: eval_nat_numeral)
  have "first_match http_methods ([] @ ''G'' @ SP # rest) (length ([] :: string)) (length ''G'') = 2"
    by (subst first_match_word) (simp, code_simp)
  then have "first_match http_methods (''G'' @ SP # rest) 0 1 = 2" by simp
  moreover have "first_match http_methods ([] @ ''GETX'' @ SP # rest) (length ([] :: string)) (length ''GETX'') = 0"
    by (subst first_match_word) (simp, code_simp)
  then have "first_match http_methods (''GETX'' @ SP # rest) 0 4 = 0" by (simp add: eval_nat_numeral)
  moreover have "http_methods ! 2 = ''GET''" by code_simp
  ultimately show ?thesis
    using i http_methods_0 by (simp add: http_parseMethod_def strncmp0_two)
qed

end
