(* ===== verification/Memcached.thy ===== *)
theory Memcached
  imports Messages
begin

text \<open>
  \<^verbatim>\<open>memcached.cpp\<close>.  The classifiers pass the payload length where \<^verbatim>\<open>find_line_end\<close> expects the
  address of the last byte; the search length computed from it is close to \<open>2 ^ 64\<close>, so the
  search only stops at a line feed.  Their model is \<^term>\<open>None\<close> when the payload has none and the
  code reads on behind it.  \<open>wild\<close> is the value of the uninitialised local \<^verbatim>\<open>val\<close>.
\<close>

definition mc_methods :: "string list" where
  "mc_methods = [
    ''none'', ''get'', ''set'', ''add'', ''replace'', ''append'', ''prepend'', ''delete'',
    ''flush_all'', ''quit'', ''incr'', ''decr'', ''touch'', ''gat'', ''gats'', ''slabs'',
    ''lru'', ''watch'', ''stats'', ''version'', ''misbehave'']"

definition mc_status :: "(int \<times> string) list" where
  "mc_status = [
    (0, ''VALUE''), (1, ''OK''), (2, ''END''), (3, ''STORED''), (4, ''NOT_STORED''),
    (5, ''EXISTS''), (6, ''NOT_FOUND''), (7, ''ERROR''), (8, ''CLIENT_ERROR''),
    (9, ''SERVER_ERROR''), (10, ''DELETED''), (11, ''TOUCHED''), (12, ''BUSY''),
    (13, ''BADCLASS''), (14, ''NOTFULL''), (15, ''UNSAFE''), (16, ''SAME''), (17, ''STAT''),
    (18, ''VERSION''), (19, ''NONE'')]"

definition mc_parseMethod :: "string \<Rightarrow> nat \<Rightarrow> nat \<Rightarrow> nat" where
  "mc_parseMethod buf data linelen =
     first_match mc_methods buf data (index_until {SP, CR} buf data linelen)"

definition mc_line_end :: "string \<Rightarrow> nat option" where
  "mc_line_end buf = memchr buf LF 0 (length buf)"

definition mc_isRequest :: "string \<Rightarrow> nat \<Rightarrow> nat option option" where
  "mc_isRequest buf datalen = do {
     head_end \<leftarrow> mc_line_end buf;
     Some (if mc_parseMethod buf 0 (head_end + 1) = 0 then None else Some head_end)
   }"

definition mc_parseStatus :: "string \<Rightarrow> nat \<Rightarrow> nat \<Rightarrow> int" where
  "mc_parseStatus buf line len =
     (let index = index_until {SP} buf line len
      in case List.find (\<lambda>s. strncmp0 buf line (snd s) index) mc_status of
           None \<Rightarrow> int (length mc_status) - 1
         | Some s \<Rightarrow> fst s)"

definition mc_hasErrorStatus :: "int \<Rightarrow> bool" where
  "mc_hasErrorStatus statusCode \<longleftrightarrow>
     map_of mc_status statusCode \<in> Some ` {''ERROR'', ''CLIENT_ERROR'', ''SERVER_ERROR'', ''BADCLASS''}"

definition mc_isResponse :: "string \<Rightarrow> nat \<Rightarrow> nat option option" where
  "mc_isResponse buf datalen = do {
     head_end \<leftarrow> mc_line_end buf;
     Some (if map_of mc_status (mc_parseStatus buf 0 (head_end + 1)) = Some ''NONE'' then None
           else Some head_end)
   }"

section \<open>The constructors\<close>

lemma token_end_bounds: "i \<le> token_end buf i n \<and> token_end buf i n \<le> i + n"
  by (induction buf i n rule: token_end.induct) auto

lemma skip_blanks_bounds: "i \<le> skip_blanks buf i n \<and> skip_blanks buf i n \<le> i + n"
  by (induction buf i n rule: skip_blanks.induct) auto

lemma get_token_progress:
  assumes "get_token_len buf linep lineend = (tokenlen, next_token)" "tokenlen \<noteq> 0"
  shows "lineend - next_token < lineend - linep"
proof -
  let ?e = "token_end buf linep (lineend - linep)"
  have "?e - linep = tokenlen" "next_token = skip_blanks buf ?e (lineend - ?e)"
    using assms(1) by (auto simp: get_token_len_def Let_def)
  then show ?thesis
    using assms(2) token_end_bounds [of linep buf "lineend - linep"] skip_blanks_bounds [of ?e buf "lineend - ?e"]
    by linarith
qed

text \<open>The key loop of \<^verbatim>\<open>get\<close>, and that of \<^verbatim>\<open>gat\<close> and \<^verbatim>\<open>gats\<close>, which moves on before it stores.\<close>

function mc_get_keys :: "string \<Rightarrow> nat \<Rightarrow> nat \<Rightarrow> string list" where
  "mc_get_keys buf linesp eoh =
     (let (tokenlen, next_token) = get_token_len buf linesp eoh
      in if tokenlen \<noteq> 0 \<and> at buf (linesp + tokenlen) = SP
         then slice buf linesp tokenlen # mc_get_keys buf next_token eoh
         else [])"
  by pat_completeness auto
termination
  by (relation "measure (\<lambda>(buf, linesp, eoh). eoh - linesp)") (auto dest: get_token_progress [OF sym])

declare mc_get_keys.simps [simp del]

function mc_gat_keys :: "string \<Rightarrow> nat \<Rightarrow> nat \<Rightarrow> string list" where
  "mc_gat_keys buf linesp eoh =
     (let (tokenlen, next_token) = get_token_len buf linesp eoh
      in if tokenlen \<noteq> 0 \<and> at buf (linesp + tokenlen) = SP
         then slice buf next_token (fst (get_token_len buf next_token eoh)) # mc_gat_keys buf next_token eoh
         else [])"
  by pat_completeness auto
termination
  by (relation "measure (\<lambda>(buf, linesp, eoh). eoh - linesp)") (auto dest: get_token_progress [OF sym])

declare mc_gat_keys.simps [simp del]

definition mc_Request :: "mc_req \<Rightarrow> u32 \<Rightarrow> string \<Rightarrow> nat \<Rightarrow> u32 \<Rightarrow> u32 \<Rightarrow> request" where
  "mc_Request junk wild buf dataend sq nxt =
     (let eoh = fst (find_line_end buf 0 dataend);
          hdl = eoh + 1;
          code = mc_parseMethod buf 0 hdl;
          m = mc_methods ! code;
          base = (\<lambda>h. \<lparr>rq_time = None, rq_hdlen = int hdl, rq_processed = False, rq_seq = sq,
                        rq_nxt_seq = nxt, rq_ext = Memcached_Req h\<rparr>);
          h0 = junk\<lparr>mq_keys := [], mq_methodCode := code\<rparr>;
          (tokenlen, next_token) = get_token_len buf 0 eoh;
          c = at buf tokenlen
      in base (
        if code = 0 then h0
        else if m = ''get'' then h0\<lparr>mq_keys := mc_get_keys buf 0 eoh\<rparr>
        else if m \<in> {''delete'', ''incr'', ''decr'', ''touch''} then
          (if tokenlen \<noteq> 0 \<and> (c = SP \<or> c = CR) then
             let h1 = h0\<lparr>mq_keys := [slice buf 0 tokenlen]\<rparr>
             in if m = ''touch'' then
                  (let (len2, _) = get_token_len buf next_token eoh; c2 = at buf (next_token + len2)
                   in if len2 \<noteq> 0 \<and> (c2 = SP \<or> c2 = CR) \<and> sscanf_u (drop next_token buf) = None
                      then h1\<lparr>mq_expiration := wild\<rparr> else h1)
                else h1
           else h0)
        else if m = ''gat'' \<or> m = ''gats'' then
          (if tokenlen \<noteq> 0 \<and> (c = SP \<or> c = CR) then
             (if sscanf_u buf = None then h0\<lparr>mq_expiration := wild\<rparr> else h0)
               \<lparr>mq_keys := mc_gat_keys buf 0 eoh\<rparr>
           else h0)
        else h0))"

definition mc_Response :: "mc_rsp \<Rightarrow> u32 \<Rightarrow> u8 \<Rightarrow> string \<Rightarrow> nat \<Rightarrow> u32 \<Rightarrow> response" where
  "mc_Response junk wild wild8 buf dataend ack =
     (let eoh = fst (find_line_end buf 0 dataend);
          hdl = eoh + 1;
          code = mc_parseStatus buf 0 hdl;
          name = map_of mc_status code;
          base = (\<lambda>h. \<lparr>rs_time = [], rs_size = [], rs_hdlen = int hdl, rs_processed = False,
                        rs_ext = Memcached_Rsp h\<rparr>);
          h0 = junk\<lparr>ms_keys := [], ms_acknowledgement := ack, ms_statusCode := code\<rparr>
      in base (
        if name = Some ''VALUE'' then
          (let (l1, n1) = get_token_len buf 0 eoh;
               h1 = (if l1 \<noteq> 0 \<and> at buf l1 = SP then h0\<lparr>ms_keys := [slice buf 0 l1]\<rparr> else h0);
               (l2, n2) = get_token_len buf n1 eoh;
               h2 = (if l2 \<noteq> 0 \<and> at buf (n1 + l2) = SP \<and> sscanf_u (drop n1 buf) = None
                     then h1\<lparr>ms_flags := wild8\<rparr> else h1);
               (l3, n3) = get_token_len buf n2 eoh;
               c = at buf (n2 + l3)
           in if l3 \<noteq> 0 \<and> (c = SP \<or> c = CR) \<and> sscanf_u (drop n2 buf) = None
              then h2\<lparr>ms_bodylen := wild\<rparr> else h2)
        else h0))"

section \<open>Commands and replies\<close>

definition mc_word :: "string \<Rightarrow> bool" where
  "mc_word m \<longleftrightarrow> m \<noteq> [] \<and> list_all (\<lambda>c. islower c \<or> c = CHR ''_'') m"

lemma mc_method_words: "list_all mc_word mc_methods"
  by code_simp

lemma mc_methods_0: "mc_methods ! 0 = ''none''"
  by code_simp

lemma mc_method_positions:
  "list_all (\<lambda>k. List.find (\<lambda>j. take (length (mc_methods ! k)) (mc_methods ! j) = mc_methods ! k)
     [0..<length mc_methods] = Some k) [0..<length mc_methods]"
  by code_simp

lemma mc_wordD:
  assumes "mc_word m"
  shows "token m" "NUL \<notin> set m"
proof -
  have u: "islower c \<or> c = CHR ''_''" if "c \<in> set m" for c
    using assms that by (auto simp: mc_word_def list_all_iff)
  have *: "c \<noteq> LF \<and> c \<noteq> CR \<and> c \<noteq> SP \<and> c \<noteq> NUL" if "c \<in> set m" for c
    using u [OF that] by (auto simp: islower_def code_def)
  then show "token m" "NUL \<notin> set m" using assms by (auto simp: token_def mc_word_def)
qed

lemma mc_method_known:
  assumes "m \<in> set mc_methods" "length m < n" "c = SP \<or> c = CR"
  shows "mc_parseMethod (m @ c # rest) 0 n < length mc_methods \<and>
    mc_methods ! mc_parseMethod (m @ c # rest) 0 n = m"
proof -
  have w: "mc_word m" using mc_method_words assms(1) by (auto simp: list_all_iff)
  note wd = mc_wordD [OF w]
  obtain k where k: "k < length mc_methods" "mc_methods ! k = m" using assms(1) by (auto simp: in_set_conv_nth)
  have "index_until {SP, CR} (m @ c # rest) 0 n = length m"
  proof (rule index_until_hit)
    fix j assume "j < length m"
    then have "at (m @ c # rest) (0 + j) \<in> set m" by (simp add: at_def nth_append)
    with wd(1) show "at (m @ c # rest) (0 + j) \<notin> {SP, CR}" by (auto simp: token_def)
  qed (use assms in auto)
  then have "mc_parseMethod (m @ c # rest) 0 n = first_match mc_methods (m @ c # rest) 0 (length m)"
    by (simp add: mc_parseMethod_def)
  also have "\<dots> = (case List.find (\<lambda>j. take (length m) (mc_methods ! j) = m) [0..<length mc_methods] of None \<Rightarrow> 0 | Some k \<Rightarrow> k)"
    using first_match_word [OF wd(2), of mc_methods "[]" "c # rest"] by simp
  also have "List.find (\<lambda>j. take (length m) (mc_methods ! j) = m) [0..<length mc_methods] = Some k"
    using mc_method_positions k by (auto simp: list_all_iff)
  finally show ?thesis using k by simp
qed

text \<open>Memcached commands are recognised: a line that consists of a command of the table,
  arguments (none or separated by a blank) and CR LF is classified as a request whose head is
  that line, whatever follows it and whatever length is passed, and the request object holds
  the command.\<close>

theorem mc_command_recognised:
  assumes "m \<in> set mc_methods" "m \<noteq> ''none''" "args = [] \<or> hd args = SP" "plain_line args"
    "length (m @ args) + 2 \<le> dataend"
  shows "mc_isRequest (m @ args @ CR # LF # rest) datalen = Some (Some (length (m @ args) + 1)) \<and>
     rq_hdlen (mc_Request junk wild (m @ args @ CR # LF # rest) dataend sq nxt) = int (length (m @ args)) + 2 \<and>
     (\<exists>h. rq_ext (mc_Request junk wild (m @ args @ CR # LF # rest) dataend sq nxt) = Memcached_Req h \<and>
          mc_methods ! mq_methodCode h = m)"
proof -
  define buf where "buf = m @ args @ CR # LF # rest"
  have w: "mc_word m" using mc_method_words assms(1) by (auto simp: list_all_iff)
  have pl: "plain_line (m @ args)"
    using mc_wordD(1) [OF w] assms(4) by (auto simp: token_def plain_line_def)
  have le: "mc_line_end buf = Some (length (m @ args) + 1)"
    using memchr_line [OF pl, of "length buf" "[]" rest] by (simp add: mc_line_end_def buf_def)
  have fe: "find_line_end buf 0 dataend = (length (m @ args) + 1, length (m @ args))"
    using find_line_end_line [OF pl, of "[]" dataend rest] assms(5) by (simp add: buf_def)
  obtain c r where c: "buf = m @ c # r" "c = SP \<or> c = CR"
    using assms(3) by (cases args) (auto simp: buf_def)
  have code: "mc_methods ! mc_parseMethod buf 0 (length (m @ args) + 2) = m"
    using mc_method_known [OF assms(1) _ c(2), of "length (m @ args) + 2" r] c(1) by simp
  then have nz: "mc_parseMethod buf 0 (length (m @ args) + 2) \<noteq> 0"
    using assms(2) mc_methods_0 by metis
  define L where "L = length (m @ args)"
  note eqs = le [folded L_def] fe [folded L_def] code [folded L_def] nz [folded L_def]
  have "mc_isRequest buf datalen = Some (Some (L + 1))"
    using eqs by (simp add: mc_isRequest_def)
  moreover have "rq_hdlen (mc_Request junk wild buf dataend sq nxt) = int L + 2"
    using eqs(2) by (simp add: mc_Request_def Let_def split_beta)
  moreover have "\<exists>h. rq_ext (mc_Request junk wild buf dataend sq nxt) = Memcached_Req h \<and>
          mq_methodCode h = mc_parseMethod buf 0 (L + 2)"
    using eqs(2) by (simp add: mc_Request_def Let_def split_beta)
  ultimately show ?thesis
    unfolding buf_def [symmetric] L_def [symmetric] using eqs(3) by auto
qed

theorem mc_command_recognised_witness:
  "mc_isRequest (''get'' @ '' k'' @ CR # LF # []) 7 = Some (Some 6)"
  using mc_command_recognised [of "''get''" "'' k''" 7 "[]" 7]
  by (simp add: mc_methods_def plain_line_def)

lemma mc_get_keys_line:
  assumes "\<forall>k \<in> set ks. token k" "token k" "length pre + length (concat (map (\<lambda>k. k @ [SP]) ks)) + length k + 1 \<le> eoh"
  shows "mc_get_keys (pre @ concat (map (\<lambda>k. k @ [SP]) ks) @ k @ CR # rest) (length pre) eoh = ks"
  using assms
proof (induction ks arbitrary: pre)
  case Nil
  have "token_end (pre @ k @ CR # rest) (length pre) (eoh - length pre) = length pre + length k"
    using Nil by (intro token_end_word) auto
  then show ?case by (subst mc_get_keys.simps) (simp add: get_token_len_def Let_def)
next
  case (Cons l ks)
  let ?rest = "concat (map (\<lambda>k. k @ [SP]) ks) @ k @ CR # rest"
  obtain r rs where r: "?rest = r # rs" "r \<noteq> SP"
    using Cons.prems(1,2) by (cases ks) (auto simp: token_def Cons_eq_append_conv neq_Nil_conv)
  have "get_token_len (pre @ l @ SP # ?rest) (length pre) eoh = (length l, length pre + length l + 1)"
    using Cons.prems r by (simp only: r(1)) (rule get_token_word, auto simp flip: r(1))
  moreover have "slice (pre @ l @ SP # ?rest) (length pre) (length l) = l"
    using slice_mid by simp
  moreover have "l \<noteq> []" using Cons.prems(1) by (simp add: token_def)
  ultimately have "mc_get_keys (pre @ l @ SP # ?rest) (length pre) eoh =
      l # mc_get_keys (pre @ l @ SP # ?rest) (length pre + length l + 1) eoh"
    by (subst mc_get_keys.simps) simp
  also have "mc_get_keys (pre @ l @ SP # ?rest) (length pre + length l + 1) eoh =
      mc_get_keys ((pre @ l @ [SP]) @ ?rest) (length (pre @ l @ [SP])) eoh" by simp
  also have "\<dots> = ks" using Cons.prems by (intro Cons.IH) auto
  finally show ?case by simp
qed

text \<open>The keys of a \<^verbatim>\<open>get\<close>: the request object holds the command word itself as the first
  key and lacks the last key of the line, which CR follows; the keys between are held in
  order.\<close>

theorem mc_get_keys_shifted:
  assumes "\<forall>k \<in> set ks. token k" "token k"
    "length (''get '' @ concat (map (\<lambda>k. k @ [SP]) ks) @ k) + 2 \<le> dataend"
  shows "\<exists>h. rq_ext (mc_Request junk wild (''get '' @ concat (map (\<lambda>k. k @ [SP]) ks) @ k @ CR # LF # rest) dataend sq nxt)
      = Memcached_Req h \<and> mq_keys h = ''get'' # ks"
proof -
  define buf where "buf = ''get '' @ concat (map (\<lambda>k. k @ [SP]) ks) @ k @ CR # LF # rest"
  define args where "args = SP # concat (map (\<lambda>k. k @ [SP]) ks) @ k"
  have b: "buf = ''get'' @ args @ CR # LF # rest" by (simp add: buf_def args_def)
  have pl: "plain_line (''get'' @ args)"
    using assms(1,2) by (auto simp: plain_line_def args_def token_def)
  define L where "L = length (''get'' @ args)"
  have fe: "find_line_end buf 0 dataend = (L + 1, L)"
    using find_line_end_line [OF pl, of "[]" dataend rest] assms(3) by (simp add: b L_def args_def)
  have g: "''get'' \<in> set mc_methods" by (simp add: mc_methods_def)
  have gn: "''get'' \<noteq> ''none''" by simp
  have code: "mc_methods ! mc_parseMethod buf 0 (L + 2) = ''get''"
    using mc_method_known [OF g, of "L + 2" SP "concat (map (\<lambda>k. k @ [SP]) ks) @ k @ CR # LF # rest"]
    by (simp add: L_def buf_def)
  then have nz: "mc_parseMethod buf 0 (L + 2) \<noteq> 0" using mc_methods_0 gn by metis
  have tg: "\<forall>k \<in> set (''get'' # ks). token k" using assms(1) by (simp add: token_def)
  have "mc_get_keys ([] @ concat (map (\<lambda>k. k @ [SP]) (''get'' # ks)) @ k @ CR # LF # rest) (length ([] :: string)) (L + 1) = ''get'' # ks"
    by (rule mc_get_keys_line [OF tg assms(2)]) (simp add: L_def args_def)
  then have "mc_get_keys buf 0 (L + 1) = ''get'' # ks" by (simp add: buf_def)
  then show ?thesis
    unfolding buf_def [symmetric] using fe code nz by (simp add: mc_Request_def Let_def split_beta)
qed

theorem mc_get_keys_shifted_witness:
  "\<forall>junk wild. \<exists>h. rq_ext (mc_Request junk wild (''get '' @ concat (map (\<lambda>k. k @ [SP]) [''a'']) @ ''b'' @ CR # LF # []) 9 1 2)
      = Memcached_Req h \<and> mq_keys h = [''get'', ''a'']"
  using mc_get_keys_shifted [of "[''a'']" "''b''" 9 _ _ "[]" 1 2] by (simp add: token_def)

definition mc_reply :: "string \<Rightarrow> string \<Rightarrow> string" where
  "mc_reply s args = s @ args @ [CR, LF]"

text \<open>Replies that consist of a status word alone are not recognised: for every status of the
  table, the word followed by CR LF is classified as no response (the lookup only stops at a
  blank), whereas the word followed by a blank is recognised as that status, which is an error
  exactly for the four error words.\<close>

theorem mc_bare_status_unrecognised:
  "\<forall>p \<in> set mc_status.
     mc_isResponse (mc_reply (snd p) []) (length (mc_reply (snd p) [])) = Some None \<and>
     mc_parseStatus (mc_reply (snd p) '' x'') 0 (length (mc_reply (snd p) '' x'')) = fst p \<and>
     (mc_hasErrorStatus (fst p) \<longleftrightarrow> snd p \<in> {''ERROR'', ''CLIENT_ERROR'', ''SERVER_ERROR'', ''BADCLASS''})"
  by code_simp

theorem mc_bare_status_unrecognised_witness:
  "mc_isResponse (mc_reply ''END'' []) (length (mc_reply ''END'' [])) = Some None"
  using bspec [OF mc_bare_status_unrecognised, of "(2, ''END'')"] by (simp add: mc_status_def)

end
