(* ===== verification/MySQL.thy ===== *)
theory MySQL
  imports Messages
begin

unbundle bit_operations_syntax

text \<open>
  \<^verbatim>\<open>mysql.cpp\<close>.  The payload starts with the packet header: a length of three bytes, the sequence
  number and, after the header, the command byte.  The classifiers read the fourth byte without
  a look at the payload's length; \<open>at\<close> yields NUL behind the buffer.
\<close>

definition my_methods :: "string list" where
  "my_methods = [
    ''OTHER'', ''INSERT'', ''SELECT'', ''UPDATE'', ''DELETE'']"

definition my_commands :: "string list" where
  "my_commands = [
    ''NONE'', ''SLEEP'', ''QUIT'', ''INIT_DB'', ''QUERY'', ''FIELD_LIST'', ''CREATE_DB'',
    ''DROP_DB'', ''REFRESH'', ''SHUTDOWN'', ''STATISTICS'', ''PROCESSLIST'', ''CONNECT'',
    ''KILL'', ''DEBUG'', ''PING'', ''TIME'', ''DELAYED_INSERT'', ''CHANGE_USER'', ''PREPARE'',
    ''EXECUTE'', ''LONG_DATA'', ''CLOSE_STMT'', ''RESET_STMT'', ''FETCH'', ''Binlog Dump'',
    ''Table Dump'', ''Connect Out'', ''Register Slave'', ''Set option'']"

text \<open>\<^verbatim>\<open>(unsigned int)\<close> of a (signed) \<^verbatim>\<open>char\<close>.\<close>

definition char_u32 :: "char \<Rightarrow> u32" where
  "char_u32 c = word_of_int (if code c < 128 then int (code c) else int (code c) - 256)"

definition my_isResponse :: "string \<Rightarrow> nat \<Rightarrow> nat option" where
  "my_isResponse buf datalen = (if char_u32 (at buf 3) > 0 then Some 3 else None)"

definition my_isRequest :: "string \<Rightarrow> nat \<Rightarrow> nat option" where
  "my_isRequest buf datalen = (if char_u32 (at buf 3) = 0 then Some 3 else None)"

definition my_parseMethod :: "string \<Rightarrow> nat \<Rightarrow> nat" where
  "my_parseMethod buf data =
     (if strncmp0 buf data ''SELECT'' 6 \<or> strncmp0 buf data ''select'' 6 then 2
      else if strncmp0 buf data ''UPDATE'' 6 \<or> strncmp0 buf data ''update'' 6 then 3
      else if strncmp0 buf data ''INSERT'' 6 \<or> strncmp0 buf data ''insert'' 6 then 1
      else if strncmp0 buf data ''DELETE'' 6 \<or> strncmp0 buf data ''delete'' 6 then 4
      else 0)"

definition my_size :: "string \<Rightarrow> u32" where
  "my_size buf = push_bit 16 (char_u32 (at buf 2)) + push_bit 8 (char_u32 (at buf 1)) + char_u32 (at buf 0)"

definition my_cmd :: "string \<Rightarrow> int" where
  "my_cmd buf = (if code (at buf 4) < 128 then int (code (at buf 4)) else int (code (at buf 4)) - 256)"

text \<open>The header length is left at the 0 of the base class.\<close>

definition my_Request :: "string \<Rightarrow> nat \<Rightarrow> u32 \<Rightarrow> u32 \<Rightarrow> request" where
  "my_Request buf dataend sq nxt =
     \<lparr>rq_time = None, rq_hdlen = 0, rq_processed = False, rq_seq = sq, rq_nxt_seq = nxt,
      rq_ext = MySQL_Req \<lparr>yq_cmd = my_cmd buf, yq_sql_command = my_parseMethod buf 5, yq_size = my_size buf\<rparr>\<rparr>"

definition my_Response :: "string \<Rightarrow> nat \<Rightarrow> u32 \<Rightarrow> response" where
  "my_Response buf dataend ack =
     \<lparr>rs_time = [], rs_size = [], rs_hdlen = 0, rs_processed = False,
      rs_ext = MySQL_Rsp \<lparr>ys_cmd = my_cmd buf, ys_size = my_size buf\<rparr>\<rparr>"

section \<open>Classification and length\<close>

lemma char_u32_0: "char_u32 c = 0 \<longleftrightarrow> c = NUL"
proof -
  have lt: "code c < 256" by (simp add: code_def)
  have "char_u32 c = (if code c < 128 then of_nat (code c) else - of_nat (256 - code c))"
    using lt by (simp add: char_u32_def of_nat_diff)
  moreover have "(of_nat k :: u32) = 0 \<longleftrightarrow> k = 0" if "k < 256" for k :: nat
    using that by (auto simp: word_of_nat_eq_0_iff dest: dvd_imp_le)
  ultimately have "char_u32 c = 0 \<longleftrightarrow> (if code c < 128 then code c = 0 else 256 - code c = 0)"
  proof (cases "code c < 128")
    case False
    then have "256 - code c < 256" using lt by linarith
    with \<open>\<And>k. k < 256 \<Longrightarrow> (of_nat k :: u32) = 0 \<longleftrightarrow> k = 0\<close>
    have "(of_nat (256 - code c) :: u32) = 0 \<longleftrightarrow> 256 - code c = 0" by blast
    with False \<open>char_u32 c = (if code c < 128 then of_nat (code c) else - of_nat (256 - code c))\<close>
    show ?thesis by (simp only: if_False neg_equal_0_iff_equal)
  qed simp
  then have "char_u32 c = 0 \<longleftrightarrow> code c = 0" using lt by auto
  also have "\<dots> \<longleftrightarrow> code c = code NUL" by (simp add: code_def)
  finally show ?thesis by (simp only: code_eq_iff)
qed

text \<open>Every MySQL payload is a message head, and of exactly one kind: it is a request if its
  sequence byte is zero and a response otherwise.\<close>

theorem my_classification:
  "(my_isRequest buf n \<noteq> None \<longleftrightarrow> at buf 3 = NUL) \<and> (my_isResponse buf n = None \<longleftrightarrow> my_isRequest buf n \<noteq> None)"
  by (auto simp: my_isRequest_def my_isResponse_def char_u32_0 word_neq_0_conv [symmetric] simp del: word_neq_0_conv)

lemma size_bytes:
  fixes a b c :: int
  assumes "0 \<le> a" "a < 256" "0 \<le> b" "b < 256" "0 \<le> c" "c < 256"
  defines "s x \<equiv> if x < 128 then x else x - 256"
  shows "(word_of_int (65536 * s c + 256 * s b + s a) :: u32) = word_of_int (65536 * c + 256 * b + a) \<longleftrightarrow>
     a < 128 \<and> b < 128 \<and> c < 128"
proof -
  let ?d = "(65536 * c + 256 * b + a) - (65536 * s c + 256 * s b + s a)"
  have d: "?d = (if c < 128 then 0 else 16777216) + (if b < 128 then 0 else 65536) + (if a < 128 then 0 else 256)"
    by (simp add: s_def)
  have "(word_of_int (65536 * s c + 256 * s b + s a) :: u32) = word_of_int (65536 * c + 256 * b + a) \<longleftrightarrow>
      (word_of_int ?d :: u32) = 0"
    by (simp only: wi_hom_sub [symmetric] right_minus_eq) (rule eq_commute)
  also have "\<dots> \<longleftrightarrow> (2 ^ 32 :: int) dvd ?d" unfolding word_of_int_eq_0_iff by simp
  also have "\<dots> \<longleftrightarrow> ?d = 0"
    unfolding d by (auto dest!: zdvd_imp_le)
  also have "\<dots> \<longleftrightarrow> a < 128 \<and> b < 128 \<and> c < 128" unfolding d by auto
  finally show ?thesis .
qed

text \<open>The payload length is read correctly exactly when each of its three bytes is below
  128: the bytes are signed characters, and one above 127 makes the conversion borrow from the
  bytes above it.\<close>

theorem my_size_correct_iff:
  "my_size buf = of_nat (65536 * code (at buf 2) + 256 * code (at buf 1) + code (at buf 0)) \<longleftrightarrow>
     code (at buf 0) < 128 \<and> code (at buf 1) < 128 \<and> code (at buf 2) < 128"
proof -
  let ?s = "\<lambda>x :: int. if x < 128 then x else x - 256"
  have lt: "code c < 256" for c by (simp add: code_def)
  have c: "char_u32 c = word_of_int (?s (int (code c)))" for c by (simp add: char_u32_def)
  have "my_size buf = word_of_int (65536 * ?s (int (code (at buf 2))) + 256 * ?s (int (code (at buf 1))) + ?s (int (code (at buf 0))))"
    unfolding my_size_def c push_bit_eq_mult by (simp add: mult.commute)
  moreover have "(of_nat (65536 * code (at buf 2) + 256 * code (at buf 1) + code (at buf 0)) :: u32) =
      word_of_int (65536 * int (code (at buf 2)) + 256 * int (code (at buf 1)) + int (code (at buf 0)))"
    by simp
  ultimately show ?thesis
    using size_bytes [of "int (code (at buf 0))" "int (code (at buf 1))" "int (code (at buf 2))"] lt
    by (simp only: of_nat_less_numeral_iff of_nat_0_le_iff of_nat_less_iff)
qed

end
