(* ===== verification/Pairs.thy ===== *)
theory Pairs
  imports Flow Messages
begin

unbundle bit_operations_syntax

text \<open>
  \<^verbatim>\<open>Pair\<close> (\<^verbatim>\<open>protocol.hpp\<close>) and \<^verbatim>\<open>Protocol::extractPair\<close> (\<^verbatim>\<open>protocol.cpp\<close>): scanning the ordered
  sequence records of a flow for new requests, and for the responses that answer them.  The
  virtual methods of a protocol are the record \<open>proto\<close>; the sequence lists and the pair chain
  are lists, the loop variables \<^verbatim>\<open>tmp\<close> and \<^verbatim>\<open>found_pair\<close> are positions in the pair chain.  A
  scan is \<^term>\<open>None\<close> where the code dereferences NULL or overruns one of the text buffers of
  256 bytes of a response.
\<close>

record pair =
  request_header :: "request option"
  response_header :: "response option"
  req_fb_sec :: int
  req_fb_usec :: int
  req_lb_sec :: int
  req_lb_usec :: int
  rsp_fb_sec :: int
  rsp_fb_usec :: int
  rsp_lb_sec :: int
  rsp_lb_usec :: int
  req_total_len :: u32
  rsp_total_len :: u32
  req_body_len :: u32
  rsp_body_len :: u32

definition Pair_new :: pair where
  "Pair_new = \<lparr>request_header = None, response_header = None, req_fb_sec = 0, req_fb_usec = 0,
     req_lb_sec = 0, req_lb_usec = 0, rsp_fb_sec = 0, rsp_fb_usec = 0, rsp_lb_sec = 0,
     rsp_lb_usec = 0, req_total_len = 0, rsp_total_len = 0, req_body_len = 0, rsp_body_len = 0\<rparr>"

definition addRequest :: "request \<Rightarrow> pair \<Rightarrow> int \<times> pair" where
  "addRequest req p =
     (if request_header p = None then (0, p\<lparr>request_header := Some req\<rparr>) else (1, p))"

definition addResponse :: "response \<Rightarrow> pair \<Rightarrow> int \<times> pair" where
  "addResponse rsp p =
     (if response_header p = None then (0, p\<lparr>response_header := Some rsp\<rparr>) else (1, p))"

text \<open>The virtual methods.  The outer \<^typ>\<open>'a option\<close> of the classifiers is \<^term>\<open>None\<close> when they
  read past the payload, the inner one is the returned pointer.\<close>

record proto =
  p_isRequest :: "string \<Rightarrow> nat \<Rightarrow> nat option option"
  p_isResponse :: "string \<Rightarrow> nat \<Rightarrow> nat option option"
  p_getRequest :: "string \<Rightarrow> nat \<Rightarrow> u32 \<Rightarrow> u32 \<Rightarrow> request option"
  p_getResponse :: "string \<Rightarrow> nat \<Rightarrow> u32 \<Rightarrow> response option"

type_synonym pflow = "pair flow"

section \<open>The FIN sequences\<close>

text \<open>\<^verbatim>\<open>seq->th_flags & TH_FIN == TH_FIN\<close> is \<^verbatim>\<open>seq->th_flags & 1\<close>.\<close>

definition has_fin :: "seq_t \<Rightarrow> bool" where
  "has_fin s \<longleftrightarrow> sq_flags s AND 1 \<noteq> 0"

fun fin_index :: "nat \<Rightarrow> seq_t list \<Rightarrow> (nat \<times> seq_t) option" where
  "fin_index i [] = None"
| "fin_index i (s # ss) = (if has_fin s then Some (i, s) else fin_index (Suc i) ss)"

text \<open>The first loop also sets the flow's first byte time, up to and including the FIN.\<close>

fun first_byte :: "seq_t list \<Rightarrow> pflow \<Rightarrow> pflow" where
  "first_byte [] f = f"
| "first_byte (s # ss) f =
     (if sq_pkt s \<noteq> None \<and> \<not> f_init f then f\<lparr>fb_sec := sq_sec s, fb_usec := sq_usec s, f_init := True\<rparr>
      else if has_fin s then f else first_byte ss f)"

text \<open>The FIN that counts: its direction (\<^term>\<open>True\<close> for the source), position and record.\<close>

definition fin_seq :: "pflow \<Rightarrow> (bool \<times> nat \<times> seq_t) option" where
  "fin_seq f =
     (case (fin_index 0 (o_src (f_order f)), fin_index 0 (o_dst (f_order f))) of
        (Some (i, s), None) \<Rightarrow> Some (True, i, s)
      | (None, Some (i, s)) \<Rightarrow> Some (False, i, s)
      | (Some (i, s), Some (j, t)) \<Rightarrow>
          if compare_sequence_time s t = 1 then Some (False, j, t) else Some (True, i, s)
      | (None, None) \<Rightarrow> None)"

definition reaches_fin :: "(bool \<times> nat \<times> seq_t) option \<Rightarrow> seq_t \<Rightarrow> bool" where
  "reaches_fin fin s = (case fin of None \<Rightarrow> False | Some (_, _, f) \<Rightarrow> \<not> compare_sequence_time s f < 0)"

definition is_fin_at :: "(bool \<times> nat \<times> seq_t) option \<Rightarrow> bool \<Rightarrow> nat \<Rightarrow> bool" where
  "is_fin_at fin src i = (case fin of None \<Rightarrow> False | Some (d, j, _) \<Rightarrow> d = src \<and> i = j)"

definition update_lb :: "seq_t \<Rightarrow> pflow \<Rightarrow> pflow" where
  "update_lb s f =
     (if sq_sec s > lb_sec f \<or> (sq_sec s = lb_sec f \<and> sq_usec s > lb_usec f)
      then f\<lparr>lb_sec := sq_sec s, lb_usec := sq_usec s\<rparr> else f)"

definition upd_last :: "('a \<Rightarrow> 'a) \<Rightarrow> 'a list \<Rightarrow> 'a list" where
  "upd_last g xs = (if xs = [] then [] else butlast xs @ [g (last xs)])"

section \<open>Finding requests\<close>

text \<open>The loop state: the records already passed, the flow (its pairs and times), the start of
  the current request (\<^verbatim>\<open>first_seq->seq\<close>, \<^term>\<open>None\<close> while \<^verbatim>\<open>new_pair\<close> is NULL) and \<^verbatim>\<open>reqn\<close>.\<close>

record req_scan =
  q_done :: "seq_t list"
  q_flow :: pflow
  q_first :: "u32 option"
  q_n :: nat

text \<open>Is the record the last one of the current request?  With a FIN, no next record and an open
  flow, the code compares the time of a NULL record.\<close>

definition req_ends :: "(bool \<times> nat \<times> seq_t) option \<Rightarrow> bool \<Rightarrow> nat \<Rightarrow> seq_t list \<Rightarrow> bool option" where
  "req_ends fin closed i ss =
     (case ss of
        [] \<Rightarrow> if closed then Some True else if fin = None then Some False else None
      | n # _ \<Rightarrow> Some (is_fin_at fin True (Suc i) \<or> sq_pkt n \<noteq> None \<or> reaches_fin fin n))"

definition req_finish :: "seq_t \<Rightarrow> req_scan \<Rightarrow> req_scan" where
  "req_finish s st =
     st\<lparr>q_flow := update_lb s
          (if sq_nxt s \<noteq> 0
           then (q_flow st)\<lparr>f_pairs := upd_last (\<lambda>p. p\<lparr>req_total_len := sq_nxt s - the (q_first st),
                                                    req_body_len := 0\<rparr>) (f_pairs (q_flow st))\<rparr>
           else q_flow st)\<rparr>"

definition req_pair :: "seq_t \<Rightarrow> request \<Rightarrow> pair" where
  "req_pair s req = snd (addRequest req (Pair_new\<lparr>req_fb_sec := sq_sec s, req_fb_usec := sq_usec s,
     req_lb_sec := sq_sec s, req_lb_usec := sq_usec s\<rparr>))"

definition is_new :: "u8 \<Rightarrow> seq_t \<Rightarrow> bool" where
  "is_new ty s = (case sq_pkt s of None \<Rightarrow> False | Some p \<Rightarrow> ptype p = ty \<and> \<not> sq_processed s)"

definition parse_request :: "proto \<Rightarrow> seq_t \<Rightarrow> request option" where
  "parse_request P s = do {
     p \<leftarrow> sq_pkt s;
     buf \<leftarrow> tcp_odata p;
     p_getRequest P buf (unat (tcp_dl p)) (tcp_seq p) (tcp_seq p + ucast (tcp_dl p))
   }"

definition parse_response :: "proto \<Rightarrow> seq_t \<Rightarrow> response option" where
  "parse_response P s = do {
     p \<leftarrow> sq_pkt s;
     buf \<leftarrow> tcp_odata p;
     p_getResponse P buf (unat (tcp_dl p)) (tcp_ack p)
   }"

fun req_loop :: "proto \<Rightarrow> (bool \<times> nat \<times> seq_t) option \<Rightarrow> bool \<Rightarrow> nat \<Rightarrow> seq_t list \<Rightarrow> req_scan \<Rightarrow> req_scan option" where
  "req_loop P fin closed i [] st = Some st"
| "req_loop P fin closed i (s # ss) st =
     (if reaches_fin fin s then Some (st\<lparr>q_done := q_done st @ s # ss\<rparr>)
      else if is_new REQ s then do {
        req \<leftarrow> parse_request P s;
        e \<leftarrow> req_ends fin closed i ss;
        let st = st\<lparr>q_done := q_done st @ [s\<lparr>sq_processed := True\<rparr>],
                    q_flow := add_pair (req_pair s req) (q_flow st),
                    q_first := Some (sq_seq s), q_n := Suc (q_n st)\<rparr>;
        req_loop P fin closed (Suc i) ss (if e then req_finish s st else st)
      }
      else if q_first st = None \<or> sq_processed s
      then req_loop P fin closed (Suc i) ss (st\<lparr>q_done := q_done st @ [s]\<rparr>)
      else do {
        e \<leftarrow> req_ends fin closed i ss;
        let st = st\<lparr>q_done := q_done st @ [s]\<rparr>;
        req_loop P fin closed (Suc i) ss (if e then req_finish s st else st)
      })"

section \<open>Finding responses\<close>

text \<open>\<^verbatim>\<open>tmp\<close> moves on to the first pair without response whose request ends at \<open>ack\<close>, and stops
  at the first request that ends behind it.\<close>

fun rsp_search :: "pair list \<Rightarrow> u32 \<Rightarrow> nat \<Rightarrow> (nat \<times> bool) option" where
  "rsp_search [] ack tmp = Some (tmp, False)"
| "rsp_search (p # ps) ack tmp = do {
     r \<leftarrow> request_header p;
     (if rq_nxt_seq r \<le> ack then
        (if response_header p = None \<and> rq_nxt_seq r = ack then Some (tmp, True)
         else rsp_search ps ack (Suc tmp))
      else Some (tmp, False))
   }"

record rsp_scan =
  s_done :: "seq_t list"
  s_flow :: pflow
  s_tmp :: nat
  s_found :: "(nat \<times> u32) option"    \<comment> \<open>found_pair and first_seq->seq\<close>
  s_first :: bool                     \<comment> \<open>first_packet\<close>
  s_n :: nat

text \<open>\<^verbatim>\<open>strcat\<close> into a buffer of 256 bytes.\<close>

definition strcat256 :: "string \<Rightarrow> string \<Rightarrow> string option" where
  "strcat256 a b = (if length a + length b < 256 then Some (a @ b) else None)"

definition rsp_ends :: "(bool \<times> nat \<times> seq_t) option \<Rightarrow> nat \<Rightarrow> seq_t list \<Rightarrow> bool" where
  "rsp_ends fin i ss =
     (case ss of [] \<Rightarrow> True
      | n # _ \<Rightarrow> is_fin_at fin False (Suc i) \<or> sq_pkt n \<noteq> None \<or> reaches_fin fin n)"

definition rsp_text :: "bool \<Rightarrow> seq_t \<Rightarrow> response \<Rightarrow> response option" where
  "rsp_text first s r = do {
     t \<leftarrow> strcat256 (rs_time r) (CHR '','' # show_int (sq_usec s));
     z \<leftarrow> strcat256 (rs_size r) ((if first then [] else '','') @ show_int (sint (sq_size s)));
     Some (r\<lparr>rs_time := t, rs_size := z\<rparr>)
   }"

definition rsp_finish :: "seq_t \<Rightarrow> u32 \<Rightarrow> pair \<Rightarrow> pair" where
  "rsp_finish s first p =
     (let p = p\<lparr>rsp_lb_sec := sq_sec s, rsp_lb_usec := sq_usec s\<rparr>
      in if sq_nxt s \<noteq> 0
         then p\<lparr>rsp_total_len := sq_nxt s - first,
                rsp_body_len := (sq_nxt s - first) - of_int (case response_header p of None \<Rightarrow> 0 | Some r \<Rightarrow> rs_hdlen r)\<rparr>
         else p)"

text \<open>The part common to both loops, after the response object of a new response is in place.\<close>

definition rsp_account :: "(bool \<times> nat \<times> seq_t) option \<Rightarrow> nat \<Rightarrow> seq_t \<Rightarrow> seq_t list \<Rightarrow> rsp_scan \<Rightarrow> rsp_scan option" where
  "rsp_account fin i s ss st =
     (case s_found st of
        None \<Rightarrow> Some st
      | Some (k, first) \<Rightarrow> do {
          r \<leftarrow> response_header (f_pairs (s_flow st) ! k);
          r \<leftarrow> rsp_text (s_first st) s r;
          let p = (f_pairs (s_flow st) ! k)\<lparr>response_header := Some r\<rparr>;
          Some (st\<lparr>s_first := False, s_flow :=
            (if rsp_ends fin i ss
             then update_lb s ((s_flow st)\<lparr>f_pairs := (f_pairs (s_flow st))[k := rsp_finish s first p]\<rparr>)
             else (s_flow st)\<lparr>f_pairs := (f_pairs (s_flow st))[k := p]\<rparr>)\<rparr>)
        })"

text \<open>A new response: \<^term>\<open>Inl\<close> is the early \<^verbatim>\<open>return 1\<close>.\<close>

definition rsp_start :: "proto \<Rightarrow> seq_t \<Rightarrow> rsp_scan \<Rightarrow> (rsp_scan + rsp_scan) option" where
  "rsp_start P s st = do {
     pkt \<leftarrow> sq_pkt s;
     (tmp, found) \<leftarrow> rsp_search (drop (s_tmp st) (f_pairs (s_flow st))) (tcp_ack pkt) (s_tmp st);
     let st = st\<lparr>s_tmp := tmp, s_n := Suc (s_n st)\<rparr>;
     (if tmp = length (f_pairs (s_flow st)) then Some (Inl st)
      else if found then do {
        rsp \<leftarrow> parse_response P s;
        let p = (f_pairs (s_flow st) ! tmp)\<lparr>rsp_fb_sec := sq_sec s, rsp_fb_usec := sq_usec s\<rparr>;
        Some (Inr (st\<lparr>s_flow := (s_flow st)\<lparr>f_pairs := (f_pairs (s_flow st))[tmp := snd (addResponse rsp p)]\<rparr>,
                       s_found := Some (tmp, sq_seq s), s_first := True\<rparr>))
      } else Some (Inr st))
   }"

fun rsp_loop :: "proto \<Rightarrow> (bool \<times> nat \<times> seq_t) option \<Rightarrow> nat \<Rightarrow> seq_t list \<Rightarrow> rsp_scan \<Rightarrow> (int \<times> rsp_scan) option" where
  "rsp_loop P fin i [] st = Some (0, st)"
| "rsp_loop P fin i (s # ss) st =
     (if reaches_fin fin s then Some (0, st\<lparr>s_done := s_done st @ s # ss\<rparr>)
      else if is_new RSP s then do {
        let s' = s\<lparr>sq_processed := True\<rparr>;
        r \<leftarrow> rsp_start P s st;
        (case r of
           Inl st \<Rightarrow> Some (1, st\<lparr>s_done := s_done st @ s' # ss\<rparr>)
         | Inr st \<Rightarrow> do {
             st \<leftarrow> rsp_account fin i s ss (st\<lparr>s_done := s_done st @ [s']\<rparr>);
             rsp_loop P fin (Suc i) ss st
           })
      }
      else if s_found st = None \<or> sq_processed s
      then rsp_loop P fin (Suc i) ss (st\<lparr>s_done := s_done st @ [s]\<rparr>)
      else do {
        st \<leftarrow> rsp_account fin i s ss (st\<lparr>s_done := s_done st @ [s]\<rparr>);
        rsp_loop P fin (Suc i) ss st
      })"

section \<open>extractPair\<close>

definition extractPair :: "proto \<Rightarrow> pflow \<Rightarrow> bool \<Rightarrow> (int \<times> pflow) option" where
  "extractPair P flow closed = do {
     let f = first_byte (o_src (f_order flow)) flow;
     let fin = fin_seq f;
     q \<leftarrow> req_loop P fin closed 0 (o_src (f_order f))
            \<lparr>q_done = [], q_flow = f, q_first = None, q_n = 0\<rparr>;
     let f = (q_flow q)\<lparr>f_order := (f_order (q_flow q))\<lparr>o_src := q_done q\<rparr>\<rparr>;
     (if q_n q = 0 then Some (1, f)
      else do {
        (r, s) \<leftarrow> rsp_loop P fin 0 (o_dst (f_order f))
                   \<lparr>s_done = [], s_flow = f, s_tmp = 0, s_found = None, s_first = False, s_n = 0\<rparr>;
        Some (r, (s_flow s)\<lparr>f_order := (f_order (s_flow s))\<lparr>o_dst := s_done s\<rparr>\<rparr>)
      })
   }"

end
