(* ===== verification/Protocols.thy ===== *)
theory Protocols
  imports Http Memcached MySQL Pairs
begin

text \<open>
  The virtual methods of the three protocols as instances of the record \<^typ>\<open>proto\<close>, and the
  interface \<open>protocol\<close> that the rest of the program relies on: a payload that was classified as a
  request or response can be parsed from the copy that is kept of it.  The arguments \<open>hq\<close>, \<open>hs\<close>, ...
  are what the allocator left in the fields that the constructors do not set.
\<close>

text \<open>The classifiers get a pointer into the captured frame: they are \<^term>\<open>None\<close> when the claimed
  payload length exceeds what the frame holds (\<^verbatim>\<open>http.cpp\<close>), or the fourth byte lies behind it
  (\<^verbatim>\<open>mysql.cpp\<close>).  The constructors get the copy of the payload, which has a NUL behind it;
  those of \<^verbatim>\<open>mysql.cpp\<close> read the bytes at 4 and 5 whatever its length.\<close>

definition http_proto :: "http_req \<Rightarrow> http_rsp \<Rightarrow> proto" where
  "http_proto hq hs =
     \<lparr>p_isRequest = \<lambda>buf n. if n \<le> length buf then Some (http_isRequest buf n) else None,
      p_isResponse = \<lambda>buf n. if n \<le> length buf then Some (http_isResponse buf n) else None,
      p_getRequest = http_Request hq,
      p_getResponse = http_Response hs\<rparr>"

definition mc_proto :: "mc_req \<Rightarrow> mc_rsp \<Rightarrow> u32 \<Rightarrow> u8 \<Rightarrow> proto" where
  "mc_proto mq ms wild wild8 =
     \<lparr>p_isRequest = mc_isRequest,
      p_isResponse = mc_isResponse,
      p_getRequest = \<lambda>buf n sq nxt. Some (mc_Request mq wild buf n sq nxt),
      p_getResponse = \<lambda>buf n ack. Some (mc_Response ms wild wild8 buf n ack)\<rparr>"

definition my_proto :: proto where
  "my_proto =
     \<lparr>p_isRequest = \<lambda>buf n. if 3 < length buf then Some (my_isRequest buf n) else None,
      p_isResponse = \<lambda>buf n. if 3 < length buf then Some (my_isResponse buf n) else None,
      p_getRequest = \<lambda>buf n sq nxt. if 5 \<le> length buf then Some (my_Request buf n sq nxt) else None,
      p_getResponse = \<lambda>buf n ack. if 4 \<le> length buf then Some (my_Response buf n ack) else None\<rparr>"

section \<open>The interface\<close>

locale protocol =
  fixes isRequest isResponse :: "string \<Rightarrow> nat \<Rightarrow> nat option option"
    and getRequest :: "string \<Rightarrow> nat \<Rightarrow> u32 \<Rightarrow> u32 \<Rightarrow> request option"
    and getResponse :: "string \<Rightarrow> nat \<Rightarrow> u32 \<Rightarrow> response option"
    and min_len :: nat
  assumes request_parses:
    "isRequest buf n = Some (Some k) \<Longrightarrow> 0 < n \<Longrightarrow> n \<le> m \<Longrightarrow> m \<le> length buf \<Longrightarrow> min_len \<le> m \<Longrightarrow>
       \<exists>r. getRequest (take m buf) m sq nxt = Some r \<and> rq_seq r = sq \<and> rq_nxt_seq r = nxt \<and> \<not> rq_processed r"
    and response_parses:
    "isResponse buf n = Some (Some k) \<Longrightarrow> 0 < n \<Longrightarrow> n \<le> m \<Longrightarrow> m \<le> length buf \<Longrightarrow> min_len \<le> m \<Longrightarrow>
       \<exists>r. getResponse (take m buf) m ack = Some r \<and> rs_time r = [] \<and> rs_size r = [] \<and> \<not> rs_processed r"

lemma memchr_extend:
  assumes "memchr buf c i n = Some k" "\<And>j. j < i + n \<Longrightarrow> at buf' j = at buf j" "n \<le> n'"
  shows "memchr buf' c i n' = Some k"
  using assms by (auto simp: memchr_Some)

lemma header_scan_extend:
  assumes "header_scan buf lf dataend cnt = (Some k, c)" "\<And>j. j \<le> dataend \<Longrightarrow> at buf' j = at buf j"
    "dataend \<le> dataend'"
  shows "header_scan buf' lf dataend' cnt = (Some k, c)"
  using assms
proof (induction buf lf dataend cnt rule: header_scan.induct)
  case (1 buf lf dataend cnt)
  obtain m where m: "memchr buf LF lf (Suc dataend - lf) = Some m"
    using "1.prems"(1) by (subst (asm) header_scan.simps) (auto split: option.splits)
  then have "lf \<le> dataend" using memchr_bound by fastforce
  then have m': "memchr buf' LF lf (Suc dataend' - lf) = Some m"
    using memchr_extend [OF m] "1.prems"(2,3) by simp
  show ?case
  proof (cases "m - lf < 2")
    case True
    with m m' "1.prems"(1) show ?thesis by (simp add: header_scan.simps [of buf'] header_scan.simps [of buf lf])
  next
    case False
    then have "header_scan buf (Suc m) dataend (cnt + 1) = (Some k, c)"
      using m "1.prems"(1) by (subst (asm) header_scan.simps) simp
    from "1.IH" [OF m False this "1.prems"(2,3)] False m' show ?thesis
      by (simp add: header_scan.simps [of buf' lf])
  qed
qed

lemma find_header_end_extend:
  assumes "fst (find_header_end buf 0 dataend 0) = Some k" "\<And>j. j \<le> dataend \<Longrightarrow> at buf' j = at buf j"
    "dataend \<le> dataend'"
  shows "fst (find_header_end buf' 0 dataend' 0) = Some k"
proof -
  obtain m where m: "memchr buf LF 0 (Suc dataend) = Some m"
    using assms(1) by (auto simp: find_header_end_def split: option.splits)
  then have "memchr buf' LF 0 (Suc dataend') = Some m"
    using memchr_extend [OF m, of buf' "Suc dataend'"] assms(2,3) by (simp del: memchr.simps)
  with m assms(1) header_scan_extend [OF _ assms(2,3)] show ?thesis
    by (simp add: find_header_end_def del: memchr.simps) (metis fst_conv prod.exhaust_sel)
qed

lemma at_take: "j < m \<Longrightarrow> m \<le> length buf \<Longrightarrow> at (take m buf) j = at buf j"
  by (simp add: at_def)

lemma stored_header:
  assumes "fst (find_header_end buf 0 (n - 1) 0) = Some k" "0 < n" "n \<le> m" "m \<le> length buf"
  shows "fst (find_header_end (take m buf) 0 m 0) = Some k"
  by (rule find_header_end_extend [OF assms(1)]) (use assms at_take in auto)

interpretation http: protocol "p_isRequest (http_proto hq hs)" "p_isResponse (http_proto hq hs)"
  "p_getRequest (http_proto hq hs)" "p_getResponse (http_proto hq hs)" 0
proof unfold_locales
  fix buf n k m sq nxt
  assume a: "p_isRequest (http_proto hq hs) buf n = Some (Some k)" "0 < n" "n \<le> m" "m \<le> length buf"
  then have "fst (find_header_end buf 0 (n - 1) 0) = Some k"
    by (auto simp: http_proto_def http_isRequest_def split: if_splits)
  from stored_header [OF this a(2-4)]
  show "\<exists>r. p_getRequest (http_proto hq hs) (take m buf) m sq nxt = Some r \<and> rq_seq r = sq \<and>
      rq_nxt_seq r = nxt \<and> \<not> rq_processed r"
    by (simp add: http_proto_def http_Request_def Let_def)
next
  fix buf n k m ack
  assume a: "p_isResponse (http_proto hq hs) buf n = Some (Some k)" "0 < n" "n \<le> m" "m \<le> length buf"
  then have "fst (find_header_end buf 0 (n - 1) 0) = Some k"
    by (auto simp: http_proto_def http_isResponse_def split: if_splits)
  from stored_header [OF this a(2-4)]
  show "\<exists>r. p_getResponse (http_proto hq hs) (take m buf) m ack = Some r \<and> rs_time r = [] \<and>
      rs_size r = [] \<and> \<not> rs_processed r"
    by (simp add: http_proto_def http_Response_def Let_def)
qed

interpretation memcached: protocol "p_isRequest (mc_proto mq ms wild wild8)" "p_isResponse (mc_proto mq ms wild wild8)"
  "p_getRequest (mc_proto mq ms wild wild8)" "p_getResponse (mc_proto mq ms wild wild8)" 0
  by unfold_locales (auto simp: mc_proto_def mc_Request_def mc_Response_def Let_def split_beta)

interpretation mysql: protocol "p_isRequest my_proto" "p_isResponse my_proto" "p_getRequest my_proto"
  "p_getResponse my_proto" 5
  by unfold_locales (auto simp: my_proto_def my_Request_def my_Response_def)

end
