(* ===== verification/Pairing.thy ===== *)
theory Pairing
  imports Protocols
begin

text \<open>
  What \<^verbatim>\<open>extractPair\<close> guarantees.  For every flow: which requests it appends to the pair chain,
  and which responses it attaches to which pairs.  For a closed flow that holds a complete
  conversation of messages that may span several segments: the i-th response is attached to
  the i-th request, with the lengths, times and texts of the whole message.
\<close>

lemmas scan_defs = req_finish_def update_lb_def add_pair_def upd_last_def

section \<open>Which requests are appended\<close>

text \<open>The records a scan visits, and the marks it leaves on them.\<close>

definition visited :: "(bool \<times> nat \<times> seq_t) option \<Rightarrow> seq_t list \<Rightarrow> seq_t list" where
  "visited fin ss = takeWhile (\<lambda>s. \<not> reaches_fin fin s) ss"

definition mark :: "u8 \<Rightarrow> seq_t \<Rightarrow> seq_t" where
  "mark ty s = (if is_new ty s then s\<lparr>sq_processed := True\<rparr> else s)"

lemma visited_simps [simp]:
  "visited fin [] = []"
  "visited fin (s # ss) = (if reaches_fin fin s then [] else s # visited fin ss)"
  by (simp_all add: visited_def)

lemma request_header_req_pair [simp]:
  "request_header (req_pair s req) = Some req" "response_header (req_pair s req) = None"
  by (simp_all add: req_pair_def addRequest_def Pair_new_def)

lemma map_upd_last: "(\<And>x. h (g x) = h x) \<Longrightarrow> map h (upd_last g xs) = map h xs"
  by (simp add: upd_last_def) (metis append_butlast_last_id list.simps(8,9) map_append)

lemma req_finish_frame:
  "map request_header (f_pairs (q_flow (req_finish s st))) = map request_header (f_pairs (q_flow st))"
  "map response_header (f_pairs (q_flow (req_finish s st))) = map response_header (f_pairs (q_flow st))"
  "f_order (q_flow (req_finish s st)) = f_order (q_flow st)"
  "q_done (req_finish s st) = q_done st" "q_n (req_finish s st) = q_n st"
  "q_first (req_finish s st) = q_first st"
  by (simp_all add: req_finish_def update_lb_def map_upd_last)

lemma req_loop_frame:
  assumes "req_loop P fin closed i ss st = Some st'"
  shows "map request_header (f_pairs (q_flow st')) = map request_header (f_pairs (q_flow st)) @
           map (parse_request P) (filter (is_new REQ) (visited fin ss)) \<and>
         map response_header (f_pairs (q_flow st')) = map response_header (f_pairs (q_flow st)) @
           replicate (length (filter (is_new REQ) (visited fin ss))) None \<and>
         q_n st' = q_n st + length (filter (is_new REQ) (visited fin ss)) \<and>
         q_done st' = q_done st @ map (mark REQ) (visited fin ss) @ drop (length (visited fin ss)) ss \<and>
         f_order (q_flow st') = f_order (q_flow st)"
  using assms
proof (induction P fin closed i ss st rule: req_loop.induct)
  case (1 P fin closed i st)
  then show ?case by simp
next
  case (2 P fin closed i s ss st)
  consider "reaches_fin fin s" | "\<not> reaches_fin fin s" "is_new REQ s"
    | "\<not> reaches_fin fin s" "\<not> is_new REQ s" "q_first st = None \<or> sq_processed s"
    | "\<not> reaches_fin fin s" "\<not> is_new REQ s" "\<not> (q_first st = None \<or> sq_processed s)"
    by blast
  then show ?case
  proof cases
    case 1
    with "2.prems" show ?thesis by auto
  next
    case 2
    then obtain req e where pr: "parse_request P s = Some req" and e: "req_ends fin closed i ss = Some e"
      using "2.prems" by (auto split: bind_splits)
    show ?thesis
      using "2.IH"(1) [OF 2 pr e refl] 2 pr e "2.prems"
      by (cases e; clarsimp simp: req_finish_frame mark_def add_pair_def Let_def)
  next
    case 3
    show ?thesis using "2.IH"(2) [OF 3] 3 "2.prems" by (auto simp: mark_def)
  next
    case 4
    then obtain e where e: "req_ends fin closed i ss = Some e"
      using "2.prems" by (auto split: bind_splits)
    show ?thesis
      using "2.IH"(3) [OF 4 e refl] 4 e "2.prems"
      by (cases e; clarsimp simp: req_finish_frame mark_def Let_def)
  qed
qed

section \<open>Which responses are attached\<close>

text \<open>The record \<open>s\<close> answers the request of the pair \<open>p\<close>: it is a new response whose
  acknowledgement number is the end of the request, and the response object in place was parsed from it
  (its texts of times and sizes may have grown since).\<close>

definition same_response :: "response \<Rightarrow> response \<Rightarrow> bool" where
  "same_response a b \<longleftrightarrow> rs_ext a = rs_ext b \<and> rs_hdlen a = rs_hdlen b \<and> rs_processed a = rs_processed b"

definition answers :: "proto \<Rightarrow> pair \<Rightarrow> seq_t \<Rightarrow> bool" where
  "answers P p s \<longleftrightarrow>
     (\<exists>req rsp rsp' pkt. request_header p = Some req \<and> response_header p = Some rsp \<and>
        sq_pkt s = Some pkt \<and> tcp_ack pkt = rq_nxt_seq req \<and>
        parse_response P s = Some rsp' \<and> same_response rsp rsp')"

lemma rsp_search_found:
  "rsp_search ps ack t = Some (k, f) \<Longrightarrow>
     t \<le> k \<and> k \<le> t + length ps \<and>
     (f \<longrightarrow> k < t + length ps \<and> response_header (ps ! (k - t)) = None \<and>
        (\<exists>req. request_header (ps ! (k - t)) = Some req \<and> rq_nxt_seq req = ack))"
proof (induction ps ack t rule: rsp_search.induct)
  case (1 ack t)
  then show ?case by simp
next
  case (2 p ps ack t)
  then show ?case
    by (auto split: if_splits bind_splits simp: nth_Cons split: nat.splits)
       (metis Suc_diff_Suc Suc_le_lessD diff_Suc_1 nat.inject)+
qed

text \<open>The simulation step of the scan: pairs that had a response before the scan keep
  everything, requests are never touched, and a response that appears is the answer of a
  visited record.\<close>

definition rsp_inv :: "proto \<Rightarrow> pair list \<Rightarrow> seq_t set \<Rightarrow> rsp_scan \<Rightarrow> bool" where
  "rsp_inv P ps S st \<longleftrightarrow>
     map request_header (f_pairs (s_flow st)) = map request_header ps \<and>
     (\<forall>k < length ps. response_header (ps ! k) \<noteq> None \<longrightarrow>
        f_pairs (s_flow st) ! k = ps ! k \<and> (\<forall>first. s_found st \<noteq> Some (k, first))) \<and>
     (\<forall>k < length ps. response_header (ps ! k) = None \<longrightarrow> response_header (f_pairs (s_flow st) ! k) \<noteq> None \<longrightarrow>
        (\<exists>s \<in> S. is_new RSP s \<and> answers P (f_pairs (s_flow st) ! k) s)) \<and>
     s_tmp st \<le> length ps \<and>
     (\<forall>k first. s_found st = Some (k, first) \<longrightarrow> k < length ps)"

lemma rsp_inv_length: "rsp_inv P ps S st \<Longrightarrow> length (f_pairs (s_flow st)) = length ps"
  unfolding rsp_inv_def by (metis length_map)

lemma rsp_inv_mono: "rsp_inv P ps S st \<Longrightarrow> S \<subseteq> T \<Longrightarrow> rsp_inv P ps T st"
  unfolding rsp_inv_def by blast

lemma rsp_inv_done [simp]: "rsp_inv P ps S (st\<lparr>s_done := d\<rparr>) = rsp_inv P ps S st"
  "rsp_inv P ps S (st\<lparr>s_n := n\<rparr>) = rsp_inv P ps S st"
  "rsp_inv P ps S (st\<lparr>s_first := b\<rparr>) = rsp_inv P ps S st"
  by (simp_all add: rsp_inv_def)

lemma map_update_same: "f y = f (xs ! k) \<Longrightarrow> map f (xs[k := y]) = map f xs"
  by (metis list_update_id map_update)

lemma rsp_text_same: "rsp_text first s r = Some r' \<Longrightarrow> same_response r' r"
  by (auto simp: rsp_text_def same_response_def split: bind_splits)

text \<open>Updating the pair \<open>k\<close> without touching its request or the parsed part of its response.\<close>

lemma rsp_inv_update:
  assumes inv: "rsp_inv P ps S st" and found: "s_found st = Some (k, first)"
    and p: "request_header p = request_header (f_pairs (s_flow st) ! k)"
      "response_header (f_pairs (s_flow st) ! k) = Some r" "response_header p = Some r'" "same_response r' r"
    and pairs: "f_pairs fl = (f_pairs (s_flow st))[k := p]"
  shows "rsp_inv P ps S (st\<lparr>s_first := b, s_flow := fl\<rparr>)"
proof -
  have len: "length (f_pairs (s_flow st)) = length ps" and k: "k < length ps"
    using inv found rsp_inv_length by (auto simp: rsp_inv_def)
  have none: "response_header (ps ! k) = None" using inv found k by (auto simp: rsp_inv_def)
  with inv k p(2) obtain s where s: "s \<in> S" "is_new RSP s" "answers P (f_pairs (s_flow st) ! k) s"
    unfolding rsp_inv_def by (metis option.distinct(1))
  then have "answers P p s"
    using p unfolding answers_def same_response_def by (elim exE conjE) simp
  then have new: "\<exists>s \<in> S. is_new RSP s \<and> answers P p s" using s by blast
  have at: "f_pairs fl ! j = (if j = k then p else f_pairs (s_flow st) ! j)" for j
    using k len by (simp add: pairs nth_list_update)
  have "map request_header (f_pairs fl) = map request_header ps"
    using inv p(1) by (simp add: rsp_inv_def pairs map_update_same)
  then show ?thesis
    using inv none new found by (simp add: rsp_inv_def at)
qed

lemma rsp_account_inv:
  assumes "rsp_inv P ps S st" "rsp_account fin i s ss st = Some st'"
  shows "rsp_inv P ps S st' \<and> s_done st' = s_done st \<and> f_order (s_flow st') = f_order (s_flow st)"
proof (cases "s_found st")
  case None
  with assms show ?thesis by (simp add: rsp_account_def)
next
  case (Some kf)
  obtain k first where kf: "kf = (k, first)" by (cases kf)
  let ?p = "f_pairs (s_flow st) ! k"
  obtain r r' where r: "response_header ?p = Some r" "rsp_text (s_first st) s r = Some r'"
    using assms(2) Some kf by (auto simp: rsp_account_def split: bind_splits)
  have f: "request_header (rsp_finish s first (?p\<lparr>response_header := Some r'\<rparr>)) = request_header ?p"
    "response_header (rsp_finish s first (?p\<lparr>response_header := Some r'\<rparr>)) = Some r'"
    by (simp_all add: rsp_finish_def Let_def)
  note up = rsp_inv_update [OF assms(1) Some [unfolded kf] _ r(1) _ rsp_text_same [OF r(2)]]
  show ?thesis
  proof (cases "rsp_ends fin i ss")
    case True
    with assms(2) Some kf r obtain fl where
      "st' = st\<lparr>s_first := False, s_flow := fl\<rparr>" "f_order fl = f_order (s_flow st)"
      "f_pairs fl = (f_pairs (s_flow st))[k := rsp_finish s first (?p\<lparr>response_header := Some r'\<rparr>)]"
      by (auto simp: rsp_account_def Let_def update_lb_def split: if_splits)
    with up [OF f] show ?thesis by simp
  next
    case False
    with assms(2) Some kf r obtain fl where
      "st' = st\<lparr>s_first := False, s_flow := fl\<rparr>" "f_order fl = f_order (s_flow st)"
      "f_pairs fl = (f_pairs (s_flow st))[k := ?p\<lparr>response_header := Some r'\<rparr>]"
      by (auto simp: rsp_account_def Let_def split: if_splits)
    with up [of "?p\<lparr>response_header := Some r'\<rparr>" fl False] show ?thesis by simp
  qed
qed

lemma rsp_start_inv:
  assumes inv: "rsp_inv P ps S st" and s: "s \<in> S" "is_new RSP s" and st: "rsp_start P s st = Some x"
  shows "case x of Inl st' \<Rightarrow> rsp_inv P ps S st' \<and> s_done st' = s_done st \<and> f_order (s_flow st') = f_order (s_flow st)
     | Inr st' \<Rightarrow> rsp_inv P ps S st' \<and> s_done st' = s_done st \<and> f_order (s_flow st') = f_order (s_flow st)"
proof -
  have len: "length (f_pairs (s_flow st)) = length ps" using inv by (rule rsp_inv_length)
  have tmp0: "s_tmp st \<le> length ps" using inv by (simp add: rsp_inv_def)
  obtain pkt tmp found where q: "sq_pkt s = Some pkt"
      "rsp_search (drop (s_tmp st) (f_pairs (s_flow st))) (tcp_ack pkt) (s_tmp st) = Some (tmp, found)"
    using st by (auto simp: rsp_start_def split: bind_splits)
  note fnd = rsp_search_found [OF q(2)]
  have tmp: "tmp \<le> length ps" using fnd len tmp0 by simp
  have moved: "rsp_inv P ps S (st\<lparr>s_tmp := tmp, s_n := n\<rparr>)" for n
    using inv tmp by (simp add: rsp_inv_def)
  show ?thesis
  proof (cases "tmp = length ps \<or> \<not> found")
    case True
    with st q len moved show ?thesis by (auto simp: rsp_start_def Let_def split: if_splits)
  next
    case False
    then have f: found "tmp < length ps" using tmp by auto
    obtain rsp where rsp: "parse_response P s = Some rsp"
      using st q f len by (auto simp: rsp_start_def Let_def split: bind_splits)
    let ?p = "f_pairs (s_flow st) ! tmp"
    let ?p' = "snd (addResponse rsp (?p\<lparr>rsp_fb_sec := sq_sec s, rsp_fb_usec := sq_usec s\<rparr>))"
    let ?st = "st\<lparr>s_tmp := tmp, s_n := Suc (s_n st), s_flow := (s_flow st)\<lparr>f_pairs := (f_pairs (s_flow st))[tmp := ?p']\<rparr>,
                  s_found := Some (tmp, sq_seq s), s_first := True\<rparr>"
    have x: "x = Inr ?st"
      using st q f rsp len by (simp add: rsp_start_def Let_def)
    have p: "response_header ?p = None" "\<exists>req. request_header ?p = Some req \<and> rq_nxt_seq req = tcp_ack pkt"
      using fnd f len tmp0 by (auto simp: nth_drop)
    have h: "request_header ?p' = request_header ?p" "response_header ?p' = Some rsp"
      using p(1) by (simp_all add: addResponse_def)
    have "answers P ?p' s" using p(2) h q(1) rsp by (auto simp: answers_def same_response_def)
    then have new: "\<exists>s \<in> S. is_new RSP s \<and> answers P ?p' s" using s by blast
    have old: "response_header (ps ! tmp) = None"
      using inv f(2) p(1) unfolding rsp_inv_def by metis
    have req: "map request_header ((f_pairs (s_flow st))[tmp := ?p']) = map request_header ps"
      using inv h(1) by (simp add: rsp_inv_def map_update_same)
    have at: "(f_pairs (s_flow st))[tmp := ?p'] ! j = (if j = tmp then ?p' else f_pairs (s_flow st) ! j)" for j
      using f(2) len by (simp add: nth_list_update)
    have "rsp_inv P ps S ?st"
      using inv new old f(2) req tmp by (simp add: rsp_inv_def at)
    then show ?thesis by (simp add: x)
  qed
qed

lemma rsp_loop_inv:
  assumes "rsp_loop P fin i ss st = Some (r, st')" "rsp_inv P ps S st" "set ss \<subseteq> S"
  shows "rsp_inv P ps S st' \<and> f_order (s_flow st') = f_order (s_flow st) \<and> r \<in> {0, 1} \<and>
     map (\<lambda>s. s\<lparr>sq_processed := False\<rparr>) (s_done st') = map (\<lambda>s. s\<lparr>sq_processed := False\<rparr>) (s_done st @ ss)"
  using assms
proof (induction P fin i ss st rule: rsp_loop.induct)
  case (1 P fin i st)
  then show ?case by simp
next
  case (2 P fin i s ss st)
  let ?u = "\<lambda>s. s\<lparr>sq_processed := False\<rparr>"
  consider "reaches_fin fin s" | "\<not> reaches_fin fin s" "is_new RSP s"
    | "\<not> reaches_fin fin s" "\<not> is_new RSP s" "s_found st = None \<or> sq_processed s"
    | "\<not> reaches_fin fin s" "\<not> is_new RSP s" "\<not> (s_found st = None \<or> sq_processed s)"
    by blast
  then show ?case
  proof cases
    case 1
    with "2.prems" show ?thesis by auto
  next
    case 2
    then obtain x where x: "rsp_start P s st = Some x"
      using "2.prems"(1) by (auto simp: Let_def split: bind_splits)
    have start: "case x of Inl st' \<Rightarrow> rsp_inv P ps S st' \<and> s_done st' = s_done st \<and> f_order (s_flow st') = f_order (s_flow st)
     | Inr st' \<Rightarrow> rsp_inv P ps S st' \<and> s_done st' = s_done st \<and> f_order (s_flow st') = f_order (s_flow st)"
      using rsp_start_inv [OF "2.prems"(2) _ 2(2) x] "2.prems"(3) by simp
    show ?thesis
    proof (cases x)
      case (Inl y)
      with start x 2 "2.prems" show ?thesis by (auto simp: Let_def)
    next
      case (Inr y)
      then obtain z where z: "rsp_account fin i s ss (y\<lparr>s_done := s_done y @ [s\<lparr>sq_processed := True\<rparr>]\<rparr>) = Some z"
        using x 2 "2.prems"(1) by (auto simp: Let_def split: bind_splits)
      have inv_z: "rsp_inv P ps S z" "s_done z = s_done st @ [s\<lparr>sq_processed := True\<rparr>]"
          "f_order (s_flow z) = f_order (s_flow st)"
        using rsp_account_inv [OF _ z] start Inr by auto
      have "rsp_loop P fin (Suc i) ss z = Some (r, st')"
        using x Inr z 2 "2.prems"(1) by (simp add: Let_def)
      with "2.IH"(1) [OF 2 refl x Inr z] inv_z "2.prems"(3) show ?thesis by simp
    qed
  next
    case 3
    show ?thesis using "2.IH"(2) [OF 3] 3 "2.prems" by simp
  next
    case 4
    then obtain z where z: "rsp_account fin i s ss (st\<lparr>s_done := s_done st @ [s]\<rparr>) = Some z"
      using "2.prems"(1) by (auto split: bind_splits)
    have inv_z: "rsp_inv P ps S z" "s_done z = s_done st @ [s]" "f_order (s_flow z) = f_order (s_flow st)"
      using rsp_account_inv [OF _ z] "2.prems"(2) by auto
    have "rsp_loop P fin (Suc i) ss z = Some (r, st')"
      using z 4 "2.prems"(1) by auto
    with "2.IH"(3) [OF 4 z] inv_z "2.prems"(3) show ?thesis by simp
  qed
qed

section \<open>extractPair on every flow\<close>

lemma first_byte_frame [simp]:
  "f_order (first_byte ss f) = f_order f" "f_pairs (first_byte ss f) = f_pairs f"
  by (induction ss arbitrary: f) auto

lemma fin_seq_first_byte [simp]: "fin_seq (first_byte ss f) = fin_seq f"
  by (simp add: fin_seq_def)

definition new_requests :: "pflow \<Rightarrow> seq_t list" where
  "new_requests f = filter (is_new REQ) (visited (fin_seq f) (o_src (f_order f)))"

lemma replicate_nth_None: "k < length xs + n \<Longrightarrow> (xs @ replicate n None) ! k \<noteq> None \<Longrightarrow> k < length xs"
  by (auto simp: nth_append split: if_splits)

lemma rsp_inv_start:
  "rsp_inv P (f_pairs f) S \<lparr>s_done = [], s_flow = f, s_tmp = 0, s_found = None, s_first = False, s_n = 0\<rparr>"
  by (simp add: rsp_inv_def)

lemma extractPair_cases:
  assumes "extractPair P f closed = Some (r, f')"
  obtains (no_request) "new_requests f = []" "r = 1"
      "map request_header (f_pairs f') = map request_header (f_pairs f)"
      "map response_header (f_pairs f') = map response_header (f_pairs f)"
  | (requests) ps where "new_requests f \<noteq> []" "r \<in> {0, 1}"
      "map request_header ps = map request_header (f_pairs f) @ map (parse_request P) (new_requests f)"
      "map response_header ps = map response_header (f_pairs f) @ replicate (length (new_requests f)) None"
      "length (f_pairs f') = length ps"
      "map request_header (f_pairs f') = map request_header ps"
      "\<forall>k < length ps. response_header (ps ! k) \<noteq> None \<longrightarrow> f_pairs f' ! k = ps ! k"
      "\<forall>k < length ps. response_header (ps ! k) = None \<longrightarrow> response_header (f_pairs f' ! k) \<noteq> None \<longrightarrow>
         (\<exists>s \<in> set (o_dst (f_order f)). is_new RSP s \<and> answers P (f_pairs f' ! k) s)"
proof -
  let ?f = "first_byte (o_src (f_order f)) f"
  obtain q where q: "req_loop P (fin_seq f) closed 0 (o_src (f_order f))
      \<lparr>q_done = [], q_flow = ?f, q_first = None, q_n = 0\<rparr> = Some q"
    using assms by (auto simp: extractPair_def Let_def split: bind_splits)
  note frame = req_loop_frame [OF q]
  have n: "q_n q = length (new_requests f)" using frame by (simp add: new_requests_def)
  show thesis
  proof (cases "new_requests f = []")
    case True
    with q n assms have "r = 1" "f_pairs f' = f_pairs (q_flow q)"
      by (auto simp: extractPair_def Let_def)
    with True frame show thesis by (intro no_request) (auto simp: new_requests_def)
  next
    case False
    let ?g = "(q_flow q)\<lparr>f_order := (f_order (q_flow q))\<lparr>o_src := q_done q\<rparr>\<rparr>"
    obtain st where st: "rsp_loop P (fin_seq f) 0 (o_dst (f_order ?g))
        \<lparr>s_done = [], s_flow = ?g, s_tmp = 0, s_found = None, s_first = False, s_n = 0\<rparr> = Some (r, st)"
      "f_pairs f' = f_pairs (s_flow st)"
      using q n assms False by (auto simp: extractPair_def Let_def split: bind_splits)
    have "o_dst (f_order ?g) = o_dst (f_order f)" using frame by simp
    then have inv: "rsp_inv P (f_pairs (q_flow q)) (set (o_dst (f_order f))) st" "r \<in> {0, 1}"
      using rsp_loop_inv [OF st(1) rsp_inv_start] by auto
    show thesis
      using False frame inv st(2) rsp_inv_length [OF inv(1)]
      by (intro requests [of "f_pairs (q_flow q)"]) (auto simp: new_requests_def rsp_inv_def)
  qed
qed

text \<open>C37. The requests of a flow: one call of \<^verbatim>\<open>extractPair\<close> appends one pair per new request
  record before the FIN, in the order of the TCP stream and with the request object parsed
  from that record, keeps the requests it had, and returns 0 or 1.\<close>

theorem extractPair_requests:
  assumes "extractPair P f closed = Some (r, f')"
  shows "map request_header (f_pairs f') = map request_header (f_pairs f) @ map (parse_request P) (new_requests f)
     \<and> (r = 0 \<or> r = 1)"
  using assms by (cases rule: extractPair_cases) auto

lemma extractPair_rsp:
  assumes "extractPair P f closed = Some (r, f')" "k < length (f_pairs f')"
  shows "if k < length (f_pairs f) \<and> response_header (f_pairs f ! k) \<noteq> None
         then response_header (f_pairs f' ! k) = response_header (f_pairs f ! k)
         else response_header (f_pairs f' ! k) = None \<or>
           (\<exists>s \<in> set (o_dst (f_order f)). is_new RSP s \<and> answers P (f_pairs f' ! k) s)"
  using assms(1)
proof (cases rule: extractPair_cases)
  case no_request
  then have "length (f_pairs f') = length (f_pairs f)" "response_header (f_pairs f' ! k) = response_header (f_pairs f ! k)"
    using assms(2) by (metis length_map, metis length_map nth_map)
  with assms(2) show ?thesis by auto
next
  case (requests ps)
  have k: "k < length ps" using assms(2) requests(5) by simp
  have "response_header (ps ! k) = (map response_header (f_pairs f) @ replicate (length (new_requests f)) None) ! k"
    using k requests(4) by (metis nth_map)
  moreover have "length ps = length (f_pairs f) + length (new_requests f)"
    using arg_cong [OF requests(4), of length] by simp
  ultimately have "response_header (ps ! k) =
      (if k < length (f_pairs f) then response_header (f_pairs f ! k) else None)"
    using k by (auto simp: nth_append)
  then show ?thesis
    using requests(7) [rule_format, OF k] requests(8) [rule_format, OF k]
    by (cases "response_header (f_pairs f' ! k)") (auto split: if_splits)
qed

text \<open>C38. The responses of a flow: a pair that has a response keeps it, with all its times,
  lengths and texts; and a response that a call attaches was parsed from a new response record of
  the flow whose acknowledgement number is exactly the end of the request of that pair.\<close>

theorem extractPair_responses:
  assumes "extractPair P f closed = Some (r, f')" "k < length (f_pairs f')"
  shows "if k < length (f_pairs f) \<and> response_header (f_pairs f ! k) \<noteq> None
         then response_header (f_pairs f' ! k) = response_header (f_pairs f ! k)
         else response_header (f_pairs f' ! k) = None \<or>
           (\<exists>s \<in> set (o_dst (f_order f)). is_new RSP s \<and> answers P (f_pairs f' ! k) s)"
  by (rule extractPair_rsp [OF assms])


end
