(* ===== verification/Conversation.thy ===== *)
theory Conversation
  imports Pairing
begin

text \<open>
  A closed flow with a complete conversation, and the conditions under which \<^verbatim>\<open>extractPair\<close>
  returns at all.  A message is the record that carries its head, followed by the records of the
  segments that continue it, which refer to no packet.
\<close>

record exchange =
  x_req :: seq_t
  x_req_more :: "seq_t list"
  x_request :: request
  x_rsp :: seq_t
  x_rsp_more :: "seq_t list"
  x_response :: response

definition continues :: "seq_t \<Rightarrow> bool" where
  "continues s \<longleftrightarrow> sq_pkt s = None \<and> \<not> sq_processed s"

definition starts_message :: "seq_t list \<Rightarrow> bool" where
  "starts_message ss \<longleftrightarrow> (case ss of [] \<Rightarrow> True | s # _ \<Rightarrow> sq_pkt s \<noteq> None)"

section \<open>One request\<close>

definition request_pair :: "seq_t \<Rightarrow> seq_t list \<Rightarrow> request \<Rightarrow> pair" where
  "request_pair s ms req =
     (let e = last (s # ms)
      in if sq_nxt e \<noteq> 0 then (req_pair s req)\<lparr>req_total_len := sq_nxt e - sq_seq s, req_body_len := 0\<rparr>
         else req_pair s req)"

lemma continues_not_new [simp]: "continues s \<Longrightarrow> \<not> is_new ty s"
  by (simp add: continues_def is_new_def)

lemma req_ends_next:
  "req_ends None True i ss = Some (starts_message ss)"
  by (simp add: req_ends_def starts_message_def is_fin_at_def reaches_fin_def split: list.split)

lemma starts_continues: "continues c \<Longrightarrow> \<not> starts_message (c # cs)"
  by (simp add: continues_def starts_message_def)

lemma req_loop_more:
  assumes "list_all continues cs" "cs \<noteq> []" "starts_message rest" "q_first st \<noteq> None"
  shows "req_loop P None True i (cs @ rest) st =
     req_loop P None True (i + length cs) rest (req_finish (last cs) (st\<lparr>q_done := q_done st @ cs\<rparr>))"
  using assms
proof (induction cs arbitrary: i st)
  case Nil
  then show ?case by simp
next
  case (Cons c cs)
  have c: "continues c" "\<not> reaches_fin None c" "\<not> sq_processed c"
    using Cons.prems(1) by (auto simp: reaches_fin_def continues_def)
  show ?case
  proof (cases "cs = []")
    case True
    with c Cons.prems show ?thesis by (auto simp: req_ends_next)
  next
    case False
    then have "\<not> starts_message (cs @ rest)"
      using Cons.prems(1) starts_continues by (cases cs) auto
    with c Cons False show ?thesis by (auto simp: req_ends_next)
  qed
qed

lemma req_finish_pair:
  assumes "f_pairs (q_flow st) = ps @ [req_pair s req]" "q_first st = Some (sq_seq s)"
  shows "f_pairs (q_flow (req_finish (last (s # ms)) st)) = ps @ [request_pair s ms req]"
  using assms by (simp add: req_finish_def update_lb_def upd_last_def request_pair_def Let_def del: last.simps)

lemma req_loop_message:
  assumes "is_new REQ s" "parse_request P s = Some req" "list_all continues ms" "starts_message rest"
  shows "\<exists>st'. req_loop P None True i ((s # ms) @ rest) st = req_loop P None True (i + Suc (length ms)) rest st' \<and>
     f_pairs (q_flow st') = f_pairs (q_flow st) @ [request_pair s ms req]"
proof -
  let ?st = "st\<lparr>q_done := q_done st @ [s\<lparr>sq_processed := True\<rparr>], q_flow := add_pair (req_pair s req) (q_flow st),
     q_first := Some (sq_seq s), q_n := Suc (q_n st)\<rparr>"
  have r: "\<not> reaches_fin None s" by (simp add: reaches_fin_def)
  have p: "f_pairs (q_flow (req_finish (last (s # ms)) (?st\<lparr>q_done := d\<rparr>))) =
      f_pairs (q_flow st) @ [request_pair s ms req]" for d
    by (rule req_finish_pair) (simp_all add: add_pair_def)
  show ?thesis
  proof (cases "ms = []")
    case True
    have "req_loop P None True i ((s # ms) @ rest) st =
        req_loop P None True (i + Suc (length ms)) rest (req_finish s ?st)"
      using True assms r by (simp add: req_ends_next)
    moreover have "f_pairs (q_flow (req_finish s ?st)) = f_pairs (q_flow st) @ [request_pair s ms req]"
      using True req_finish_pair [of ?st "f_pairs (q_flow st)" s req ms] by (simp add: add_pair_def)
    ultimately show ?thesis by blast
  next
    case False
    then have "\<not> starts_message (ms @ rest)"
      using assms(3) starts_continues by (cases ms) auto
    then have "req_loop P None True i ((s # ms) @ rest) st = req_loop P None True (Suc i) (ms @ rest) ?st"
      using assms r by (simp add: req_ends_next)
    also have "\<dots> = req_loop P None True (Suc i + length ms) rest
        (req_finish (last ms) (?st\<lparr>q_done := q_done ?st @ ms\<rparr>))"
      by (rule req_loop_more [OF assms(3) False assms(4)]) simp
    finally show ?thesis
      using p [of "q_done ?st @ ms"] False by (intro exI conjI) (simp_all del: req_loop.simps)
  qed
qed

section \<open>One response\<close>

text \<open>The texts of a response after the segments \<open>ss\<close> have been added to it.\<close>

definition add_text :: "bool \<Rightarrow> seq_t \<Rightarrow> response \<Rightarrow> response" where
  "add_text first s r = r\<lparr>rs_time := rs_time r @ CHR '','' # show_int (sq_usec s),
     rs_size := rs_size r @ (if first then [] else '','') @ show_int (sint (sq_size s))\<rparr>"

fun add_texts :: "bool \<Rightarrow> seq_t list \<Rightarrow> response \<Rightarrow> response" where
  "add_texts first [] r = r"
| "add_texts first (s # ss) r = add_texts False ss (add_text first s r)"

definition texts_fit :: "response \<Rightarrow> bool" where
  "texts_fit r \<longleftrightarrow> length (rs_time r) < 256 \<and> length (rs_size r) < 256"

lemma add_texts_longer:
  "length (rs_time r) \<le> length (rs_time (add_texts first ss r)) \<and>
   length (rs_size r) \<le> length (rs_size (add_texts first ss r))"
proof (induction ss arbitrary: first r)
  case Nil
  then show ?case by simp
next
  case (Cons s ss)
  have "length (rs_time r) \<le> length (rs_time (add_text first s r))"
    "length (rs_size r) \<le> length (rs_size (add_text first s r))" by (simp_all add: add_text_def)
  then show ?case using Cons [of "add_text first s r" False] by (auto intro: order_trans)
qed

lemma rsp_text_fits: "texts_fit (add_text first s r) \<Longrightarrow> rsp_text first s r = Some (add_text first s r)"
  by (simp add: texts_fit_def add_text_def rsp_text_def strcat256_def)

lemma texts_fit_prefix: "texts_fit (add_texts first (s # ss) r) \<Longrightarrow> texts_fit (add_text first s r)"
  using add_texts_longer [of "add_text first s r" False ss] by (auto simp: texts_fit_def)

lemma rsp_ends_next: "rsp_ends None i ss = starts_message ss"
  by (simp add: rsp_ends_def starts_message_def is_fin_at_def reaches_fin_def split: list.split)

definition put_pair :: "nat \<Rightarrow> pair \<Rightarrow> rsp_scan \<Rightarrow> rsp_scan" where
  "put_pair k p st = st\<lparr>s_flow := (s_flow st)\<lparr>f_pairs := (f_pairs (s_flow st))[k := p]\<rparr>\<rparr>"

text \<open>Accounting for the segment \<open>s\<close> and the segments \<open>cs\<close> that continue its message: the pair
  ends up with all texts, the times and the length up to the last segment.\<close>

lemma rsp_message_tail:
  assumes "s_found st = Some (k, first)" "k < length (f_pairs (s_flow st))"
    "response_header (f_pairs (s_flow st) ! k) = Some r" "texts_fit (add_texts (s_first st) (s # cs) r)"
    "list_all continues cs" "starts_message rest"
  shows "\<exists>st'. rsp_account None i s (cs @ rest) st \<bind> rsp_loop P None (Suc i) (cs @ rest) =
       rsp_loop P None (Suc i + length cs) rest st' \<and>
     f_pairs (s_flow st') = (f_pairs (s_flow st))
       [k := rsp_finish (last (s # cs)) first ((f_pairs (s_flow st) ! k)\<lparr>response_header := Some (add_texts (s_first st) (s # cs) r)\<rparr>)] \<and>
     s_tmp st' = s_tmp st"
  using assms
proof (induction cs arbitrary: s st r i)
  case Nil
  let ?p = "rsp_finish s first ((f_pairs (s_flow st) ! k)\<lparr>response_header := Some (add_text (s_first st) s r)\<rparr>)"
  let ?st = "st\<lparr>s_first := False, s_flow := update_lb s ((s_flow st)\<lparr>f_pairs := (f_pairs (s_flow st))[k := ?p]\<rparr>)\<rparr>"
  have "rsp_account None i s rest st = Some ?st"
    using Nil.prems rsp_text_fits by (simp add: rsp_account_def rsp_ends_next Let_def)
  then show ?case by (intro exI [of _ ?st]) (simp add: update_lb_def)
next
  case (Cons c cs)
  let ?p = "(f_pairs (s_flow st) ! k)\<lparr>response_header := Some (add_text (s_first st) s r)\<rparr>"
  let ?st = "st\<lparr>s_first := False, s_flow := (s_flow st)\<lparr>f_pairs := (f_pairs (s_flow st))[k := ?p]\<rparr>\<rparr>"
  have c: "continues c" "\<not> sq_processed c" "\<not> reaches_fin None c" "\<not> is_new RSP c"
    using Cons.prems(5) by (auto simp: continues_def reaches_fin_def is_new_def)
  have acc: "rsp_account None i s ((c # cs) @ rest) st = Some ?st"
    using Cons.prems(1-3) rsp_text_fits [OF texts_fit_prefix [OF Cons.prems(4)]] starts_continues [OF c(1)]
    by (simp add: rsp_account_def rsp_ends_next Let_def)
  let ?st' = "?st\<lparr>s_done := s_done ?st @ [c]\<rparr>"
  have "rsp_account None i s ((c # cs) @ rest) st \<bind> rsp_loop P None (Suc i) ((c # cs) @ rest) =
      (rsp_account None (Suc i) c (cs @ rest) ?st' \<bind> rsp_loop P None (Suc (Suc i)) (cs @ rest))"
    using acc c Cons.prems(1) by simp
  moreover have "\<exists>st'. rsp_account None (Suc i) c (cs @ rest) ?st' \<bind> rsp_loop P None (Suc (Suc i)) (cs @ rest) =
       rsp_loop P None (Suc (Suc i) + length cs) rest st' \<and>
     f_pairs (s_flow st') = (f_pairs (s_flow ?st'))
       [k := rsp_finish (last (c # cs)) first ((f_pairs (s_flow ?st') ! k)\<lparr>response_header :=
          Some (add_texts (s_first ?st') (c # cs) (add_text (s_first st) s r))\<rparr>)] \<and>
     s_tmp st' = s_tmp ?st'"
    by (rule Cons.IH) (use Cons.prems in auto)
  ultimately show ?case using Cons.prems(2) by (auto simp del: rsp_loop.simps)
qed

text \<open>When the texts do not fit, some segment makes the scan overrun them.\<close>

lemma rsp_text_overflow: "\<not> texts_fit (add_text first s r) \<Longrightarrow> rsp_text first s r = None"
  by (auto simp: texts_fit_def add_text_def rsp_text_def strcat256_def)

lemma rsp_message_overflow:
  assumes "s_found st = Some (k, first)" "k < length (f_pairs (s_flow st))"
    "response_header (f_pairs (s_flow st) ! k) = Some r" "\<not> texts_fit (add_texts (s_first st) (s # cs) r)"
    "list_all continues cs" "starts_message rest"
  shows "rsp_account None i s (cs @ rest) st \<bind> rsp_loop P None (Suc i) (cs @ rest) = None"
  using assms
proof (induction cs arbitrary: s st r i)
  case Nil
  then show ?case using rsp_text_overflow by (simp add: rsp_account_def)
next
  case (Cons c cs)
  show ?case
  proof (cases "texts_fit (add_text (s_first st) s r)")
    case False
    with Cons.prems(1,3) show ?thesis using rsp_text_overflow by (simp add: rsp_account_def)
  next
    case True
    let ?p = "(f_pairs (s_flow st) ! k)\<lparr>response_header := Some (add_text (s_first st) s r)\<rparr>"
    let ?st = "st\<lparr>s_first := False, s_flow := (s_flow st)\<lparr>f_pairs := (f_pairs (s_flow st))[k := ?p]\<rparr>\<rparr>"
    have c: "continues c" "\<not> sq_processed c" "\<not> reaches_fin None c" "\<not> is_new RSP c"
      using Cons.prems(5) by (auto simp: continues_def reaches_fin_def is_new_def)
    have acc: "rsp_account None i s ((c # cs) @ rest) st = Some ?st"
      using Cons.prems(1-3) rsp_text_fits [OF True] starts_continues [OF c(1)]
      by (simp add: rsp_account_def rsp_ends_next Let_def)
    let ?st' = "?st\<lparr>s_done := s_done ?st @ [c]\<rparr>"
    have "rsp_account None i s ((c # cs) @ rest) st \<bind> rsp_loop P None (Suc i) ((c # cs) @ rest) =
        (rsp_account None (Suc i) c (cs @ rest) ?st' \<bind> rsp_loop P None (Suc (Suc i)) (cs @ rest))"
      using acc c Cons.prems(1) by simp
    moreover have "rsp_account None (Suc i) c (cs @ rest) ?st' \<bind> rsp_loop P None (Suc (Suc i)) (cs @ rest) = None"
      by (rule Cons.IH) (use Cons.prems in auto)
    ultimately show ?thesis by (simp only:)
  qed
qed

lemma rsp_search_at:
  assumes "\<forall>p \<in> set xs. \<exists>r. request_header p = Some r \<and> rq_nxt_seq r < ack"
    "request_header q = Some r" "rq_nxt_seq r = ack" "response_header q = None"
  shows "rsp_search (xs @ q # ys) ack t = Some (t + length xs, True)"
  using assms
proof (induction xs arbitrary: t)
  case Nil
  then show ?case by simp
next
  case (Cons p xs)
  then obtain r' where "request_header p = Some r'" "rq_nxt_seq r' < ack" by auto
  with Cons show ?case by (auto simp: less_le)
qed

definition response_pair :: "pair \<Rightarrow> seq_t \<Rightarrow> seq_t list \<Rightarrow> response \<Rightarrow> pair" where
  "response_pair p s ms rsp =
     rsp_finish (last (s # ms)) (sq_seq s)
       (p\<lparr>rsp_fb_sec := sq_sec s, rsp_fb_usec := sq_usec s,
          response_header := Some (add_texts True (s # ms) rsp)\<rparr>)"

lemma rsp_loop_message:
  assumes "is_new RSP s" "sq_pkt s = Some pkt" "parse_response P s = Some rsp"
    "list_all continues ms" "starts_message rest" "texts_fit (add_texts True (s # ms) rsp)"
    and pairs: "f_pairs (s_flow st) = ps @ q # qs" "s_tmp st \<le> length ps"
    and older: "\<forall>p \<in> set ps. \<exists>r. request_header p = Some r \<and> rq_nxt_seq r < tcp_ack pkt"
    and q: "request_header q = Some r" "rq_nxt_seq r = tcp_ack pkt" "response_header q = None"
  shows "\<exists>st'. rsp_loop P None i ((s # ms) @ rest) st = rsp_loop P None (i + Suc (length ms)) rest st' \<and>
     f_pairs (s_flow st') = ps @ response_pair q s ms rsp # qs \<and> s_tmp st' = length ps"
proof -
  have "drop (s_tmp st) (f_pairs (s_flow st)) = drop (s_tmp st) ps @ q # qs" using pairs by simp
  moreover have "\<forall>p \<in> set (drop (s_tmp st) ps). \<exists>r. request_header p = Some r \<and> rq_nxt_seq r < tcp_ack pkt"
    using older by (auto dest: in_set_dropD)
  ultimately have search: "rsp_search (drop (s_tmp st) (f_pairs (s_flow st))) (tcp_ack pkt) (s_tmp st) = Some (length ps, True)"
    using rsp_search_at [OF _ q] pairs(2) by simp
  let ?q = "q\<lparr>rsp_fb_sec := sq_sec s, rsp_fb_usec := sq_usec s, response_header := Some rsp\<rparr>"
  let ?st = "st\<lparr>s_tmp := length ps, s_n := Suc (s_n st), s_flow := (s_flow st)\<lparr>f_pairs := ps @ ?q # qs\<rparr>,
                s_found := Some (length ps, sq_seq s), s_first := True\<rparr>"
  have start: "rsp_start P s st = Some (Inr ?st)"
    using assms(2,3) search pairs q(3) by (simp add: rsp_start_def addResponse_def)
  let ?st' = "?st\<lparr>s_done := s_done ?st @ [s\<lparr>sq_processed := True\<rparr>]\<rparr>"
  have "rsp_loop P None i ((s # ms) @ rest) st =
      rsp_account None i s (ms @ rest) ?st' \<bind> rsp_loop P None (Suc i) (ms @ rest)"
    using assms(1) start by (simp add: reaches_fin_def Let_def)
  moreover have "\<exists>st'. rsp_account None i s (ms @ rest) ?st' \<bind> rsp_loop P None (Suc i) (ms @ rest) =
       rsp_loop P None (Suc i + length ms) rest st' \<and>
     f_pairs (s_flow st') = (f_pairs (s_flow ?st'))
       [length ps := rsp_finish (last (s # ms)) (sq_seq s) ((f_pairs (s_flow ?st') ! length ps)\<lparr>response_header :=
          Some (add_texts (s_first ?st') (s # ms) rsp)\<rparr>)] \<and>
     s_tmp st' = s_tmp ?st'"
    by (rule rsp_message_tail) (use assms in auto)
  ultimately show ?thesis by (auto simp: response_pair_def simp del: rsp_loop.simps add_texts.simps)
qed

section \<open>The conversation\<close>

definition exchange_parsed :: "proto \<Rightarrow> exchange \<Rightarrow> bool" where
  "exchange_parsed P x \<longleftrightarrow>
     is_new REQ (x_req x) \<and> parse_request P (x_req x) = Some (x_request x) \<and> list_all continues (x_req_more x) \<and>
     is_new RSP (x_rsp x) \<and> parse_response P (x_rsp x) = Some (x_response x) \<and> list_all continues (x_rsp_more x) \<and>
     (\<exists>pkt. sq_pkt (x_rsp x) = Some pkt \<and> tcp_ack pkt = rq_nxt_seq (x_request x))"

abbreviation response_texts :: "exchange \<Rightarrow> response" where
  "response_texts x \<equiv> add_texts True (x_rsp x # x_rsp_more x) (x_response x)"

definition exchange_ok :: "proto \<Rightarrow> exchange \<Rightarrow> bool" where
  "exchange_ok P x \<longleftrightarrow> exchange_parsed P x \<and> texts_fit (response_texts x)"

abbreviation requests_of :: "exchange list \<Rightarrow> seq_t list" where
  "requests_of xs \<equiv> concat (map (\<lambda>x. x_req x # x_req_more x) xs)"

abbreviation responses_of :: "exchange list \<Rightarrow> seq_t list" where
  "responses_of xs \<equiv> concat (map (\<lambda>x. x_rsp x # x_rsp_more x) xs)"

abbreviation open_pair :: "exchange \<Rightarrow> pair" where
  "open_pair x \<equiv> request_pair (x_req x) (x_req_more x) (x_request x)"

definition exchange_pair :: "exchange \<Rightarrow> pair" where
  "exchange_pair x = response_pair (open_pair x) (x_rsp x) (x_rsp_more x) (x_response x)"

lemma new_has_packet: "is_new ty s \<Longrightarrow> sq_pkt s \<noteq> None"
  by (auto simp: is_new_def split: option.splits)

lemma conversation_starts:
  "list_all (exchange_parsed P) xs \<Longrightarrow> starts_message (requests_of xs) \<and> starts_message (responses_of xs)"
  by (cases xs) (auto simp: starts_message_def exchange_parsed_def dest: new_has_packet)

lemma request_pair_headers [simp]:
  "request_header (request_pair s ms req) = Some req" "response_header (request_pair s ms req) = None"
  by (simp_all add: request_pair_def Let_def)

lemma response_pair_request [simp]: "request_header (response_pair p s ms rsp) = request_header p"
  by (simp add: response_pair_def rsp_finish_def Let_def)

lemma req_loop_conversation:
  assumes "list_all (exchange_parsed P) xs"
  shows "\<exists>st'. req_loop P None True i (requests_of xs) st = Some st' \<and>
     f_pairs (q_flow st') = f_pairs (q_flow st) @ map open_pair xs"
  using assms
proof (induction xs arbitrary: i st)
  case Nil
  then show ?case by simp
next
  case (Cons x xs)
  then have "exchange_parsed P x" "starts_message (requests_of xs)" using conversation_starts by auto
  then have x: "is_new REQ (x_req x)" "parse_request P (x_req x) = Some (x_request x)"
      "list_all continues (x_req_more x)" "starts_message (requests_of xs)"
    by (simp_all add: exchange_parsed_def)
  obtain st1 where "req_loop P None True i ((x_req x # x_req_more x) @ requests_of xs) st =
        req_loop P None True (i + Suc (length (x_req_more x))) (requests_of xs) st1"
      "f_pairs (q_flow st1) = f_pairs (q_flow st) @ [open_pair x]"
    using req_loop_message [OF x] by blast
  moreover obtain st' where "req_loop P None True (i + Suc (length (x_req_more x))) (requests_of xs) st1 = Some st'"
      "f_pairs (q_flow st') = f_pairs (q_flow st1) @ map open_pair xs"
    using Cons by force
  ultimately show ?case by (intro exI [of _ st']) (simp del: req_loop.simps)
qed

lemma rsp_loop_conversation:
  assumes "list_all (exchange_ok P) xs" "sorted_wrt (\<lambda>x y. rq_nxt_seq (x_request x) < rq_nxt_seq (x_request y)) xs"
    "f_pairs (s_flow st) = ps @ map open_pair xs" "s_tmp st \<le> length ps"
    "\<forall>p \<in> set ps. \<exists>r. request_header p = Some r \<and> (\<forall>x \<in> set xs. rq_nxt_seq r < rq_nxt_seq (x_request x))"
  shows "\<exists>st'. rsp_loop P None i (responses_of xs) st = Some (0, st') \<and>
     f_pairs (s_flow st') = ps @ map exchange_pair xs"
  using assms
proof (induction xs arbitrary: i st ps)
  case Nil
  then show ?case by simp
next
  case (Cons x xs)
  have "list_all (exchange_parsed P) xs" using Cons.prems(1) by (auto simp: list_all_iff exchange_ok_def)
  then have ok: "exchange_ok P x" "starts_message (responses_of xs)"
    using Cons.prems(1) conversation_starts by auto
  then obtain pkt where x: "is_new RSP (x_rsp x)" "sq_pkt (x_rsp x) = Some pkt" "parse_response P (x_rsp x) = Some (x_response x)"
      "list_all continues (x_rsp_more x)" "starts_message (responses_of xs)"
      "texts_fit (add_texts True (x_rsp x # x_rsp_more x) (x_response x))" "tcp_ack pkt = rq_nxt_seq (x_request x)"
    unfolding exchange_ok_def exchange_parsed_def by (elim conjE exE) blast
  obtain st1 where st1: "rsp_loop P None i ((x_rsp x # x_rsp_more x) @ responses_of xs) st =
        rsp_loop P None (i + Suc (length (x_rsp_more x))) (responses_of xs) st1"
      "f_pairs (s_flow st1) = ps @ exchange_pair x # map open_pair xs" "s_tmp st1 = length ps"
    using rsp_loop_message [OF x(1-6), of st ps "open_pair x" "map open_pair xs" "x_request x" i] x(7) Cons.prems(3-5)
    unfolding exchange_pair_def by fastforce
  have "\<exists>st'. rsp_loop P None (i + Suc (length (x_rsp_more x))) (responses_of xs) st1 = Some (0, st') \<and>
      f_pairs (s_flow st') = (ps @ [exchange_pair x]) @ map exchange_pair xs"
    by (rule Cons.IH) (use st1(2,3) Cons.prems(1,2,5) in \<open>auto simp: exchange_pair_def\<close>)
  then obtain st' where "rsp_loop P None (i + Suc (length (x_rsp_more x))) (responses_of xs) st1 = Some (0, st')"
      "f_pairs (s_flow st') = (ps @ [exchange_pair x]) @ map exchange_pair xs"
    by blast
  with st1(1) show ?case by (intro exI [of _ st']) (simp del: rsp_loop.simps)
qed

lemma fin_index_none: "fin_index i ss = None \<longleftrightarrow> (\<forall>s \<in> set ss. \<not> has_fin s)"
  by (induction ss arbitrary: i) auto

lemma exchange_pair_fields:
  "request_header (exchange_pair x) = Some (x_request x)"
  "response_header (exchange_pair x) = Some (add_texts True (x_rsp x # x_rsp_more x) (x_response x))"
  "req_fb_sec (exchange_pair x) = sq_sec (x_req x)" "req_fb_usec (exchange_pair x) = sq_usec (x_req x)"
  "rsp_fb_sec (exchange_pair x) = sq_sec (x_rsp x)" "rsp_fb_usec (exchange_pair x) = sq_usec (x_rsp x)"
  "sq_nxt (last (x_req x # x_req_more x)) \<noteq> 0 \<Longrightarrow>
     req_total_len (exchange_pair x) = sq_nxt (last (x_req x # x_req_more x)) - sq_seq (x_req x)"
  "sq_nxt (last (x_rsp x # x_rsp_more x)) \<noteq> 0 \<Longrightarrow>
     rsp_total_len (exchange_pair x) = sq_nxt (last (x_rsp x # x_rsp_more x)) - sq_seq (x_rsp x)"
  by (simp_all add: exchange_pair_def response_pair_def rsp_finish_def Let_def request_pair_def req_pair_def
      addRequest_def Pair_new_def)

definition pairs_exchange :: "exchange \<Rightarrow> pair \<Rightarrow> bool" where
  "pairs_exchange x p \<longleftrightarrow>
     request_header p = Some (x_request x) \<and>
     response_header p = Some (add_texts True (x_rsp x # x_rsp_more x) (x_response x)) \<and>
     (req_fb_sec p, req_fb_usec p) = (sq_sec (x_req x), sq_usec (x_req x)) \<and>
     (rsp_fb_sec p, rsp_fb_usec p) = (sq_sec (x_rsp x), sq_usec (x_rsp x)) \<and>
     (sq_nxt (last (x_req x # x_req_more x)) \<noteq> 0 \<longrightarrow>
        req_total_len p = sq_nxt (last (x_req x # x_req_more x)) - sq_seq (x_req x)) \<and>
     (sq_nxt (last (x_rsp x # x_rsp_more x)) \<noteq> 0 \<longrightarrow>
        rsp_total_len p = sq_nxt (last (x_rsp x # x_rsp_more x)) - sq_seq (x_rsp x))"

lemma pairs_exchange_pair: "pairs_exchange x (exchange_pair x)"
  unfolding pairs_exchange_def by (intro conjI impI exchange_pair_fields) (simp_all only: exchange_pair_fields simp_thms)

text \<open>The scan of the client side, which leads to the scan of the server side.\<close>

lemma conversation_requests:
  assumes "o_src (f_order f) = requests_of xs" "o_dst (f_order f) = responses_of xs" "f_pairs f = []" "xs \<noteq> []"
    and "\<forall>s \<in> set (requests_of xs) \<union> set (responses_of xs). \<not> has_fin s" "list_all (exchange_parsed P) xs"
  obtains st where "f_pairs (s_flow st) = map open_pair xs" "s_tmp st = 0"
    "extractPair P f True = do { (r, s) \<leftarrow> rsp_loop P None 0 (responses_of xs) st;
       Some (r, (s_flow s)\<lparr>f_order := (f_order (s_flow s))\<lparr>o_dst := s_done s\<rparr>\<rparr>) }"
proof -
  have fin: "fin_seq f = None"
    using assms(1,2,5) fin_index_none [of 0 "requests_of xs"] fin_index_none [of 0 "responses_of xs"]
    by (simp add: fin_seq_def ball_Un)
  let ?f = "first_byte (o_src (f_order f)) f"
  obtain q where q: "req_loop P None True 0 (requests_of xs) \<lparr>q_done = [], q_flow = ?f, q_first = None, q_n = 0\<rparr> = Some q"
      "f_pairs (q_flow q) = map open_pair xs"
    using req_loop_conversation [OF assms(6), of 0 "\<lparr>q_done = [], q_flow = ?f, q_first = None, q_n = 0\<rparr>"] assms(3)
    by auto
  note frame = req_loop_frame [OF q(1)]
  have "length (filter (is_new REQ) (visited None (requests_of xs))) = length xs"
    using arg_cong [OF conjunct1 [OF frame], of length] by (simp add: q(2) assms(3) del: length_concat)
  with frame assms(4) have n: "q_n q \<noteq> 0" by simp
  let ?g = "(q_flow q)\<lparr>f_order := (f_order (q_flow q))\<lparr>o_src := q_done q\<rparr>\<rparr>"
  let ?st = "\<lparr>s_done = [], s_flow = ?g, s_tmp = 0, s_found = None, s_first = False, s_n = 0\<rparr>"
  have dst: "o_dst (f_order ?g) = responses_of xs" using frame assms(2) by simp
  show thesis
    by (rule that [of ?st]) (use q n dst fin assms(1) in \<open>simp_all add: extractPair_def Let_def\<close>)
qed

lemma conversation_paired:
  assumes "o_src (f_order f) = requests_of xs" "o_dst (f_order f) = responses_of xs" "f_pairs f = []" "xs \<noteq> []"
    and "\<forall>s \<in> set (requests_of xs) \<union> set (responses_of xs). \<not> has_fin s"
    and "list_all (exchange_ok P) xs"
    and "sorted_wrt (\<lambda>x y. rq_nxt_seq (x_request x) < rq_nxt_seq (x_request y)) xs"
  shows "\<exists>f'. extractPair P f True = Some (0, f') \<and> list_all2 pairs_exchange xs (f_pairs f')"
proof -
  have parsed: "list_all (exchange_parsed P) xs" using assms(6) by (auto simp: list_all_iff exchange_ok_def)
  obtain st where st: "f_pairs (s_flow st) = map open_pair xs" "s_tmp st = 0"
    "extractPair P f True = do { (r, s) \<leftarrow> rsp_loop P None 0 (responses_of xs) st;
       Some (r, (s_flow s)\<lparr>f_order := (f_order (s_flow s))\<lparr>o_dst := s_done s\<rparr>\<rparr>) }"
    using conversation_requests [OF assms(1-5) parsed] by blast
  then obtain s where "rsp_loop P None 0 (responses_of xs) st = Some (0, s)"
      "f_pairs (s_flow s) = map exchange_pair xs"
    using rsp_loop_conversation [OF assms(6,7), of st "[]" 0] by auto
  moreover have "list_all2 pairs_exchange xs (map exchange_pair xs)"
    by (simp add: list_all2_conv_all_nth pairs_exchange_pair)
  ultimately show ?thesis using st(3) by simp
qed

text \<open>C2. A complete conversation is paired correctly: for a closed flow without FIN records whose
  client side consists of the segments of requests, and whose server side of those of responses that
  acknowledge exactly the ends of these requests in the same order, \<^verbatim>\<open>extractPair\<close> returns 0
  and builds one pair per exchange, in order, with the request and its response, the
  capture times of the first segments, the lengths up to the last segments and the texts of the times
  and sizes of all response segments (provided that these texts fit their buffers).\<close>

theorem extractPair_conversation:
  assumes "o_src (f_order f) = requests_of xs" "o_dst (f_order f) = responses_of xs" "f_pairs f = []" "xs \<noteq> []"
    and "\<forall>s \<in> set (requests_of xs) \<union> set (responses_of xs). \<not> has_fin s"
    and "list_all (exchange_ok P) xs"
    and "sorted_wrt (\<lambda>x y. rq_nxt_seq (x_request x) < rq_nxt_seq (x_request y)) xs"
  shows "\<exists>f'. extractPair P f True = Some (0, f') \<and> list_all2 pairs_exchange xs (f_pairs f')"
  using assms by (rule conversation_paired)

text \<open>C40. The bound on the texts is needed: in such a conversation whose first response has
  so many segments that the list of their capture times (or sizes) does not fit the 256 bytes,
  \<^verbatim>\<open>extractPair\<close> writes behind the buffer.\<close>

theorem extractPair_overflow:
  assumes "o_src (f_order f) = requests_of (x # xs)" "o_dst (f_order f) = responses_of (x # xs)" "f_pairs f = []"
    and "\<forall>s \<in> set (requests_of (x # xs)) \<union> set (responses_of (x # xs)). \<not> has_fin s"
    and "list_all (exchange_parsed P) (x # xs)" "\<not> texts_fit (response_texts x)"
  shows "extractPair P f True = None"
proof -
  obtain st where st: "f_pairs (s_flow st) = map open_pair (x # xs)" "s_tmp st = 0"
    "extractPair P f True = do { (r, s) \<leftarrow> rsp_loop P None 0 (responses_of (x # xs)) st;
       Some (r, (s_flow s)\<lparr>f_order := (f_order (s_flow s))\<lparr>o_dst := s_done s\<rparr>\<rparr>) }"
    using conversation_requests [OF assms(1-3) _ assms(4,5)] by blast
  have "exchange_parsed P x" "starts_message (responses_of xs)"
    using assms(5) conversation_starts by auto
  then obtain pkt where x: "is_new RSP (x_rsp x)" "sq_pkt (x_rsp x) = Some pkt"
      "parse_response P (x_rsp x) = Some (x_response x)" "list_all continues (x_rsp_more x)"
      "tcp_ack pkt = rq_nxt_seq (x_request x)"
    unfolding exchange_parsed_def by (elim conjE exE) blast
  let ?q = "(open_pair x)\<lparr>rsp_fb_sec := sq_sec (x_rsp x), rsp_fb_usec := sq_usec (x_rsp x),
    response_header := Some (x_response x)\<rparr>"
  let ?st = "st\<lparr>s_tmp := 0, s_n := Suc (s_n st), s_flow := (s_flow st)\<lparr>f_pairs := ?q # map open_pair xs\<rparr>,
                s_found := Some (0, sq_seq (x_rsp x)), s_first := True\<rparr>"
  have start: "rsp_start P (x_rsp x) st = Some (Inr ?st)"
    using x st(1,2) by (simp add: rsp_start_def addResponse_def)
  let ?st' = "?st\<lparr>s_done := s_done ?st @ [(x_rsp x)\<lparr>sq_processed := True\<rparr>]\<rparr>"
  have "rsp_loop P None 0 (responses_of (x # xs)) st =
      rsp_account None 0 (x_rsp x) (x_rsp_more x @ responses_of xs) ?st' \<bind>
        rsp_loop P None (Suc 0) (x_rsp_more x @ responses_of xs)"
    using x(1) start by (simp add: reaches_fin_def Let_def)
  also have "\<dots> = None"
    by (rule rsp_message_overflow) (use x assms(6) \<open>starts_message (responses_of xs)\<close> in auto)
  finally show ?thesis using st(3) by (simp del: rsp_loop.simps)
qed

section \<open>When extractPair returns\<close>

text \<open>The texts of a response have room for 36 segments: each adds a comma and at most six digits
  of microseconds, and a comma and at most five digits of a 16-bit length.\<close>

definition small_record :: "seq_t \<Rightarrow> bool" where
  "small_record s \<longleftrightarrow> 0 \<le> sq_usec s \<and> sq_usec s < 1000000 \<and> sq_size s < 65536"

definition parses :: "proto \<Rightarrow> pflow \<Rightarrow> bool" where
  "parses P f \<longleftrightarrow>
     (\<forall>s \<in> set (o_src (f_order f)). is_new REQ s \<longrightarrow> parse_request P s \<noteq> None) \<and>
     (\<forall>s \<in> set (o_dst (f_order f)). is_new RSP s \<longrightarrow>
        (\<exists>r. parse_response P s = Some r \<and> rs_time r = [] \<and> rs_size r = [])) \<and>
     (\<forall>p \<in> set (f_pairs f). request_header p \<noteq> None)"

lemma small_record_texts:
  assumes "small_record s"
  shows "length (show_int (sq_usec s)) \<le> 6" "length (show_int (sint (sq_size s))) \<le> 5"
proof -
  have "nat (sq_usec s) < 10 ^ 6" using assms by (auto simp: small_record_def)
  then have "length (show_nat (nat (sq_usec s))) \<le> 6" by (rule show_nat_length) simp
  then show "length (show_int (sq_usec s)) \<le> 6"
    using assms by (simp add: small_record_def show_int_def)
  have u: "unat (sq_size s) < 65536" using assms by (simp add: small_record_def word_less_nat_alt)
  have "uint (sq_size s) < 65536" using u unfolding uint_nat by (simp only: of_nat_less_numeral_iff)
  then have "sint (sq_size s) = uint (sq_size s)"
    unfolding sint_uint by (intro signed_take_bit_int_eq_self) (rule order_trans [OF _ uint_ge_0], simp_all)
  then have "sint (sq_size s) = int (unat (sq_size s))" by (simp only: uint_nat)
  moreover have "length (show_nat (unat (sq_size s))) \<le> 5"
    by (rule show_nat_length) (use u in auto)
  ultimately show "length (show_int (sint (sq_size s))) \<le> 5"
    by (simp add: show_int_def)
qed

lemma req_loop_returns:
  assumes "\<forall>s \<in> set ss. is_new REQ s \<longrightarrow> parse_request P s \<noteq> None"
  shows "req_loop P fin True i ss st \<noteq> None"
  using assms
proof (induction P fin "True" i ss st rule: req_loop.induct)
  case (1 P fin i st)
  then show ?case by simp
next
  case (2 P fin i s ss st)
  have "\<exists>e. req_ends fin True i ss = Some e" by (auto simp: req_ends_def split: list.split)
  then obtain e where e: "req_ends fin True i ss = Some e" ..
  consider "reaches_fin fin s" | "\<not> reaches_fin fin s" "is_new REQ s"
    | "\<not> reaches_fin fin s" "\<not> is_new REQ s" "q_first st = None \<or> sq_processed s"
    | "\<not> reaches_fin fin s" "\<not> is_new REQ s" "\<not> (q_first st = None \<or> sq_processed s)"
    by blast
  then show ?case
  proof cases
    case 1
    then show ?thesis by simp
  next
    case 2
    then obtain req where r: "parse_request P s = Some req" using "2.prems" by auto
    show ?thesis using "2.hyps"(1) [OF 2 r e refl] "2.prems" 2 r e by (simp add: Let_def)
  next
    case 3
    show ?thesis using "2.hyps"(2) [OF 3] "2.prems" 3 by simp
  next
    case 4
    show ?thesis using "2.hyps"(3) [OF 4 e refl] "2.prems" 4 e by (auto simp: Let_def)
  qed
qed

lemma rsp_search_returns:
  "\<forall>p \<in> set ps. request_header p \<noteq> None \<Longrightarrow> rsp_search ps ack t \<noteq> None"
  by (induction ps ack t rule: rsp_search.induct) (auto split: option.splits)

text \<open>The state of the response scan: every pair has a request, and the texts of the response
  under construction have grown by at most \<open>m\<close> segments.\<close>

definition rsp_room :: "nat \<Rightarrow> rsp_scan \<Rightarrow> bool" where
  "rsp_room m st \<longleftrightarrow>
     (\<forall>p \<in> set (f_pairs (s_flow st)). request_header p \<noteq> None) \<and>
     s_tmp st \<le> length (f_pairs (s_flow st)) \<and>
     (\<forall>k first. s_found st = Some (k, first) \<longrightarrow> k < length (f_pairs (s_flow st)) \<and>
        (\<exists>r. response_header (f_pairs (s_flow st) ! k) = Some r \<and>
             length (rs_time r) \<le> 7 * m \<and> length (rs_size r) \<le> 7 * m))"

lemma rsp_room_done [simp]: "rsp_room m (st\<lparr>s_done := d\<rparr>) = rsp_room m st"
  by (simp add: rsp_room_def)

lemma rsp_room_mono: "rsp_room m st \<Longrightarrow> m \<le> n \<Longrightarrow> rsp_room n st"
  unfolding rsp_room_def by (meson le_trans mult_le_mono2)

lemma rsp_account_room:
  assumes room: "rsp_room m st" and s: "small_record s" and m: "m < 36"
  shows "\<exists>st'. rsp_account fin i s ss st = Some st' \<and> rsp_room (Suc m) st'"
proof (cases "s_found st")
  case None
  then show ?thesis using rsp_room_mono [OF room] by (simp add: rsp_account_def)
next
  case (Some kf)
  obtain k first where kf: "kf = (k, first)" by (cases kf)
  let ?p = "f_pairs (s_flow st) ! k"
  obtain r where r: "k < length (f_pairs (s_flow st))" "response_header ?p = Some r"
      "length (rs_time r) \<le> 7 * m" "length (rs_size r) \<le> 7 * m"
    using room Some kf by (auto simp: rsp_room_def)
  note len = small_record_texts [OF s]
  let ?r = "add_text (s_first st) s r"
  have grown: "length (rs_time ?r) \<le> 7 * Suc m" "length (rs_size ?r) \<le> 7 * Suc m"
    using len r(3,4) by (auto simp: add_text_def)
  then have "texts_fit ?r" using m by (simp add: texts_fit_def)
  then have added: "rsp_text (s_first st) s r = Some ?r" by (rule rsp_text_fits)
  have req: "request_header ?p \<noteq> None" using room r(1) by (auto simp: rsp_room_def)
  define p where "p = (if rsp_ends fin i ss then rsp_finish s first (?p\<lparr>response_header := Some ?r\<rparr>)
      else ?p\<lparr>response_header := Some ?r\<rparr>)"
  have p: "request_header p \<noteq> None" "response_header p = Some ?r"
    using req by (simp_all add: p_def rsp_finish_def Let_def)
  have "\<exists>fl. rsp_account fin i s ss st = Some (st\<lparr>s_first := False, s_flow := fl\<rparr>) \<and>
      f_pairs fl = (f_pairs (s_flow st))[k := p]"
    using Some kf r(2) added
    by (intro exI [of _ "if rsp_ends fin i ss then update_lb s ((s_flow st)\<lparr>f_pairs := (f_pairs (s_flow st))[k := p]\<rparr>)
        else (s_flow st)\<lparr>f_pairs := (f_pairs (s_flow st))[k := p]\<rparr>"])
      (simp add: rsp_account_def Let_def p_def update_lb_def)
  then obtain fl where fl: "rsp_account fin i s ss st = Some (st\<lparr>s_first := False, s_flow := fl\<rparr>)"
      "f_pairs fl = (f_pairs (s_flow st))[k := p]" by blast
  have "rsp_room (Suc m) (st\<lparr>s_first := False, s_flow := fl\<rparr>)"
    using room Some kf p r(1) grown fl(2)
    by (auto simp: rsp_room_def dest!: set_update_subset_insert [THEN subsetD])
  with fl(1) show ?thesis by blast
qed

lemma rsp_start_room:
  assumes room: "rsp_room m st" and s: "is_new RSP s"
    and parse: "\<exists>r. parse_response P s = Some r \<and> rs_time r = [] \<and> rs_size r = []"
  shows "\<exists>x. rsp_start P s st = Some x \<and> (\<forall>st'. x = Inr st' \<longrightarrow> rsp_room m st')"
proof -
  let ?ps = "f_pairs (s_flow st)"
  obtain pkt where pkt: "sq_pkt s = Some pkt" using s new_has_packet by auto
  obtain r where r: "parse_response P s = Some r" "rs_time r = []" "rs_size r = []" using parse by blast
  have "\<forall>p \<in> set (drop (s_tmp st) ?ps). request_header p \<noteq> None"
    using room by (auto simp: rsp_room_def dest: in_set_dropD)
  then obtain tmp found where search: "rsp_search (drop (s_tmp st) ?ps) (tcp_ack pkt) (s_tmp st) = Some (tmp, found)"
    using rsp_search_returns by fastforce
  note fnd = rsp_search_found [OF search]
  have tmp: "tmp \<le> length ?ps" using fnd room by (auto simp: rsp_room_def)
  show ?thesis
  proof (cases "tmp = length ?ps \<or> \<not> found")
    case True
    then show ?thesis using pkt search room tmp by (auto simp: rsp_start_def Let_def rsp_room_def)
  next
    case False
    then have f: found "tmp < length ?ps" using tmp by auto
    let ?p = "?ps ! tmp"
    have none: "response_header ?p = None" using fnd f room by (auto simp: rsp_room_def)
    let ?p' = "?p\<lparr>rsp_fb_sec := sq_sec s, rsp_fb_usec := sq_usec s, response_header := Some r\<rparr>"
    let ?st = "st\<lparr>s_tmp := tmp, s_n := Suc (s_n st), s_flow := (s_flow st)\<lparr>f_pairs := ?ps[tmp := ?p']\<rparr>,
                  s_found := Some (tmp, sq_seq s), s_first := True\<rparr>"
    have "rsp_start P s st = Some (Inr ?st)"
      using pkt search f r(1) none by (simp add: rsp_start_def Let_def addResponse_def)
    moreover have "rsp_room m ?st"
      using room f r by (auto simp: rsp_room_def dest!: set_update_subset_insert [THEN subsetD])
    ultimately show ?thesis by blast
  qed
qed

lemma rsp_loop_returns:
  assumes "rsp_room m st" "m + length ss \<le> 36" "\<forall>s \<in> set ss. small_record s"
    "\<forall>s \<in> set ss. is_new RSP s \<longrightarrow> (\<exists>r. parse_response P s = Some r \<and> rs_time r = [] \<and> rs_size r = [])"
  shows "rsp_loop P fin i ss st \<noteq> None"
  using assms
proof (induction ss arbitrary: m i st)
  case Nil
  then show ?case by simp
next
  case (Cons s ss)
  have rest: "Suc m + length ss \<le> 36" "m < 36" "small_record s" "\<forall>s \<in> set ss. small_record s"
    "\<forall>s \<in> set ss. is_new RSP s \<longrightarrow> (\<exists>r. parse_response P s = Some r \<and> rs_time r = [] \<and> rs_size r = [])"
    using Cons.prems by auto
  note IH = Cons.IH [OF _ rest(1,4,5)]
  consider "reaches_fin fin s" | "\<not> reaches_fin fin s" "is_new RSP s"
    | "\<not> reaches_fin fin s" "\<not> is_new RSP s" "s_found st = None \<or> sq_processed s"
    | "\<not> reaches_fin fin s" "\<not> is_new RSP s" "\<not> (s_found st = None \<or> sq_processed s)"
    by blast
  then show ?case
  proof cases
    case 1
    then show ?thesis by simp
  next
    case 2
    obtain x where x: "rsp_start P s st = Some x" "\<forall>st'. x = Inr st' \<longrightarrow> rsp_room m st'"
      using rsp_start_room [OF Cons.prems(1) 2(2), of P] Cons.prems(4) 2(2) by (metis list.set_intros(1))
    show ?thesis
    proof (cases x)
      case (Inl y)
      with 2 x show ?thesis by (simp add: Let_def)
    next
      case (Inr y)
      then have "rsp_room m (y\<lparr>s_done := s_done y @ [s\<lparr>sq_processed := True\<rparr>]\<rparr>)" using x by simp
      from rsp_account_room [OF this rest(3,2)] obtain z where
        "rsp_account fin i s ss (y\<lparr>s_done := s_done y @ [s\<lparr>sq_processed := True\<rparr>]\<rparr>) = Some z" "rsp_room (Suc m) z"
        by blast
      with 2 x Inr IH [of z] show ?thesis by (simp add: Let_def)
    qed
  next
    case 3
    then show ?thesis using IH rsp_room_mono [OF Cons.prems(1)] by simp
  next
    case 4
    have "rsp_room m (st\<lparr>s_done := s_done st @ [s]\<rparr>)" using Cons.prems(1) by simp
    from rsp_account_room [OF this rest(3,2)] obtain z where
      "rsp_account fin i s ss (st\<lparr>s_done := s_done st @ [s]\<rparr>) = Some z" "rsp_room (Suc m) z"
      by blast
    with 4 IH [of z] show ?thesis by auto
  qed
qed

text \<open>C30. On a closed flow \<^verbatim>\<open>extractPair\<close> always returns: if the stored message heads parse, every
  existing pair has its request and the server side has at most 36 records (with microseconds below
  a million and 16-bit lengths), no NULL is dereferenced and the texts of times and sizes never
  overflow their 256 bytes.\<close>

theorem extractPair_returns:
  assumes "parses P f" "length (o_dst (f_order f)) \<le> 36" "\<forall>s \<in> set (o_dst (f_order f)). small_record s"
  shows "extractPair P f True \<noteq> None"
proof -
  let ?f = "first_byte (o_src (f_order f)) f"
  let ?q = "\<lparr>q_done = [], q_flow = ?f, q_first = None, q_n = 0\<rparr>"
  have "req_loop P (fin_seq f) True 0 (o_src (f_order f)) ?q \<noteq> None"
    by (rule req_loop_returns) (use assms(1) in \<open>simp add: parses_def\<close>)
  then obtain q where q: "req_loop P (fin_seq f) True 0 (o_src (f_order f)) ?q = Some q" by blast
  note frame = req_loop_frame [OF q]
  let ?news = "filter (is_new REQ) (visited (fin_seq f) (o_src (f_order f)))"
  have "set ?news \<subseteq> set (o_src (f_order f))" by (auto simp: visited_def dest: set_takeWhileD)
  then have news: "\<forall>s \<in> set ?news. parse_request P s \<noteq> None" using assms(1) by (auto simp: parses_def)
  have hdr: "map request_header (f_pairs (q_flow q)) = map request_header (f_pairs f) @ map (parse_request P) ?news"
    using frame by simp
  have "\<forall>h \<in> set (map request_header (f_pairs (q_flow q))). h \<noteq> None"
    unfolding hdr using news assms(1) by (auto simp: parses_def)
  then have pairs: "\<forall>p \<in> set (f_pairs (q_flow q)). request_header p \<noteq> None" by simp
  let ?g = "(q_flow q)\<lparr>f_order := (f_order (q_flow q))\<lparr>o_src := q_done q\<rparr>\<rparr>"
  let ?st = "\<lparr>s_done = [], s_flow = ?g, s_tmp = 0, s_found = None, s_first = False, s_n = 0\<rparr>"
  have dst: "o_dst (f_order (q_flow q)) = o_dst (f_order f)" using frame by simp
  have "rsp_loop P (fin_seq f) 0 (o_dst (f_order f)) ?st \<noteq> None"
    by (rule rsp_loop_returns [of 0]) (use pairs assms in \<open>auto simp: rsp_room_def parses_def\<close>)
  then show ?thesis using q dst by (auto simp: extractPair_def Let_def)
qed

section \<open>A concrete flow\<close>

text \<open>A MySQL query and its answer, which spans \<open>n + 1\<close> segments.\<close>

definition query_bytes :: string where
  "query_bytes = [CHR 0x07, NUL, NUL, NUL, CHR 0x03] @ ''SELECT''"

definition answer_bytes :: string where
  "answer_bytes = [CHR 0x02, NUL, NUL, CHR 0x01, CHR 0x01, CHR 0x01]"

definition query_packet :: packet_t where
  "query_packet = packet_new\<lparr>cap_sec := 5, cap_usec := 100000, tcp_seq := 1000, tcp_dl := 11, ptype := REQ,
     tcp_odata := Some query_bytes\<rparr>"

definition answer_packet :: packet_t where
  "answer_packet = packet_new\<lparr>cap_sec := 5, cap_usec := 200000, tcp_seq := 70, tcp_ack := 1011, tcp_dl := 6,
     ptype := RSP, tcp_odata := Some answer_bytes\<rparr>"

definition answer_part :: "nat \<Rightarrow> seq_t" where
  "answer_part i = seq_new\<lparr>sq_seq := of_nat (76 + 10 * i), sq_nxt := of_nat (86 + 10 * i), sq_sec := 6,
     sq_usec := 100000 + int i, sq_size := 10\<rparr>"

definition query_exchange :: "nat \<Rightarrow> exchange" where
  "query_exchange n = \<lparr>x_req = seq_pkt query_packet, x_req_more = [],
     x_request = my_Request query_bytes 11 1000 1011,
     x_rsp = seq_pkt answer_packet, x_rsp_more = map answer_part [0..<n],
     x_response = my_Response answer_bytes 6 1011\<rparr>"

definition query_flow :: "nat \<Rightarrow> pflow" where
  "query_flow n = blank_flow\<lparr>f_order := order_new\<lparr>o_src := requests_of [query_exchange n],
     o_dst := responses_of [query_exchange n]\<rparr>\<rparr>"

lemma add_texts_lengths:
  "length (rs_time (add_texts first ss r)) = length (rs_time r) + sum_list (map (\<lambda>s. Suc (length (show_int (sq_usec s)))) ss)"
  by (induction ss arbitrary: first r) (auto simp: add_text_def)

lemma add_texts_sizes:
  "length (rs_size (add_texts first ss r)) \<le> length (rs_size r) + sum_list (map (\<lambda>s. Suc (length (show_int (sint (sq_size s))))) ss)"
proof (induction ss arbitrary: first r)
  case Nil
  then show ?case by simp
next
  case (Cons s ss)
  show ?case using Cons [of False "add_text first s r"] by (auto simp: add_text_def)
qed

lemma small_texts_fit:
  assumes "\<forall>s \<in> set ss. small_record s" "rs_time r = []" "rs_size r = []" "length ss \<le> 36"
  shows "texts_fit (add_texts first ss r)"
proof -
  have "sum_list (map (\<lambda>s. Suc (length (show_int (sq_usec s)))) ss) \<le> sum_list (map (\<lambda>s. 7) ss)"
    "sum_list (map (\<lambda>s. Suc (length (show_int (sint (sq_size s))))) ss) \<le> sum_list (map (\<lambda>s. 7) ss)"
    by (intro sum_list_mono, use assms(1) small_record_texts in fastforce)+
  then show ?thesis
    using add_texts_lengths [of first ss r] add_texts_sizes [of first ss r] assms(2-4)
    by (simp add: texts_fit_def sum_list_triv)
qed

lemma show_nat_length_ge: "10 ^ k \<le> n \<Longrightarrow> k < length (show_nat n)"
proof (induction n arbitrary: k rule: show_nat.induct)
  case (1 n)
  show ?case
  proof (cases "n < 10")
    case True
    have "k = 0"
    proof (rule ccontr)
      assume "k \<noteq> 0"
      then have "(10::nat) ^ 1 \<le> 10 ^ k" by (intro power_increasing) auto
      with "1.prems" True show False by simp
    qed
    then show ?thesis using True by (simp add: show_nat.simps)
  next
    case False
    have "k - 1 < length (show_nat (n div 10))"
    proof (cases k)
      case 0
      then show ?thesis by (simp add: show_nat.simps)
    next
      case (Suc j)
      with "1.prems" have "10 ^ j \<le> n div 10" by (simp add: less_eq_div_iff_mult_less_eq mult.commute)
      with "1.IH" [OF False this] Suc show ?thesis by simp
    qed
    with False show ?thesis by (simp add: show_nat.simps [of n])
  qed
qed

lemma query_exchange_parsed: "exchange_parsed my_proto (query_exchange n)"
proof -
  have "is_new REQ (x_req (query_exchange n)) \<and> is_new RSP (x_rsp (query_exchange n))"
    by (simp add: is_new_def query_exchange_def query_packet_def answer_packet_def packet_new_def seq_pkt_def type_defs)
  moreover have "parse_request my_proto (x_req (query_exchange n)) = Some (x_request (query_exchange n))"
    by (simp add: parse_request_def my_proto_def query_exchange_def query_packet_def packet_new_def query_bytes_def seq_pkt_def)
  moreover have "parse_response my_proto (x_rsp (query_exchange n)) = Some (x_response (query_exchange n))"
    by (simp add: parse_response_def my_proto_def query_exchange_def answer_packet_def packet_new_def answer_bytes_def seq_pkt_def)
  moreover have "list_all continues (x_rsp_more (query_exchange n))"
    by (simp add: query_exchange_def list_all_iff continues_def answer_part_def seq_new_def)
  ultimately show ?thesis
    by (simp add: exchange_parsed_def) (simp add: query_exchange_def seq_pkt_def answer_packet_def packet_new_def my_Request_def)
qed

lemma query_exchange_no_fin:
  "\<forall>s \<in> set (requests_of [query_exchange n]) \<union> set (responses_of [query_exchange n]). \<not> has_fin s"
  by (auto simp: query_exchange_def has_fin_def seq_pkt_def query_packet_def answer_packet_def packet_new_def
      answer_part_def seq_new_def)

lemma query_exchange_small: "n \<le> 50 \<Longrightarrow> \<forall>s \<in> set (x_rsp (query_exchange n) # x_rsp_more (query_exchange n)). small_record s"
  by (auto simp: query_exchange_def small_record_def seq_pkt_def answer_packet_def packet_new_def answer_part_def seq_new_def)

lemma query_flow_simps:
  "o_src (f_order (query_flow n)) = requests_of [query_exchange n]"
  "o_dst (f_order (query_flow n)) = responses_of [query_exchange n]" "f_pairs (query_flow n) = []"
  by (simp_all add: query_flow_def blank_flow_def)

lemma query_exchange_ok: "list_all (exchange_ok my_proto) [query_exchange 20]"
proof -
  have "texts_fit (response_texts (query_exchange 20))"
    by (rule small_texts_fit [OF query_exchange_small]) (simp_all add: query_exchange_def my_Response_def)
  then show ?thesis using query_exchange_parsed by (simp add: exchange_ok_def)
qed

theorem extractPair_conversation_witness:
  "\<exists>f'. extractPair my_proto (query_flow 20) True = Some (0, f') \<and>
     list_all2 pairs_exchange [query_exchange 20] (f_pairs f')"
  by (rule extractPair_conversation)
    (use query_exchange_ok query_exchange_no_fin query_flow_simps in simp_all)

lemma query_flow_paired:
  "\<exists>f'. extractPair my_proto (query_flow 20) True = Some (0, f') \<and>
     list_all2 pairs_exchange [query_exchange 20] (f_pairs f')"
  by (rule conversation_paired)
    (use query_exchange_ok query_exchange_no_fin query_flow_simps in simp_all)

theorem extractPair_overflow_witness: "extractPair my_proto (query_flow 36) True = None"
proof (rule extractPair_overflow [where xs = "[]"])
  let ?ss = "x_rsp (query_exchange 36) # x_rsp_more (query_exchange 36)"
  have "sum_list (map (\<lambda>s. 7) ?ss) \<le> sum_list (map (\<lambda>s. Suc (length (show_int (sq_usec s)))) ?ss)"
  proof (rule sum_list_mono)
    fix s assume "s \<in> set ?ss"
    then have "100000 \<le> sq_usec s"
      by (auto simp: query_exchange_def seq_pkt_def answer_packet_def packet_new_def answer_part_def)
    then have "5 < length (show_nat (nat (sq_usec s)))" by (intro show_nat_length_ge) simp
    then show "7 \<le> Suc (length (show_int (sq_usec s)))"
      using \<open>100000 \<le> sq_usec s\<close> by (simp add: show_int_def)
  qed
  then have "\<not> length (rs_time (response_texts (query_exchange 36))) < 256"
    unfolding add_texts_lengths by (simp add: query_exchange_def sum_list_triv o_def)
  then show "\<not> texts_fit (response_texts (query_exchange 36))" unfolding texts_fit_def by blast
qed (use query_exchange_no_fin query_exchange_parsed query_flow_simps in simp_all)

theorem extractPair_returns_witness: "extractPair my_proto (query_flow 20) True \<noteq> None"
proof (rule extractPair_returns)
  show "parses my_proto (query_flow 20)"
    using query_exchange_parsed [of 20] query_flow_simps [of 20]
    by (auto simp: parses_def exchange_parsed_def list_all_iff)
      (simp_all add: query_exchange_def my_Response_def continues_def)
qed (use query_flow_simps query_exchange_small [of 20] in \<open>auto simp: query_exchange_def\<close>)

text \<open>The general facts about one call, on the same flow.\<close>

theorem extractPair_requests_witness:
  "\<exists>f'. extractPair my_proto (query_flow 20) True = Some (0, f') \<and>
     map request_header (f_pairs f') = map (parse_request my_proto) (new_requests (query_flow 20))"
proof -
  obtain f' where f': "extractPair my_proto (query_flow 20) True = Some (0, f')"
    using query_flow_paired by blast
  from extractPair_requests [OF this] f' show ?thesis by (simp add: query_flow_simps)
qed

theorem extractPair_responses_witness:
  "\<exists>f'. extractPair my_proto (query_flow 20) True = Some (0, f') \<and>
     (\<exists>s \<in> set (responses_of [query_exchange 20]). is_new RSP s \<and> answers my_proto (f_pairs f' ! 0) s)"
proof -
  obtain f' where f': "extractPair my_proto (query_flow 20) True = Some (0, f')"
      "list_all2 pairs_exchange [query_exchange 20] (f_pairs f')"
    using query_flow_paired by blast
  then obtain p where p: "f_pairs f' = [p]" "response_header p \<noteq> None"
    by (auto simp: list_all2_Cons1 pairs_exchange_def)
  with extractPair_responses [OF f'(1), of 0] f'(1) show ?thesis
    unfolding query_flow_simps by auto
qed

text \<open>The same flow when the query was paired by an earlier call and the answer came later.\<close>

definition late_flow :: pflow where
  "late_flow = (query_flow 0)\<lparr>f_order := (f_order (query_flow 0))\<lparr>o_src := [(seq_pkt query_packet)\<lparr>sq_processed := True\<rparr>]\<rparr>,
     f_pairs := [open_pair (query_exchange 0)]\<rparr>"


end
