(* ===== verification/Values.thy ===== *)
theory Values
  imports Prelude Complex_Main
begin

text \<open>
  \<^verbatim>\<open>analysis.hpp\<close>/\<^verbatim>\<open>analysis.cpp\<close>, \<^verbatim>\<open>value.hpp\<close>/\<^verbatim>\<open>value.cpp\<close> and \<^verbatim>\<open>cf_list.h\<close>/\<^verbatim>\<open>cf_list.c\<close>: the
  settings of an analysis, the cells in which the averaging metrics keep their numbers, and the
  list of cumulative frequencies.  A \<^verbatim>\<open>double\<close> is an exact rational: rounding is not modelled.
  The mutexes are not modelled: each operation holds its lock throughout.
\<close>

section \<open>Analysis\<close>

record analysis =
  an_debug :: bool
  livemode :: int
  an_socket :: int
  an_interface :: string
  interfaceId :: u32
  interval :: u32
  serverMode :: bool
  status :: int
  int_step :: u32
  duration :: u32

definition Analysis_new :: "int \<Rightarrow> string \<Rightarrow> u32 \<Rightarrow> u32 \<Rightarrow> u32 \<Rightarrow> analysis" where
  "Analysis_new sock netInt netIntId ival dur =
     \<lparr>an_debug = False, livemode = 1, an_socket = sock, an_interface = netInt, interfaceId = netIntId,
      interval = ival, serverMode = True, status = 0, int_step = 0, duration = dur\<rparr>"

definition isServerMode :: "analysis \<Rightarrow> bool" where "isServerMode an = serverMode an"

definition analysis_stop :: "analysis \<Rightarrow> analysis" where
  "analysis_stop an = an\<lparr>status := -1\<rparr>"

definition isStopped :: "analysis \<Rightarrow> bool" where "isStopped an \<longleftrightarrow> status an = -1"

section \<open>Value\<close>

type_synonym double = rat

definition DBL_MAX :: double where "DBL_MAX = of_int ((2 ^ 53 - 1) * 2 ^ 971)"
definition EPSILON :: double where "EPSILON = 1 / 10 ^ 7"

record Value =
  val :: double

definition Value_set :: "double \<Rightarrow> Value \<Rightarrow> Value" where "Value_set v x = x\<lparr>val := v\<rparr>"

definition Value_new :: Value where "Value_new = \<lparr>val = 0\<rparr>"

definition isClose :: "double \<Rightarrow> Value \<Rightarrow> bool" where
  "isClose v x \<longleftrightarrow> \<bar>val x - v\<bar> < EPSILON"

definition Value_get :: "Value \<Rightarrow> double" where
  "Value_get x = (if isClose DBL_MAX x then 0 else val x)"

definition Value_add :: "double \<Rightarrow> Value \<Rightarrow> Value" where "Value_add v x = x\<lparr>val := val x + v\<rparr>"

definition Value_minimize :: "double \<Rightarrow> Value \<Rightarrow> Value" where
  "Value_minimize v x = (if v < val x then x\<lparr>val := v\<rparr> else x)"

definition Value_maximize :: "double \<Rightarrow> Value \<Rightarrow> Value" where
  "Value_maximize v x = (if v > val x then x\<lparr>val := v\<rparr> else x)"

lemmas value_defs = Value_set_def Value_new_def Value_add_def Value_minimize_def Value_maximize_def

text \<open>Conversions from \<^verbatim>\<open>double\<close> truncate towards zero.\<close>

definition trunc :: "double \<Rightarrow> int" where
  "trunc x = (if x \<ge> 0 then floor x else ceiling x)"

lemma trunc_of_int [simp]: "trunc (of_int i) = i" "trunc (of_nat n) = int n" "trunc 0 = 0" "trunc (numeral k) = numeral k"
  by (simp_all add: trunc_def)

section \<open>The list of cumulative frequencies\<close>

definition CFL_SIZE :: int where "CFL_SIZE = 100"
definition MIN_FREQ :: double where "MIN_FREQ = 1 / of_int CFL_SIZE"

record cf_item =
  cf_name :: "string option"
  c_freq :: double

record cf_list =
  cf_slots :: "cf_item list"
  cf_size :: int
  cf_count :: int

text \<open>The slots are zero when the list is created.\<close>

definition cf_zero :: cf_list where
  "cf_zero = \<lparr>cf_slots = replicate 100 \<lparr>cf_name = None, c_freq = 0\<rparr>, cf_size = 0, cf_count = 0\<rparr>"

definition cfl_init :: "cf_list \<Rightarrow> cf_list" where
  "cfl_init cfl = cfl\<lparr>cf_size := CFL_SIZE, cf_count := 0\<rparr>"

definition cfl_add :: "string \<Rightarrow> double \<Rightarrow> cf_list \<Rightarrow> cf_list" where
  "cfl_add name freq cfl =
     (if cf_count cfl \<ge> cf_size cfl then cfl
      else cfl\<lparr>cf_slots := (cf_slots cfl)[nat (cf_count cfl) := \<lparr>cf_name = Some name, c_freq = freq\<rparr>],
               cf_count := cf_count cfl + 1\<rparr>)"

definition cfl_delete :: "cf_list \<Rightarrow> cf_list" where
  "cfl_delete cfl =
     cfl\<lparr>cf_slots := map (\<lambda>i. if int i < cf_count cfl then \<lparr>cf_name = None, c_freq = 0\<rparr> else cf_slots cfl ! i)
           [0..<length (cf_slots cfl)],
         cf_count := 0\<rparr>"

text \<open>The entries in use.\<close>

definition cfl_items :: "cf_list \<Rightarrow> cf_item list" where
  "cfl_items cfl = take (nat (cf_count cfl)) (cf_slots cfl)"

definition cfl_ok :: "cf_list \<Rightarrow> bool" where
  "cfl_ok cfl \<longleftrightarrow> length (cf_slots cfl) = 100 \<and> cf_size cfl = CFL_SIZE \<and> 0 \<le> cf_count cfl \<and> cf_count cfl \<le> CFL_SIZE"

lemma cfl_init_ok: "cfl_ok (cfl_init cf_zero) \<and> cfl_items (cfl_init cf_zero) = []"
  by (simp add: cfl_ok_def cfl_init_def cf_zero_def CFL_SIZE_def cfl_items_def)

lemma cfl_ok_count: "cfl_ok cfl \<Longrightarrow> cf_count cfl = int (length (cfl_items cfl))"
  by (auto simp: cfl_ok_def cfl_items_def CFL_SIZE_def)

lemma cfl_add_ok: "cfl_ok cfl \<Longrightarrow> cfl_ok (cfl_add name freq cfl)"
  by (auto simp: cfl_ok_def cfl_add_def)

lemma cfl_add_items:
  assumes "cfl_ok cfl" "length (cfl_items cfl) < 100"
  shows "cfl_items (cfl_add name freq cfl) = cfl_items cfl @ [\<lparr>cf_name = Some name, c_freq = freq\<rparr>]"
proof -
  have c: "cf_count cfl < 100" using cfl_ok_count [OF assms(1)] assms(2) by simp
  then have "nat (cf_count cfl) < length (cf_slots cfl)" using assms(1) by (auto simp: cfl_ok_def)
  with c assms(1) show ?thesis
    by (simp add: cfl_add_def cfl_items_def cfl_ok_def CFL_SIZE_def nat_add_distrib take_Suc_conv_app_nth)
qed

lemma cfl_delete_ok: "cfl_ok cfl \<Longrightarrow> cfl_ok (cfl_delete cfl) \<and> cfl_items (cfl_delete cfl) = []"
  by (simp add: cfl_ok_def cfl_delete_def CFL_SIZE_def cfl_items_def)

section \<open>Values that are far from DBL\_MAX\<close>

lemma DBL_MAX_large: "10 ^ 300 < DBL_MAX"
proof -
  have "(10 :: int) ^ 300 < (2 ^ 53 - 1) * 2 ^ 971" by simp
  then show ?thesis
    unfolding DBL_MAX_def by (metis of_int_less_iff of_int_numeral of_int_power)
qed

lemma Value_get_small: "val x \<le> 10 ^ 200 \<Longrightarrow> Value_get x = val x"
proof -
  assume x: "val x \<le> 10 ^ 200"
  have "(10 :: rat) ^ 200 + 1 < 10 ^ 300" by simp
  then have "val x + EPSILON < DBL_MAX" using x DBL_MAX_large by (simp add: EPSILON_def)
  then show ?thesis by (auto simp: Value_get_def isClose_def)
qed

lemma Value_get_untouched: "Value_get \<lparr>val = DBL_MAX\<rparr> = 0"
  by (simp add: Value_get_def isClose_def EPSILON_def)

section \<open>Runs\<close>

text \<open>A list of events handled one after the other; a handler is \<^term>\<open>None\<close> where the code reads
  memory it does not own.\<close>

fun steps :: "('x \<Rightarrow> 'm \<Rightarrow> 'm option) \<Rightarrow> 'x list \<Rightarrow> 'm \<Rightarrow> 'm option" where
  "steps f [] m = Some m"
| "steps f (x # xs) m = do { m \<leftarrow> f x m; steps f xs m }"

lemma steps_append: "steps f (xs @ ys) m = do { m \<leftarrow> steps f xs m; steps f ys m }"
  by (induction xs arbitrary: m) (simp_all add: bind_assoc cong: Option.bind_cong)

lemma steps_total: "steps (\<lambda>x m. Some (f x m)) xs m = Some (fold f xs m)"
  by (induction xs arbitrary: m) simp_all

end
