(* ===== verification/Metric_Avg.thy ===== *)
theory Metric_Avg
  imports Values Http Memcached Pairs
begin

text \<open>
  \<^verbatim>\<open>MetricAvg\<close> (\<^verbatim>\<open>metricAvg.hpp\<close>, \<^verbatim>\<open>metricAvg.cpp\<close>) and its classes \<^verbatim>\<open>Rst\<close>, \<^verbatim>\<open>ReqRate\<close>,
  \<^verbatim>\<open>ErrRate\<close>, \<^verbatim>\<open>Tp\<close>, \<^verbatim>\<open>TpRev\<close> and \<^verbatim>\<open>ConnRate\<close>: averages, minima and maxima over an interval.
  What an interval reports is the triple of the average, the minimum and the maximum.
\<close>

section \<open>The base class\<close>

record metric_avg =
  a_subtotal :: Value
  a_total :: Value
  a_sum :: Value
  a_subsum :: Value
  a_avg :: Value
  a_min :: Value
  a_max :: Value

text \<open>\<^verbatim>\<open>reset\<close> and \<^verbatim>\<open>getAvg\<close> are virtual; these are the methods of the base class.\<close>

definition MetricAvg_reset :: "'a metric_avg_scheme \<Rightarrow> 'a metric_avg_scheme" where
  "MetricAvg_reset m = m\<lparr>a_total := Value_set 0 (a_total m), a_subtotal := Value_set 0 (a_subtotal m),
     a_sum := Value_set 0 (a_sum m), a_subsum := Value_set 0 (a_subsum m), a_avg := Value_set 0 (a_avg m),
     a_min := Value_set DBL_MAX (a_min m), a_max := Value_set 0 (a_max m)\<rparr>"

definition MetricAvg_getAvg :: "'a metric_avg_scheme \<Rightarrow> double" where
  "MetricAvg_getAvg m =
     (if isClose 0 (a_total m) then 0 else Value_get (a_sum m) / Value_get (a_total m))"

text \<open>The constructor calls \<^verbatim>\<open>reset\<close> while the object is still one of the base class.\<close>

definition MetricAvg_new :: metric_avg where
  "MetricAvg_new = MetricAvg_reset \<lparr>a_subtotal = Value_new, a_total = Value_new, a_sum = Value_new,
     a_subsum = Value_new, a_avg = Value_new, a_min = Value_new, a_max = Value_new\<rparr>"

definition MetricAvg_onTimerExpired :: "'a metric_avg_scheme \<Rightarrow> 'a metric_avg_scheme" where
  "MetricAvg_onTimerExpired m = m"

type_synonym avg_msg = "double \<times> double \<times> double"

text \<open>The fields that \<^verbatim>\<open>sendMsg\<close> fills in.\<close>

definition avg_values :: "'a metric_avg_scheme \<Rightarrow> avg_msg" where
  "avg_values m = (Value_get (a_avg m), Value_get (a_min m), Value_get (a_max m))"

definition MetricAvg_onIntervalExpired ::
    "('a metric_avg_scheme \<Rightarrow> double) \<Rightarrow> ('a metric_avg_scheme \<Rightarrow> 'a metric_avg_scheme) \<Rightarrow> analysis \<Rightarrow>
       'a metric_avg_scheme \<Rightarrow> avg_msg option \<times> 'a metric_avg_scheme" where
  "MetricAvg_onIntervalExpired getAvg reset an m =
     (let m = m\<lparr>a_avg := Value_set (getAvg m) (a_avg m)\<rparr>
      in (if isServerMode an then Some (avg_values m) else None, reset m))"

section \<open>Rst\<close>

definition rst_time :: "pair \<Rightarrow> double" where
  "rst_time p = (of_int (rsp_fb_sec p) + of_int (rsp_fb_usec p) * (1 / 10 ^ 6)) -
     (of_int (req_fb_sec p) + of_int (req_fb_usec p) * (1 / 10 ^ 6))"

definition Rst_onResponseReceived :: "pair \<Rightarrow> metric_avg \<Rightarrow> metric_avg" where
  "Rst_onResponseReceived p m =
     (let rst = rst_time p
      in m\<lparr>a_total := Value_add 1 (a_total m), a_sum := Value_add rst (a_sum m),
           a_min := Value_minimize rst (a_min m), a_max := Value_maximize rst (a_max m)\<rparr>)"

section \<open>ReqRate and ConnRate\<close>

definition ReqRate_getAvg :: "analysis \<Rightarrow> metric_avg \<Rightarrow> double" where
  "ReqRate_getAvg an m = (if interval an \<le> 0 then 0 else Value_get (a_sum m) / of_nat (unat (interval an)))"

definition ReqRate_onRequestReceived :: "metric_avg \<Rightarrow> metric_avg" where
  "ReqRate_onRequestReceived m = m\<lparr>a_subtotal := Value_add 1 (a_subtotal m)\<rparr>"

definition ReqRate_onTimerExpired :: "metric_avg \<Rightarrow> metric_avg" where
  "ReqRate_onTimerExpired m =
     (let req_subtotal = of_int (trunc (Value_get (a_subtotal m)))
      in m\<lparr>a_min := Value_minimize req_subtotal (a_min m), a_max := Value_maximize req_subtotal (a_max m),
           a_sum := Value_add req_subtotal (a_sum m), a_subtotal := Value_set 0 (a_subtotal m)\<rparr>)"

definition ConnRate_getAvg :: "analysis \<Rightarrow> metric_avg \<Rightarrow> double" where
  "ConnRate_getAvg an m = (if interval an \<le> 0 then 0 else Value_get (a_sum m) / of_nat (unat (interval an)))"

definition ConnRate_onNewFlowReceived :: "metric_avg \<Rightarrow> metric_avg" where
  "ConnRate_onNewFlowReceived m = m\<lparr>a_subtotal := Value_add 1 (a_subtotal m)\<rparr>"

definition ConnRate_onTimerExpired :: "metric_avg \<Rightarrow> metric_avg" where
  "ConnRate_onTimerExpired m =
     (let connCnt = of_int (trunc (Value_get (a_subtotal m)))
      in MetricAvg_onTimerExpired
           (m\<lparr>a_sum := Value_add connCnt (a_sum m), a_min := Value_minimize connCnt (a_min m),
              a_max := Value_maximize connCnt (a_max m), a_subtotal := Value_set 0 (a_subtotal m)\<rparr>))"

section \<open>ErrRate\<close>

definition ErrRate_getRate :: "metric_avg \<Rightarrow> double" where
  "ErrRate_getRate m =
     (if Value_get (a_subtotal m) \<le> 0 then 0 else Value_get (a_subsum m) / Value_get (a_subtotal m))"

text \<open>\<^verbatim>\<open>hasErrorStatus\<close> of the response of a pair; \<^verbatim>\<open>mysql.cpp\<close> has no such class.\<close>

definition response_error :: "pair \<Rightarrow> bool option" where
  "response_error p = do {
     r \<leftarrow> response_header p;
     (case rs_ext r of
        Http_Rsp h \<Rightarrow> Some (http_hasErrorStatus (hs_statusCode h))
      | Memcached_Rsp h \<Rightarrow> Some (mc_hasErrorStatus (ms_statusCode h))
      | MySQL_Rsp _ \<Rightarrow> None)
   }"

definition ErrRate_onResponseReceived :: "pair \<Rightarrow> metric_avg \<Rightarrow> metric_avg option" where
  "ErrRate_onResponseReceived p m = do {
     bad \<leftarrow> response_error p;
     let m = m\<lparr>a_subtotal := Value_add 1 (a_subtotal m), a_total := Value_add 1 (a_total m)\<rparr>;
     Some (if bad then m\<lparr>a_subsum := Value_add 1 (a_subsum m), a_sum := Value_add 1 (a_sum m)\<rparr> else m)
   }"

definition ErrRate_onTimerExpired :: "metric_avg \<Rightarrow> metric_avg" where
  "ErrRate_onTimerExpired m =
     (let rate = ErrRate_getRate m
      in m\<lparr>a_min := Value_minimize rate (a_min m), a_max := Value_maximize rate (a_max m),
           a_subsum := Value_set 0 (a_subsum m), a_subtotal := Value_set 0 (a_subtotal m)\<rparr>)"

section \<open>Tp and TpRev\<close>

text \<open>The two classes differ in the counter of the flow they read.\<close>

record tp = metric_avg +
  timerRef :: u32
  intervalRef :: u32

definition Tp_new :: tp where
  "Tp_new = metric_avg.extend MetricAvg_new \<lparr>timerRef = 0, intervalRef = 0\<rparr>"

definition Tp_getAvg :: "analysis \<Rightarrow> tp \<Rightarrow> double" where
  "Tp_getAvg an m =
     (if interval an \<le> 0 then 0
      else (Value_get (a_total m) - of_nat (unat (intervalRef m))) / of_nat (unat (interval an)))"

definition Tp_onFlowUpdate :: "'pr flow \<Rightarrow> tp \<Rightarrow> tp" where
  "Tp_onFlowUpdate flow m =
     (let payload = payload_src flow in m\<lparr>a_total := Value_set (of_nat (unat payload)) (a_total m)\<rparr>)"

definition TpRev_onFlowUpdate :: "'pr flow \<Rightarrow> tp \<Rightarrow> tp" where
  "TpRev_onFlowUpdate flow m =
     (let payload = payload_dst flow in m\<lparr>a_total := Value_set (of_nat (unat payload)) (a_total m)\<rparr>)"

definition Tp_onTimerExpired :: "tp \<Rightarrow> tp" where
  "Tp_onTimerExpired m0 =
     (let m = MetricAvg_onTimerExpired m0
      in if Value_get (a_total m) > 0
         then let newTimerRef = word_of_int (trunc (Value_get (a_total m)));
                  subtotal = newTimerRef - timerRef m;
                  m = m\<lparr>timerRef := newTimerRef\<rparr>
              in m\<lparr>a_min := Value_minimize (of_nat (unat subtotal)) (a_min m),
                   a_max := Value_maximize (of_nat (unat subtotal)) (a_max m)\<rparr>
         else m)"

definition Tp_reset :: "tp \<Rightarrow> tp" where
  "Tp_reset m = MetricAvg_reset (m\<lparr>intervalRef := word_of_int (trunc (Value_get (a_total m)))\<rparr>)"

section \<open>Metrics that start again at each interval\<close>

text \<open>What the reports of an averaging metric depend on: the events of their own interval.\<close>

fun run_intervals :: "('x \<Rightarrow> 'm \<Rightarrow> 'm option) \<Rightarrow> ('m \<Rightarrow> 'r option \<times> 'm) \<Rightarrow> 'x list list \<Rightarrow> 'm \<Rightarrow> ('r list \<times> 'm) option" where
  "run_intervals f expire [] m = Some ([], m)"
| "run_intervals f expire (xs # xss) m = do {
     m \<leftarrow> steps f xs m;
     let (r, m) = expire m;
     (rs, m) \<leftarrow> run_intervals f expire xss m;
     Some ((case r of None \<Rightarrow> rs | Some r \<Rightarrow> r # rs), m)
   }"

locale interval_metric =
  fixes start :: 'm
    and handle :: "'x \<Rightarrow> 'm \<Rightarrow> 'm option"
    and expire :: "'m \<Rightarrow> 'r option \<times> 'm"
    and report :: "'x list \<Rightarrow> 'r"
    and ok :: "'x list \<Rightarrow> bool"
  assumes restarts: "ok xs \<Longrightarrow> \<exists>m. steps handle xs start = Some m \<and> expire m = (Some (report xs), start)"
begin

lemma reports: "\<forall>xs \<in> set xss. ok xs \<Longrightarrow> run_intervals handle expire xss start = Some (map report xss, start)"
proof (induction xss)
  case Nil
  then show ?case by simp
next
  case (Cons xs xss)
  obtain m where "steps handle xs start = Some m" "expire m = (Some (report xs), start)"
    using restarts [of xs] Cons.prems by auto
  with Cons show ?case by simp
qed

end

text \<open>Minima and maxima as they are reported: 0 for the minimum of nothing, and maxima start
  from 0.\<close>

definition low :: "double list \<Rightarrow> double" where
  "low xs = (if xs = [] then 0 else Min (set xs))"

definition high :: "double list \<Rightarrow> double" where
  "high xs = Max (insert 0 (set xs))"

lemma fold_minimize:
  "fold Value_minimize xs v = \<lparr>val = Min (insert (val v) (set xs))\<rparr>"
proof (induction xs arbitrary: v)
  case Nil
  then show ?case by simp
next
  case (Cons x xs)
  have "val (Value_minimize x v) = min x (val v)" by (simp add: Value_minimize_def)
  moreover have "Min (insert (min x (val v)) (set xs)) = Min (insert (val v) (insert x (set xs)))"
    by (cases "xs = []") (simp_all add: min.left_commute min.commute min.assoc)
  ultimately show ?case by (simp add: Cons.IH)
qed

lemma fold_maximize:
  "fold Value_maximize xs v = \<lparr>val = Max (insert (val v) (set xs))\<rparr>"
proof (induction xs arbitrary: v)
  case Nil
  then show ?case by simp
next
  case (Cons x xs)
  have "val (Value_maximize x v) = max x (val v)" by (simp add: Value_maximize_def)
  moreover have "Max (insert (max x (val v)) (set xs)) = Max (insert (val v) (insert x (set xs)))"
    by (cases "xs = []") (simp_all add: max.left_commute max.commute max.assoc)
  ultimately show ?case by (simp add: Cons.IH)
qed

lemma reported_low:
  assumes "\<forall>x \<in> set xs. x \<le> 10 ^ 200"
  shows "Value_get (fold Value_minimize xs \<lparr>val = DBL_MAX\<rparr>) = low xs"
proof (cases "xs = []")
  case True
  then show ?thesis by (simp add: low_def Value_get_untouched)
next
  case False
  have "(10 :: rat) ^ 200 < 10 ^ 300" by simp
  then have "\<forall>x \<in> set xs. x < DBL_MAX" using assms DBL_MAX_large by force
  then have "Min (insert DBL_MAX (set xs)) = Min (set xs)"
    using False by (simp add: min_def) (metis List.finite_set Min_in not_less set_empty)
  moreover have "Min (set xs) \<le> 10 ^ 200" using assms False by (simp add: Min_le_iff)
  ultimately show ?thesis using False by (simp add: fold_minimize Value_get_small low_def)
qed

lemma reported_high:
  assumes "\<forall>x \<in> set xs. x \<le> 10 ^ 200"
  shows "Value_get (fold Value_maximize xs \<lparr>val = 0\<rparr>) = high xs"
  using assms by (subst Value_get_small) (simp_all add: fold_maximize high_def)

lemma fold_add: "fold Value_add xs v = \<lparr>val = val v + sum_list xs\<rparr>"
  by (induction xs arbitrary: v) (simp_all add: Value_add_def algebra_simps)

lemma MetricAvg_new_fields [simp]:
  "a_subtotal MetricAvg_new = \<lparr>val = 0\<rparr>" "a_total MetricAvg_new = \<lparr>val = 0\<rparr>"
  "a_sum MetricAvg_new = \<lparr>val = 0\<rparr>" "a_subsum MetricAvg_new = \<lparr>val = 0\<rparr>"
  "a_avg MetricAvg_new = \<lparr>val = 0\<rparr>" "a_min MetricAvg_new = \<lparr>val = DBL_MAX\<rparr>"
  "a_max MetricAvg_new = \<lparr>val = 0\<rparr>"
  by (simp_all add: MetricAvg_new_def MetricAvg_reset_def Value_new_def Value_set_def)

lemma MetricAvg_reset_new: "MetricAvg_reset (m :: metric_avg) = MetricAvg_new"
  by (simp add: MetricAvg_new_def MetricAvg_reset_def Value_new_def Value_set_def)

lemma expire_report:
  assumes "serverMode an" "getAvg m \<le> 10 ^ 200" "a_min m = fold Value_minimize xs \<lparr>val = DBL_MAX\<rparr>"
    "a_max m = fold Value_maximize xs \<lparr>val = 0\<rparr>" "\<forall>x \<in> set xs. x \<le> 10 ^ 200"
  shows "MetricAvg_onIntervalExpired getAvg MetricAvg_reset an (m :: metric_avg) =
    (Some (getAvg m, low xs, high xs), MetricAvg_new)"
  using assms reported_low [OF assms(5)] reported_high [OF assms(5)]
  by (simp add: MetricAvg_onIntervalExpired_def isServerMode_def avg_values_def Value_set_def
      Value_get_small MetricAvg_reset_new)

section \<open>What Rst reports\<close>

definition mean :: "double list \<Rightarrow> double" where
  "mean xs = (if xs = [] then 0 else sum_list xs / of_nat (length xs))"

definition rst_report :: "pair list \<Rightarrow> avg_msg" where
  "rst_report ps = (let ts = map rst_time ps in (mean ts, low ts, high ts))"

definition rst_bounded :: "pair list \<Rightarrow> bool" where
  "rst_bounded ps \<longleftrightarrow> (\<forall>p \<in> set ps. \<bar>rst_time p\<bar> \<le> 2 ^ 65) \<and> length ps \<le> 2 ^ 64"

lemma Rst_steps:
  "steps (\<lambda>p m. Some (Rst_onResponseReceived p m)) ps m =
     Some (m\<lparr>a_total := fold Value_add (map (\<lambda>_. 1) ps) (a_total m),
             a_sum := fold Value_add (map rst_time ps) (a_sum m),
             a_min := fold Value_minimize (map rst_time ps) (a_min m),
             a_max := fold Value_maximize (map rst_time ps) (a_max m)\<rparr>)"
  by (induction ps arbitrary: m) (simp_all add: Rst_onResponseReceived_def Let_def)

lemma sum_list_bounded:
  fixes xs :: "double list"
  assumes "\<forall>x \<in> set xs. x \<le> b" "0 \<le> b"
  shows "sum_list xs \<le> of_nat (length xs) * b"
  using assms by (induction xs) (auto simp: algebra_simps intro: add_mono)

lemma mean_bounded:
  assumes "\<forall>x \<in> set xs. x \<le> b" "0 \<le> b"
  shows "mean xs \<le> b"
proof (cases "xs = []")
  case True
  with assms show ?thesis by (simp add: mean_def)
next
  case False
  with sum_list_bounded [OF assms] show ?thesis
    by (simp add: mean_def divide_le_eq mult.commute)
qed

lemma sum_list_of_nat: "sum_list (map of_nat ns) = (of_nat (sum_list ns) :: double)"
  by (induction ns) simp_all

lemma of_nat_close: "isClose 0 \<lparr>val = of_nat n\<rparr> \<longleftrightarrow> n = 0"
  by (cases n) (simp_all add: isClose_def EPSILON_def abs_of_nonneg)

lemma sum_list_ones: "sum_list (map (\<lambda>_. 1) xs) = (of_nat (length xs) :: double)"
  by (induction xs) simp_all

lemma Rst_restarts:
  assumes "serverMode an" "rst_bounded ps"
  shows "\<exists>m. steps (\<lambda>p m. Some (Rst_onResponseReceived p m)) ps MetricAvg_new = Some m \<and>
     MetricAvg_onIntervalExpired MetricAvg_getAvg MetricAvg_reset an m = (Some (rst_report ps), MetricAvg_new)"
proof -
  let ?ts = "map rst_time ps"
  let ?m = "MetricAvg_new\<lparr>a_total := \<lparr>val = of_nat (length ps)\<rparr>, a_sum := \<lparr>val = sum_list ?ts\<rparr>,
      a_min := fold Value_minimize ?ts \<lparr>val = DBL_MAX\<rparr>, a_max := fold Value_maximize ?ts \<lparr>val = 0\<rparr>\<rparr>"
  have run: "steps (\<lambda>p m. Some (Rst_onResponseReceived p m)) ps MetricAvg_new = Some ?m"
    by (simp add: Rst_steps fold_add sum_list_ones)
  have b: "\<forall>t \<in> set ?ts. t \<le> 2 ^ 65" using assms(2) by (auto simp: rst_bounded_def abs_le_iff)
  have n: "of_nat (length ps) \<le> (2 :: rat) ^ 64"
    using assms(2) unfolding rst_bounded_def by (metis of_nat_le_iff of_nat_numeral of_nat_power)
  have "sum_list ?ts \<le> of_nat (length ps) * 2 ^ 65" using sum_list_bounded [OF b] by simp
  also have "\<dots> \<le> 2 ^ 64 * 2 ^ 65" using n by (intro mult_right_mono) simp_all
  also have "\<dots> \<le> (10 :: rat) ^ 200" by simp
  finally have s: "sum_list ?ts \<le> 10 ^ 200" .
  have "(2 :: rat) ^ 64 \<le> 10 ^ 200" by simp
  with n have n': "of_nat (length ps) \<le> (10 :: rat) ^ 200" by linarith
  have "isClose 0 (a_total ?m) \<longleftrightarrow> ps = []"
    using of_nat_close [of "length ps"] by simp
  with s n' have avg: "MetricAvg_getAvg ?m = mean ?ts"
    by (simp add: MetricAvg_getAvg_def Value_get_small mean_def)
  have "(2 :: rat) ^ 65 \<le> 10 ^ 200" by simp
  with b have b': "\<forall>t \<in> set ?ts. t \<le> 10 ^ 200" by fastforce
  then have "MetricAvg_getAvg ?m \<le> 10 ^ 200" unfolding avg by (rule mean_bounded) simp
  with expire_report [where getAvg = MetricAvg_getAvg and m = ?m and xs = ?ts, OF assms(1)] run avg b'
  show ?thesis by (simp add: rst_report_def Let_def)
qed

interpretation rst: interval_metric MetricAvg_new "\<lambda>p m. Some (Rst_onResponseReceived p m)"
  "MetricAvg_onIntervalExpired MetricAvg_getAvg MetricAvg_reset an" rst_report
  "\<lambda>ps. serverMode an \<and> rst_bounded ps" for an
  by unfold_locales (use Rst_restarts in blast)

section \<open>What the rates report\<close>

text \<open>The events of an interval: something arrives, or a second is over.\<close>

datatype 'x clocked = Got 'x | Tick

primrec rate_step :: "('m \<Rightarrow> 'm) \<Rightarrow> ('m \<Rightarrow> 'm) \<Rightarrow> 'x clocked \<Rightarrow> 'm \<Rightarrow> 'm option" where
  "rate_step got tick (Got x) m = Some (got m)"
| "rate_step got tick Tick m = Some (tick m)"

text \<open>The arrivals of each complete second.\<close>

fun per_second :: "nat \<Rightarrow> 'x clocked list \<Rightarrow> nat list" where
  "per_second k [] = []"
| "per_second k (Got x # es) = per_second (Suc k) es"
| "per_second k (Tick # es) = k # per_second 0 es"

definition rate_report :: "analysis \<Rightarrow> 'x clocked list \<Rightarrow> avg_msg" where
  "rate_report an es =
     (let ns = map of_nat (per_second 0 es)
      in (if interval an = 0 then 0 else sum_list ns / of_nat (unat (interval an)), low ns, high ns))"

text \<open>What the two rate metrics have in common.\<close>

locale rate_metric =
  fixes got tick :: "metric_avg \<Rightarrow> metric_avg" and getAvg :: "analysis \<Rightarrow> metric_avg \<Rightarrow> double"
  assumes got: "got m = m\<lparr>a_subtotal := \<lparr>val = val (a_subtotal m) + 1\<rparr>\<rparr>"
    and tick: "a_subtotal m = \<lparr>val = of_nat k\<rparr> \<Longrightarrow> k \<le> 2 ^ 64 \<Longrightarrow>
      tick m = m\<lparr>a_min := Value_minimize (of_nat k) (a_min m), a_max := Value_maximize (of_nat k) (a_max m),
                 a_sum := Value_add (of_nat k) (a_sum m), a_subtotal := \<lparr>val = 0\<rparr>\<rparr>"
    and getAvg: "getAvg an m = (if interval an = 0 then 0 else Value_get (a_sum m) / of_nat (unat (interval an)))"
begin

lemma rate_steps:
  assumes "a_subtotal m = \<lparr>val = of_nat k\<rparr>" "k + length es \<le> 2 ^ 64"
  shows "\<exists>x. steps (rate_step got tick) es m =
    Some (m\<lparr>a_subtotal := x, a_sum := fold Value_add (map of_nat (per_second k es)) (a_sum m),
            a_min := fold Value_minimize (map of_nat (per_second k es)) (a_min m),
            a_max := fold Value_maximize (map of_nat (per_second k es)) (a_max m)\<rparr>)"
  using assms
proof (induction es arbitrary: k m)
  case Nil
  then show ?case by (intro exI [of _ "a_subtotal m"]) simp
next
  case (Cons e es)
  show ?case
  proof (cases e)
    case (Got x)
    with Cons.IH [of "got m" "Suc k"] Cons.prems show ?thesis by (simp add: got add.commute)
  next
    case Tick
    with Cons.IH [of "tick m" 0] Cons.prems show ?thesis by (simp add: tick [of m k])
  qed
qed

lemma per_second_total: "sum_list (per_second k es) \<le> k + length es"
  by (induction k es rule: per_second.induct) simp_all

lemma rate_restarts:
  assumes "serverMode an" "length es \<le> 2 ^ 64"
  shows "\<exists>m. steps (rate_step got tick) es MetricAvg_new = Some m \<and>
     MetricAvg_onIntervalExpired (getAvg an) MetricAvg_reset an m = (Some (rate_report an es), MetricAvg_new)"
proof -
  let ?ns = "map of_nat (per_second 0 es) :: double list"
  obtain x where run: "steps (rate_step got tick) es MetricAvg_new = Some (MetricAvg_new\<lparr>a_subtotal := x,
      a_sum := \<lparr>val = sum_list ?ns\<rparr>, a_min := fold Value_minimize ?ns \<lparr>val = DBL_MAX\<rparr>,
      a_max := fold Value_maximize ?ns \<lparr>val = 0\<rparr>\<rparr>)" (is "_ = Some ?m")
    using rate_steps [of MetricAvg_new 0 es] assms(2) by (auto simp: fold_add)
  have big: "(2 :: rat) ^ 64 \<le> 10 ^ 200" by simp
  have total: "sum_list (per_second 0 es) \<le> 2 ^ 64" using per_second_total [of 0 es] assms(2) by simp
  have le: "of_nat n \<le> (10 :: rat) ^ 200" if "n \<le> 2 ^ 64" for n :: nat
    using that big by (metis of_nat_le_iff of_nat_numeral of_nat_power order_trans)
  have sum: "sum_list ?ns = of_nat (sum_list (per_second 0 es))" by (rule sum_list_of_nat)
  then have s: "sum_list ?ns \<le> 10 ^ 200" using le [OF total] by simp
  have ns: "\<forall>n \<in> set ?ns. n \<le> 10 ^ 200"
    using le total member_le_sum_list by fastforce
  have avg: "getAvg an ?m = (if interval an = 0 then 0 else sum_list ?ns / of_nat (unat (interval an)))"
    using s by (simp add: getAvg Value_get_small)
  have "sum_list ?ns / of_nat (unat (interval an)) \<le> sum_list ?ns" if "interval an \<noteq> 0"
  proof -
    have "1 \<le> unat (interval an)" using that by (simp add: Suc_le_eq word_gt_0 unat_gt_0)
    then have "(1 :: rat) \<le> of_nat (unat (interval an))" by (metis of_nat_1 of_nat_le_iff)
    moreover have "0 \<le> sum_list ?ns" unfolding sum by simp
    ultimately have "sum_list ?ns * 1 \<le> sum_list ?ns * of_nat (unat (interval an))" by (rule mult_left_mono)
    with \<open>1 \<le> of_nat (unat (interval an))\<close> show ?thesis by (simp add: divide_le_eq)
  qed
  then have "getAvg an ?m \<le> 10 ^ 200" using s unfolding avg by auto
  with expire_report [where getAvg = "getAvg an" and m = ?m and xs = ?ns, OF assms(1)] run avg ns
  show ?thesis by (simp add: rate_report_def Let_def)
qed

end

lemma trunc_small: "k \<le> 2 ^ 64 \<Longrightarrow> trunc (Value_get \<lparr>val = of_nat k\<rparr>) = int k"
proof -
  assume "k \<le> 2 ^ 64"
  then have "of_nat k \<le> (2 :: rat) ^ 64" by (metis of_nat_le_iff of_nat_numeral of_nat_power)
  moreover have "(2 :: rat) ^ 64 \<le> 10 ^ 200" by simp
  ultimately have "of_nat k \<le> (10 :: rat) ^ 200" by linarith
  then show ?thesis by (simp add: Value_get_small)
qed

lemma unsigned_le_0: "(w :: u32) \<le> 0 \<longleftrightarrow> w = 0" by simp

interpretation req_rate: rate_metric ReqRate_onRequestReceived ReqRate_onTimerExpired ReqRate_getAvg
  by unfold_locales (simp_all add: ReqRate_onRequestReceived_def ReqRate_onTimerExpired_def
    ReqRate_getAvg_def Value_set_def Value_add_def trunc_small Let_def)

interpretation conn_rate: rate_metric ConnRate_onNewFlowReceived ConnRate_onTimerExpired ConnRate_getAvg
  by unfold_locales (simp_all add: ConnRate_onNewFlowReceived_def ConnRate_onTimerExpired_def
    MetricAvg_onTimerExpired_def ConnRate_getAvg_def Value_set_def Value_add_def trunc_small Let_def)

interpretation req_rate_interval: interval_metric MetricAvg_new
  "rate_step ReqRate_onRequestReceived ReqRate_onTimerExpired"
  "MetricAvg_onIntervalExpired (ReqRate_getAvg an) MetricAvg_reset an" "rate_report an"
  "\<lambda>es. serverMode an \<and> length es \<le> 2 ^ 64" for an
  by unfold_locales (use req_rate.rate_restarts in blast)

interpretation conn_rate_interval: interval_metric MetricAvg_new
  "rate_step ConnRate_onNewFlowReceived ConnRate_onTimerExpired"
  "MetricAvg_onIntervalExpired (ConnRate_getAvg an) MetricAvg_reset an" "rate_report an"
  "\<lambda>es. serverMode an \<and> length es \<le> 2 ^ 64" for an
  by unfold_locales (use conn_rate.rate_restarts in blast)

section \<open>What ErrRate reports\<close>

primrec err_step :: "pair clocked \<Rightarrow> metric_avg \<Rightarrow> metric_avg option" where
  "err_step (Got p) m = ErrRate_onResponseReceived p m"
| "err_step Tick m = Some (ErrRate_onTimerExpired m)"

fun answered :: "'x clocked list \<Rightarrow> 'x list" where
  "answered [] = []"
| "answered (Got x # es) = x # answered es"
| "answered (Tick # es) = answered es"

definition is_error :: "pair \<Rightarrow> bool" where
  "is_error p \<longleftrightarrow> response_error p = Some True"

fun err_rates :: "nat \<Rightarrow> nat \<Rightarrow> pair clocked list \<Rightarrow> double list" where
  "err_rates b n [] = []"
| "err_rates b n (Got p # es) = err_rates (if is_error p then Suc b else b) (Suc n) es"
| "err_rates b n (Tick # es) = of_nat b / of_nat n # err_rates 0 0 es"

definition err_report :: "pair clocked list \<Rightarrow> avg_msg" where
  "err_report es =
     (let ps = answered es; rs = err_rates 0 0 es
      in (of_nat (length (filter is_error ps)) / of_nat (length ps), low rs, high rs))"

definition err_ok :: "pair clocked list \<Rightarrow> bool" where
  "err_ok es \<longleftrightarrow> length es \<le> 2 ^ 64 \<and> (\<forall>p \<in> set (answered es). response_error p \<noteq> None)"

lemma Value_get_count: "k \<le> 2 ^ 64 \<Longrightarrow> Value_get \<lparr>val = of_nat k\<rparr> = of_nat k"
proof -
  assume "k \<le> 2 ^ 64"
  then have "of_nat k \<le> (2 :: rat) ^ 64" by (metis of_nat_le_iff of_nat_numeral of_nat_power)
  moreover have "(2 :: rat) ^ 64 \<le> 10 ^ 200" by simp
  ultimately have "of_nat k \<le> (10 :: rat) ^ 200" by linarith
  then show ?thesis by (simp add: Value_get_small)
qed

lemma err_steps:
  assumes "a_subsum m = \<lparr>val = of_nat b\<rparr>" "a_subtotal m = \<lparr>val = of_nat n\<rparr>"
    "n + length es \<le> 2 ^ 64" "b \<le> n" "\<forall>p \<in> set (answered es). response_error p \<noteq> None"
  shows "\<exists>x y. steps err_step es m = Some (m\<lparr>a_subsum := x, a_subtotal := y,
     a_total := fold Value_add (map (\<lambda>_. 1) (answered es)) (a_total m),
     a_sum := fold Value_add (map (\<lambda>_. 1) (filter is_error (answered es))) (a_sum m),
     a_min := fold Value_minimize (err_rates b n es) (a_min m),
     a_max := fold Value_maximize (err_rates b n es) (a_max m)\<rparr>)"
  using assms
proof (induction es arbitrary: m b n)
  case Nil
  then show ?case by (intro exI [of _ "a_subsum m"] exI [of _ "a_subtotal m"]) simp
next
  case (Cons e es)
  show ?case
  proof (cases e)
    case (Got p)
    then obtain bad where bad: "response_error p = Some bad" using Cons.prems(5) by auto
    then have "is_error p = bad" by (simp add: is_error_def)
    with Cons.IH [of "the (ErrRate_onResponseReceived p m)" "if bad then Suc b else b" "Suc n"] Cons.prems Got bad
    show ?thesis
      by (cases bad) (simp_all add: ErrRate_onResponseReceived_def Value_add_def add.commute Let_def)
  next
    case Tick
    have "ErrRate_getRate m = of_nat b / of_nat n"
      using Cons.prems Value_get_count [of b] Value_get_count [of n]
      by (simp add: ErrRate_getRate_def)
    with Cons.IH [of "ErrRate_onTimerExpired m" 0 0] Cons.prems Tick show ?thesis
      by (simp add: ErrRate_onTimerExpired_def Value_set_def Let_def)
  qed
qed

lemma err_rates_range: "b \<le> n \<Longrightarrow> r \<in> set (err_rates b n es) \<Longrightarrow> 0 \<le> r \<and> r \<le> 1"
proof (induction b n es rule: err_rates.induct)
  case (3 b n es)
  then show ?case by (auto simp: divide_le_eq)
qed (auto split: if_splits)

lemma err_restarts:
  assumes "serverMode an" "err_ok es"
  shows "\<exists>m. steps err_step es MetricAvg_new = Some m \<and>
     MetricAvg_onIntervalExpired MetricAvg_getAvg MetricAvg_reset an m = (Some (err_report es), MetricAvg_new)"
proof -
  let ?ps = "answered es" and ?rs = "err_rates 0 0 es"
  let ?bad = "filter is_error ?ps"
  obtain x y where run: "steps err_step es MetricAvg_new = Some (MetricAvg_new\<lparr>a_subsum := x, a_subtotal := y,
      a_total := \<lparr>val = of_nat (length ?ps)\<rparr>, a_sum := \<lparr>val = of_nat (length ?bad)\<rparr>,
      a_min := fold Value_minimize ?rs \<lparr>val = DBL_MAX\<rparr>, a_max := fold Value_maximize ?rs \<lparr>val = 0\<rparr>\<rparr>)"
      (is "_ = Some ?m")
    using err_steps [of MetricAvg_new 0 0 es] assms(2) by (auto simp: err_ok_def fold_add sum_list_ones)
  have "length (answered es) \<le> length es" by (induction es rule: answered.induct) simp_all
  then have n: "length ?ps \<le> 2 ^ 64" using assms(2) by (simp add: err_ok_def)
  then have b: "length ?bad \<le> 2 ^ 64" using length_filter_le order_trans by blast
  have avg: "MetricAvg_getAvg ?m = of_nat (length ?bad) / of_nat (length ?ps)"
    using Value_get_count [OF n] Value_get_count [OF b] of_nat_close [of "length ?ps"]
    by (simp add: MetricAvg_getAvg_def)
  have rs: "\<forall>r \<in> set ?rs. r \<le> 10 ^ 200"
  proof
    fix r assume "r \<in> set ?rs"
    then have "r \<le> 1" using err_rates_range by blast
    also have "1 \<le> (10 :: rat) ^ 200" by simp
    finally show "r \<le> 10 ^ 200" .
  qed
  have "of_nat (length ?bad) / of_nat (length ?ps) \<le> (1 :: rat)" by (simp add: divide_le_eq)
  also have "1 \<le> (10 :: rat) ^ 200" by simp
  finally have "MetricAvg_getAvg ?m \<le> 10 ^ 200" unfolding avg .
  with expire_report [where getAvg = MetricAvg_getAvg and m = ?m and xs = ?rs, OF assms(1)] run avg rs
  show ?thesis by (simp add: err_report_def Let_def)
qed

interpretation err_rate: interval_metric MetricAvg_new err_step
  "MetricAvg_onIntervalExpired MetricAvg_getAvg MetricAvg_reset an" err_report
  "\<lambda>es. serverMode an \<and> err_ok es" for an
  by unfold_locales (use err_restarts in blast)

lemma per_second_all: "es = [] \<and> k = 0 \<or> es \<noteq> [] \<and> last es = Tick \<Longrightarrow>
    sum_list (per_second k es) = k + length (answered es)"
proof (induction k es rule: per_second.induct)
  case (2 k x es)
  then show ?case by (cases es) simp_all
qed (auto split: if_splits)

lemma err_rates_between:
  assumes "es = [] \<and> n = 0 \<or> es \<noteq> [] \<and> last es = Tick" "b \<le> n"
    "\<forall>r \<in> set (err_rates b n es). l \<le> r \<and> r \<le> h"
  shows "l * of_nat (n + length (answered es)) \<le> of_nat (b + length (filter is_error (answered es))) \<and>
    of_nat (b + length (filter is_error (answered es))) \<le> h * of_nat (n + length (answered es))"
  using assms
proof (induction b n es rule: err_rates.induct)
  case (1 b n)
  then show ?case by simp
next
  case (2 b n p es)
  then have "es \<noteq> []" by auto
  with 2 show ?case by (cases "is_error p") (simp_all add: add.commute)
next
  case (3 b n es)
  have r: "l \<le> of_nat b / of_nat n" "of_nat b / of_nat n \<le> h" using "3.prems"(3) by simp_all
  have first: "l * of_nat n \<le> of_nat b \<and> of_nat b \<le> h * of_nat n"
  proof (cases "n = 0")
    case True
    with "3.prems"(2) show ?thesis by simp
  next
    case False
    with r show ?thesis by (simp add: le_divide_eq divide_le_eq)
  qed
  moreover have "es = [] \<or> last es = Tick" using "3.prems"(1) by (auto split: if_splits)
  with "3.IH" "3.prems"(3) have "l * of_nat (length (answered es)) \<le> of_nat (length (filter is_error (answered es)))"
      "of_nat (length (filter is_error (answered es))) \<le> h * of_nat (length (answered es))" by auto
  ultimately show ?case by (simp add: distrib_left add_mono)
qed

lemma err_report_between:
  assumes "es \<noteq> []" "last es = Tick" "err_report es = (avg, lo, hi)"
  shows "lo \<le> avg \<and> avg \<le> hi \<and> 0 \<le> lo \<and> hi \<le> 1"
proof -
  let ?rs = "err_rates 0 0 es" and ?ps = "answered es"
  have ne: "err_rates b n es' \<noteq> []" if "es' \<noteq> []" "last es' = Tick" for b n es'
    using that by (induction b n es' rule: err_rates.induct) (auto split: if_splits)
  have lo: "lo = Min (set ?rs)" and hi: "hi = Max (insert 0 (set ?rs))"
    and avg: "avg = of_nat (length (filter is_error ?ps)) / of_nat (length ?ps)"
    using assms(3) ne [OF assms(1,2)] by (simp_all add: err_report_def Let_def low_def high_def)
  have range: "\<forall>r \<in> set ?rs. 0 \<le> r \<and> r \<le> 1" using err_rates_range by blast
  have fin: "finite (set ?rs)" "set ?rs \<noteq> {}" using ne [OF assms(1,2)] by simp_all
  have lo0: "0 \<le> lo" using range fin unfolding lo by simp
  have hi1: "hi \<le> 1" using range unfolding hi by simp
  have "\<forall>r \<in> set ?rs. lo \<le> r \<and> r \<le> hi" unfolding lo hi by simp
  then have b: "lo * of_nat (length ?ps) \<le> of_nat (length (filter is_error ?ps))"
      "of_nat (length (filter is_error ?ps)) \<le> hi * of_nat (length ?ps)"
    using err_rates_between [of es 0 0 lo hi] assms(1,2) by simp_all
  have "lo \<le> avg \<and> avg \<le> hi"
  proof (cases "?ps = []")
    case True
    have "r = 0" if "r \<in> set (err_rates 0 0 es')" "answered es' = []" for r es'
      using that by (induction es' rule: answered.induct) auto
    then have "lo = 0" using True fin Min_in unfolding lo by metis
    moreover have "0 \<le> hi" unfolding hi by simp
    ultimately show ?thesis using True by (simp add: avg)
  next
    case False
    then have "0 < (of_nat (length ?ps) :: rat)" by simp
    with b show ?thesis unfolding avg by (simp add: le_divide_eq divide_le_eq)
  qed
  with lo0 hi1 show ?thesis by simp
qed

section \<open>The properties\<close>

text \<open>C25. The service time metric: over any sequence of intervals, the report of each interval
  consists of the arithmetic mean, the least and the greatest (at least 0) of the service
  times of the pairs answered in that interval, and afterwards the metric is as new.\<close>

theorem rst_reports:
  assumes "serverMode an" "\<forall>ps \<in> set pss. rst_bounded ps"
  shows "run_intervals (\<lambda>p m. Some (Rst_onResponseReceived p m))
     (MetricAvg_onIntervalExpired MetricAvg_getAvg MetricAvg_reset an) pss MetricAvg_new =
   Some (map (\<lambda>ps. let ts = map rst_time ps in (mean ts, low ts, high ts)) pss, MetricAvg_new)"
proof -
  have "(\<lambda>ps. let ts = map rst_time ps in (mean ts, low ts, high ts)) = rst_report"
    by (simp add: rst_report_def fun_eq_iff)
  then show ?thesis using rst.reports [of pss an] assms by simp
qed

text \<open>Two pairs answered after one and after three seconds, then none.\<close>

lemma rst_reports_witness:
  "run_intervals (\<lambda>p m. Some (Rst_onResponseReceived p m))
     (MetricAvg_onIntervalExpired MetricAvg_getAvg MetricAvg_reset (Analysis_new 4 ''eth0'' 0 5 60))
     [[Pair_new\<lparr>req_fb_sec := 7, rsp_fb_sec := 8\<rparr>, Pair_new\<lparr>req_fb_sec := 7, rsp_fb_sec := 10\<rparr>], []] MetricAvg_new =
   Some ([(2, 1, 3), (0, 0, 0)], MetricAvg_new)"
proof -
  let ?pss = "[[Pair_new\<lparr>req_fb_sec := 7, rsp_fb_sec := 8\<rparr>, Pair_new\<lparr>req_fb_sec := 7, rsp_fb_sec := 10\<rparr>], []]"
  have "rst_time (Pair_new\<lparr>req_fb_sec := 7, rsp_fb_sec := 8\<rparr>) = 1"
    "rst_time (Pair_new\<lparr>req_fb_sec := 7, rsp_fb_sec := 10\<rparr>) = 3"
    by (simp_all add: rst_time_def Pair_new_def)
  then show ?thesis
    by (subst rst_reports) (simp_all add: Analysis_new_def rst_bounded_def Let_def mean_def low_def high_def)
qed



text \<open>What arrives after the last complete second of an interval is in no report.\<close>

theorem rates_lose_last_arrivals:
  "serverMode an \<Longrightarrow> length xs \<le> 2 ^ 64 \<Longrightarrow>
   run_intervals (rate_step ReqRate_onRequestReceived ReqRate_onTimerExpired)
     (MetricAvg_onIntervalExpired (ReqRate_getAvg an) MetricAvg_reset an) [map Got xs] MetricAvg_new =
   Some ([(0, 0, 0)], MetricAvg_new)"
proof -
  have "per_second k (map Got xs) = []" for k by (induction xs arbitrary: k) simp_all
  then show "serverMode an \<Longrightarrow> length xs \<le> 2 ^ 64 \<Longrightarrow> ?thesis"
    using req_rate_interval.reports [of "[map Got xs]" an] by (simp add: rate_report_def low_def high_def)
qed

lemma rates_lose_last_arrivals_witness:
  "run_intervals (rate_step ReqRate_onRequestReceived ReqRate_onTimerExpired)
     (MetricAvg_onIntervalExpired (ReqRate_getAvg (Analysis_new 4 ''eth0'' 0 2 60)) MetricAvg_reset (Analysis_new 4 ''eth0'' 0 2 60))
     [map Got [(), ()]] MetricAvg_new = Some ([(0, 0, 0)], MetricAvg_new)"
  by (rule rates_lose_last_arrivals) (simp_all add: Analysis_new_def)



section \<open>Throughput\<close>

text \<open>The differences between consecutive values of the counter, in 32 bits.\<close>

fun diffs :: "u32 \<Rightarrow> u32 list \<Rightarrow> u32 list" where
  "diffs r [] = []"
| "diffs r (u # us) = (u - r) # diffs u us"

definition u32_rat :: "u32 \<Rightarrow> double" where "u32_rat u = of_nat (unat u)"

lemma u32_rat_small: "u32_rat u \<le> 10 ^ 200"
proof -
  have "unat u < 2 ^ 32" using unsigned_less [of u] by simp
  then have "u32_rat u < 2 ^ 32" unfolding u32_rat_def by (metis of_nat_less_iff of_nat_numeral of_nat_power)
  also have "2 ^ 32 \<le> (10 :: rat) ^ 200" by simp
  finally show ?thesis by simp
qed

lemma u32_rat_get: "Value_get \<lparr>val = u32_rat u\<rparr> = u32_rat u"
  using Value_get_small [of "\<lparr>val = u32_rat u\<rparr>"] u32_rat_small by (metis Value.select_convs(1))

lemma unsigned_u32_rat: "unsigned u = u32_rat u"
  by (simp add: u32_rat_def)

lemma u32_rat_trunc: "word_of_int (trunc (u32_rat u)) = u"
  unfolding u32_rat_def trunc_of_int by simp

lemma u32_rat_pos: "0 < u32_rat u \<longleftrightarrow> u \<noteq> 0"
  unfolding u32_rat_def by (metis of_nat_0_less_iff unat_gt_0)

text \<open>The values of the counter at each tick and at the end, \<open>u\<close> being its value before.\<close>

fun samples :: "('f \<Rightarrow> u32) \<Rightarrow> u32 \<Rightarrow> 'f clocked list \<Rightarrow> u32 list" where
  "samples payload u [] = []"
| "samples payload u (Got f # es) = samples payload (payload f) es"
| "samples payload u (Tick # es) = u # samples payload u es"

definition final :: "('f \<Rightarrow> u32) \<Rightarrow> 'f clocked list \<Rightarrow> u32" where
  "final payload es = last (0 # map payload (answered es))"

primrec tp_step :: "('f \<Rightarrow> tp \<Rightarrow> tp) \<Rightarrow> 'f clocked \<Rightarrow> tp \<Rightarrow> tp option" where
  "tp_step upd (Got f) m = Some (upd f m)"
| "tp_step upd Tick m = Some (Tp_onTimerExpired m)"

text \<open>The reference: \<open>tr\<close> and \<open>ir\<close> are the values remembered from the last tick and interval.\<close>

fun tp_reports :: "('f \<Rightarrow> u32) \<Rightarrow> analysis \<Rightarrow> u32 \<Rightarrow> u32 \<Rightarrow> 'f clocked list list \<Rightarrow> avg_msg list" where
  "tp_reports payload an tr ir [] = []"
| "tp_reports payload an tr ir (es # ess) =
     (let us = filter (\<lambda>u. u \<noteq> 0) (samples payload 0 es); ds = map u32_rat (diffs tr us)
      in ((u32_rat (final payload es) - u32_rat ir) / of_nat (unat (interval an)), low ds, high ds) #
         tp_reports payload an (last (tr # us)) (final payload es) ess)"

definition tp_state :: "u32 \<Rightarrow> u32 \<Rightarrow> tp" where
  "tp_state tr ir = Tp_new\<lparr>timerRef := tr, intervalRef := ir\<rparr>"

lemma Tp_new_fields [simp]:
  "a_subtotal Tp_new = \<lparr>val = 0\<rparr>" "a_total Tp_new = \<lparr>val = 0\<rparr>" "a_sum Tp_new = \<lparr>val = 0\<rparr>"
  "a_subsum Tp_new = \<lparr>val = 0\<rparr>" "a_avg Tp_new = \<lparr>val = 0\<rparr>" "a_min Tp_new = \<lparr>val = DBL_MAX\<rparr>"
  "a_max Tp_new = \<lparr>val = 0\<rparr>" "timerRef Tp_new = 0" "intervalRef Tp_new = 0"
  by (simp_all add: Tp_new_def metric_avg.defs)

lemma tp_steps:
  assumes upd: "\<And>f m. upd f m = m\<lparr>a_total := \<lparr>val = u32_rat (payload f)\<rparr>\<rparr>"
  shows "a_total m = \<lparr>val = u32_rat u\<rparr> \<Longrightarrow>
    (let us = filter (\<lambda>u. u \<noteq> 0) (samples payload u es); ds = map u32_rat (diffs (timerRef m) us)
     in steps (tp_step upd) es m = Some (m\<lparr>
       a_total := \<lparr>val = u32_rat (last (u # map payload (answered es)))\<rparr>,
       a_min := fold Value_minimize ds (a_min m), a_max := fold Value_maximize ds (a_max m),
       timerRef := last (timerRef m # us)\<rparr>))"
proof (induction es arbitrary: m u)
  case Nil
  then show ?case by simp
next
  case (Cons e es)
  show ?case
  proof (cases e)
    case (Got f)
    with Cons.IH [of "upd f m" "payload f"] show ?thesis by (simp add: upd Let_def)
  next
    case Tick
    show ?thesis
    proof (cases "u = 0")
      case True
      then have "Tp_onTimerExpired m = m"
        using Cons.prems by (simp add: Tp_onTimerExpired_def MetricAvg_onTimerExpired_def u32_rat_get u32_rat_pos)
      with Cons.IH [of m u] Cons.prems Tick True show ?thesis by (simp add: Let_def)
    next
      case False
      then have "Tp_onTimerExpired m = m\<lparr>timerRef := u,
          a_min := Value_minimize (u32_rat (u - timerRef m)) (a_min m),
          a_max := Value_maximize (u32_rat (u - timerRef m)) (a_max m)\<rparr>" (is "_ = ?m")
        using Cons.prems by (simp add: Tp_onTimerExpired_def MetricAvg_onTimerExpired_def u32_rat_get
            u32_rat_pos u32_rat_trunc unsigned_u32_rat Let_def)
      with Cons.IH [of ?m u] Cons.prems Tick False show ?thesis by (simp add: Let_def)
    qed
  qed
qed

fun tp_refs :: "('f \<Rightarrow> u32) \<Rightarrow> u32 \<Rightarrow> u32 \<Rightarrow> 'f clocked list list \<Rightarrow> u32 \<times> u32" where
  "tp_refs payload tr ir [] = (tr, ir)"
| "tp_refs payload tr ir (es # ess) =
     tp_refs payload (last (tr # filter (\<lambda>u. u \<noteq> 0) (samples payload 0 es))) (final payload es) ess"

lemma tp_state_fields [simp]:
  "a_total (tp_state tr ir) = \<lparr>val = 0\<rparr>" "a_min (tp_state tr ir) = \<lparr>val = DBL_MAX\<rparr>"
  "a_max (tp_state tr ir) = \<lparr>val = 0\<rparr>" "timerRef (tp_state tr ir) = tr" "intervalRef (tp_state tr ir) = ir"
  by (simp_all add: tp_state_def)

lemma Tp_reset_state: "a_total m = \<lparr>val = u32_rat u\<rparr> \<Longrightarrow> Tp_reset m = tp_state (timerRef m) u"
  by (cases m) (simp add: Tp_reset_def tp_state_def Tp_new_def MetricAvg_reset_def MetricAvg_new_def
      metric_avg.defs Value_set_def Value_new_def u32_rat_get u32_rat_trunc)

lemma tp_runs:
  assumes "serverMode an" "interval an \<noteq> 0"
    and upd: "\<And>f m. upd f m = m\<lparr>a_total := \<lparr>val = u32_rat (payload f)\<rparr>\<rparr>"
  shows "run_intervals (tp_step upd) (MetricAvg_onIntervalExpired (Tp_getAvg an) Tp_reset an) ess (tp_state tr ir) =
     Some (tp_reports payload an tr ir ess, case tp_refs payload tr ir ess of (tr, ir) \<Rightarrow> tp_state tr ir)"
proof (induction ess arbitrary: tr ir)
  case Nil
  then show ?case by simp
next
  case (Cons es ess)
  let ?us = "filter (\<lambda>u. u \<noteq> 0) (samples payload 0 es)"
  let ?ds = "map u32_rat (diffs tr ?us)"
  let ?m = "(tp_state tr ir)\<lparr>a_total := \<lparr>val = u32_rat (final payload es)\<rparr>,
      a_min := fold Value_minimize ?ds \<lparr>val = DBL_MAX\<rparr>, a_max := fold Value_maximize ?ds \<lparr>val = 0\<rparr>,
      timerRef := last (tr # ?us)\<rparr>"
  have zero: "u32_rat 0 = 0" by (simp add: u32_rat_def)
  have run: "steps (tp_step upd) es (tp_state tr ir) = Some ?m"
    using tp_steps [where m = "tp_state tr ir" and u = 0 and es = es and payload = payload, OF upd] by (simp add: zero final_def Let_def)
  let ?avg = "(u32_rat (final payload es) - u32_rat ir) / of_nat (unat (interval an))"
  have "1 \<le> unat (interval an)" using assms(2) by (simp add: Suc_le_eq word_gt_0 unat_gt_0)
  then have i: "(1 :: rat) \<le> of_nat (unat (interval an))" by (metis of_nat_1 of_nat_le_iff)
  have avg: "Tp_getAvg an ?m = ?avg"
    using assms(2) by (simp add: Tp_getAvg_def u32_rat_get unsigned_u32_rat)
  have "0 \<le> u32_rat ir" unfolding u32_rat_def by (rule of_nat_0_le_iff)
  then have "u32_rat (final payload es) - u32_rat ir \<le> u32_rat (final payload es)" by simp
  also have "\<dots> \<le> 10 ^ 200" by (rule u32_rat_small)
  also have "\<dots> \<le> 10 ^ 200 * of_nat (unat (interval an))" using mult_left_mono [OF i, of "10 ^ 200"] by simp
  finally have "?avg \<le> 10 ^ 200" using i by (simp add: divide_le_eq)
  moreover have "\<forall>d \<in> set ?ds. d \<le> 10 ^ 200" using u32_rat_small by (metis ex_map_conv)
  ultimately have "MetricAvg_onIntervalExpired (Tp_getAvg an) Tp_reset an ?m =
      (Some (?avg, low ?ds, high ?ds), tp_state (last (tr # ?us)) (final payload es))"
    using assms(1) avg
    by (simp add: MetricAvg_onIntervalExpired_def isServerMode_def avg_values_def Value_set_def
        Value_get_small reported_low reported_high Tp_reset_state del: last.simps)
  with run Cons.IH show ?case by (simp add: Let_def)
qed

lemma Tp_updates:
  "Tp_onFlowUpdate f m = m\<lparr>a_total := \<lparr>val = u32_rat (payload_src f)\<rparr>\<rparr>"
  "TpRev_onFlowUpdate f m = m\<lparr>a_total := \<lparr>val = u32_rat (payload_dst f)\<rparr>\<rparr>"
  by (simp_all add: Tp_onFlowUpdate_def TpRev_onFlowUpdate_def Value_set_def u32_rat_def Let_def)

lemma Tp_new_state: "Tp_new = tp_state 0 0"
  by (simp add: tp_state_def)

text \<open>C28. The two throughput metrics: over any sequence of intervals, each report has the last value
  of the flow counter less the one at the end of the previous interval, per second, and the
  least and greatest difference between the nonzero values at consecutive ticks, taken in 32
  bits.\<close>

theorem throughput_reports:
  assumes "serverMode an" "interval an \<noteq> 0"
  shows "(\<exists>m. run_intervals (tp_step Tp_onFlowUpdate) (MetricAvg_onIntervalExpired (Tp_getAvg an) Tp_reset an) ess Tp_new =
       Some (tp_reports payload_src an 0 0 ess, m)) \<and>
     (\<exists>m. run_intervals (tp_step TpRev_onFlowUpdate) (MetricAvg_onIntervalExpired (Tp_getAvg an) Tp_reset an) ess Tp_new =
       Some (tp_reports payload_dst an 0 0 ess, m))"
  using tp_runs [where payload = payload_src and ess = ess and tr = 0 and ir = 0, OF assms Tp_updates(1)]
    tp_runs [where payload = payload_dst and ess = ess and tr = 0 and ir = 0, OF assms Tp_updates(2)]
  by (simp add: Tp_new_state)

text \<open>One flow with 10 bytes in the first second and 30 in the second.\<close>

lemma throughput_reports_witness:
  "\<forall>f :: pair flow. \<exists>m. run_intervals (tp_step Tp_onFlowUpdate) (MetricAvg_onIntervalExpired (Tp_getAvg (Analysis_new 4 ''eth0'' 0 2 60)) Tp_reset (Analysis_new 4 ''eth0'' 0 2 60))
     [[Got (f\<lparr>payload_src := 10\<rparr>), Tick, Got (f\<lparr>payload_src := 30\<rparr>), Tick]] Tp_new = Some ([(15, 10, 20)], m)"
proof
  fix f :: "pair flow"
  let ?an = "Analysis_new 4 ''eth0'' 0 2 60"
  have "serverMode ?an" "interval ?an \<noteq> 0" by (simp_all add: Analysis_new_def)
  from throughput_reports [OF this, of "[[Got (f\<lparr>payload_src := 10\<rparr>), Tick, Got (f\<lparr>payload_src := 30\<rparr>), Tick]]"]
  show "\<exists>m. run_intervals (tp_step Tp_onFlowUpdate) (MetricAvg_onIntervalExpired (Tp_getAvg ?an) Tp_reset ?an)
     [[Got (f\<lparr>payload_src := 10\<rparr>), Tick, Got (f\<lparr>payload_src := 30\<rparr>), Tick]] Tp_new = Some ([(15, 10, 20)], m)"
    by (simp add: Let_def final_def low_def high_def u32_rat_def Analysis_new_def)
qed

text \<open>An interval in which no flow is looked at reports a negative throughput when the one before
  it saw some payload.\<close>

theorem throughput_goes_negative:
  assumes "serverMode an" "interval an \<noteq> 0" "payload_src f \<noteq> 0"
  shows "\<exists>m lo hi a b. run_intervals (tp_step Tp_onFlowUpdate) (MetricAvg_onIntervalExpired (Tp_getAvg an) Tp_reset an)
     [[Got f, Tick], [Tick]] Tp_new = Some ([(a, u32_rat (payload_src f), u32_rat (payload_src f)), (b, lo, hi)], m) \<and>
     0 < a \<and> b = - a"
proof -
  have "0 < (of_nat (unat (interval an)) :: rat)" using assms(2) by (metis of_nat_0_less_iff unat_gt_0)
  moreover have "0 < u32_rat (payload_src f)" using assms(3) by (simp add: u32_rat_pos)
  ultimately show ?thesis
    using tp_runs [where payload = payload_src and ess = "[[Got f, Tick], [Tick]]" and tr = 0 and ir = 0,
        OF assms(1,2) Tp_updates(1)] assms(3)
    by (simp add: Tp_new_state Let_def final_def low_def high_def u32_rat_def)
qed

lemma throughput_goes_negative_witness:
  "\<forall>f :: pair flow. \<exists>m lo hi a b. run_intervals (tp_step Tp_onFlowUpdate) (MetricAvg_onIntervalExpired (Tp_getAvg (Analysis_new 4 ''eth0'' 0 2 60)) Tp_reset (Analysis_new 4 ''eth0'' 0 2 60))
     [[Got (f\<lparr>payload_src := 10\<rparr>), Tick], [Tick]] Tp_new = Some ([(a, u32_rat 10, u32_rat 10), (b, lo, hi)], m) \<and> 0 < a \<and> b = - a"
proof
  fix f :: "pair flow"
  show "\<exists>m lo hi a b. run_intervals (tp_step Tp_onFlowUpdate) (MetricAvg_onIntervalExpired (Tp_getAvg (Analysis_new 4 ''eth0'' 0 2 60)) Tp_reset (Analysis_new 4 ''eth0'' 0 2 60))
     [[Got (f\<lparr>payload_src := 10\<rparr>), Tick], [Tick]] Tp_new = Some ([(a, u32_rat 10, u32_rat 10), (b, lo, hi)], m) \<and> 0 < a \<and> b = - a"
    using throughput_goes_negative [of "Analysis_new 4 ''eth0'' 0 2 60" "f\<lparr>payload_src := 10\<rparr>"]
    by (simp add: Analysis_new_def)
qed

text \<open>When the flow looked at last before a tick has sent less than the one before the previous
  tick, the difference wraps: the reported maximum is near 4 GB.\<close>

theorem throughput_wraps:
  assumes "serverMode an" "interval an \<noteq> 0" "payload_src g \<noteq> 0" "payload_src g < payload_src f"
  shows "\<exists>m a lo. run_intervals (tp_step Tp_onFlowUpdate) (MetricAvg_onIntervalExpired (Tp_getAvg an) Tp_reset an)
     [[Got f, Tick, Got g, Tick]] Tp_new =
     Some ([(a, lo, max (u32_rat (payload_src f)) (2 ^ 32 - (u32_rat (payload_src f) - u32_rat (payload_src g))))], m)"
proof -
  let ?f = "payload_src f" and ?g = "payload_src g"
  have f: "?f \<noteq> 0" using assms(4) by auto
  have "uint (?g - ?f) = 2 ^ 32 - (uint ?f - uint ?g)"
  proof -
    have "uint ?g < uint ?f" "0 \<le> uint ?g" "uint ?f < 2 ^ 32"
      using assms(4) unsigned_less [of ?f] by (simp_all add: word_less_def)
    then have "(uint ?g - uint ?f + 2 ^ 32) mod 2 ^ 32 = uint ?g - uint ?f + 2 ^ 32"
      by (intro mod_pos_pos_trivial) linarith+
    then show ?thesis by (simp add: uint_word_ariths)
  qed
  then have "rat_of_int (uint (?g - ?f)) = of_int (2 ^ 32 - (uint ?f - uint ?g))" by (rule arg_cong)
  then have d: "u32_rat (?g - ?f) = 2 ^ 32 - (u32_rat ?f - u32_rat ?g)"
    by (simp add: u32_rat_def)
  have "0 \<le> u32_rat ?f" unfolding u32_rat_def by (rule of_nat_0_le_iff)
  then have m: "max 0 (max (u32_rat ?f) x) = max (u32_rat ?f) x" for x by simp
  show ?thesis
    using tp_runs [where payload = payload_src and ess = "[[Got f, Tick, Got g, Tick]]" and tr = 0 and ir = 0,
        OF assms(1,2) Tp_updates(1)] f assms(3)
    by (simp add: Tp_new_state Let_def high_def d m)
qed

lemma throughput_wraps_witness:
  "\<forall>f :: pair flow. \<exists>m a lo. run_intervals (tp_step Tp_onFlowUpdate) (MetricAvg_onIntervalExpired (Tp_getAvg (Analysis_new 4 ''eth0'' 0 2 60)) Tp_reset (Analysis_new 4 ''eth0'' 0 2 60))
     [[Got (f\<lparr>payload_src := 1000\<rparr>), Tick, Got (f\<lparr>payload_src := 10\<rparr>), Tick]] Tp_new = Some ([(a, lo, 2 ^ 32 - 990)], m)"
proof
  fix f :: "pair flow"
  show "\<exists>m a lo. run_intervals (tp_step Tp_onFlowUpdate) (MetricAvg_onIntervalExpired (Tp_getAvg (Analysis_new 4 ''eth0'' 0 2 60)) Tp_reset (Analysis_new 4 ''eth0'' 0 2 60))
     [[Got (f\<lparr>payload_src := 1000\<rparr>), Tick, Got (f\<lparr>payload_src := 10\<rparr>), Tick]] Tp_new = Some ([(a, lo, 2 ^ 32 - 990)], m)"
    using throughput_wraps [of "Analysis_new 4 ''eth0'' 0 2 60" "f\<lparr>payload_src := 10\<rparr>" "f\<lparr>payload_src := 1000\<rparr>"]
    by (simp add: Analysis_new_def u32_rat_def)
qed

end
