(* ===== verification/Metric_Distr.thy ===== *)
theory Metric_Distr
  imports Values Hash_Table Util Messages Http Memcached MySQL Flow Pairs "HOL-Library.AList"
begin

text \<open>
  \<^verbatim>\<open>MetricCumDistr\<close> (\<^verbatim>\<open>metricCumDistr.hpp\<close>, \<^verbatim>\<open>metricCumDistr.cpp\<close>) and its classes \<^verbatim>\<open>Client\<close>,
  \<^verbatim>\<open>ReqPath\<close>, \<^verbatim>\<open>ReqMethod\<close>, \<^verbatim>\<open>ReqType\<close> and \<^verbatim>\<open>RspStatus\<close>: they count keys and report, at the
  end of each interval, the keys whose share of all messages exceeds one hundredth.
\<close>

section \<open>Counting with the hash table\<close>

text \<open>The walk of \<^verbatim>\<open>cflUpdate\<close> over all chains; \<open>add\<close> is the virtual method \<^verbatim>\<open>cflAdd\<close>.\<close>

partial_function (option) cfl_walk ::
    "('v \<Rightarrow> int \<Rightarrow> cf_list \<Rightarrow> cf_list) \<Rightarrow> 'v hash_t \<Rightarrow> ptr \<Rightarrow> cf_list \<Rightarrow> cf_list option" where
  "cfl_walk add t p cfl =
     (case p of
        None \<Rightarrow> Some cfl
      | Some n \<Rightarrow> do {
          a \<leftarrow> n_value t n;
          cfl_walk add t (n_next t n) (add a (n_cnt t n) cfl)
        })"

definition cflUpdate :: "('v \<Rightarrow> int \<Rightarrow> cf_list \<Rightarrow> cf_list) \<Rightarrow> 'v hash_t \<Rightarrow> cf_list \<Rightarrow> cf_list option" where
  "cflUpdate add t cfl =
     over_buckets (\<lambda>i cfl. cfl_walk add t (b_first (h_buckets t i)) cfl) [0..<Hash_getSize t] cfl"

record 'v distr =
  d_cfl :: cf_list
  d_total :: int
  d_ht :: "'v hash_t"

definition distr_new :: "'v distr" where
  "distr_new = \<lparr>d_cfl = cfl_init cf_zero, d_total = 0, d_ht = Hash_new\<rparr>"

text \<open>The methods \<^verbatim>\<open>cflAdd\<close> of the three classes differ in the text of the key only.\<close>

definition cflAdd :: "('v \<Rightarrow> string) \<Rightarrow> int \<Rightarrow> 'v \<Rightarrow> int \<Rightarrow> cf_list \<Rightarrow> cf_list" where
  "cflAdd name reqTotal elem cnt cfl =
     (if reqTotal \<le> 0 then cfl
      else let freq = of_int cnt / of_int reqTotal
           in if freq > MIN_FREQ then cfl_add (name elem) freq cfl else cfl)"

text \<open>\<^verbatim>\<open>onIntervalExpired\<close>: the items that are sent (when the analysis runs in server mode), and
  the object afterwards.\<close>

definition distr_interval :: "('v \<Rightarrow> string) \<Rightarrow> analysis \<Rightarrow> 'v distr \<Rightarrow> (cf_item list option \<times> 'v distr) option" where
  "distr_interval name an m = do {
     cfl \<leftarrow> cflUpdate (cflAdd name (d_total m)) (d_ht m) (d_cfl m);
     Some (if isServerMode an then Some (cfl_items cfl) else None, m\<lparr>d_cfl := cfl_delete cfl\<rparr>)
   }"

subsection \<open>Client\<close>

text \<open>The address is stored in a cell of its own, whose address only orders unequal keys; it is
  the number of the request.\<close>

definition Client_name :: "addr2 \<Rightarrow> string" where
  "Client_name v = ip_ntos (snd v)"

definition Client_onRequestReceived :: "pflow \<Rightarrow> addr2 distr \<Rightarrow> addr2 distr option" where
  "Client_onRequestReceived flow m =
     map_option (\<lambda>(r, t). m\<lparr>d_total := d_total m + 1, d_ht := t\<rparr>)
       (Hash_add Addr2_hash Addr2_compare (nat (d_total m), fs_saddr (f_socket flow)) (d_ht m))"

subsection \<open>ReqPath and ReqMethod\<close>

definition extractReqPath :: "string \<Rightarrow> string" where
  "extractReqPath uri =
     (let str = c_str uri
      in if CHR ''/'' \<in> set str then rev (dropWhile (\<lambda>c. c \<noteq> CHR ''/'') (rev str))
         else takeWhile (\<lambda>c. c \<noteq> CHR ''?'') str)"

definition extractReqMethod :: "string option \<Rightarrow> string option" where
  "extractReqMethod uri = map_option (\<lambda>uri. takeWhile (\<lambda>c. c \<noteq> CHR ''?'') (c_str uri)) uri"

text \<open>\<^verbatim>\<open>((_http::Request*)pair->request_header)->uri\<close>: \<^term>\<open>None\<close> when the request is NULL or of
  another protocol, whose object has no such member.\<close>

definition request_uri :: "pair \<Rightarrow> string option option" where
  "request_uri p = do {
     r \<leftarrow> request_header p;
     (case rq_ext r of Http_Req h \<Rightarrow> Some (hq_uri h) | _ \<Rightarrow> None)
   }"

definition count_string :: "string option \<Rightarrow> string distr \<Rightarrow> string distr option" where
  "count_string key m =
     (case key of
        None \<Rightarrow> Some (m\<lparr>d_total := d_total m + 1\<rparr>)
      | Some k \<Rightarrow> map_option (\<lambda>(r, t). m\<lparr>d_total := d_total m + 1, d_ht := t\<rparr>)
                    (Hash_add StringHash_hash StringHash_compare k (d_ht m)))"

definition ReqPath_onRequestReceived :: "pair \<Rightarrow> string distr \<Rightarrow> string distr option" where
  "ReqPath_onRequestReceived p m = do {
     uri \<leftarrow> request_uri p;
     count_string (map_option extractReqPath uri) m
   }"

definition ReqMethod_onRequestReceived :: "pair \<Rightarrow> string distr \<Rightarrow> string distr option" where
  "ReqMethod_onRequestReceived p m = do {
     uri \<leftarrow> request_uri p;
     count_string (extractReqMethod uri) m
   }"

section \<open>Counting with a map\<close>

text \<open>The keys of the \<^verbatim>\<open>std::map\<close> are pointers to the literals of a name table, so its order is
  that of their addresses, which nothing determines; here it is the order of the first
  occurrences.\<close>

record tally =
  t_cfl :: cf_list
  t_total :: int
  t_map :: "(string \<times> int) list"

definition tally_new :: tally where
  "tally_new = \<lparr>t_cfl = cfl_init cf_zero, t_total = 0, t_map = []\<rparr>"

definition tally_count :: "string option \<Rightarrow> tally \<Rightarrow> tally" where
  "tally_count name m =
     (case name of
        None \<Rightarrow> m\<lparr>t_total := t_total m + 1\<rparr>
      | Some n \<Rightarrow> m\<lparr>t_total := t_total m + 1,
          t_map := AList.update n ((case map_of (t_map m) n of None \<Rightarrow> 0 | Some c \<Rightarrow> c) + 1) (t_map m)\<rparr>)"

text \<open>The method and status code members of the classes that have them.\<close>

definition request_method :: "pair \<Rightarrow> string option option" where
  "request_method p = do {
     r \<leftarrow> request_header p;
     Some (case rq_ext r of
        Http_Req h \<Rightarrow> getMethodName http_methods (int (hq_methodCode h))
      | Memcached_Req h \<Rightarrow> getMethodName mc_methods (int (mq_methodCode h))
      | MySQL_Req h \<Rightarrow> getMethodName my_methods (int (yq_sql_command h)))
   }"

definition response_status :: "pair \<Rightarrow> string option option" where
  "response_status p = do {
     r \<leftarrow> response_header p;
     (case rs_ext r of
        Http_Rsp h \<Rightarrow> Some (getStatusName http_status (hs_statusCode h))
      | Memcached_Rsp h \<Rightarrow> Some (getStatusName mc_status (ms_statusCode h))
      | MySQL_Rsp _ \<Rightarrow> None)
   }"

definition ReqType_onRequestReceived :: "pair \<Rightarrow> tally \<Rightarrow> tally option" where
  "ReqType_onRequestReceived p m = map_option (\<lambda>n. tally_count n m) (request_method p)"

definition RspStatus_onResponseReceived :: "pair \<Rightarrow> tally \<Rightarrow> tally option" where
  "RspStatus_onResponseReceived p m = map_option (\<lambda>n. tally_count n m) (response_status p)"

definition tally_interval :: "analysis \<Rightarrow> tally \<Rightarrow> cf_item list option \<times> tally" where
  "tally_interval an m =
     (if t_total m \<le> 0 then (None, m)
      else let cfl = fold (\<lambda>(n, cnt) cfl. let freq = of_int cnt / of_int (t_total m)
                                          in if freq > MIN_FREQ then cfl_add n freq cfl else cfl)
                       (t_map m) (t_cfl m)
           in (if isServerMode an then Some (cfl_items cfl) else None, m\<lparr>t_cfl := cfl_delete cfl\<rparr>))"

section \<open>Shares\<close>

text \<open>At most 99 entries can have a share above one hundredth.\<close>

definition frequent :: "int \<Rightarrow> int \<Rightarrow> bool" where
  "frequent tot cnt \<longleftrightarrow> (of_int cnt / of_int tot :: rat) > MIN_FREQ"

lemma frequent_iff: "0 < tot \<Longrightarrow> frequent tot cnt \<longleftrightarrow> tot < 100 * cnt"
proof -
  assume t: "0 < tot"
  have "frequent tot cnt \<longleftrightarrow> (of_int tot :: rat) < of_int (100 * cnt)"
    using t by (simp add: frequent_def MIN_FREQ_def CFL_SIZE_def field_simps)
  then show ?thesis by (simp only: of_int_less_iff)
qed

lemma few_frequent:
  assumes "0 < tot" "sum_list ns \<le> tot" "\<forall>n \<in> set ns. 0 \<le> n"
  shows "length (filter (frequent tot) ns) < 100"
proof -
  have s: "sum_list (filter (frequent tot) ns) \<le> sum_list ns"
    using assms(3) by (induction ns) auto
  have "int (length xs) * (tot + 1) \<le> 100 * sum_list xs" if "\<forall>x \<in> set xs. frequent tot x" for xs
    using that
  proof (induction xs)
    case Nil
    then show ?case by simp
  next
    case (Cons x xs)
    then have "tot + 1 \<le> 100 * x" using frequent_iff [OF assms(1)] by simp
    with Cons show ?case by (simp add: algebra_simps)
  qed
  from this [of "filter (frequent tot) ns"] s assms(2)
  have "int (length (filter (frequent tot) ns)) * (tot + 1) < 100 * (tot + 1)" by simp
  from mult_right_less_imp_less [OF this] assms(1) show ?thesis by simp
qed

definition share_item :: "string \<Rightarrow> int \<Rightarrow> int \<Rightarrow> cf_item" where
  "share_item name tot cnt = \<lparr>cf_name = Some name, c_freq = of_int cnt / of_int tot\<rparr>"

text \<open>Adding the shares of a list of counted keys to an empty list loses none.\<close>

lemma fold_shares:
  assumes "0 < tot" "cfl_ok cfl"
    "length (cfl_items cfl) + length (filter (frequent tot) (map snd E)) < 100"
    and add: "\<And>k n c. add k n c = (if frequent tot n then cfl_add (name k) (of_int n / of_int tot) c else c)"
  shows "cfl_ok (fold (\<lambda>(k, n). add k n) E cfl) \<and>
     cfl_items (fold (\<lambda>(k, n). add k n) E cfl) =
       cfl_items cfl @ map (\<lambda>(k, n). share_item (name k) tot n) (filter (\<lambda>(k, n). frequent tot n) E)"
  using assms(2,3)
proof (induction E arbitrary: cfl)
  case Nil
  then show ?case by simp
next
  case (Cons e E)
  obtain k n where e: "e = (k, n)" by (cases e)
  show ?case
  proof (cases "frequent tot n")
    case True
    let ?c = "cfl_add (name k) (of_int n / of_int tot) cfl"
    have "cfl_items ?c = cfl_items cfl @ [share_item (name k) tot n]" "cfl_ok ?c"
      using Cons.prems True e cfl_add_items cfl_add_ok by (auto simp: share_item_def)
    with Cons.IH [of ?c] Cons.prems True e show ?thesis by (simp add: add)
  next
    case False
    with Cons e show ?thesis by (simp add: add)
  qed
qed

lemma over_buckets_fold:
  "(\<And>h c. h \<in> set hs \<Longrightarrow> g h c = Some (f h c)) \<Longrightarrow> over_buckets g hs c = Some (fold f hs c)"
  by (induction hs arbitrary: c) auto

lemma cfl_walk_path:
  assumes "lpath (n_next t) p as None" "\<forall>a \<in> set as. n_value t a \<noteq> None"
  shows "cfl_walk add t p c = Some (fold (\<lambda>(k, n). add k n) (map (\<lambda>a. (the (n_value t a), n_cnt t a)) as) c)"
  using assms
proof (induction as arbitrary: p c)
  case Nil
  then show ?case by (simp add: cfl_walk.simps)
next
  case (Cons a as)
  then show ?case by (subst cfl_walk.simps) auto
qed

definition node_entries :: "'v hash_t \<Rightarrow> (nat \<Rightarrow> addr list) \<Rightarrow> ('v \<times> int) list" where
  "node_entries t ch = map (\<lambda>a. (the (n_value t a), n_cnt t a)) (concat (map ch [0..<HASH_SIZE]))"

lemma cflUpdate_entries:
  assumes "hash_rep hash key t ch"
  shows "cflUpdate add t c = Some (fold (\<lambda>(k, n). add k n) (node_entries t ch) c)"
proof -
  have chain: "lpath (n_next t) (b_first (h_buckets t h)) (ch h) None" for h
    using assms by (simp add: hash_rep_def chain_rep_def)
  have val: "n_value t a \<noteq> None" if "a \<in> set (ch h)" for h a
    using that assms unfolding hash_rep_def by blast
  have "fold (\<lambda>h. fold (\<lambda>(k, n). add k n) (map (\<lambda>a. (the (n_value t a), n_cnt t a)) (ch h))) hs c =
      fold (\<lambda>(k, n). add k n) (map (\<lambda>a. (the (n_value t a), n_cnt t a)) (concat (map ch hs))) c" for hs c
    by (induction hs arbitrary: c) auto
  moreover have "Hash_getSize t = HASH_SIZE" using assms by (simp add: hash_rep_def Hash_getSize_def)
  ultimately show ?thesis
    unfolding cflUpdate_def node_entries_def
    by (subst over_buckets_fold [OF cfl_walk_path [OF chain]]) (use val in auto)
qed

lemma count_sum:
  "finite K \<Longrightarrow> key ` set vs \<subseteq> K \<Longrightarrow> (\<Sum>k \<in> K. int (length (filter (\<lambda>v. key v = k) vs))) = int (length vs)"
proof (induction vs)
  case Nil
  then show ?case by simp
next
  case (Cons v vs)
  have "(\<Sum>k \<in> K. int (length (filter (\<lambda>v. key v = k) (v # vs)))) =
      (\<Sum>k \<in> K. (if key v = k then 1 else 0) + int (length (filter (\<lambda>v. key v = k) vs)))"
    by (intro sum.cong) auto
  also have "\<dots> = 1 + int (length vs)"
    using Cons by (simp add: sum.distrib)
  finally show ?case by simp
qed

definition occurrences :: "('v \<Rightarrow> 'k) \<Rightarrow> 'v list \<Rightarrow> 'k \<Rightarrow> int" where
  "occurrences key vs k = int (length (filter (\<lambda>v. key v = k) vs))"

lemma occurrences_pos: "0 < occurrences key vs k \<longleftrightarrow> k \<in> key ` set vs"
  by (auto simp: occurrences_def filter_empty_conv)

lemma key_counts_occurrences:
  "key_counts key vs k = Some n \<longleftrightarrow> n = occurrences key vs k \<and> k \<in> key ` set vs"
  by (auto simp: key_counts_def Let_def occurrences_def filter_empty_conv)

context hashable
begin

lemma live_chain: "hash_rep hash key t ch \<Longrightarrow> live ch = set (concat (map ch [0..<HASH_SIZE]))"
proof -
  assume rep: "hash_rep hash key t ch"
  have "h < HASH_SIZE" if "a \<in> set (ch h)" for h a
  proof -
    have "bucket_of hash (the (n_value t a)) t = h" "h_size t = HASH_SIZE"
      using rep that unfolding hash_rep_def by blast+
    then show ?thesis using bucket_of_less by metis
  qed
  then show ?thesis by (auto simp: live_def intro!: bexI)
qed

lemma distinct_nodes:
  assumes "hash_rep hash key t ch" "distinct hs"
  shows "distinct (map (node_key key t) (concat (map ch hs)))"
  using assms(2)
proof (induction hs)
  case Nil
  then show ?case by simp
next
  case (Cons h hs)
  have "distinct (map (node_key key t) (ch h))" using assms(1) by (simp add: hash_rep_def)
  moreover have False if a: "a \<in> set (ch h)" and k: "k \<in> set hs" and b: "b \<in> set (ch k)"
      and eq: "node_key key t a = node_key key t b" for a b k
  proof -
    have "n_bucket t a = h" "n_bucket t b = k" using assms(1) a b unfolding hash_rep_def by blast+
    with node_inj [OF assms(1) a b eq] k Cons.prems show False by simp
  qed
  ultimately show ?case using Cons by fastforce
qed

lemma view_entries:
  assumes "hash_rep hash key t ch" "\<forall>k n. key_counts key vs k = Some n \<longleftrightarrow> counted key t ch k n"
  shows "distinct (map (key \<circ> fst) (node_entries t ch))"
    "key ` fst ` set (node_entries t ch) = key ` set vs"
    "\<forall>(v, n) \<in> set (node_entries t ch). n = occurrences key vs (key v)"
    "sum_list (map snd (node_entries t ch)) = int (length vs)"
proof -
  let ?as = "concat (map ch [0..<HASH_SIZE])"
  have live: "live ch = set ?as" using live_chain [OF assms(1)] .
  have keys: "map (key \<circ> fst) (node_entries t ch) = map (node_key key t) ?as"
    by (simp add: node_entries_def o_def) (simp add: node_key_def)
  show d: "distinct (map (key \<circ> fst) (node_entries t ch))"
    unfolding keys by (rule distinct_nodes [OF assms(1)]) simp
  have cnt: "node_key key t a \<in> key ` set vs \<and> n_cnt t a = occurrences key vs (node_key key t a)"
    if "a \<in> set ?as" for a
  proof -
    have "counted key t ch (node_key key t a) (n_cnt t a)" using that live by (auto simp: counted_def)
    then show ?thesis using assms(2) key_counts_occurrences by metis
  qed
  show occ: "\<forall>(v, n) \<in> set (node_entries t ch). n = occurrences key vs (key v)"
    using cnt unfolding node_entries_def node_key_def by auto
  have "key ` fst ` set (node_entries t ch) = set (map (key \<circ> fst) (node_entries t ch))" by (simp add: image_comp)
  also have "\<dots> = node_key key t ` set ?as" unfolding keys by simp
  also have "\<dots> = key ` set vs"
  proof
    show "node_key key t ` set ?as \<subseteq> key ` set vs" using cnt by blast
    show "key ` set vs \<subseteq> node_key key t ` set ?as"
    proof
      fix k assume "k \<in> key ` set vs"
      then have "counted key t ch k (occurrences key vs k)" using assms(2) key_counts_occurrences by metis
      then show "k \<in> node_key key t ` set ?as" unfolding counted_def live by blast
    qed
  qed
  finally show set: "key ` fst ` set (node_entries t ch) = key ` set vs" .
  have "map snd (node_entries t ch) = map (occurrences key vs \<circ> (key \<circ> fst)) (node_entries t ch)"
    using occ by (auto simp: o_def)
  then have "sum_list (map snd (node_entries t ch)) = sum_list (map (occurrences key vs) (map (key \<circ> fst) (node_entries t ch)))"
    by (simp only: map_map)
  also have "\<dots> = (\<Sum>k \<in> set (map (key \<circ> fst) (node_entries t ch)). occurrences key vs k)"
    using d by (rule sum_list_distinct_conv_sum_set)
  also have "\<dots> = (\<Sum>k \<in> key ` set vs. occurrences key vs k)"
    using set by (simp add: image_comp)
  also have "\<dots> = int (length vs)" unfolding occurrences_def by (rule count_sum) auto
  finally show "sum_list (map snd (node_entries t ch)) = int (length vs)" .
qed

lemma interval_reports:
  assumes "hash_view hash key t (key_counts key vs)" "0 < tot" "int (length vs) \<le> tot"
    "cfl_ok c" "cfl_items c = []"
  obtains c' us where "cflUpdate (cflAdd name tot) t c = Some c'" "cfl_ok c'" "length us < 100"
    "distinct (map key us)" "key ` set us = {k. frequent tot (occurrences key vs k)}"
    "cfl_items c' = map (\<lambda>v. share_item (name v) tot (occurrences key vs (key v))) us"
proof -
  obtain ch where rep: "hash_rep hash key t ch" "\<forall>k n. key_counts key vs k = Some n \<longleftrightarrow> counted key t ch k n"
    using assms(1) by (auto simp: hash_view_def)
  let ?E = "node_entries t ch"
  note E = view_entries [OF rep]
  let ?F = "filter (\<lambda>(v, n). frequent tot n) ?E"
  have occ: "n = occurrences key vs (key v)" if "(v, n) \<in> set ?E" for v n using E(3) that by blast
  have nonneg: "\<forall>n \<in> set (map snd ?E). 0 \<le> n" using occ by (force simp: occurrences_def)
  have few: "length (filter (frequent tot) (map snd ?E)) < 100"
    by (rule few_frequent [OF assms(2) _ nonneg]) (use E(4) assms(3) in simp)
  have len: "length (filter (frequent tot) (map snd ?E)) = length ?F"
    by (simp add: filter_map o_def case_prod_unfold)
  have shares: "cfl_ok (fold (\<lambda>(k, n). cflAdd name tot k n) ?E c) \<and>
      cfl_items (fold (\<lambda>(k, n). cflAdd name tot k n) ?E c) = cfl_items c @ map (\<lambda>(k, n). share_item (name k) tot n) ?F"
    by (rule fold_shares [OF assms(2,4)]) (use few assms(2,5) in \<open>auto simp: cflAdd_def frequent_def Let_def\<close>)
  have upd: "cflUpdate (cflAdd name tot) t c = Some (fold (\<lambda>(k, n). cflAdd name tot k n) ?E c)"
    by (rule cflUpdate_entries [OF rep(1)])
  have "map (\<lambda>(k, n). share_item (name k) tot n) ?F =
      map (\<lambda>v. share_item (name v) tot (occurrences key vs (key v))) (map fst ?F)"
    using occ by auto
  moreover have "distinct (map key (map fst ?F))"
    using distinct_map_filter [OF E(1), of "\<lambda>(v, n). frequent tot n"] by simp
  moreover have "key ` set (map fst ?F) = {k. frequent tot (occurrences key vs k)}"
  proof -
    have pos: "0 < n" if "frequent tot n" for n using that frequent_iff [OF assms(2)] assms(2) by simp
    have "k \<in> key ` set (map fst ?F) \<longleftrightarrow> k \<in> key ` fst ` set ?E \<and> frequent tot (occurrences key vs k)" for k
      using occ by force
    then show ?thesis using E(2) pos occurrences_pos by (metis (no_types, lifting) Collect_cong Collect_mem_eq)
  qed
  ultimately show thesis
    using that [OF upd _ _ _ _, of "map fst ?F"] shares few len assms(5) by simp
qed

end

section \<open>What the metrics report\<close>

text \<open>The invariant of the counting metrics over the events so far.\<close>

definition distr_inv :: "('v \<Rightarrow> u32) \<Rightarrow> ('v \<Rightarrow> 'k) \<Rightarrow> 'v list \<Rightarrow> int \<Rightarrow> 'v distr \<Rightarrow> bool" where
  "distr_inv hash key vs tot m \<longleftrightarrow>
     hash_view hash key (d_ht m) (key_counts key vs) \<and> d_total m = tot \<and> int (length vs) \<le> tot \<and>
     cfl_ok (d_cfl m) \<and> cfl_items (d_cfl m) = []"

lemma distr_inv_new: "distr_inv hash key [] 0 distr_new"
proof -
  have "key_counts key [] = Map.empty" by (auto simp: key_counts_def)
  then show ?thesis
    using hash_view_new cfl_init_ok by (simp add: distr_inv_def distr_new_def)
qed

lemma Client_step:
  assumes "distr_inv Addr2_hash snd vs tot m" "0 \<le> tot"
  shows "\<exists>m' v. Client_onRequestReceived f m = Some m' \<and> snd v = fs_saddr (f_socket f) \<and>
     distr_inv Addr2_hash snd (vs @ [v]) (tot + 1) m'"
proof -
  let ?v = "(nat (d_total m), fs_saddr (f_socket f))"
  obtain r t where t: "Hash_add Addr2_hash Addr2_compare ?v (d_ht m) = Some (r, t)"
      "hash_view Addr2_hash snd t (key_counts snd (vs @ [?v]))"
    using addr_key.add_view [of "d_ht m" "key_counts snd vs" ?v] assms(1)
    by (auto simp: addr_key.key_counts_snoc distr_inv_def)
  with assms show ?thesis
    by (intro exI [of _ "m\<lparr>d_total := d_total m + 1, d_ht := t\<rparr>"] exI [of _ ?v])
      (auto simp: Client_onRequestReceived_def distr_inv_def)
qed

lemma Client_steps:
  assumes "distr_inv Addr2_hash snd vs tot m" "0 \<le> tot"
  shows "\<exists>m' us. steps Client_onRequestReceived fs m = Some m' \<and>
     map snd us = map (\<lambda>f. fs_saddr (f_socket f)) fs \<and>
     distr_inv Addr2_hash snd (vs @ us) (tot + int (length fs)) m'"
  using assms
proof (induction fs arbitrary: vs tot m)
  case Nil
  then show ?case by simp
next
  case (Cons f fs)
  obtain m1 v where m1: "Client_onRequestReceived f m = Some m1" "snd v = fs_saddr (f_socket f)"
      "distr_inv Addr2_hash snd (vs @ [v]) (tot + 1) m1"
    using Client_step [OF Cons.prems] by blast
  obtain m' us where "steps Client_onRequestReceived fs m1 = Some m'"
      "map snd us = map (\<lambda>f. fs_saddr (f_socket f)) fs"
      "distr_inv Addr2_hash snd ((vs @ [v]) @ us) (tot + 1 + int (length fs)) m'"
    using Cons.IH [OF m1(3)] Cons.prems(2) by force
  with m1(1,2) show ?case by (intro exI [of _ m'] exI [of _ "v # us"]) (simp add: algebra_simps)
qed

lemma count_string_step:
  assumes "distr_inv StringHash_hash c_str vs tot m"
  shows "\<exists>m'. count_string k m = Some m' \<and>
     distr_inv StringHash_hash c_str (vs @ (case k of None \<Rightarrow> [] | Some v \<Rightarrow> [v])) (tot + 1) m'"
proof (cases k)
  case None
  with assms show ?thesis by (simp add: count_string_def distr_inv_def)
next
  case (Some v)
  obtain r t where "Hash_add StringHash_hash StringHash_compare v (d_ht m) = Some (r, t)"
      "hash_view StringHash_hash c_str t (key_counts c_str (vs @ [v]))"
    using str_key.add_view [of "d_ht m" "key_counts c_str vs" v] assms
    by (auto simp: str_key.key_counts_snoc distr_inv_def)
  with assms Some show ?thesis by (simp add: count_string_def distr_inv_def)
qed



end
