(* ===== verification/Metrics.thy ===== *)
theory Metrics
  imports Metric_Avg Metric_Distr
begin

text \<open>
  \<^verbatim>\<open>Metric\<close>, \<^verbatim>\<open>Observer\<close>, \<^verbatim>\<open>Event\<close> and \<^verbatim>\<open>EventManager\<close>: the eleven metric classes behind one
  virtual interface, the seven events with their lists of observers, the subscription of each
  class and the notification of the observers in the order of their subscription.  Observers are
  pointers: metrics live in a store, and the lists hold their addresses there.
\<close>

section \<open>Metric\<close>

datatype metric =
    Rst metric_avg | ReqRate metric_avg | ErrRate metric_avg | Tp tp | TpRev tp | ConnRate metric_avg
  | Client "addr2 distr" | ReqPath "string distr" | ReqMethod "string distr"
  | ReqType tally | RspStatus tally

fun metric_name :: "metric \<Rightarrow> string" where
  "metric_name (Rst _) = ''rst''"
| "metric_name (ReqRate _) = ''req_rate''"
| "metric_name (ErrRate _) = ''err_rate''"
| "metric_name (Tp _) = ''tp''"
| "metric_name (TpRev _) = ''tp_rev''"
| "metric_name (ConnRate _) = ''conn_rate''"
| "metric_name (Client _) = ''clients''"
| "metric_name (ReqPath _) = ''req_path''"
| "metric_name (ReqMethod _) = ''req_method''"
| "metric_name (ReqType _) = ''req_type''"
| "metric_name (RspStatus _) = ''rsp_status''"

text \<open>The handlers of the \<^verbatim>\<open>Observer\<close> interface; a class without a body for an event ignores it.\<close>

fun onNewFlowReceived :: "pflow \<Rightarrow> metric \<Rightarrow> metric option" where
  "onNewFlowReceived f (ConnRate m) = Some (ConnRate (ConnRate_onNewFlowReceived m))"
| "onNewFlowReceived f m = Some m"

fun onFlowUpdate :: "pflow \<Rightarrow> metric \<Rightarrow> metric option" where
  "onFlowUpdate f (Tp m) = Some (Tp (Tp_onFlowUpdate f m))"
| "onFlowUpdate f (TpRev m) = Some (TpRev (TpRev_onFlowUpdate f m))"
| "onFlowUpdate f m = Some m"

fun onRequestReceived :: "pair \<Rightarrow> pflow \<Rightarrow> metric \<Rightarrow> metric option" where
  "onRequestReceived p f (ReqRate m) = Some (ReqRate (ReqRate_onRequestReceived m))"
| "onRequestReceived p f (Client m) = map_option Client (Client_onRequestReceived f m)"
| "onRequestReceived p f (ReqPath m) = map_option ReqPath (ReqPath_onRequestReceived p m)"
| "onRequestReceived p f (ReqMethod m) = map_option ReqMethod (ReqMethod_onRequestReceived p m)"
| "onRequestReceived p f (ReqType m) = map_option ReqType (ReqType_onRequestReceived p m)"
| "onRequestReceived p f m = Some m"

fun onResponseReceived :: "pair \<Rightarrow> pflow \<Rightarrow> metric \<Rightarrow> metric option" where
  "onResponseReceived p f (Rst m) = Some (Rst (Rst_onResponseReceived p m))"
| "onResponseReceived p f (ErrRate m) = map_option ErrRate (ErrRate_onResponseReceived p m)"
| "onResponseReceived p f (RspStatus m) = map_option RspStatus (RspStatus_onResponseReceived p m)"
| "onResponseReceived p f m = Some m"

fun onTimerExpired :: "metric \<Rightarrow> metric option" where
  "onTimerExpired (ReqRate m) = Some (ReqRate (ReqRate_onTimerExpired m))"
| "onTimerExpired (ErrRate m) = Some (ErrRate (ErrRate_onTimerExpired m))"
| "onTimerExpired (Tp m) = Some (Tp (Tp_onTimerExpired m))"
| "onTimerExpired (TpRev m) = Some (TpRev (Tp_onTimerExpired m))"
| "onTimerExpired (ConnRate m) = Some (ConnRate (ConnRate_onTimerExpired m))"
| "onTimerExpired m = Some m"

definition onAnalysisEnded :: "metric \<Rightarrow> metric option" where
  "onAnalysisEnded m = Some m"

text \<open>The values of a message and the message that \<^verbatim>\<open>sendMsg\<close> packs; \<open>now\<close> is \<^verbatim>\<open>time(0)\<close>.\<close>

datatype msg_values = MetricAvgMsg avg_msg | MetricCumDistrMsg "cf_item list"

record metric_msg =
  mm_name :: string
  mm_netint :: string
  mm_netintid :: u32
  mm_protocol :: string
  mm_protocolid :: u32
  mm_time :: int
  mm_values :: msg_values

fun onIntervalExpired :: "analysis \<Rightarrow> metric \<Rightarrow> (msg_values option \<times> metric) option" where
  "onIntervalExpired an (Rst m) = Some (map_prod (map_option MetricAvgMsg) Rst
     (MetricAvg_onIntervalExpired MetricAvg_getAvg MetricAvg_reset an m))"
| "onIntervalExpired an (ReqRate m) = Some (map_prod (map_option MetricAvgMsg) ReqRate
     (MetricAvg_onIntervalExpired (ReqRate_getAvg an) MetricAvg_reset an m))"
| "onIntervalExpired an (ErrRate m) = Some (map_prod (map_option MetricAvgMsg) ErrRate
     (MetricAvg_onIntervalExpired MetricAvg_getAvg MetricAvg_reset an m))"
| "onIntervalExpired an (Tp m) = Some (map_prod (map_option MetricAvgMsg) Tp
     (MetricAvg_onIntervalExpired (Tp_getAvg an) Tp_reset an m))"
| "onIntervalExpired an (TpRev m) = Some (map_prod (map_option MetricAvgMsg) TpRev
     (MetricAvg_onIntervalExpired (Tp_getAvg an) Tp_reset an m))"
| "onIntervalExpired an (ConnRate m) = Some (map_prod (map_option MetricAvgMsg) ConnRate
     (MetricAvg_onIntervalExpired (ConnRate_getAvg an) MetricAvg_reset an m))"
| "onIntervalExpired an (Client m) = map_option (map_prod (map_option MetricCumDistrMsg) Client)
     (distr_interval Client_name an m)"
| "onIntervalExpired an (ReqPath m) = map_option (map_prod (map_option MetricCumDistrMsg) ReqPath)
     (distr_interval c_str an m)"
| "onIntervalExpired an (ReqMethod m) = map_option (map_prod (map_option MetricCumDistrMsg) ReqMethod)
     (distr_interval c_str an m)"
| "onIntervalExpired an (ReqType m) = Some (map_prod (map_option MetricCumDistrMsg) ReqType (tally_interval an m))"
| "onIntervalExpired an (RspStatus m) = Some (map_prod (map_option MetricCumDistrMsg) RspStatus (tally_interval an m))"

section \<open>Events\<close>

type_synonym observers = "addr list"

definition Event_add :: "addr \<Rightarrow> observers \<Rightarrow> observers" where
  "Event_add obs os = os @ [obs]"

definition Event_remove :: "addr \<Rightarrow> observers \<Rightarrow> observers" where
  "Event_remove obs os = remove1 obs os"

record event_manager =
  newFlowReceived :: observers
  flowUpdate :: observers
  requestReceived :: observers
  responseReceived :: observers
  timerExpired :: observers
  intervalExpired :: observers
  analysisEnded :: observers

definition EventManager_new :: event_manager where
  "EventManager_new = \<lparr>newFlowReceived = [], flowUpdate = [], requestReceived = [], responseReceived = [],
     timerExpired = [], intervalExpired = [], analysisEnded = []\<rparr>"

text \<open>The events, and which of them each class subscribes to.\<close>

datatype event = NewFlow | FlowUpd | Req | Rsp | Timer | Interval | Ended

primrec add_to :: "event \<Rightarrow> addr \<Rightarrow> event_manager \<Rightarrow> event_manager" where
  "add_to NewFlow a em = em\<lparr>newFlowReceived := Event_add a (newFlowReceived em)\<rparr>"
| "add_to FlowUpd a em = em\<lparr>flowUpdate := Event_add a (flowUpdate em)\<rparr>"
| "add_to Req a em = em\<lparr>requestReceived := Event_add a (requestReceived em)\<rparr>"
| "add_to Rsp a em = em\<lparr>responseReceived := Event_add a (responseReceived em)\<rparr>"
| "add_to Timer a em = em\<lparr>timerExpired := Event_add a (timerExpired em)\<rparr>"
| "add_to Interval a em = em\<lparr>intervalExpired := Event_add a (intervalExpired em)\<rparr>"
| "add_to Ended a em = em\<lparr>analysisEnded := Event_add a (analysisEnded em)\<rparr>"

primrec observers_of :: "event \<Rightarrow> event_manager \<Rightarrow> observers" where
  "observers_of NewFlow em = newFlowReceived em"
| "observers_of FlowUpd em = flowUpdate em"
| "observers_of Req em = requestReceived em"
| "observers_of Rsp em = responseReceived em"
| "observers_of Timer em = timerExpired em"
| "observers_of Interval em = intervalExpired em"
| "observers_of Ended em = analysisEnded em"

fun subscriptions :: "metric \<Rightarrow> event list" where
  "subscriptions (Rst _) = [Rsp, Interval]"
| "subscriptions (ReqRate _) = [Req, Timer, Interval]"
| "subscriptions (ErrRate _) = [Rsp, Timer, Interval]"
| "subscriptions (Tp _) = [FlowUpd, Timer, Interval]"
| "subscriptions (TpRev _) = [FlowUpd, Timer, Interval]"
| "subscriptions (ConnRate _) = [NewFlow, Timer, Interval]"
| "subscriptions (Client _) = [Req, Interval]"
| "subscriptions (ReqPath _) = [Req, Interval]"
| "subscriptions (ReqMethod _) = [Req, Interval]"
| "subscriptions (ReqType _) = [Req, Interval]"
| "subscriptions (RspStatus _) = [Rsp, Interval]"

definition subscribe :: "addr \<Rightarrow> metric \<Rightarrow> event_manager \<Rightarrow> event_manager" where
  "subscribe a m em = fold (\<lambda>e. add_to e a) (subscriptions m) em"

section \<open>Notification\<close>

type_synonym store = "metric list"

text \<open>The loop over the observers of an event; \<open>h\<close> is the virtual handler.\<close>

fun notify :: "(metric \<Rightarrow> metric option) \<Rightarrow> observers \<Rightarrow> store \<Rightarrow> store option" where
  "notify h [] ms = Some ms"
| "notify h (a # as) ms =
     (if a < length ms then do { m \<leftarrow> h (ms ! a); notify h as (ms[a := m]) } else None)"

text \<open>Notification of the end of an interval, which also yields the messages sent.\<close>

fun notify_interval :: "analysis \<Rightarrow> (metric \<Rightarrow> msg_values \<Rightarrow> metric_msg) \<Rightarrow> observers \<Rightarrow> store \<Rightarrow> (metric_msg list \<times> store) option" where
  "notify_interval an mk [] ms = Some ([], ms)"
| "notify_interval an mk (a # as) ms =
     (if a < length ms then do {
        (v, m) \<leftarrow> onIntervalExpired an (ms ! a);
        (out, ms') \<leftarrow> notify_interval an mk as (ms[a := m]);
        Some ((case v of None \<Rightarrow> out | Some v \<Rightarrow> mk (ms ! a) v # out), ms')
      } else None)"

section \<open>Observers and handlers agree\<close>

text \<open>A handler that is not subscribed to does nothing, so that notifying the subscribed
  metrics is as good as notifying all of them.\<close>

lemma unsubscribed_handlers:
  "Req \<notin> set (subscriptions m) \<Longrightarrow> onRequestReceived p f m = Some m"
  "Rsp \<notin> set (subscriptions m) \<Longrightarrow> onResponseReceived p f m = Some m"
  "NewFlow \<notin> set (subscriptions m) \<Longrightarrow> onNewFlowReceived f m = Some m"
  "FlowUpd \<notin> set (subscriptions m) \<Longrightarrow> onFlowUpdate f m = Some m"
  "Timer \<notin> set (subscriptions m) \<Longrightarrow> onTimerExpired m = Some m"
  by (cases m; simp)+

lemma observers_add: "observers_of e (add_to e' a em) = observers_of e em @ (if e = e' then [a] else [])"
  by (cases e; cases e') (simp_all add: Event_add_def)

lemma distinct_subscriptions: "distinct (subscriptions m)"
  by (cases m) simp_all

lemma observers_subscribe:
  "observers_of e (subscribe a m em) = observers_of e em @ (if e \<in> set (subscriptions m) then [a] else [])"
proof -
  have "distinct es \<Longrightarrow> observers_of e (fold (\<lambda>e. add_to e a) es em) =
      observers_of e em @ (if e \<in> set es then [a] else [])" for es
    by (induction es arbitrary: em) (auto simp: observers_add)
  then show ?thesis by (simp add: subscribe_def distinct_subscriptions)
qed

lemma notify_frame:
  "distinct as \<Longrightarrow> notify h as ms = Some ms' \<Longrightarrow>
     length ms' = length ms \<and> (\<forall>b < length ms. if b \<in> set as then h (ms ! b) = Some (ms' ! b) else ms' ! b = ms ! b)"
proof (induction as arbitrary: ms)
  case Nil
  then show ?case by simp
next
  case (Cons a as)
  from Cons.prems(2) obtain m where m: "a < length ms" "h (ms ! a) = Some m" "notify h as (ms[a := m]) = Some ms'"
    by (auto split: if_splits simp: bind_eq_Some_conv)
  with Cons.IH [OF _ m(3)] Cons.prems(1) show ?case
    by (auto simp: nth_list_update split: if_splits)
qed

lemma notify_defined:
  assumes "\<forall>a \<in> set as. a < length ms \<and> h (ms ! a) \<noteq> None" "distinct as"
  shows "\<exists>ms'. notify h as ms = Some ms'"
  using assms
proof (induction as arbitrary: ms)
  case Nil
  then show ?case by simp
next
  case (Cons a as)
  then obtain m where "h (ms ! a) = Some m" by auto
  with Cons.IH [of "ms[a := m]"] Cons.prems show ?case by (auto simp: nth_list_update)
qed

end
