(* ===== verification/Monitor.thy ===== *)
theory Monitor
  imports Metrics Protocols Flow_Table
begin

unbundle bit_operations_syntax

text \<open>
  The class \<^verbatim>\<open>Protocol\<close> (\<^verbatim>\<open>protocol.hpp\<close>, \<^verbatim>\<open>protocol.cpp\<close>) as a monitor of one protocol: its
  settings, its packet queue and flow table, its metrics and events; the selection of the active
  metrics, the filters, the extraction of the data of a flow and the pass over the flow table.
\<close>

record monitor =
  pr_name :: string
  pr_id :: u32
  pr_em :: event_manager
  pr_metrics :: "addr list"
  pr_store :: store
  pr_analysis :: analysis
  req_tot :: int
  rsp_tot :: int
  pr_pq :: "packet_t Queue"
  pr_fht :: "pair fht"           \<comment> \<open>with the flow queue\<close>
  hasClientIp :: bool
  clientIp :: u32
  clientPorts :: "u16 list"
  hasServerIp :: bool
  serverIp :: u32
  serverPorts :: "u16 list"
  pr_ops :: proto                \<comment> \<open>the virtual methods\<close>

text \<open>The constructor leaves the counters and the two addresses as they are in memory, \<open>junk\<close>.\<close>

definition Protocol_new :: "monitor \<Rightarrow> analysis \<Rightarrow> string \<Rightarrow> u32 \<Rightarrow> proto \<Rightarrow> monitor" where
  "Protocol_new junk an protocolName protocolId ops = junk\<lparr>pr_name := protocolName, pr_id := protocolId,
     pr_em := EventManager_new, pr_metrics := [], pr_store := [], pr_analysis := an,
     pr_pq := Queue_new, pr_fht := FlowHashTable_new Queue_new,
     hasClientIp := False, clientPorts := [], hasServerIp := False, serverPorts := [], pr_ops := ops\<rparr>"

definition push_metrics :: "metric list \<Rightarrow> monitor \<Rightarrow> monitor" where
  "push_metrics ms S = S\<lparr>pr_metrics := pr_metrics S @ [length (pr_store S)..<length (pr_store S) + length ms],
     pr_store := pr_store S @ ms\<rparr>"

definition Http_new :: "monitor \<Rightarrow> http_req \<Rightarrow> http_rsp \<Rightarrow> analysis \<Rightarrow> string \<Rightarrow> u32 \<Rightarrow> monitor" where
  "Http_new junk hq hs an name i = push_metrics
     [Rst MetricAvg_new, ReqRate MetricAvg_new, ErrRate MetricAvg_new, Tp Tp_new, TpRev Tp_new,
      ConnRate MetricAvg_new, Client distr_new, ReqPath distr_new, ReqMethod distr_new,
      ReqType tally_new, RspStatus tally_new]
     ((Protocol_new junk an name i (http_proto hq hs))\<lparr>serverPorts := [80, 8080, 8000]\<rparr>)"

definition MemCached_new :: "monitor \<Rightarrow> mc_req \<Rightarrow> mc_rsp \<Rightarrow> u32 \<Rightarrow> u8 \<Rightarrow> analysis \<Rightarrow> string \<Rightarrow> u32 \<Rightarrow> monitor" where
  "MemCached_new junk mq ms wild wild8 an name i = push_metrics
     [Rst MetricAvg_new, ErrRate MetricAvg_new, Tp Tp_new, TpRev Tp_new, ReqType tally_new, RspStatus tally_new]
     ((Protocol_new junk an name i (mc_proto mq ms wild wild8))\<lparr>serverPorts := [11211]\<rparr>)"

definition MySQL_new :: "monitor \<Rightarrow> analysis \<Rightarrow> string \<Rightarrow> u32 \<Rightarrow> monitor" where
  "MySQL_new junk an name i = push_metrics
     [Rst MetricAvg_new, ReqRate MetricAvg_new, Tp Tp_new, TpRev Tp_new, ReqType tally_new]
     ((Protocol_new junk an name i my_proto)\<lparr>serverPorts := [3306]\<rparr>)"

definition setClientIp :: "u32 \<Rightarrow> monitor \<Rightarrow> monitor" where
  "setClientIp ip S = S\<lparr>hasClientIp := True, clientIp := ip\<rparr>"

definition addClientPort :: "u16 \<Rightarrow> monitor \<Rightarrow> monitor" where
  "addClientPort port S = S\<lparr>clientPorts := clientPorts S @ [port]\<rparr>"

definition setServerIp :: "u32 \<Rightarrow> monitor \<Rightarrow> monitor" where
  "setServerIp ip S = S\<lparr>hasServerIp := True, serverIp := ip\<rparr>"

definition addServerPort :: "u16 \<Rightarrow> monitor \<Rightarrow> monitor" where
  "addServerPort port S = S\<lparr>serverPorts := serverPorts S @ [port]\<rparr>"

definition isPacketOf :: "u16 \<Rightarrow> u16 \<Rightarrow> monitor \<Rightarrow> bool" where
  "isPacketOf sp dp S \<longleftrightarrow> sp \<in> set (serverPorts S) \<or> dp \<in> set (serverPorts S)"

definition isHeaderPacket :: "string \<Rightarrow> nat \<Rightarrow> proto \<Rightarrow> bool option" where
  "isHeaderPacket ptr datalen P = do {
     req_head_end \<leftarrow> p_isRequest P ptr datalen;
     rsp_head_end \<leftarrow> p_isResponse P ptr datalen;
     Some (req_head_end \<noteq> None \<or> rsp_head_end \<noteq> None)
   }"

section \<open>The active metrics\<close>

text \<open>The loop of \<^verbatim>\<open>activeMetrics\<close> from the last metric to the first; \<open>k\<close> counts down.\<close>

fun activate :: "u32 \<Rightarrow> nat \<Rightarrow> monitor \<Rightarrow> monitor" where
  "activate am 0 S = S"
| "activate am (Suc i) S =
     activate am i
       (if bit am i
        then S\<lparr>pr_em := subscribe (pr_metrics S ! i) (pr_store S ! (pr_metrics S ! i)) (pr_em S)\<rparr>
        else S\<lparr>pr_metrics := take i (pr_metrics S) @ drop (Suc i) (pr_metrics S)\<rparr>)"

definition activeMetrics :: "u32 \<Rightarrow> monitor \<Rightarrow> monitor" where
  "activeMetrics am S = activate am (length (pr_metrics S)) S"

section \<open>Extracting data\<close>

definition passes :: "monitor \<Rightarrow> 'pr flow \<Rightarrow> bool" where
  "passes S flow \<longleftrightarrow>
     \<not> (hasClientIp S \<and> clientIp S \<noteq> fs_saddr (f_socket flow)) \<and>
     \<not> (clientPorts S \<noteq> [] \<and> fs_sport (f_socket flow) \<notin> set (clientPorts S)) \<and>
     \<not> (hasServerIp S \<and> serverIp S \<noteq> fs_daddr (f_socket flow)) \<and>
     \<not> (serverPorts S \<noteq> [] \<and> fs_dport (f_socket flow) \<notin> set (serverPorts S) \<and>
        fs_sport (f_socket flow) \<notin> set (serverPorts S))"

definition tell :: "event \<Rightarrow> (metric \<Rightarrow> metric option) \<Rightarrow> monitor \<Rightarrow> monitor option" where
  "tell e h S = map_option (\<lambda>ms. S\<lparr>pr_store := ms\<rparr>) (notify h (observers_of e (pr_em S)) (pr_store S))"

definition process_request :: "pflow \<Rightarrow> pair \<Rightarrow> monitor \<Rightarrow> (pair \<times> monitor) option" where
  "process_request flow p S =
     (case request_header p of
        None \<Rightarrow> Some (p, S)
      | Some r \<Rightarrow>
          if rq_processed r then Some (p, S)
          else do {
            let p = p\<lparr>request_header := Some (r\<lparr>rq_processed := True\<rparr>)\<rparr>;
            S \<leftarrow> tell Req (onRequestReceived p flow) S;
            Some (p, S\<lparr>req_tot := req_tot S + 1\<rparr>)
          })"

text \<open>The loop over the pairs; \<open>acc\<close> is the chain from \<^verbatim>\<open>pair_f\<close> to the pair before the current
  one.  When an answered pair that was processed before has a successor, \<^verbatim>\<open>pair_f\<close> is set to
  that successor, so that all earlier pairs leave the chain.\<close>

fun pair_loop :: "pflow \<Rightarrow> pair list \<Rightarrow> pair list \<Rightarrow> monitor \<Rightarrow> (pair list \<times> monitor) option" where
  "pair_loop flow acc [] S = Some (acc, S)"
| "pair_loop flow acc (p # ps) S =
     (if request_header p = None then pair_loop flow (acc @ [p]) ps S
      else do {
        (p, S) \<leftarrow> process_request flow p S;
        (case response_header p of
           None \<Rightarrow> pair_loop flow (acc @ [p]) ps S
         | Some r \<Rightarrow>
             if rs_processed r then pair_loop flow (if ps \<noteq> [] then [] else acc @ [p]) ps S
             else do {
               let p = p\<lparr>response_header := Some (r\<lparr>rs_processed := True\<rparr>)\<rparr>;
               S \<leftarrow> tell Rsp (onResponseReceived p flow) (S\<lparr>rsp_tot := rsp_tot S + 1\<rparr>);
               pair_loop flow (acc @ [p]) ps S
             })
      })"

definition extractData :: "pflow \<Rightarrow> monitor \<Rightarrow> (pflow \<times> monitor) option" where
  "extractData flow S =
     (if \<not> passes S flow then Some (flow, S)
      else do {
        (flow, S) \<leftarrow> (if \<not> f_processed flow
                       then do {
                         let flow = flow\<lparr>f_processed := True\<rparr>;
                         S \<leftarrow> tell NewFlow (onNewFlowReceived flow) S;
                         Some (flow, S)
                       } else Some (flow, S));
        S \<leftarrow> tell FlowUpd (onFlowUpdate flow) S;
        (ps, S) \<leftarrow> pair_loop flow [] (f_pairs flow) S;
        Some (flow\<lparr>f_pairs := ps\<rparr>, S)
      })"

section \<open>The pass over the flow table\<close>

partial_function (option) flow_walk :: "ptr \<Rightarrow> monitor \<Rightarrow> monitor option" where
  "flow_walk p S =
     (case p of
        None \<Rightarrow> Some S
      | Some a \<Rightarrow> do {
          flow \<leftarrow> fl_obj (pr_fht S) a;
          let flow_next = fl_next (pr_fht S) a;
          (r, flow) \<leftarrow> extractPair (pr_ops S) flow False;
          (flow, S) \<leftarrow> extractData flow S;
          flow_walk flow_next (S\<lparr>pr_fht := upd_flow a flow (pr_fht S)\<rparr>)
        })"

definition flowHashProcess :: "monitor \<Rightarrow> monitor option" where
  "flowHashProcess S =
     over_buckets (\<lambda>i S. flow_walk (b_first (flow_hash_table (pr_fht S) i)) S) [0..<HASH_SIZE] S"

section \<open>The end of an interval\<close>

definition mk_msg :: "int \<Rightarrow> monitor \<Rightarrow> metric \<Rightarrow> msg_values \<Rightarrow> metric_msg" where
  "mk_msg now S m v = \<lparr>mm_name = metric_name m, mm_netint = an_interface (pr_analysis S),
     mm_netintid = interfaceId (pr_analysis S), mm_protocol = pr_name S, mm_protocolid = pr_id S,
     mm_time = now, mm_values = v\<rparr>"

definition interval_expired :: "int \<Rightarrow> analysis \<Rightarrow> monitor \<Rightarrow> (metric_msg list \<times> monitor) option" where
  "interval_expired now an S = map_option (map_prod id (\<lambda>ms. S\<lparr>pr_store := ms\<rparr>))
     (notify_interval an (mk_msg now S) (intervalExpired (pr_em S)) (pr_store S))"

section \<open>Which metrics observe what\<close>

lemma activate_selects:
  assumes "pr_metrics S = [0..<k] @ rest"
  shows "\<exists>em. activate am k S = S\<lparr>pr_em := em, pr_metrics := filter (bit am) [0..<k] @ rest\<rparr> \<and>
    (\<forall>e. observers_of e em = observers_of e (pr_em S) @
       rev (filter (\<lambda>i. bit am i \<and> e \<in> set (subscriptions (pr_store S ! i))) [0..<k]))"
  using assms
proof (induction k arbitrary: S rest)
  case 0
  then show ?case by (intro exI [of _ "pr_em S"]) simp
next
  case (Suc k)
  show ?case
  proof (cases "bit am k")
    case True
    let ?S = "S\<lparr>pr_em := subscribe (pr_metrics S ! k) (pr_store S ! (pr_metrics S ! k)) (pr_em S)\<rparr>"
    have k: "pr_metrics S ! k = k" using Suc.prems by (simp add: nth_append)
    have "pr_metrics ?S = [0..<k] @ k # rest" using Suc.prems by simp
    from Suc.IH [OF this] True k show ?thesis
      by (auto simp: observers_subscribe)
  next
    case False
    let ?S = "S\<lparr>pr_metrics := take k (pr_metrics S) @ drop (Suc k) (pr_metrics S)\<rparr>"
    have "pr_metrics ?S = [0..<k] @ rest" using Suc.prems by simp
    from Suc.IH [OF this] False show ?thesis by auto
  qed
qed

text \<open>C22. \<^verbatim>\<open>activeMetrics\<close> on a new monitor of any of the three protocols keeps exactly the metrics
  whose bit is set, in order, and subscribes each of them once to each of its events (the last
  one first) and nothing else.\<close>

theorem activeMetrics_selects:
  "S \<in> {Http_new junk hq hs an name i, MemCached_new junk mq ms wild wild8 an name i, MySQL_new junk an name i} \<Longrightarrow>
   pr_metrics (activeMetrics am S) = filter (bit am) [0..<length (pr_store S)] \<and>
   pr_store (activeMetrics am S) = pr_store S \<and> serverPorts (activeMetrics am S) = serverPorts S \<and>
   observers_of e (pr_em (activeMetrics am S)) =
     rev (filter (\<lambda>k. bit am k \<and> e \<in> set (subscriptions (pr_store S ! k))) [0..<length (pr_store S)])"
proof -
  assume "S \<in> {Http_new junk hq hs an name i, MemCached_new junk mq ms wild wild8 an name i, MySQL_new junk an name i}"
  then have m: "pr_metrics S = [0..<length (pr_store S)]" and em: "pr_em S = EventManager_new"
    by (auto simp: Http_new_def MemCached_new_def MySQL_new_def push_metrics_def Protocol_new_def)
  have "observers_of e EventManager_new = []" for e by (cases e) (simp_all add: EventManager_new_def)
  with activate_selects [of S "length (pr_store S)" "[]" am] m em show ?thesis
    by (auto simp: activeMetrics_def)
qed

section \<open>What the extraction announces\<close>

definition seen :: "pair \<Rightarrow> pair" where
  "seen p = (case request_header p of
     None \<Rightarrow> p
   | Some r \<Rightarrow> p\<lparr>request_header := Some (r\<lparr>rq_processed := True\<rparr>),
                  response_header := map_option (\<lambda>r. r\<lparr>rs_processed := True\<rparr>) (response_header p)\<rparr>)"

definition done_before :: "pair \<Rightarrow> bool" where
  "done_before p \<longleftrightarrow> request_header p \<noteq> None \<and> (\<exists>r. response_header p = Some r \<and> rs_processed r)"

definition request_seen :: "pair \<Rightarrow> pair" where
  "request_seen p = p\<lparr>request_header := map_option (\<lambda>r. r\<lparr>rq_processed := True\<rparr>) (request_header p)\<rparr>"

text \<open>The announcements for a pair, with the pair as the observers find it.\<close>

definition pair_events :: "pair \<Rightarrow> (event \<times> pair) list" where
  "pair_events p = (case request_header p of
     None \<Rightarrow> []
   | Some r \<Rightarrow> (if rq_processed r then [] else [(Req, request_seen p)]) @
       (case response_header p of
          None \<Rightarrow> [] | Some s \<Rightarrow> if rs_processed s then [] else [(Rsp, seen p)]))"

fun announce :: "pflow \<Rightarrow> event_manager \<Rightarrow> event \<times> pair \<Rightarrow> store \<Rightarrow> store option" where
  "announce f em (Req, p) = notify (onRequestReceived p f) (requestReceived em)"
| "announce f em (Rsp, p) = notify (onResponseReceived p f) (responseReceived em)"
| "announce f em (NewFlow, p) = notify (onNewFlowReceived f) (newFlowReceived em)"
| "announce f em (FlowUpd, p) = notify (onFlowUpdate f) (flowUpdate em)"
| "announce f em (e, p) = Some"

fun kept :: "pair list \<Rightarrow> pair list \<Rightarrow> pair list" where
  "kept acc [] = acc"
| "kept acc (p # ps) = kept (if done_before p \<and> ps \<noteq> [] then [] else acc @ [seen p]) ps"

definition count_events :: "event \<Rightarrow> (event \<times> pair) list \<Rightarrow> int" where
  "count_events e es = int (length (filter (\<lambda>x. fst x = e) es))"

lemma count_events_simps [simp]:
  "count_events e [] = 0" "count_events e (es @ es') = count_events e es + count_events e es'"
  "count_events e ((e', p) # es) = (if e = e' then 1 else 0) + count_events e es"
  by (simp_all add: count_events_def)

text \<open>The totals after a list of announcements.\<close>

definition counted_totals :: "(event \<times> pair) list \<Rightarrow> store \<Rightarrow> monitor \<Rightarrow> monitor" where
  "counted_totals es ms S = S\<lparr>pr_store := ms, req_tot := req_tot S + count_events Req es,
     rsp_tot := rsp_tot S + count_events Rsp es\<rparr>"

lemma seen_idle: "rq_processed r \<Longrightarrow> request_header p = Some r \<Longrightarrow> p\<lparr>request_header := Some (r\<lparr>rq_processed := True\<rparr>)\<rparr> = p"
  by (cases p; cases r) simp

lemma process_request_events:
  assumes "request_header p = Some r"
  shows "process_request flow p S = map_option (\<lambda>ms. (request_seen p,
      counted_totals (if rq_processed r then [] else [(Req, request_seen p)]) ms S))
    (steps (announce flow (pr_em S)) (if rq_processed r then [] else [(Req, request_seen p)]) (pr_store S))"
proof (cases "rq_processed r")
  case True
  then have "request_seen p = p" using seen_idle [OF True assms] assms by (simp add: request_seen_def)
  with True assms show ?thesis by (simp add: process_request_def counted_totals_def)
next
  case False
  with assms show ?thesis
    by (simp add: process_request_def tell_def counted_totals_def request_seen_def Let_def option.map_comp
        comp_def bind_map_option split: bind_splits)
qed

lemma counted_totals_simps [simp]:
  "counted_totals es' ms' (counted_totals es ms S) = counted_totals (es @ es') ms' S"
  "pr_em (counted_totals es ms S) = pr_em S" "pr_store (counted_totals es ms S) = ms"
  by (simp_all add: counted_totals_def algebra_simps)

lemma counted_totals_same: "counted_totals [] (pr_store S) S = S"
  by (simp add: counted_totals_def)

lemma request_seen_simps [simp]:
  "response_header (request_seen p) = response_header p"
  "request_header (request_seen p) = map_option (\<lambda>r. r\<lparr>rq_processed := True\<rparr>) (request_header p)"
  by (simp_all add: request_seen_def)

lemma seen_unanswered: "response_header p = None \<Longrightarrow> seen p = request_seen p"
  by (cases p) (simp add: seen_def request_seen_def split: option.split)

lemma seen_answered: "response_header p = Some r \<Longrightarrow> rs_processed r \<Longrightarrow> seen p = request_seen p"
  by (cases p; cases r) (simp add: seen_def request_seen_def split: option.split)

lemma seen_new: "request_header p = Some q \<Longrightarrow> response_header p = Some r \<Longrightarrow>
    (request_seen p)\<lparr>response_header := Some (r\<lparr>rs_processed := True\<rparr>)\<rparr> = seen p"
  by (cases p) (simp add: seen_def request_seen_def)

lemma tell_response:
  "tell Rsp (onResponseReceived p flow) (S\<lparr>rsp_tot := rsp_tot S + 1\<rparr>) =
     map_option (\<lambda>ms. counted_totals [(Rsp, p)] ms S) (announce flow (pr_em S) (Rsp, p) (pr_store S))"
  by (cases "announce flow (pr_em S) (Rsp, p) (pr_store S)") (simp_all add: tell_def counted_totals_def)

lemma pair_loop_events:
  "pair_loop flow acc ps S = map_option (\<lambda>ms. (kept acc ps, counted_totals (concat (map pair_events ps)) ms S))
     (steps (announce flow (pr_em S)) (concat (map pair_events ps)) (pr_store S))"
proof (induction ps arbitrary: acc S)
  case Nil
  then show ?case by (simp add: counted_totals_same)
next
  case (Cons p ps)
  show ?case
  proof (cases "request_header p")
    case None
    then have "seen p = p" "pair_events p = []" "\<not> done_before p"
      by (simp_all add: seen_def pair_events_def done_before_def)
    with None Cons show ?thesis by simp
  next
    case (Some r)
    obtain es where es: "es = (if rq_processed r then [] else [(Req, request_seen p)])" by blast
    note pr = process_request_events [OF Some, folded es]
    show ?thesis
    proof (cases "steps (announce flow (pr_em S)) es (pr_store S)")
      case None
      moreover have "\<exists>es'. pair_events p = es @ es'" using Some by (simp add: pair_events_def es)
      ultimately show ?thesis using Some pr by (auto simp: steps_append)
    next
      case ms: (Some ms)
      show ?thesis
      proof (cases "response_header p")
        case None
        then have "pair_events p = es" "seen p = request_seen p" "\<not> done_before p"
          using Some by (simp_all add: pair_events_def seen_unanswered done_before_def es)
        with Some None pr ms show ?thesis by (simp add: Cons.IH steps_append option.map_comp comp_def)
      next
        case rsp: (Some s)
        show ?thesis
        proof (cases "rs_processed s")
          case True
          then have "pair_events p = es" "seen p = request_seen p" "done_before p"
            using Some rsp by (auto simp: pair_events_def seen_answered done_before_def es)
          with Some rsp True pr ms show ?thesis by (simp add: Cons.IH steps_append option.map_comp comp_def)
        next
          case False
          then have ev: "pair_events p = es @ [(Rsp, seen p)]" "\<not> done_before p"
            using Some rsp by (simp_all add: pair_events_def done_before_def es)
          show ?thesis
          proof (cases "announce flow (pr_em S) (Rsp, seen p) ms")
            case None
            with Some rsp False pr ms ev show ?thesis
              by (simp add: steps_append seen_new [OF Some rsp] tell_response Let_def del: announce.simps)
          next
            case (Some ms')
            with \<open>request_header p = Some r\<close> rsp False pr ms ev show ?thesis
              by (simp add: Cons.IH steps_append option.map_comp comp_def seen_new
                  [OF \<open>request_header p = Some r\<close> rsp] tell_response Let_def del: announce.simps)
          qed
        qed
      qed
    qed
  qed
qed

text \<open>Events that carry no pair are listed with a blank one.\<close>

definition flow_events :: "pflow \<Rightarrow> (event \<times> pair) list" where
  "flow_events flow = (if f_processed flow then [] else [(NewFlow, Pair_new)]) @ (FlowUpd, Pair_new) #
     concat (map pair_events (f_pairs flow))"

lemma tell_flow_events:
  "tell NewFlow (onNewFlowReceived flow) S =
     map_option (\<lambda>ms. counted_totals [(NewFlow, p)] ms S) (announce flow (pr_em S) (NewFlow, p) (pr_store S))"
  "tell FlowUpd (onFlowUpdate flow) S =
     map_option (\<lambda>ms. counted_totals [(FlowUpd, p)] ms S) (announce flow (pr_em S) (FlowUpd, p) (pr_store S))"
  by (simp_all add: tell_def counted_totals_def)

lemma extractData_eq:
  "extractData flow S =
     (if passes S flow
      then map_option (\<lambda>ms. (flow\<lparr>f_processed := True, f_pairs := kept [] (f_pairs flow)\<rparr>,
             S\<lparr>pr_store := ms, req_tot := req_tot S + count_events Req (flow_events flow),
               rsp_tot := rsp_tot S + count_events Rsp (flow_events flow)\<rparr>))
           (steps (announce (flow\<lparr>f_processed := True\<rparr>) (pr_em S)) (flow_events flow) (pr_store S))
      else Some (flow, S))"
proof (cases "passes S flow")
  case False
  then show ?thesis by (simp add: extractData_def)
next
  case True
  let ?flow = "flow\<lparr>f_processed := True\<rparr>"
  let ?rest = "(FlowUpd, Pair_new) # concat (map pair_events (f_pairs flow))"
  have rest: "do { S \<leftarrow> tell FlowUpd (onFlowUpdate ?flow) S'; (ps, S) \<leftarrow> pair_loop ?flow [] (f_pairs ?flow) S;
        Some (?flow\<lparr>f_pairs := ps\<rparr>, S) } =
      map_option (\<lambda>ms. (?flow\<lparr>f_pairs := kept [] (f_pairs flow)\<rparr>, counted_totals ?rest ms S'))
        (steps (announce ?flow (pr_em S')) ?rest (pr_store S'))" for S'
    by (cases "announce ?flow (pr_em S') (FlowUpd, Pair_new) (pr_store S')")
      (simp_all add: tell_flow_events [where p = Pair_new] pair_loop_events option.map_comp comp_def
        map_option_bind bind_map_option del: announce.simps, simp add: map_conv_bind_option comp_def)
  have "extractData flow S = map_option (\<lambda>ms. (?flow\<lparr>f_pairs := kept [] (f_pairs flow)\<rparr>,
      counted_totals (flow_events flow) ms S)) (steps (announce ?flow (pr_em S)) (flow_events flow) (pr_store S))"
  proof (cases "f_processed flow")
    case p: True
    then have e: "?flow = flow" by (cases flow) simp
    show ?thesis
      unfolding e using True p rest [of S, unfolded e] by (simp add: extractData_def flow_events_def)
  next
    case False
    show ?thesis
    proof (cases "announce ?flow (pr_em S) (NewFlow, Pair_new) (pr_store S)")
      case None
      with True False show ?thesis
        by (simp add: extractData_def flow_events_def tell_flow_events [where p = Pair_new] del: announce.simps)
    next
      case (Some ms)
      with True False rest [of "counted_totals [(NewFlow, Pair_new)] ms S"] show ?thesis
        by (simp add: extractData_def flow_events_def tell_flow_events [where p = Pair_new] del: announce.simps)
    qed
  qed
  with True show ?thesis by (simp add: counted_totals_def)
qed

text \<open>C3. \<^verbatim>\<open>extractData\<close> ignores a flow that does not pass the filters.  Otherwise it announces, in this
  order: the flow if it is new, its update, and for each pair its request and its response unless
  they were announced before; the totals grow by the number of these requests and
  responses.  It marks what it announced and removes the pairs up to the last one but the final
  one that was complete before.\<close>

theorem extractData_announces:
  "extractData flow S =
     (if passes S flow
      then map_option (\<lambda>ms. (flow\<lparr>f_processed := True, f_pairs := kept [] (f_pairs flow)\<rparr>,
             S\<lparr>pr_store := ms, req_tot := req_tot S + count_events Req (flow_events flow),
               rsp_tot := rsp_tot S + count_events Rsp (flow_events flow)\<rparr>))
           (steps (announce (flow\<lparr>f_processed := True\<rparr>) (pr_em S)) (flow_events flow) (pr_store S))
      else Some (flow, S))"
  by (rule extractData_eq)

lemma extractData_flow:
  assumes "extractData flow S = Some (flow', S')" "passes S flow"
  shows "flow' = flow\<lparr>f_processed := True, f_pairs := kept [] (f_pairs flow)\<rparr>"
proof -
  let ?F = "\<lambda>ms. (flow\<lparr>f_processed := True, f_pairs := kept [] (f_pairs flow)\<rparr>, counted_totals (flow_events flow) ms S)"
  have "map_option ?F (steps (announce (flow\<lparr>f_processed := True\<rparr>) (pr_em S)) (flow_events flow) (pr_store S)) = Some (flow', S')"
    using assms(1) unfolding extractData_eq if_P [OF assms(2)] counted_totals_def .
  then show ?thesis by blast
qed

lemma extractData_totals:
  assumes "extractData flow S = Some (flow', S')"
  shows "req_tot S' = req_tot S + (if passes S flow then count_events Req (flow_events flow) else 0) \<and>
    rsp_tot S' = rsp_tot S + (if passes S flow then count_events Rsp (flow_events flow) else 0)"
proof (cases "passes S flow")
  case True
  let ?F = "\<lambda>ms. (flow\<lparr>f_processed := True, f_pairs := kept [] (f_pairs flow)\<rparr>, counted_totals (flow_events flow) ms S)"
  have "map_option ?F (steps (announce (flow\<lparr>f_processed := True\<rparr>) (pr_em S)) (flow_events flow) (pr_store S)) = Some (flow', S')"
    using assms unfolding extractData_eq if_P [OF True] counted_totals_def .
  then obtain ms where "S' = counted_totals (flow_events flow) ms S" by blast
  with True show ?thesis by (simp add: counted_totals_def)
next
  case False
  with assms show ?thesis by (simp add: extractData_def)
qed

lemma pair_events_seen [simp]: "pair_events (seen p) = []"
  by (cases "request_header p"; cases "response_header p") (simp_all add: pair_events_def seen_def)

lemma kept_seen: "\<forall>p \<in> set acc. pair_events p = [] \<Longrightarrow> \<forall>p \<in> set (kept acc ps). pair_events p = []"
proof (induction ps arbitrary: acc)
  case (Cons p ps)
  let ?acc = "if done_before p \<and> ps \<noteq> [] then [] else acc @ [seen p]"
  have "\<forall>p \<in> set ?acc. pair_events p = []" using Cons.prems by (cases "done_before p \<and> ps \<noteq> []") simp_all
  from Cons.IH [OF this] show ?case by simp
qed simp

lemma kept_length: "length (kept acc ps) \<le> length acc + length ps"
proof (induction ps arbitrary: acc)
  case (Cons p ps)
  have "length (if done_before p \<and> ps \<noteq> [] then [] else acc @ [seen p]) \<le> Suc (length acc)" by simp
  with Cons.IH [of "if done_before p \<and> ps \<noteq> [] then [] else acc @ [seen p]"] show ?case
    by (simp del: length_append)
qed simp

lemma kept_skip: "done_before p \<Longrightarrow> kept acc (ps @ p # q # qs) = kept [] (q # qs)"
  by (induction ps arbitrary: acc) simp_all

text \<open>C23. Each request and each response is announced once: when the data of a flow have been extracted,
  all that a further extraction announces is the update of the flow.\<close>

theorem extractData_announces_once:
  assumes "passes S flow" "extractData flow S = Some (flow', S')"
  shows "flow_events flow' = [(FlowUpd, Pair_new)] \<and>
    (\<forall>flow'' S''. extractData flow' S' = Some (flow'', S'') \<longrightarrow> req_tot S'' = req_tot S' \<and> rsp_tot S'' = rsp_tot S')"
proof -
  have f: "flow' = flow\<lparr>f_processed := True, f_pairs := kept [] (f_pairs flow)\<rparr>"
    using extractData_flow [OF assms(2,1)] by simp
  have "concat (map pair_events (kept [] (f_pairs flow))) = []" using kept_seen [of "[]" "f_pairs flow"] by simp
  then have e: "flow_events flow' = [(FlowUpd, Pair_new)]" by (simp add: f flow_events_def)
  have "req_tot S'' = req_tot S' \<and> rsp_tot S'' = rsp_tot S'" if "extractData flow' S' = Some (flow'', S'')" for flow'' S''
    using extractData_totals [OF that] e by simp
  with e show ?thesis by blast
qed

text \<open>A pair that was complete before and is not the last one takes all earlier pairs with it,
  unanswered ones included: no later response can be joined to them.\<close>

theorem extractData_drops_earlier_pairs:
  assumes "passes S flow" "f_pairs flow = ps @ p # q # qs" "done_before p" "extractData flow S = Some (flow', S')"
  shows "f_pairs flow' = kept [] (q # qs) \<and> length (f_pairs flow') \<le> Suc (length qs)"
  using extractData_flow [OF assms(4,1)] kept_skip [OF assms(3), of "[]" ps q qs] kept_length [of "[]" "q # qs"] assms(2)
  by simp

text \<open>A monitor without active metrics, and a flow that passes its filters.\<close>

definition idle_monitor :: "monitor \<Rightarrow> analysis \<Rightarrow> monitor" where
  "idle_monitor junk an = activeMetrics 0 (MySQL_new junk an ''MYSQL'' 0)"

definition mysql_flow :: "pflow \<Rightarrow> pair list \<Rightarrow> pflow" where
  "mysql_flow f ps = f\<lparr>f_processed := False, f_pairs := ps,
     f_socket := \<lparr>fs_saddr = 0x0a000001, fs_daddr = 0x0a000002, fs_sport = 40000, fs_dport = 3306\<rparr>\<rparr>"

lemma idle_monitor_idle: "pr_em (idle_monitor junk an) = EventManager_new" "passes (idle_monitor junk an) (mysql_flow f ps)"
proof -
  let ?S = "MySQL_new junk an ''MYSQL'' 0"
  have "activate 0 k S = S\<lparr>pr_metrics := drop k (pr_metrics S)\<rparr>" if "k \<le> length (pr_metrics S)" for k S
    using that
  proof (induction k arbitrary: S)
    case (Suc k)
    then have "drop k (take k (pr_metrics S) @ drop (Suc k) (pr_metrics S)) = drop (Suc k) (pr_metrics S)" by simp
    with Suc show ?case by simp
  qed simp
  then have "idle_monitor junk an = ?S\<lparr>pr_metrics := []\<rparr>" by (simp add: idle_monitor_def activeMetrics_def)
  then show "pr_em (idle_monitor junk an) = EventManager_new" "passes (idle_monitor junk an) (mysql_flow f ps)"
    by (simp_all add: passes_def mysql_flow_def MySQL_new_def push_metrics_def Protocol_new_def)
qed

lemma idle_extracts: "\<exists>S'. extractData (mysql_flow f ps) (idle_monitor junk an) =
    Some ((mysql_flow f ps)\<lparr>f_processed := True, f_pairs := kept [] ps\<rparr>, S')"
proof -
  have "announce g EventManager_new x ms = Some ms" for g x ms
    by (cases x; cases "fst x") (auto simp: EventManager_new_def)
  then have "steps (announce g EventManager_new) xs ms = Some ms" for g xs ms by (induction xs) simp_all
  then show ?thesis
    by (simp add: extractData_eq idle_monitor_idle) (simp add: mysql_flow_def)
qed

lemma extractData_announces_once_witness:
  "\<forall>junk an f r s. \<exists>flow' S'. extractData (mysql_flow f [Pair_new\<lparr>request_header := Some r, response_header := Some s\<rparr>])
       (idle_monitor junk an) = Some (flow', S') \<and> flow_events flow' = [(FlowUpd, Pair_new)]"
proof (intro allI)
  fix junk an f r s
  let ?f = "mysql_flow f [Pair_new\<lparr>request_header := Some r, response_header := Some s\<rparr>]" and ?S = "idle_monitor junk an"
  obtain flow' S' where e: "extractData ?f ?S = Some (flow', S')" using idle_extracts by blast
  from extractData_announces_once [OF idle_monitor_idle(2) e] e
  show "\<exists>flow' S'. extractData ?f ?S = Some (flow', S') \<and> flow_events flow' = [(FlowUpd, Pair_new)]" by blast
qed

text \<open>An unanswered request, a complete pair and another request: only the last one stays.\<close>

lemma extractData_drops_earlier_pairs_witness:
  "\<forall>junk an f r s. \<exists>flow' S'. extractData (mysql_flow f [Pair_new\<lparr>request_header := Some r\<rparr>,
        Pair_new\<lparr>request_header := Some r, response_header := Some (s\<lparr>rs_processed := True\<rparr>)\<rparr>,
        Pair_new\<lparr>request_header := Some r\<rparr>]) (idle_monitor junk an) = Some (flow', S') \<and> length (f_pairs flow') \<le> 1"
proof (intro allI)
  fix junk an f r s
  let ?a = "Pair_new\<lparr>request_header := Some r\<rparr>"
  let ?p = "Pair_new\<lparr>request_header := Some r, response_header := Some (s\<lparr>rs_processed := True\<rparr>)\<rparr>"
  let ?f = "mysql_flow f [?a, ?p, ?a]" and ?S = "idle_monitor junk an"
  obtain flow' S' where e: "extractData ?f ?S = Some (flow', S')" using idle_extracts by blast
  have "f_pairs ?f = [?a] @ ?p # ?a # []" "done_before ?p" by (simp_all add: mysql_flow_def done_before_def)
  from extractData_drops_earlier_pairs [OF idle_monitor_idle(2) this e] e
  show "\<exists>flow' S'. extractData ?f ?S = Some (flow', S') \<and> length (f_pairs flow') \<le> 1" by auto
qed

lemma activeMetrics_selects_witness:
  "\<forall>junk an. pr_metrics (activeMetrics 5 (MySQL_new junk an ''MYSQL'' 0)) = [0, 2] \<and>
     observers_of Interval (pr_em (activeMetrics 5 (MySQL_new junk an ''MYSQL'' 0))) = [2, 0] \<and>
     observers_of Rsp (pr_em (activeMetrics 5 (MySQL_new junk an ''MYSQL'' 0))) = [0]"
proof (intro allI)
  fix junk an
  let ?S = "MySQL_new junk an ''MYSQL'' 0"
  have s: "pr_store ?S = [Rst MetricAvg_new, ReqRate MetricAvg_new, Tp Tp_new, TpRev Tp_new, ReqType tally_new]"
    by (simp add: MySQL_new_def push_metrics_def Protocol_new_def)
  have b: "filter (bit (5 :: u32)) [0..<5] = [0, 2]" by code_simp
  have "filter (\<lambda>k. bit (5 :: u32) k \<and> e \<in> set (subscriptions (pr_store ?S ! k))) [0..<5] =
      filter (\<lambda>k. e \<in> set (subscriptions (pr_store ?S ! k))) [0, 2]" for e
    unfolding b [symmetric] by (simp only: filter_filter)
  with activeMetrics_selects [where S = ?S and junk = junk and an = an and name = "''MYSQL''" and i = 0 and am = 5] b
  show "pr_metrics (activeMetrics 5 ?S) = [0, 2] \<and> observers_of Interval (pr_em (activeMetrics 5 ?S)) = [2, 0] \<and>
     observers_of Rsp (pr_em (activeMetrics 5 ?S)) = [0]"
    by (simp add: s)
qed

end
