(* ===== verification/Delivery.thy ===== *)
theory Delivery
  imports Monitor Pairing
begin

text \<open>
  The delivery of events never fails on a monitor that sees the messages of its own protocol:
  every handler finds what it dereferences (\<^verbatim>\<open>rsp->hasErrorStatus()\<close>, \<^verbatim>\<open>request_header->uri\<close>,
  ...), and the invariants of the counting metrics are kept.
\<close>

section \<open>The handlers are defined on messages of their protocol\<close>

datatype kind = HTTP | MEMCACHED | MYSQL

primrec req_kind :: "req_ext \<Rightarrow> kind" where
  "req_kind (Http_Req _) = HTTP" | "req_kind (Memcached_Req _) = MEMCACHED" | "req_kind (MySQL_Req _) = MYSQL"

primrec rsp_kind :: "rsp_ext \<Rightarrow> kind" where
  "rsp_kind (Http_Rsp _) = HTTP" | "rsp_kind (Memcached_Rsp _) = MEMCACHED" | "rsp_kind (MySQL_Rsp _) = MYSQL"

definition pair_of :: "kind \<Rightarrow> pair \<Rightarrow> bool" where
  "pair_of k p \<longleftrightarrow> (\<forall>r. request_header p = Some r \<longrightarrow> req_kind (rq_ext r) = k) \<and>
     (\<forall>r. response_header p = Some r \<longrightarrow> rsp_kind (rs_ext r) = k)"

definition distr_ok :: "('v \<Rightarrow> u32) \<Rightarrow> ('v \<Rightarrow> 'k) \<Rightarrow> 'v distr \<Rightarrow> bool" where
  "distr_ok hash key m \<longleftrightarrow> (\<exists>vs tot. distr_inv hash key vs tot m \<and> 0 \<le> tot)"

text \<open>The metrics that a monitor of each kind may have, and their invariants.\<close>

fun metric_ok :: "kind \<Rightarrow> metric \<Rightarrow> bool" where
  "metric_ok k (ErrRate m) \<longleftrightarrow> k \<noteq> MYSQL"
| "metric_ok k (RspStatus m) \<longleftrightarrow> k \<noteq> MYSQL"
| "metric_ok k (Client m) \<longleftrightarrow> distr_ok Addr2_hash snd m"
| "metric_ok k (ReqPath m) \<longleftrightarrow> k = HTTP \<and> distr_ok StringHash_hash c_str m"
| "metric_ok k (ReqMethod m) \<longleftrightarrow> k = HTTP \<and> distr_ok StringHash_hash c_str m"
| "metric_ok k m \<longleftrightarrow> True"

definition keeps :: "kind \<Rightarrow> (metric \<Rightarrow> metric option) \<Rightarrow> bool" where
  "keeps k h \<longleftrightarrow> (\<forall>m. metric_ok k m \<longrightarrow> (\<exists>m'. h m = Some m' \<and> metric_ok k m'))"

lemma distr_ok_new: "distr_ok hash key distr_new"
  unfolding distr_ok_def using distr_inv_new by blast

lemma Client_keeps: "distr_ok Addr2_hash snd m \<Longrightarrow>
    \<exists>m'. Client_onRequestReceived f m = Some m' \<and> distr_ok Addr2_hash snd m'"
  unfolding distr_ok_def using Client_step by (metis add_nonneg_nonneg zero_le_one)

lemma count_string_keeps: "distr_ok StringHash_hash c_str m \<Longrightarrow>
    \<exists>m'. count_string s m = Some m' \<and> distr_ok StringHash_hash c_str m'"
  unfolding distr_ok_def using count_string_step by (metis add_nonneg_nonneg zero_le_one)

lemma onRequestReceived_keeps:
  assumes "pair_of k p" "request_header p \<noteq> None"
  shows "keeps k (onRequestReceived p f)"
proof -
  obtain r where r: "request_header p = Some r" "req_kind (rq_ext r) = k" using assms by (auto simp: pair_of_def)
  have "\<exists>m'. onRequestReceived p f m = Some m' \<and> metric_ok k m'" if ok: "metric_ok k m" for m
  proof (cases m)
    case (Client x)
    with that Client_keeps show ?thesis by fastforce
  next
    case (ReqPath x)
    then obtain h where "rq_ext r = Http_Req h" using ok r(2) ReqPath by (cases "rq_ext r") auto
    with r(1) ReqPath that count_string_keeps show ?thesis
      by (fastforce simp: ReqPath_onRequestReceived_def request_uri_def)
  next
    case (ReqMethod x)
    then obtain h where "rq_ext r = Http_Req h" using ok r(2) ReqMethod by (cases "rq_ext r") auto
    with r(1) ReqMethod that count_string_keeps show ?thesis
      by (fastforce simp: ReqMethod_onRequestReceived_def request_uri_def)
  next
    case (ReqType x)
    with r(1) show ?thesis by (simp add: ReqType_onRequestReceived_def request_method_def)
  qed (use that in simp_all)
  then show ?thesis by (simp add: keeps_def)
qed

lemma onResponseReceived_keeps:
  assumes "pair_of k p" "response_header p \<noteq> None"
  shows "keeps k (onResponseReceived p f)"
proof -
  obtain r where r: "response_header p = Some r" "rsp_kind (rs_ext r) = k" using assms by (auto simp: pair_of_def)
  have "\<exists>m'. onResponseReceived p f m = Some m' \<and> metric_ok k m'" if ok: "metric_ok k m" for m
  proof (cases m)
    case (ErrRate x)
    with that r show ?thesis
      by (cases "rs_ext r") (auto simp: ErrRate_onResponseReceived_def response_error_def Let_def)
  next
    case (RspStatus x)
    with that r show ?thesis
      by (cases "rs_ext r") (auto simp: RspStatus_onResponseReceived_def response_status_def)
  qed (use that in simp_all)
  then show ?thesis by (simp add: keeps_def)
qed

lemma other_handlers_keep:
  "keeps k (onNewFlowReceived f)" "keeps k (onFlowUpdate f)" "keeps k onTimerExpired"
proof -
  have "\<exists>m'. onNewFlowReceived f m = Some m' \<and> metric_ok k m'" if "metric_ok k m" for m
    using that by (cases m) simp_all
  moreover have "\<exists>m'. onFlowUpdate f m = Some m' \<and> metric_ok k m'" if "metric_ok k m" for m
    using that by (cases m) simp_all
  moreover have "\<exists>m'. onTimerExpired m = Some m' \<and> metric_ok k m'" if "metric_ok k m" for m
    using that by (cases m) simp_all
  ultimately show "keeps k (onNewFlowReceived f)" "keeps k (onFlowUpdate f)" "keeps k onTimerExpired"
    by (simp_all add: keeps_def)
qed

lemma distr_interval_keeps:
  assumes "distr_ok hash key m"
  shows "\<exists>r m'. distr_interval name an m = Some (r, m') \<and> distr_ok hash key m'"
proof -
  obtain vs tot where inv: "distr_inv hash key vs tot m" "0 \<le> tot" using assms by (auto simp: distr_ok_def)
  then obtain ch where rep: "hash_rep hash key (d_ht m) ch" by (auto simp: distr_inv_def hash_view_def)
  let ?c = "fold (\<lambda>(k, n). cflAdd name (d_total m) k n) (node_entries (d_ht m) ch) (d_cfl m)"
  have "cflUpdate (cflAdd name (d_total m)) (d_ht m) (d_cfl m) = Some ?c" by (rule cflUpdate_entries [OF rep])
  moreover have "cfl_ok (fold (\<lambda>(k, n). cflAdd name t k n) es c)" if "cfl_ok c" for t es c
    using that by (induction es arbitrary: c) (auto simp: cflAdd_def Let_def cfl_add_ok)
  then have "cfl_ok ?c" using inv(1) by (simp add: distr_inv_def)
  then have "distr_inv hash key vs tot (m\<lparr>d_cfl := cfl_delete ?c\<rparr>)"
    using inv(1) cfl_delete_ok by (simp add: distr_inv_def)
  ultimately show ?thesis using inv(2) by (auto simp: distr_interval_def distr_ok_def)
qed

lemma onIntervalExpired_keeps:
  assumes "metric_ok k m"
  shows "\<exists>v m'. onIntervalExpired an m = Some (v, m') \<and> metric_ok k m'"
proof (cases m)
  case (Client x)
  with assms distr_interval_keeps [of Addr2_hash snd x Client_name an] show ?thesis by auto
next
  case (ReqPath x)
  with assms distr_interval_keeps [of StringHash_hash c_str x c_str an] show ?thesis by auto
next
  case (ReqMethod x)
  with assms distr_interval_keeps [of StringHash_hash c_str x c_str an] show ?thesis by auto
qed (use assms in \<open>simp_all add: map_prod_def split: prod.split\<close>)

section \<open>Delivery to all observers\<close>

definition store_ok :: "kind \<Rightarrow> nat \<Rightarrow> store \<Rightarrow> bool" where
  "store_ok k n ms \<longleftrightarrow> length ms = n \<and> (\<forall>m \<in> set ms. metric_ok k m)"

definition monitor_ok :: "kind \<Rightarrow> monitor \<Rightarrow> bool" where
  "monitor_ok k S \<longleftrightarrow> store_ok k (length (pr_store S)) (pr_store S) \<and>
     (\<forall>e. \<forall>a \<in> set (observers_of e (pr_em S)). a < length (pr_store S))"

lemma store_ok_update: "store_ok k n ms \<Longrightarrow> a < n \<Longrightarrow> metric_ok k m \<Longrightarrow> store_ok k n (ms[a := m])"
  by (auto simp: store_ok_def dest: set_update_subset_insert [THEN subsetD])

lemma notify_keeps:
  assumes "keeps k h" "store_ok k n ms" "\<forall>a \<in> set as. a < n"
  shows "\<exists>ms'. notify h as ms = Some ms' \<and> store_ok k n ms'"
  using assms(2,3)
proof (induction as arbitrary: ms)
  case Nil
  then show ?case by simp
next
  case (Cons a as)
  then have a: "a < length ms" "metric_ok k (ms ! a)" by (auto simp: store_ok_def)
  then obtain m where m: "h (ms ! a) = Some m" "metric_ok k m" using assms(1) by (auto simp: keeps_def)
  have "a < n" using Cons.prems(2) by simp
  from Cons.IH [OF store_ok_update [OF Cons.prems(1) this m(2)]] a m Cons.prems(2) show ?case by simp
qed

lemma notify_interval_keeps:
  assumes "store_ok k n ms" "\<forall>a \<in> set as. a < n"
  shows "\<exists>out ms'. notify_interval an mk as ms = Some (out, ms') \<and> store_ok k n ms'"
  using assms
proof (induction as arbitrary: ms)
  case Nil
  then show ?case by simp
next
  case (Cons a as)
  then have a: "a < length ms" "metric_ok k (ms ! a)" by (auto simp: store_ok_def)
  obtain v m where m: "onIntervalExpired an (ms ! a) = Some (v, m)" "metric_ok k m"
    using onIntervalExpired_keeps [OF a(2)] by blast
  have "a < n" using Cons.prems(2) by simp
  from Cons.IH [OF store_ok_update [OF Cons.prems(1) this m(2)]] a m Cons.prems(2) show ?case by auto
qed

definition event_ok :: "kind \<Rightarrow> event \<times> pair \<Rightarrow> bool" where
  "event_ok k x = (case x of (e, p) \<Rightarrow>
     (e = Req \<longrightarrow> pair_of k p \<and> request_header p \<noteq> None) \<and> (e = Rsp \<longrightarrow> pair_of k p \<and> response_header p \<noteq> None))"

lemma announce_keeps:
  assumes "event_ok k x" "store_ok k n ms" "\<forall>e. \<forall>a \<in> set (observers_of e em). a < n"
  shows "\<exists>ms'. announce f em x ms = Some ms' \<and> store_ok k n ms'"
proof -
  obtain e p where x: "x = (e, p)" by (cases x)
  have a: "\<forall>a \<in> set (observers_of e em). a < n" using assms(3) by blast
  show ?thesis
  proof (cases e)
    case Req
    with x a assms(1) notify_keeps [OF onRequestReceived_keeps assms(2)] show ?thesis
      by (simp add: event_ok_def)
  next
    case Rsp
    with x a assms(1) notify_keeps [OF onResponseReceived_keeps assms(2)] show ?thesis
      by (simp add: event_ok_def)
  qed (use x a assms(2) notify_keeps [OF other_handlers_keep(1) assms(2)]
      notify_keeps [OF other_handlers_keep(2) assms(2)] in simp_all)
qed

lemma announcements_keep:
  assumes "\<forall>x \<in> set es. event_ok k x" "store_ok k n ms" "\<forall>e. \<forall>a \<in> set (observers_of e em). a < n"
  shows "\<exists>ms'. steps (announce f em) es ms = Some ms' \<and> store_ok k n ms'"
  using assms(1,2)
proof (induction es arbitrary: ms)
  case Nil
  then show ?case by simp
next
  case (Cons x es)
  obtain ms1 where "announce f em x ms = Some ms1" "store_ok k n ms1"
    using announce_keeps [of k x n ms em f] Cons.prems assms(3) by auto
  with Cons show ?case by simp
qed

lemma pair_of_seen [simp]: "pair_of k (seen p) = pair_of k p" "pair_of k (request_seen p) = pair_of k p"
  by (cases "request_header p"; cases "response_header p"; simp add: seen_def request_seen_def pair_of_def)+

lemma header_seen [simp]:
  "request_header (seen p) = map_option (\<lambda>r. r\<lparr>rq_processed := True\<rparr>) (request_header p)"
  by (simp add: seen_def split: option.split)

lemma response_header_seen [simp]:
  "request_header p \<noteq> None \<Longrightarrow>
     response_header (seen p) = map_option (\<lambda>r. r\<lparr>rs_processed := True\<rparr>) (response_header p)"
  by (auto simp: seen_def)

lemma pair_events_ok: "pair_of k p \<Longrightarrow> x \<in> set (pair_events p) \<Longrightarrow> event_ok k x"
  by (cases "request_header p"; cases "response_header p")
    (auto simp: pair_events_def event_ok_def split: if_splits)

lemma flow_events_ok: "\<forall>p \<in> set (f_pairs f). pair_of k p \<Longrightarrow> x \<in> set (flow_events f) \<Longrightarrow> event_ok k x"
proof -
  assume ok: "\<forall>p \<in> set (f_pairs f). pair_of k p" and x: "x \<in> set (flow_events f)"
  then consider "fst x \<in> {NewFlow, FlowUpd}" | p where "p \<in> set (f_pairs f)" "x \<in> set (pair_events p)"
    by (auto simp: flow_events_def split: if_splits)
  then show "event_ok k x"
  proof cases
    case 1
    then show ?thesis by (cases x) (auto simp: event_ok_def)
  next
    case 2
    with ok pair_events_ok show ?thesis by blast
  qed
qed

lemma kept_pair_of: "\<forall>p \<in> set acc \<union> set ps. pair_of k p \<Longrightarrow> \<forall>p \<in> set (kept acc ps). pair_of k p"
proof (induction ps arbitrary: acc)
  case (Cons p ps)
  let ?acc = "if done_before p \<and> ps \<noteq> [] then [] else acc @ [seen p]"
  have "\<forall>p \<in> set ?acc \<union> set ps. pair_of k p" using Cons.prems by (cases "done_before p \<and> ps \<noteq> []") auto
  from Cons.IH [OF this] show ?case by simp
qed simp

definition same_frame :: "monitor \<Rightarrow> monitor \<Rightarrow> bool" where
  "same_frame S S' \<longleftrightarrow> pr_em S' = pr_em S \<and> pr_ops S' = pr_ops S \<and> pr_fht S' = pr_fht S \<and> pr_pq S' = pr_pq S \<and>
     pr_analysis S' = pr_analysis S \<and> (\<forall>f :: pflow. passes S' f = passes S f)"

lemma extractData_keeps:
  assumes "monitor_ok k S" "\<forall>p \<in> set (f_pairs f). pair_of k p"
  shows "\<exists>f' S'. extractData f S = Some (f', S') \<and> monitor_ok k S' \<and> same_frame S S' \<and>
    f_socket f' = f_socket f \<and> (\<forall>p \<in> set (f_pairs f'). pair_of k p)"
proof (cases "passes S f")
  case True
  let ?n = "length (pr_store S)"
  have events: "\<forall>x \<in> set (flow_events f). event_ok k x" using flow_events_ok [OF assms(2)] by blast
  obtain ms where ms: "steps (announce (f\<lparr>f_processed := True\<rparr>) (pr_em S)) (flow_events f) (pr_store S) = Some ms" "store_ok k ?n ms"
    using announcements_keep [OF events, of ?n "pr_store S" "pr_em S" "f\<lparr>f_processed := True\<rparr>"] assms(1)
    unfolding monitor_ok_def by blast
  let ?S = "S\<lparr>pr_store := ms, req_tot := req_tot S + count_events Req (flow_events f),
               rsp_tot := rsp_tot S + count_events Rsp (flow_events f)\<rparr>"
  have "extractData f S = Some (f\<lparr>f_processed := True, f_pairs := kept [] (f_pairs f)\<rparr>, ?S)"
    unfolding extractData_eq if_P [OF True] ms(1) by simp
  moreover have "monitor_ok k ?S" using ms(2) assms(1) by (simp add: monitor_ok_def store_ok_def)
  moreover have "same_frame S ?S" by (simp add: same_frame_def passes_def)
  ultimately show ?thesis using kept_pair_of [of "[]" "f_pairs f" k] assms(2) by simp
next
  case False
  with assms show ?thesis by (simp add: extractData_def same_frame_def)
qed

section \<open>The messages that a protocol produces\<close>

definition ops_of :: "kind \<Rightarrow> proto \<Rightarrow> bool" where
  "ops_of k P \<longleftrightarrow> (\<forall>buf n sq nxt r. p_getRequest P buf n sq nxt = Some r \<longrightarrow> req_kind (rq_ext r) = k) \<and>
     (\<forall>buf n ack r. p_getResponse P buf n ack = Some r \<longrightarrow> rsp_kind (rs_ext r) = k)"

lemma mc_kinds:
  "req_kind (rq_ext (mc_Request junk wild buf n sq nxt)) = MEMCACHED"
  "rsp_kind (rs_ext (mc_Response junk' wild' wild8 buf n ack)) = MEMCACHED"
  by (simp_all add: mc_Request_def mc_Response_def Let_def split: prod.splits)

lemma ops_of_protocols: "ops_of HTTP (http_proto hq hs)" "ops_of MEMCACHED (mc_proto mq ms wild wild8)" "ops_of MYSQL my_proto"
  by (auto simp: ops_of_def http_proto_def mc_proto_def my_proto_def http_Request_def http_Response_def
      mc_kinds my_Request_def my_Response_def Let_def split: option.splits bind_splits if_splits)

lemma parse_kind:
  "ops_of k P \<Longrightarrow> parse_request P s = Some r \<Longrightarrow> req_kind (rq_ext r) = k"
  "ops_of k P \<Longrightarrow> parse_response P s = Some r' \<Longrightarrow> rsp_kind (rs_ext r') = k"
  by (auto simp: ops_of_def parse_request_def parse_response_def split: bind_splits)

lemma extractPair_kind:
  assumes "ops_of k P" "extractPair P f cl = Some (r, f')" "\<forall>p \<in> set (f_pairs f). pair_of k p"
  shows "\<forall>p \<in> set (f_pairs f'). pair_of k p"
proof
  fix p assume "p \<in> set (f_pairs f')"
  then obtain i where i: "i < length (f_pairs f')" "p = f_pairs f' ! i" by (auto simp: in_set_conv_nth)
  have old: "pair_of k (f_pairs f ! i)" if "i < length (f_pairs f)" using assms(3) that by simp
  have hdrs: "map request_header (f_pairs f') = map request_header (f_pairs f) @ map (parse_request P) (new_requests f)"
    using assms(2) by (cases rule: extractPair_cases) auto
  have length: "length (f_pairs f') = length (f_pairs f) + length (new_requests f)"
    using arg_cong [OF hdrs, of length] by simp
  have "request_header p = map request_header (f_pairs f') ! i" using i by simp
  then have req: "request_header p = (if i < length (f_pairs f) then request_header (f_pairs f ! i)
      else parse_request P (new_requests f ! (i - length (f_pairs f))))"
    using length i(1) unfolding hdrs by (simp add: nth_append)
  have "req_kind (rq_ext q) = k" if "request_header p = Some q" for q
    using that req old parse_kind(1) [OF assms(1)] by (auto simp: pair_of_def split: if_splits)
  moreover have "rsp_kind (rs_ext q) = k" if q: "response_header p = Some q" for q
  proof (cases "i < length (f_pairs f) \<and> response_header (f_pairs f ! i) \<noteq> None")
    case True
    then show ?thesis using extractPair_rsp [OF assms(2) i(1)] old q i(2) by (auto simp: pair_of_def)
  next
    case False
    then obtain s where "answers P p s" using extractPair_rsp [OF assms(2) i(1)] q i(2) by auto
    then show ?thesis using q parse_kind(2) [OF assms(1)] by (auto simp: answers_def same_response_def)
  qed
  ultimately show "pair_of k p" by (simp add: pair_of_def)
qed

section \<open>New monitors\<close>

lemma store_ok_new:
  "store_ok HTTP (length (pr_store (Http_new junk hq hs an name i))) (pr_store (Http_new junk hq hs an name i))"
  "store_ok MEMCACHED (length (pr_store (MemCached_new junk mq ms wild wild8 an name i))) (pr_store (MemCached_new junk mq ms wild wild8 an name i))"
  "store_ok MYSQL (length (pr_store (MySQL_new junk an name i))) (pr_store (MySQL_new junk an name i))"
  by (simp_all add: store_ok_def Http_new_def MemCached_new_def MySQL_new_def push_metrics_def Protocol_new_def distr_ok_new)

end
