(* ===== verification/Capture.thy ===== *)
theory Capture
  imports Monitor Packet
begin

unbundle bit_operations_syntax

text \<open>
  \<^verbatim>\<open>packet_preprocess\<close> of \<^verbatim>\<open>main.c\<close>: a captured frame is parsed, its payload classified by the
  protocol that owns one of its ports, and the packet put on that protocol's queue.  It is
  \<^term>\<open>None\<close> where the code reads behind the frame, of which it has a copy of \<open>len\<close> bytes.
\<close>

record raw_pkt =
  ts_sec :: int
  ts_usec :: int
  caplen :: u32
  len :: u32
  raw :: string

text \<open>The headers.  The value is \<^term>\<open>Some None\<close> for a frame that is not TCP over IPv4, otherwise
  the packet and the offset of its payload.\<close>

definition parse_headers :: "raw_pkt \<Rightarrow> (packet_t \<times> nat) option option" where
  "parse_headers rp = do {
     let pkt = packet_new\<lparr>cap_sec := ts_sec rp, cap_usec := ts_usec rp, raw_len := caplen rp\<rparr>;
     eth \<leftarrow> packet_parse_ethhdr (raw rp) 0;
     (if ether_type eth \<noteq> 0x0800 then Some None
      else do {
        let cp = sizeof_ethhdr;
        ip \<leftarrow> packet_parse_iphdr (raw rp) cp;
        let pkt = pkt\<lparr>saddr := ih_saddr ip, daddr := ih_daddr ip, ip_hl := push_bit 2 (ucast (ih_ihl ip)),
                      ip_tol := ih_tot_len ip, ip_pro := ih_protocol ip\<rparr>;
        (if ip_pro pkt \<noteq> 0x06 then Some None
         else do {
           let cp = cp + unat (ip_hl pkt);
           tcp \<leftarrow> packet_parse_tcphdr (raw rp) cp;
           let pkt = pkt\<lparr>sport := th_sport tcp, dport := th_dport tcp, tcp_seq := th_seq tcp, tcp_ack := th_ack tcp,
                         tcp_flags := th_flags tcp, tcp_win := th_win tcp, tcp_hl := push_bit 2 (ucast (th_off tcp))\<rparr>;
           let pkt = pkt\<lparr>tcp_dl := ip_tol pkt - ucast (ip_hl pkt) - ucast (tcp_hl pkt), ptype := 0\<rparr>;
           Some (Some (pkt, cp + unat (tcp_hl pkt)))
         })
      })
   }"

text \<open>Classification of a payload that starts at \<open>cp\<close>.  A packet with a message header gets the
  length up to the end of the captured frame, and a copy of that many bytes.\<close>

definition classify :: "proto \<Rightarrow> string \<Rightarrow> packet_t \<Rightarrow> packet_t option" where
  "classify P cp pkt = do {
     header \<leftarrow> isHeaderPacket cp (unat (tcp_dl pkt)) P;
     (if header then do {
        req_end \<leftarrow> p_isRequest P cp (unat (tcp_dl pkt));
        rsp_end \<leftarrow> (if req_end \<noteq> None then Some None else p_isResponse P cp (unat (tcp_dl pkt)));
        let pkt = (if req_end \<noteq> None then pkt\<lparr>ptype := REQ\<rparr>
                   else if rsp_end \<noteq> None then pkt\<lparr>ptype := RSP\<rparr> else pkt);
        let pkt = (if req_end \<noteq> None \<or> rsp_end \<noteq> None
                   then pkt\<lparr>tcp_dl := ucast (raw_len pkt) -
                     (ucast (ip_hl pkt) + ucast (tcp_hl pkt) + of_nat sizeof_ethhdr)\<rparr> else pkt);
        (if unat (tcp_dl pkt) \<le> length cp
         then Some (pkt\<lparr>tcp_odata := Some (take (unat (tcp_dl pkt)) cp), tcp_data := Some 0\<rparr>)
         else None)
      } else Some (pkt\<lparr>tcp_odata := None, tcp_data := None\<rparr>))
   }"

text \<open>What becomes of the packet object.\<close>

datatype fate = Freed | Leaked | Queued packet_t

record counters =
  req_n :: int
  rsp_n :: int

definition count_packet :: "packet_t \<Rightarrow> counters \<Rightarrow> counters" where
  "count_packet pkt c =
     (if ptype pkt = REQ then c\<lparr>req_n := req_n c + 1\<rparr>
      else if ptype pkt = RSP then c\<lparr>rsp_n := rsp_n c + 1\<rparr> else c)"

text \<open>The loop over the protocols, which stops at the first that owns a port.\<close>

fun offer :: "packet_t \<Rightarrow> string \<Rightarrow> monitor list \<Rightarrow> counters \<Rightarrow> (fate \<times> monitor list \<times> counters) option" where
  "offer pkt cp [] c = Some (Freed, [], c)"
| "offer pkt cp (S # Ss) c =
     (if isPacketOf (sport pkt) (dport pkt) S then
        (if tcp_dl pkt \<noteq> 0 then do {
           pkt \<leftarrow> classify (pr_ops S) cp pkt;
           q \<leftarrow> Queue_enq pkt (pr_pq S);
           Some (Queued pkt, S\<lparr>pr_pq := q\<rparr> # Ss, count_packet pkt c)
         } else Some (Leaked, S # Ss, c))
      else do {
        (r, Ss, c) \<leftarrow> offer pkt cp Ss c;
        Some (r, S # Ss, c)
      })"

definition packet_preprocess :: "raw_pkt \<Rightarrow> monitor list \<Rightarrow> counters \<Rightarrow> (fate \<times> monitor list \<times> counters) option" where
  "packet_preprocess rp Ss c = do {
     r \<leftarrow> parse_headers rp;
     (case r of
        None \<Rightarrow> Some (Freed, Ss, c)
      | Some (pkt, cp) \<Rightarrow> offer pkt (drop cp (raw rp)) Ss c)
   }"

section \<open>Frames\<close>

text \<open>A frame with IP and TCP options and padding behind the payload, as a network card delivers it.\<close>

definition frame :: "ethhdr \<Rightarrow> iphdr \<Rightarrow> string \<Rightarrow> tcphdr \<Rightarrow> string \<Rightarrow> string \<Rightarrow> string \<Rightarrow> string" where
  "frame eth ip ipopt tcp tcpopt payload pad =
     ethhdr_wire eth @ iphdr_wire ip @ ipopt @ tcphdr_wire tcp @ tcpopt @ payload @ pad"

definition frame_ok :: "ethhdr \<Rightarrow> iphdr \<Rightarrow> string \<Rightarrow> tcphdr \<Rightarrow> string \<Rightarrow> string \<Rightarrow> string \<Rightarrow> bool" where
  "frame_ok eth ip ipopt tcp tcpopt payload pad \<longleftrightarrow>
     length (ether_dhost eth) = 6 \<and> length (ether_shost eth) = 6 \<and> ether_type eth = 0x0800 \<and>
     ih_protocol ip = 6 \<and> 20 + length ipopt = 4 * unat (ih_ihl ip) \<and> 20 + length tcpopt = 4 * unat (th_off tcp) \<and>
     unat (ih_tot_len ip) = 40 + length ipopt + length tcpopt + length payload \<and>
     14 + unat (ih_tot_len ip) + length pad < 2 ^ 16"

lemma wire_lengths [simp]:
  "length (iphdr_wire ip) = 20" "length (tcphdr_wire tcp) = 20"
  by (simp_all add: iphdr_wire_def tcphdr_wire_def be16_def be32_def)

lemma ethhdr_wire_length: "length (ether_dhost h) = 6 \<Longrightarrow> length (ether_shost h) = 6 \<Longrightarrow> length (ethhdr_wire h) = 14"
  by (simp add: ethhdr_wire_def be16_def)

lemma header_bytes: "unat (push_bit 2 (ucast (n :: 4 word)) :: u8) = 4 * unat n"
proof -
  have "unat n < 16" using unsigned_less [of n] by simp
  then have "unat (push_bit 2 (ucast n :: u8)) = 4 * unat n mod 256"
    by (simp add: push_bit_eq_mult unat_word_ariths unsigned_ucast_eq take_bit_eq_mod)
  with \<open>unat n < 16\<close> show ?thesis by simp
qed

text \<open>The packet that the headers of a frame describe.\<close>

definition headers_packet :: "raw_pkt \<Rightarrow> iphdr \<Rightarrow> tcphdr \<Rightarrow> string \<Rightarrow> packet_t" where
  "headers_packet rp ip tcp payload = packet_new\<lparr>cap_sec := ts_sec rp, cap_usec := ts_usec rp, raw_len := caplen rp,
     saddr := ih_saddr ip, daddr := ih_daddr ip, ip_hl := push_bit 2 (ucast (ih_ihl ip)), ip_tol := ih_tot_len ip,
     ip_pro := 6, sport := th_sport tcp, dport := th_dport tcp, tcp_seq := th_seq tcp, tcp_ack := th_ack tcp,
     tcp_flags := th_flags tcp, tcp_win := th_win tcp, tcp_hl := push_bit 2 (ucast (th_off tcp)),
     tcp_dl := of_nat (length payload), ptype := 0\<rparr>"

lemma u16_nat: "of_nat (unat w) = (w :: u16)"
  by simp

lemma u8_u16: "(ucast (b :: u8) :: u16) = of_nat (unat b)"
  by simp

lemma parse_headers_frame:
  assumes ok: "frame_ok eth ip ipopt tcp tcpopt payload pad"
    and raw: "raw rp = frame eth ip ipopt tcp tcpopt payload pad"
  shows "\<exists>off. parse_headers rp = Some (Some (headers_packet rp ip tcp payload, off)) \<and>
    drop off (raw rp) = payload @ pad"
proof -
  let ?hl = "push_bit 2 (ucast (ih_ihl ip)) :: u8" and ?tl = "push_bit 2 (ucast (th_off tcp)) :: u8"
  have o: "20 + length ipopt = unat ?hl" "20 + length tcpopt = unat ?tl"
    using ok header_bytes [of "ih_ihl ip"] header_bytes [of "th_off tcp"] by (simp_all add: frame_ok_def)
  have e: "length (ethhdr_wire eth) = 14" using ok by (simp add: frame_ok_def ethhdr_wire_length)
  have eth: "packet_parse_ethhdr (raw rp) 0 = Some eth"
    using packet_parse_ethhdr_wire [of eth "[]"] ok by (simp add: raw frame_def frame_ok_def)
  have ip: "packet_parse_iphdr (raw rp) sizeof_ethhdr = Some ip"
    using packet_parse_iphdr_wire' [of "ethhdr_wire eth" ip] e by (simp add: raw frame_def sizeof_ethhdr_def)
  have "sizeof_ethhdr + unat ?hl = length (ethhdr_wire eth @ iphdr_wire ip @ ipopt)"
    using o(1) e by (simp add: sizeof_ethhdr_def)
  then have tcp: "packet_parse_tcphdr (raw rp) (sizeof_ethhdr + unat ?hl) = Some tcp"
    using packet_parse_tcphdr_wire' [of "ethhdr_wire eth @ iphdr_wire ip @ ipopt" tcp "tcpopt @ payload @ pad"]
    by (simp only: raw frame_def append_assoc)
  have "ih_tot_len ip - ucast ?hl - ucast ?tl = of_nat (length payload)"
  proof -
    have "unat (ih_tot_len ip) = unat ?hl + unat ?tl + length payload"
      using ok o by (simp add: frame_ok_def)
    then have "of_nat (unat (ih_tot_len ip)) = (of_nat (unat ?hl + unat ?tl + length payload) :: u16)" by (rule arg_cong)
    then have "ih_tot_len ip = of_nat (unat ?hl) + of_nat (unat ?tl) + of_nat (length payload)" by (simp only: of_nat_add u16_nat)
    then show ?thesis unfolding u8_u16 by (simp only: algebra_simps)
  qed
  then have "parse_headers rp = Some (Some (headers_packet rp ip tcp payload, sizeof_ethhdr + unat ?hl + unat ?tl))"
    using eth ip tcp ok [unfolded frame_ok_def]
    by (simp add: parse_headers_def headers_packet_def Let_def del: push_bit_numeral_minus_1 bit_simps)
  moreover have "drop (sizeof_ethhdr + unat ?hl + unat ?tl) (raw rp) = payload @ pad"
    using e o [symmetric] by (simp add: raw frame_def sizeof_ethhdr_def)
  ultimately show ?thesis by blast
qed

text \<open>The length that a packet with a message header gets: the rest of the captured frame.\<close>

lemma captured_length:
  assumes "frame_ok eth ip ipopt tcp tcpopt payload pad" "raw rp = frame eth ip ipopt tcp tcpopt payload pad"
    "caplen rp = of_nat (length (raw rp))"
  shows "ucast (caplen rp) - (ucast (push_bit 2 (ucast (ih_ihl ip)) :: u8) + ucast (push_bit 2 (ucast (th_off tcp)) :: u8) +
      of_nat sizeof_ethhdr) = (of_nat (length (payload @ pad)) :: u16)"
    and "length (payload @ pad) < 2 ^ 16"
proof -
  let ?hl = "push_bit 2 (ucast (ih_ihl ip)) :: u8" and ?tl = "push_bit 2 (ucast (th_off tcp)) :: u8"
  have o: "20 + length ipopt = unat ?hl" "20 + length tcpopt = unat ?tl"
    using assms(1) header_bytes [of "ih_ihl ip"] header_bytes [of "th_off tcp"] by (simp_all add: frame_ok_def)
  have e: "length (ethhdr_wire eth) = 14" using assms(1) by (simp add: frame_ok_def ethhdr_wire_length)
  show "length (payload @ pad) < 2 ^ 16" using assms(1) by (simp add: frame_ok_def)
  have "length (raw rp) = 14 + unat ?hl + unat ?tl + length (payload @ pad)"
    using e o by (simp add: assms(2) frame_def)
  moreover have "length (raw rp) < 2 ^ 32" using calculation assms(1) o by (simp add: frame_ok_def)
  then have "ucast (caplen rp) = (of_nat (length (raw rp)) :: u16)"
    by (simp add: assms(3) unsigned_of_nat take_bit_nat_eq_self)
  ultimately have "ucast (caplen rp) = (of_nat (14 + unat ?hl + unat ?tl + length (payload @ pad)) :: u16)"
    by simp
  also have "\<dots> = 14 + of_nat (unat ?hl) + of_nat (unat ?tl) + of_nat (length (payload @ pad))"
    by (simp only: of_nat_add of_nat_numeral)
  finally show "ucast (caplen rp) - (ucast ?hl + ucast ?tl + of_nat sizeof_ethhdr) = (of_nat (length (payload @ pad)) :: u16)"
    unfolding u8_u16 sizeof_ethhdr_def by (simp only: of_nat_numeral algebra_simps)
qed

section \<open>What is queued\<close>

text \<open>The kind of a payload of \<open>n\<close> bytes at the head of \<open>cp\<close> for a protocol.\<close>

definition message_kind :: "proto \<Rightarrow> string \<Rightarrow> nat \<Rightarrow> u8 option" where
  "message_kind P cp n = do {
     q \<leftarrow> p_isRequest P cp n;
     r \<leftarrow> p_isResponse P cp n;
     Some (if q \<noteq> None then REQ else if r \<noteq> None then RSP else 0)
   }"

definition queued_packet :: "packet_t \<Rightarrow> u8 \<Rightarrow> string \<Rightarrow> packet_t" where
  "queued_packet pkt ty cp =
     (if ty = 0 then pkt\<lparr>tcp_odata := None, tcp_data := None\<rparr>
      else pkt\<lparr>ptype := ty, tcp_dl := of_nat (length cp), tcp_odata := Some cp, tcp_data := Some 0\<rparr>)"

lemma classify_kind:
  assumes "tcp_dl pkt = of_nat n" "n < 2 ^ 16" "message_kind P cp n = Some ty"
    "ucast (raw_len pkt) - (ucast (ip_hl pkt) + ucast (tcp_hl pkt) + of_nat sizeof_ethhdr) = (of_nat (length cp) :: u16)"
    "length cp < 2 ^ 16"
  shows "classify P cp pkt = Some (queued_packet pkt ty cp)"
proof -
  have n: "unat (tcp_dl pkt) = n" using assms(1,2) by (simp add: unsigned_of_nat take_bit_nat_eq_self)
  have l: "unat (of_nat (length cp) :: u16) = length cp" using assms(5) by (simp add: unsigned_of_nat take_bit_nat_eq_self)
  obtain q r where qr: "p_isRequest P cp n = Some q" "p_isResponse P cp n = Some r"
      "ty = (if q \<noteq> None then REQ else if r \<noteq> None then RSP else 0)"
    using assms(3) by (auto simp: message_kind_def bind_eq_Some_conv)
  show ?thesis
    using qr assms(4)
    by (cases q; cases r) (simp_all add: classify_def isHeaderPacket_def n l queued_packet_def type_defs Let_def)
qed

lemma offer_owner:
  assumes "\<forall>T \<in> set pre. \<not> isPacketOf (sport pkt) (dport pkt) T" "isPacketOf (sport pkt) (dport pkt) S"
    "tcp_dl pkt \<noteq> 0" "classify (pr_ops S) cp pkt = Some pkt'" "Queue_enq pkt' (pr_pq S) = Some q"
  shows "offer pkt cp (pre @ S # post) c = Some (Queued pkt', pre @ S\<lparr>pr_pq := q\<rparr> # post, count_packet pkt' c)"
  using assms by (induction pre) simp_all

lemma offer_nobody:
  "\<forall>T \<in> set Ss. \<not> isPacketOf (sport pkt) (dport pkt) T \<Longrightarrow> offer pkt cp Ss c = Some (Freed, Ss, c)"
  by (induction Ss) simp_all

lemma preprocess_frame:
  assumes ok: "frame_ok eth ip ipopt tcp tcpopt payload pad"
    and raw: "raw rp = frame eth ip ipopt tcp tcpopt payload pad" "caplen rp = of_nat (length (raw rp))"
    and owner: "\<forall>T \<in> set pre. \<not> isPacketOf (th_sport tcp) (th_dport tcp) T" "isPacketOf (th_sport tcp) (th_dport tcp) S"
    and payload: "payload \<noteq> []" "message_kind (pr_ops S) (payload @ pad) (length payload) = Some ty"
    and queue: "Queue_rep (pr_pq S) qs"
  shows "\<exists>q. packet_preprocess rp (pre @ S # post) c =
      Some (Queued (queued_packet (headers_packet rp ip tcp payload) ty (payload @ pad)), pre @ S\<lparr>pr_pq := q\<rparr> # post,
        count_packet (queued_packet (headers_packet rp ip tcp payload) ty (payload @ pad)) c) \<and>
    Queue_rep q (qs @ [queued_packet (headers_packet rp ip tcp payload) ty (payload @ pad)])"
proof -
  let ?h = "headers_packet rp ip tcp payload"
  obtain off where off: "parse_headers rp = Some (Some (?h, off))" "drop off (raw rp) = payload @ pad"
    using parse_headers_frame [OF ok raw(1)] by blast
  have n: "length payload < 2 ^ 16" using ok by (simp add: frame_ok_def)
  have fields: "sport ?h = th_sport tcp" "dport ?h = th_dport tcp" "tcp_dl ?h = of_nat (length payload)"
      "raw_len ?h = caplen rp" "ip_hl ?h = push_bit 2 (ucast (ih_ihl ip))" "tcp_hl ?h = push_bit 2 (ucast (th_off tcp))"
    by (simp_all add: headers_packet_def)
  have "classify (pr_ops S) (payload @ pad) ?h = Some (queued_packet ?h ty (payload @ pad))"
    by (rule classify_kind [OF fields(3) n payload(2)])
      (use captured_length [OF ok raw] in \<open>simp_all only: fields\<close>)
  moreover obtain q where "Queue_enq (queued_packet ?h ty (payload @ pad)) (pr_pq S) = Some q"
      "Queue_rep q (qs @ [queued_packet ?h ty (payload @ pad)])"
    using Queue_enq_rep [OF queue] by blast
  moreover have "tcp_dl ?h \<noteq> 0"
  proof -
    have "unat (tcp_dl ?h) = length payload" using n by (simp add: fields(3) unsigned_of_nat take_bit_nat_eq_self)
    then show ?thesis using payload(1) by auto
  qed
  ultimately show ?thesis
    using off owner offer_owner [of pre ?h S "payload @ pad"] by (auto simp: packet_preprocess_def fields)
qed

text \<open>C8. A captured TCP segment: whatever options its headers carry, its payload is classified by the
  first protocol that owns one of its ports, and the packet that is put at the end of that
  protocol's queue, and of no other, has the addresses, ports, sequence numbers, flags and
  capture time of the frame.  A packet with a message header is counted and keeps a copy of its payload, with the
  padding that follows it; another one keeps none.\<close>

theorem preprocess_queues_segment:
  assumes "frame_ok eth ip ipopt tcp tcpopt payload pad"
    and "raw rp = frame eth ip ipopt tcp tcpopt payload pad" "caplen rp = of_nat (length (raw rp))"
    and "\<forall>T \<in> set pre. \<not> isPacketOf (th_sport tcp) (th_dport tcp) T" "isPacketOf (th_sport tcp) (th_dport tcp) S"
    and "payload \<noteq> []" "message_kind (pr_ops S) (payload @ pad) (length payload) = Some ty"
    and "Queue_rep (pr_pq S) qs"
  shows "\<exists>q pkt. packet_preprocess rp (pre @ S # post) c = Some (Queued pkt, pre @ S\<lparr>pr_pq := q\<rparr> # post, count_packet pkt c) \<and>
    Queue_rep q (qs @ [pkt]) \<and> ptype pkt = ty \<and>
    tcp_odata pkt = (if ty = 0 then None else Some (payload @ pad)) \<and>
    unat (tcp_dl pkt) = length (if ty = 0 then payload else payload @ pad) \<and>
    sock_of pkt = \<lparr>fs_saddr = ih_saddr ip, fs_daddr = ih_daddr ip, fs_sport = th_sport tcp, fs_dport = th_dport tcp\<rparr> \<and>
    tcp_seq pkt = th_seq tcp \<and> tcp_ack pkt = th_ack tcp \<and> tcp_flags pkt = th_flags tcp \<and>
    cap_sec pkt = ts_sec rp \<and> cap_usec pkt = ts_usec rp"
proof -
  let ?pkt = "queued_packet (headers_packet rp ip tcp payload) ty (payload @ pad)"
  have "length payload < 2 ^ 16" "length (payload @ pad) < 2 ^ 16" using assms(1) by (simp_all add: frame_ok_def)
  then have l: "unat (tcp_dl ?pkt) = length (if ty = 0 then payload else payload @ pad)"
    by (simp add: queued_packet_def headers_packet_def unsigned_of_nat take_bit_nat_eq_self flip: of_nat_add)
  obtain q where "packet_preprocess rp (pre @ S # post) c = Some (Queued ?pkt, pre @ S\<lparr>pr_pq := q\<rparr> # post, count_packet ?pkt c)"
      "Queue_rep q (qs @ [?pkt])"
    using preprocess_frame [OF assms] by blast
  with l show ?thesis
    by (intro exI [of _ q] exI [of _ ?pkt]) (simp add: queued_packet_def headers_packet_def sock_of_def packet_new_def)
qed

text \<open>A MySQL command packet: five bytes of which the fourth is the sequence number 0.\<close>

definition a_frame :: "string \<Rightarrow> string" where
  "a_frame payload = frame \<lparr>ether_dhost = [1, 2, 3, 4, 5, 6], ether_shost = [6, 5, 4, 3, 2, 1], ether_type = 0x0800\<rparr>
     \<lparr>ih_ihl = 5, ih_version = 4, ih_tos = 0, ih_tot_len = 45, ih_id = 7, ih_frag_off = 0, ih_ttl = 64, ih_protocol = 6,
      ih_check = 0, ih_saddr = 0x0a000001, ih_daddr = 0x0a000002\<rparr> []
     \<lparr>th_sport = 40000, th_dport = 3306, th_seq = 100, th_ack = 200, th_x2 = 0, th_off = 5, th_flags = 0x18,
      th_win = 1000, th_sum = 0, th_urp = 0\<rparr> [] payload [CHR 0x00]"

lemma code_NUL: "code NUL = 0"
  by (simp add: code_def)

lemma preprocess_queues_segment_witness:
  "\<forall>junk an. \<exists>q pkt. packet_preprocess \<lparr>ts_sec = 3, ts_usec = 4, caplen = of_nat (length (a_frame [CHR 0x01, CHR 0x00, CHR 0x00, CHR 0x00, CHR 0x0e])),
       len = 60, raw = a_frame [CHR 0x01, CHR 0x00, CHR 0x00, CHR 0x00, CHR 0x0e]\<rparr>
       [MySQL_new junk an ''MYSQL'' 0] \<lparr>req_n = 0, rsp_n = 0\<rparr> =
     Some (Queued pkt, [(MySQL_new junk an ''MYSQL'' 0)\<lparr>pr_pq := q\<rparr>], \<lparr>req_n = 1, rsp_n = 0\<rparr>) \<and>
     Queue_rep q [pkt] \<and> ptype pkt = REQ \<and> tcp_odata pkt = Some [CHR 0x01, CHR 0x00, CHR 0x00, CHR 0x00, CHR 0x0e, CHR 0x00] \<and>
     unat (tcp_dl pkt) = 6 \<and> sock_of pkt = \<lparr>fs_saddr = 0x0a000001, fs_daddr = 0x0a000002, fs_sport = 40000, fs_dport = 3306\<rparr>"
proof (intro allI)
  fix junk an
  let ?pay = "[CHR 0x01, CHR 0x00, CHR 0x00, CHR 0x00, CHR 0x0e]" and ?S = "MySQL_new junk an ''MYSQL'' 0"
  let ?rp = "\<lparr>ts_sec = 3, ts_usec = 4, caplen = of_nat (length (a_frame ?pay)), len = 60, raw = a_frame ?pay\<rparr>"
  have S: "serverPorts ?S = [3306]" "pr_ops ?S = my_proto" "pr_pq ?S = Queue_new"
    by (simp_all add: MySQL_new_def push_metrics_def Protocol_new_def)
  have q: "Queue_rep (pr_pq ?S) []" by (simp add: S Queue_rep_new)
  have k: "message_kind (pr_ops ?S) (?pay @ [CHR 0x00]) (length ?pay) = Some REQ"
    by (simp add: S message_kind_def my_proto_def my_isRequest_def my_isResponse_def char_u32_def at_def code_NUL type_defs)
  show "\<exists>q pkt. packet_preprocess ?rp [?S] \<lparr>req_n = 0, rsp_n = 0\<rparr> =
     Some (Queued pkt, [?S\<lparr>pr_pq := q\<rparr>], \<lparr>req_n = 1, rsp_n = 0\<rparr>) \<and>
     Queue_rep q [pkt] \<and> ptype pkt = REQ \<and> tcp_odata pkt = Some [CHR 0x01, CHR 0x00, CHR 0x00, CHR 0x00, CHR 0x0e, CHR 0x00] \<and>
     unat (tcp_dl pkt) = 6 \<and> sock_of pkt = \<lparr>fs_saddr = 0x0a000001, fs_daddr = 0x0a000002, fs_sport = 40000, fs_dport = 3306\<rparr>"
    using preprocess_queues_segment [OF _ _ _ _ _ _ k q, where pre = "[]" and post = "[]" and rp = ?rp and c = "\<lparr>req_n = 0, rsp_n = 0\<rparr>"
        and tcp = "\<lparr>th_sport = 40000, th_dport = 3306, th_seq = 100, th_ack = 200, th_x2 = 0, th_off = 5, th_flags = 0x18,
          th_win = 1000, th_sum = 0, th_urp = 0\<rparr>", unfolded raw_pkt.simps, OF _ a_frame_def]
    by (auto simp: frame_ok_def isPacketOf_def S count_packet_def type_defs)
qed

text \<open>A segment without payload changes no queue; its packet object is freed when no protocol owns its
  ports and is leaked when one does.\<close>

theorem empty_segments_are_dropped:
  assumes "frame_ok eth ip ipopt tcp tcpopt [] pad" "raw rp = frame eth ip ipopt tcp tcpopt [] pad"
  shows "packet_preprocess rp Ss c =
    Some (if \<exists>S \<in> set Ss. isPacketOf (th_sport tcp) (th_dport tcp) S then Leaked else Freed, Ss, c)"
proof -
  let ?h = "headers_packet rp ip tcp []"
  have "offer ?h cp Ss c = Some (if \<exists>S \<in> set Ss. isPacketOf (th_sport tcp) (th_dport tcp) S then Leaked else Freed, Ss, c)" for cp
  proof (induction Ss)
    case (Cons S Ss)
    then show ?case by (cases "isPacketOf (th_sport tcp) (th_dport tcp) S") (simp_all add: headers_packet_def)
  qed (simp add: headers_packet_def)
  then show ?thesis using parse_headers_frame [OF assms] by (auto simp: packet_preprocess_def)
qed

lemma empty_segments_are_dropped_witness:
  "\<forall>junk an. packet_preprocess \<lparr>ts_sec = 3, ts_usec = 4, caplen = 54, len = 54, raw =
       frame \<lparr>ether_dhost = [1, 2, 3, 4, 5, 6], ether_shost = [6, 5, 4, 3, 2, 1], ether_type = 0x0800\<rparr>
     \<lparr>ih_ihl = 5, ih_version = 4, ih_tos = 0, ih_tot_len = 40, ih_id = 7, ih_frag_off = 0, ih_ttl = 64, ih_protocol = 6,
      ih_check = 0, ih_saddr = 0x0a000001, ih_daddr = 0x0a000002\<rparr> []
     \<lparr>th_sport = 40000, th_dport = 3306, th_seq = 100, th_ack = 200, th_x2 = 0, th_off = 5, th_flags = 0x10,
      th_win = 1000, th_sum = 0, th_urp = 0\<rparr> [] [] []\<rparr> [MySQL_new junk an ''MYSQL'' 0] \<lparr>req_n = 0, rsp_n = 0\<rparr> =
    Some (Leaked, [MySQL_new junk an ''MYSQL'' 0], \<lparr>req_n = 0, rsp_n = 0\<rparr>)"
  by (intro allI, subst empty_segments_are_dropped)
    (auto simp: frame_ok_def isPacketOf_def MySQL_new_def push_metrics_def Protocol_new_def)

text \<open>The header length field of the frame is believed: when it points behind the captured bytes,
  the TCP header is read from behind the copy of the frame.\<close>

theorem preprocess_believes_header_length:
  assumes "packet_parse_ethhdr (raw rp) 0 = Some eth" "ether_type eth = 0x0800"
    "packet_parse_iphdr (raw rp) 14 = Some ip" "ih_protocol ip = 6" "length (raw rp) < 34 + 4 * unat (ih_ihl ip)"
  shows "packet_preprocess rp Ss c = None"
  using assms header_bytes [of "ih_ihl ip"]
  by (simp add: packet_preprocess_def parse_headers_def packet_parse_tcphdr_def sizeof_defs Let_def)

text \<open>A frame of 54 bytes that announces an IP header of 60.\<close>

lemma preprocess_believes_header_length_witness:
  "packet_preprocess \<lparr>ts_sec = 3, ts_usec = 4, caplen = 54, len = 54, raw =
       ethhdr_wire \<lparr>ether_dhost = [1, 2, 3, 4, 5, 6], ether_shost = [6, 5, 4, 3, 2, 1], ether_type = 0x0800\<rparr> @
       iphdr_wire \<lparr>ih_ihl = 15, ih_version = 4, ih_tos = 0, ih_tot_len = 40, ih_id = 7, ih_frag_off = 0, ih_ttl = 64, ih_protocol = 6,
          ih_check = 0, ih_saddr = 0x0a000001, ih_daddr = 0x0a000002\<rparr> @ replicate 20 (CHR 0x00)\<rparr> [] \<lparr>req_n = 0, rsp_n = 0\<rparr> = None"
proof -
  let ?e = "\<lparr>ether_dhost = [1, 2, 3, 4, 5, 6], ether_shost = [6, 5, 4, 3, 2, 1], ether_type = 0x0800\<rparr>"
  let ?i = "\<lparr>ih_ihl = 15, ih_version = 4, ih_tos = 0, ih_tot_len = 40, ih_id = 7, ih_frag_off = 0, ih_ttl = 64, ih_protocol = 6,
          ih_check = 0, ih_saddr = 0x0a000001, ih_daddr = 0x0a000002\<rparr>"
  have e: "length (ethhdr_wire ?e) = 14" by (rule ethhdr_wire_length) simp_all
  have eth: "packet_parse_ethhdr (ethhdr_wire ?e @ iphdr_wire ?i @ replicate 20 (CHR 0x00)) 0 = Some ?e"
    using packet_parse_ethhdr_wire [of ?e "[]" "iphdr_wire ?i @ replicate 20 (CHR 0x00)"] by simp
  have ip: "packet_parse_iphdr (ethhdr_wire ?e @ iphdr_wire ?i @ replicate 20 (CHR 0x00)) 14 = Some ?i"
    using packet_parse_iphdr_wire' [of "ethhdr_wire ?e" ?i "replicate 20 (CHR 0x00)"] e by simp
  show ?thesis
    by (rule preprocess_believes_header_length [where eth = ?e and ip = ?i]) (use e eth ip in simp_all)
qed



end
