(* ===== verification/Pb_Scalars.thy ===== *)
theory Pb_Scalars
  imports Varint
begin

unbundle bit_operations_syntax

text \<open>
  The scalar encodings of the Protocol Buffers runtime (\<^verbatim>\<open>protobuf-c.c\<close>): base-128 varints of 32 and
  64 bits, the ZigZag forms of signed integers, little-endian fixed-width values and tags, each
  with its size, its packing and its parsing.  A packing function appends its bytes to a buffer;
  here it is the list of these bytes, whose length is the value it returns.  Signed
  integers are words of the same width.
\<close>

section \<open>Sizes\<close>

definition get_tag_size :: "u32 \<Rightarrow> nat" where
  "get_tag_size number =
     (if number < 2 ^ 4 then 1 else if number < 2 ^ 11 then 2 else if number < 2 ^ 18 then 3
      else if number < 2 ^ 25 then 4 else 5)"

definition uint32_size :: "u32 \<Rightarrow> nat" where
  "uint32_size v =
     (if v < 2 ^ 7 then 1 else if v < 2 ^ 14 then 2 else if v < 2 ^ 21 then 3
      else if v < 2 ^ 28 then 4 else 5)"

definition int32_size :: "u32 \<Rightarrow> nat" where
  "int32_size v =
     (if v <s 0 then 10 else if v <s 2 ^ 7 then 1 else if v <s 2 ^ 14 then 2 else if v <s 2 ^ 21 then 3
      else if v <s 2 ^ 28 then 4 else 5)"

definition zigzag32 :: "u32 \<Rightarrow> u32" where
  "zigzag32 v = (if v <s 0 then - v * 2 - 1 else v * 2)"

definition sint32_size :: "u32 \<Rightarrow> nat" where
  "sint32_size v = uint32_size (zigzag32 v)"

definition uint64_size :: "u64 \<Rightarrow> nat" where
  "uint64_size v =
     (let upper_v = ucast (drop_bit 32 v) :: u32
      in if upper_v = 0 then uint32_size (ucast v)
         else if upper_v < 2 ^ 3 then 5 else if upper_v < 2 ^ 10 then 6 else if upper_v < 2 ^ 17 then 7
         else if upper_v < 2 ^ 24 then 8 else if upper_v < 2 ^ 31 then 9 else 10)"

definition zigzag64 :: "u64 \<Rightarrow> u64" where
  "zigzag64 v = (if v <s 0 then - v * 2 - 1 else v * 2)"

definition sint64_size :: "u64 \<Rightarrow> nat" where
  "sint64_size v = uint64_size (zigzag64 v)"

section \<open>Packing\<close>

text \<open>Four nested conditionals, each of which writes one byte.\<close>

fun uint32_pack_steps :: "nat \<Rightarrow> u32 \<Rightarrow> u8 list" where
  "uint32_pack_steps 0 v = [ucast v]"
| "uint32_pack_steps (Suc k) v =
     (if v \<ge> 0x80 then ucast (v OR 0x80) # uint32_pack_steps k (drop_bit 7 v) else [ucast v])"

definition uint32_pack :: "u32 \<Rightarrow> u8 list" where
  "uint32_pack v = uint32_pack_steps 4 v"

definition int32_pack :: "u32 \<Rightarrow> u8 list" where
  "int32_pack v =
     (if v <s 0
      then [ucast (v OR 0x80), ucast (signed_drop_bit 7 v OR 0x80), ucast (signed_drop_bit 14 v OR 0x80),
            ucast (signed_drop_bit 21 v OR 0x80), ucast (signed_drop_bit 28 v OR 0x80),
            0xff, 0xff, 0xff, 0xff, 0x01]
      else uint32_pack v)"

definition sint32_pack :: "u32 \<Rightarrow> u8 list" where
  "sint32_pack v = uint32_pack (zigzag32 v)"

function uint64_pack_rest :: "u32 \<Rightarrow> u8 list" where
  "uint64_pack_rest hi =
     (if hi \<ge> 128 then ucast (hi OR 0x80) # uint64_pack_rest (drop_bit 7 hi) else [ucast hi])"
  by pat_completeness auto
termination
proof (relation "measure unat")
  fix hi :: u32
  assume "128 \<le> hi"
  then have "unat hi \<noteq> 0" by (auto simp: unat_eq_zero)
  then show "(drop_bit 7 hi, hi) \<in> measure unat" by (simp add: drop_bit_eq_div unat_div_distrib)
qed simp

declare uint64_pack_rest.simps [simp del]

definition uint64_pack :: "u64 \<Rightarrow> u8 list" where
  "uint64_pack v =
     (let hi = ucast (drop_bit 32 v) :: u32; lo = ucast v :: u32
      in if hi = 0 then uint32_pack lo
         else [ucast (lo OR 0x80), ucast (drop_bit 7 lo OR 0x80), ucast (drop_bit 14 lo OR 0x80),
               ucast (drop_bit 21 lo OR 0x80)] @
              (if hi < 8 then [ucast (push_bit 4 hi OR drop_bit 28 lo)]
               else ucast (push_bit 4 (hi AND 7) OR drop_bit 28 lo OR 0x80) # uint64_pack_rest (drop_bit 3 hi)))"

definition sint64_pack :: "u64 \<Rightarrow> u8 list" where
  "sint64_pack v = uint64_pack (zigzag64 v)"

text \<open>The machine is little-endian.\<close>

definition fixed32_pack :: "u32 \<Rightarrow> u8 list" where
  "fixed32_pack v = map (\<lambda>i. ucast (drop_bit (8 * i) v)) [0..<4]"

definition fixed64_pack :: "u64 \<Rightarrow> u8 list" where
  "fixed64_pack v = map (\<lambda>i. ucast (drop_bit (8 * i) v)) [0..<8]"

definition boolean_pack :: "u32 \<Rightarrow> u8 list" where
  "boolean_pack v = [if v \<noteq> 0 then 1 else 0]"

definition tag_pack :: "u32 \<Rightarrow> u8 list" where
  "tag_pack i = (if i < 2 ^ 29 then uint32_pack (push_bit 3 i) else uint64_pack (push_bit 3 (ucast i)))"

section \<open>Parsing\<close>

text \<open>The callers pass the number of bytes of the value, all of which are in the buffer.\<close>

definition parse_uint32 :: "nat \<Rightarrow> u8 list \<Rightarrow> u32" where
  "parse_uint32 n data =
     (let rv = ucast (data ! 0 AND 0x7f)
      in if n > 1 then
           (let rv = rv OR push_bit 7 (ucast (data ! 1 AND 0x7f))
            in if n > 2 then
                 (let rv = rv OR push_bit 14 (ucast (data ! 2 AND 0x7f))
                  in if n > 3 then
                       (let rv = rv OR push_bit 21 (ucast (data ! 3 AND 0x7f))
                        in if n > 4 then rv OR push_bit 28 (ucast (data ! 4)) else rv)
                     else rv)
               else rv)
         else rv)"

definition parse_int32 :: "nat \<Rightarrow> u8 list \<Rightarrow> u32" where
  "parse_int32 n data = parse_uint32 n data"

definition unzigzag32 :: "u32 \<Rightarrow> u32" where
  "unzigzag32 v = (if v AND 1 \<noteq> 0 then - drop_bit 1 v - 1 else drop_bit 1 v)"

definition parse_fixed_uint32 :: "u8 list \<Rightarrow> u32" where
  "parse_fixed_uint32 data = foldr (\<lambda>b v. ucast b OR push_bit 8 v) (take 4 data) 0"

fun parse_uint64_loop :: "u64 \<Rightarrow> nat \<Rightarrow> u8 list \<Rightarrow> u64" where
  "parse_uint64_loop rv sh [] = rv"
| "parse_uint64_loop rv sh (b # bs) = parse_uint64_loop (rv OR push_bit sh (ucast (b AND 0x7f))) (sh + 7) bs"

definition parse_uint64 :: "nat \<Rightarrow> u8 list \<Rightarrow> u64" where
  "parse_uint64 n data =
     (if n < 5 then ucast (parse_uint32 n data)
      else let rv = ucast (data ! 0 AND 0x7f) OR push_bit 7 (ucast (data ! 1 AND 0x7f)) OR
                    push_bit 14 (ucast (data ! 2 AND 0x7f)) OR push_bit 21 (ucast (data ! 3 AND 0x7f))
           in parse_uint64_loop rv 28 (drop 4 (take n data)))"

definition unzigzag64 :: "u64 \<Rightarrow> u64" where
  "unzigzag64 v = (if v AND 1 \<noteq> 0 then - drop_bit 1 v - 1 else drop_bit 1 v)"

definition parse_fixed_uint64 :: "u8 list \<Rightarrow> u64" where
  "parse_fixed_uint64 data = foldr (\<lambda>b v. ucast b OR push_bit 8 v) (take 8 data) 0"

definition parse_boolean :: "nat \<Rightarrow> u8 list \<Rightarrow> u32" where
  "parse_boolean n data = (if \<exists>b \<in> set (take n data). b AND 0x7f \<noteq> 0 then 1 else 0)"

section \<open>Base 128\<close>

text \<open>The number that a varint denotes, and its shape: all bytes but the last have the top bit set.\<close>

fun b128 :: "u8 list \<Rightarrow> nat" where
  "b128 [] = 0"
| "b128 (b # bs) = unat b mod 128 + 128 * b128 bs"

fun varint :: "u8 list \<Rightarrow> bool" where
  "varint [] = False"
| "varint [b] = (b AND 0x80 = 0)"
| "varint (b # bs) = (b AND 0x80 \<noteq> 0 \<and> varint bs)"

lemma varint_Cons: "varint (b # bs) \<longleftrightarrow> (if bs = [] then b AND 0x80 = 0 else b AND 0x80 \<noteq> 0 \<and> varint bs)"
  by (cases bs) simp_all

lemma b128_append: "b128 (xs @ ys) = b128 xs + 128 ^ length xs * b128 ys"
  by (induction xs) (simp_all add: algebra_simps)

lemma bit_unat: "bit (unat w) n = bit w n"
  by (simp add: bit_unsigned_iff)

lemma and_0x80: "(b :: u8) AND 0x80 = 0 \<longleftrightarrow> unat b < 128"
proof -
  have "0x80 = push_bit 7 (1 :: u8)" by simp
  then have "b AND 0x80 = 0 \<longleftrightarrow> \<not> bit b 7"
    by (metis and_exp_eq_0_iff_not_bit push_bit_of_1)
  also have "\<dots> \<longleftrightarrow> \<not> bit (unat b) 7" by (simp add: bit_unsigned_iff)
  also have "\<dots> \<longleftrightarrow> even (unat b div 128)" by (simp add: bit_iff_odd)
  also have "\<dots> \<longleftrightarrow> unat b < 128"
  proof -
    have "unat b < 256" using unsigned_less [of b] by simp
    then have "unat b div 128 = 0 \<or> unat b div 128 = 1" by auto
    then show ?thesis by auto
  qed
  finally show ?thesis .
qed

text \<open>The bytes of a packed value carry its digits.\<close>

lemma unat_mod_128: "unat (v :: 'a :: len word) mod 128 = unat (take_bit 7 v)"
  by (simp add: unsigned_take_bit_eq) (simp add: take_bit_eq_mod)

lemma marked_digit:
  fixes v :: u32
  shows "unat (ucast (v OR 0x80) :: u8) mod 128 = unat v mod 128" "(ucast (v OR 0x80) :: u8) AND 0x80 \<noteq> 0"
proof -
  have "take_bit 7 (ucast (v OR 0x80) :: u8) = ucast (take_bit 7 v)"
    by (rule bit_word_eqI) (auto simp: bit_simps)
  then have "unat (ucast (v OR 0x80) :: u8) mod 128 = unat (ucast (take_bit 7 v) :: u8)"
    by (simp add: unat_mod_128)
  also have "\<dots> = unat (take_bit 7 v)"
  proof -
    have "unat (take_bit 7 v) < 128" unfolding unat_mod_128 [symmetric] by simp
    then show ?thesis by (simp add: unsigned_ucast_eq take_bit_nat_eq_self)
  qed
  finally show "unat (ucast (v OR 0x80) :: u8) mod 128 = unat v mod 128" by (simp add: unat_mod_128)
  show "(ucast (v OR 0x80) :: u8) AND 0x80 \<noteq> 0"
  proof
    assume "(ucast (v OR 0x80) :: u8) AND 0x80 = 0"
    then have "bit ((ucast (v OR 0x80) :: u8) AND 0x80) 7 = bit (0 :: u8) 7" by simp
    then show False by (simp add: bit_simps)
  qed
qed

lemma unmarked_digit:
  fixes v :: u32
  assumes "unat v < 128"
  shows "unat (ucast v :: u8) = unat v" "(ucast v :: u8) AND 0x80 = 0"
proof -
  show u: "unat (ucast v :: u8) = unat v" using assms by (simp add: unsigned_ucast_eq take_bit_nat_eq_self)
  show "(ucast v :: u8) AND 0x80 = 0" using assms u by (simp add: and_0x80)
qed

lemma unat_drop32: "unat (drop_bit n (v :: 'a :: len word)) = unat v div 2 ^ n"
  by (metis unat_drop_bit_eq drop_bit_eq_div)

lemma uint32_pack_steps:
  "unat v < 128 ^ Suc k \<Longrightarrow> b128 (uint32_pack_steps k v) = unat v \<and> varint (uint32_pack_steps k v)"
proof (induction k arbitrary: v)
  case 0
  then show ?case by (simp add: unmarked_digit)
next
  case (Suc k)
  show ?case
  proof (cases "0x80 \<le> v")
    case True
    have "unat (drop_bit 7 v) < 128 ^ Suc k" using Suc.prems by (simp add: unat_drop32 less_mult_imp_div_less)
    note IH = Suc.IH [OF this]
    moreover from IH have "uint32_pack_steps k (drop_bit 7 v) \<noteq> []" by auto
    ultimately show ?thesis using True by (simp add: marked_digit unat_drop32 varint_Cons)
  next
    case False
    then have "unat v < 128" by (simp add: word_le_nat_alt)
    with False show ?thesis by (simp add: unmarked_digit)
  qed
qed

lemma uint32_pack_b128 [simp]: "b128 (uint32_pack v) = unat v" "varint (uint32_pack v)"
  using uint32_pack_steps [of v 4] unsigned_less [of v, where 'a = nat] by (simp_all add: uint32_pack_def)

lemma div_128_less: "n div 128 < 128 ^ j \<longleftrightarrow> n < 128 ^ Suc j" for n :: nat
  by (simp add: div_less_iff_less_mult mult.commute)

lemma uint32_pack_steps_length:
  "length (uint32_pack_steps k v) \<le> Suc j \<longleftrightarrow> k \<le> j \<or> unat v < 128 ^ Suc j"
proof (induction k arbitrary: v j)
  case 0
  then show ?case by simp
next
  case (Suc k)
  show ?case
  proof (cases "0x80 \<le> v")
    case True
    then have v: "\<not> unat v < 128" by (simp add: word_le_nat_alt)
    show ?thesis
    proof (cases j)
      case 0
      with True v show ?thesis by (cases k) simp_all
    next
      case (Suc i)
      with True Suc.IH [of "drop_bit 7 v" i] show ?thesis
        by (simp add: unat_drop32 div_128_less del: power_Suc)
    qed
  next
    case False
    then have "unat v < 128" by (simp add: word_le_nat_alt)
    also have "(128 :: nat) \<le> 128 ^ Suc j" by simp
    finally show ?thesis using False by simp
  qed
qed

lemma length_uint32_pack [simp]: "length (uint32_pack v) = uint32_size v"
proof -
  let ?l = "length (uint32_pack v)"
  have "?l \<le> Suc j \<longleftrightarrow> 4 \<le> j \<or> unat v < 128 ^ Suc j" for j
    by (simp only: uint32_pack_def uint32_pack_steps_length)
  from this [of 0] this [of 1] this [of 2] this [of 3] this [of 4]
  have "?l \<le> Suc 0 \<longleftrightarrow> unat v < 2 ^ 7" "?l \<le> Suc 1 \<longleftrightarrow> unat v < 2 ^ 14"
    "?l \<le> Suc 2 \<longleftrightarrow> unat v < 2 ^ 21" "?l \<le> Suc 3 \<longleftrightarrow> unat v < 2 ^ 28" "?l \<le> Suc 4"
    by (simp_all only: One_nat_def) simp_all
  moreover have "uint32_pack v \<noteq> []" by (metis uint32_pack_b128(2) varint.simps(1))
  then have "1 \<le> ?l" by (cases "uint32_pack v") simp_all
  ultimately show ?thesis unfolding uint32_size_def word_less_nat_alt by (simp split: if_splits) linarith
qed

lemma uint64_pack_rest:
  "b128 (uint64_pack_rest hi) = unat hi \<and> varint (uint64_pack_rest hi)"
proof (induction hi rule: uint64_pack_rest.induct)
  case (1 hi)
  show ?case
  proof (cases "128 \<le> hi")
    case True
    note IH = "1.IH" [OF this]
    moreover from IH have "uint64_pack_rest (drop_bit 7 hi) \<noteq> []" by auto
    ultimately show ?thesis
      using True by (subst (1 2) uint64_pack_rest.simps) (simp add: marked_digit unat_drop32 varint_Cons)
  next
    case False
    then have "unat hi < 128" by (simp add: word_le_nat_alt)
    with False show ?thesis by (subst (1 2) uint64_pack_rest.simps) (simp add: unmarked_digit)
  qed
qed

lemma unat_halves:
  fixes v :: u64
  shows "unat (ucast (drop_bit 32 v) :: u32) = unat v div 2 ^ 32" "unat (ucast v :: u32) = unat v mod 2 ^ 32"
proof -
  have "unat v div 2 ^ 32 < 2 ^ 32"
    using unsigned_less [of v, where 'a = nat] by (simp add: less_mult_imp_div_less)
  then show "unat (ucast (drop_bit 32 v) :: u32) = unat v div 2 ^ 32"
    by (simp add: unsigned_ucast_eq unat_drop32 take_bit_nat_eq_self)
  show "unat (ucast v :: u32) = unat v mod 2 ^ 32" by (simp add: unsigned_ucast_eq take_bit_eq_mod)
qed

lemma unat_eq_0_iff: "unat (v :: 'a :: len word) = 0 \<longleftrightarrow> v = 0"
  by (simp add: unat_eq_zero)

text \<open>The digits of the lower half and the digit in which the halves meet.\<close>

lemma joint_digit:
  fixes hi lo :: u32
  shows "unat hi < 8 \<Longrightarrow> unat (push_bit 4 hi OR drop_bit 28 lo) = 16 * unat hi + unat lo div 2 ^ 28"
    "unat (push_bit 4 (hi AND 7) OR drop_bit 28 lo) = 16 * (unat hi mod 8) + unat lo div 2 ^ 28"
proof -
  have join: "unat (push_bit 4 h OR drop_bit 28 lo) = 16 * unat h + unat lo div 2 ^ 28" if "unat h < 8" for h :: u32
  proof -
    have d: "push_bit 4 h AND drop_bit 28 lo = 0"
      by (rule bit_word_eqI) (auto simp: bit_simps dest: bit_imp_le_length)
    have l: "unat lo div 2 ^ 28 < 16"
      using unsigned_less [of lo, where 'a = nat] by (simp add: less_mult_imp_div_less)
    have p: "unat (push_bit 4 h) = 16 * unat h" using that by (simp add: push_bit_eq_mult unat_word_ariths)
    have "push_bit 4 h OR drop_bit 28 lo = push_bit 4 h + drop_bit 28 lo"
      using d by (simp add: disjunctive_add_eq_or)
    also have "unat \<dots> = unat (push_bit 4 h) + unat (drop_bit 28 lo)"
      using l p that by (simp add: unat_word_ariths unat_drop32)
    finally show ?thesis using p by (simp add: unat_drop32)
  qed
  show "unat hi < 8 \<Longrightarrow> unat (push_bit 4 hi OR drop_bit 28 lo) = 16 * unat hi + unat lo div 2 ^ 28"
    by (rule join)
  have "hi AND 7 = hi mod 8"
  proof -
    have "(7 :: u32) = mask 3" by (simp add: mask_eq_exp_minus_1)
    then have "hi AND 7 = take_bit 3 hi" by (simp add: take_bit_eq_mask)
    then show ?thesis by (simp add: take_bit_eq_mod)
  qed
  then have "unat (hi AND 7) = unat hi mod 8" by (simp add: unat_mod_distrib)
  with join [of "hi AND 7"] show
    "unat (push_bit 4 (hi AND 7) OR drop_bit 28 lo) = 16 * (unat hi mod 8) + unat lo div 2 ^ 28" by simp
qed

lemma varint_prefix:
  "\<forall>b \<in> set xs. b AND 0x80 \<noteq> 0 \<Longrightarrow> varint ys \<Longrightarrow> varint (xs @ ys)"
  by (induction xs) (auto simp: varint_Cons)

lemma digits_join: "(n :: nat) mod 128 + 128 * (n div 128 mod 128 + 128 * (n div 16384 mod 128 + 128 *
    (n div 2097152 mod 128 + 128 * (n div 268435456)))) = n"
proof -
  have d: "n div 16384 = n div 128 div 128" "n div 2097152 = n div 128 div 128 div 128"
    "n div 268435456 = n div 128 div 128 div 128 div 128"
    by (simp_all add: div_mult2_eq [symmetric])
  have m: "m mod 128 + 128 * (m div 128) = m" for m :: nat by simp
  show ?thesis by (simp only: d m)
qed

lemma uint64_pack_b128 [simp]: "b128 (uint64_pack v) = unat v" "varint (uint64_pack v)"
proof -
  define hi lo :: u32 where "hi = ucast (drop_bit 32 v)" and "lo = ucast v"
  have "unat hi = unat v div 2 ^ 32" "unat lo = unat v mod 2 ^ 32"
    unfolding hi_def lo_def by (rule unat_halves)+
  then have n: "unat v = unat hi * 2 ^ 32 + unat lo" by simp
  let ?four = "[ucast (lo OR 0x80), ucast (drop_bit 7 lo OR 0x80), ucast (drop_bit 14 lo OR 0x80),
      ucast (drop_bit 21 lo OR 0x80)] :: u8 list"
  let ?L = "unat lo"
  have four: "b128 (?four @ xs) = ?L mod 128 + 128 * (?L div 128 mod 128 + 128 * (?L div 16384 mod 128 + 128 *
      (?L div 2097152 mod 128 + 128 * b128 xs)))" for xs
    by (simp add: marked_digit unat_drop32)
  have "b128 (uint64_pack v) = unat v \<and> varint (uint64_pack v)"
  proof (cases "hi = 0")
    case True
    then have "uint64_pack v = uint32_pack lo" by (simp add: uint64_pack_def hi_def lo_def Let_def or.assoc)
    with n True show ?thesis by simp
  next
    case hi: False
    have l: "?L div 2 ^ 28 < 16" using unsigned_less [of lo, where 'a = nat] by (simp add: less_mult_imp_div_less)
    show ?thesis
    proof (cases "hi < 8")
      case True
      then have h: "unat hi < 8" by (simp add: word_less_nat_alt)
      let ?x = "push_bit 4 hi OR drop_bit 28 lo"
      have x: "unat ?x = 16 * unat hi + ?L div 2 ^ 28" by (rule joint_digit(1) [OF h])
      with h l have x128: "unat ?x < 128" by linarith
      have e: "uint64_pack v = ?four @ [ucast ?x]" using hi True by (simp add: uint64_pack_def hi_def lo_def Let_def or.assoc)
      have "b128 (uint64_pack v) = unat v"
        unfolding e four n using digits_join [of "?L"] x unmarked_digit(1) [OF x128] x128 by simp
      moreover have "varint (uint64_pack v)"
        unfolding e by (rule varint_prefix) (use unmarked_digit(2) [OF x128] in \<open>simp_all add: marked_digit\<close>)
      ultimately show ?thesis by simp
    next
      case False
      let ?x = "push_bit 4 (hi AND 7) OR drop_bit 28 lo"
      have x: "unat ?x = 16 * (unat hi mod 8) + ?L div 2 ^ 28" by (rule joint_digit(2))
      have x128: "unat ?x < 128"
      proof -
        have "unat hi mod 8 < 8" by simp
        with x l show ?thesis by linarith
      qed
      let ?r = "uint64_pack_rest (drop_bit 3 hi)"
      have r: "b128 ?r = unat hi div 8" "varint ?r" using uint64_pack_rest [of "drop_bit 3 hi"] by (simp_all add: unat_drop32)
      have e: "uint64_pack v = ?four @ ucast (?x OR 0x80) # ?r" using hi False by (simp add: uint64_pack_def hi_def lo_def Let_def or.assoc)
      obtain a b where h: "unat hi mod 8 = a" "unat hi div 8 = b" "unat hi = a + 8 * b"
        using mod_mult_div_eq [of "unat hi" 8, symmetric] by blast
      have "a < 8" by (simp flip: h(1))
      have "b128 (uint64_pack v) = unat v"
        unfolding e four n using digits_join [of "?L"] x x128 \<open>a < 8\<close> unfolding h by (simp add: marked_digit r(1) h(2))
      moreover have "varint (uint64_pack v)"
      proof -
        have "varint ((?four @ [ucast (?x OR 0x80)]) @ ?r)"
          by (rule varint_prefix) (use r(2) in \<open>simp_all add: marked_digit\<close>)
        with e show ?thesis by simp
      qed
      ultimately show ?thesis by simp
    qed
  qed
  then show "b128 (uint64_pack v) = unat v" "varint (uint64_pack v)" by simp_all
qed

text \<open>The sizes are those of the packed values.\<close>

lemma uint64_pack_rest_length:
  "length (uint64_pack_rest hi) \<le> Suc j \<longleftrightarrow> unat hi < 128 ^ Suc j"
proof (induction hi arbitrary: j rule: uint64_pack_rest.induct)
  case (1 hi)
  show ?case
  proof (cases "128 \<le> hi")
    case True
    then have v: "\<not> unat hi < 128" by (simp add: word_le_nat_alt)
    have "uint64_pack_rest (drop_bit 7 hi) \<noteq> []"
      using uint64_pack_rest [of "drop_bit 7 hi"] by auto
    with True v "1.IH" [OF True] show ?thesis
      by (subst uint64_pack_rest.simps, cases j) (simp_all add: unat_drop32 div_128_less del: power_Suc)
  next
    case False
    then have "unat hi < 128" by (simp add: word_le_nat_alt)
    also have "(128 :: nat) \<le> 128 ^ Suc j" by simp
    finally show ?thesis using False by (subst uint64_pack_rest.simps) simp
  qed
qed

lemma length_uint64_pack [simp]: "length (uint64_pack v) = uint64_size v"
proof -
  define hi :: u32 where "hi = ucast (drop_bit 32 v)"
  let ?r = "uint64_pack_rest (drop_bit 3 hi)" and ?l = "length (uint64_pack_rest (drop_bit 3 hi))"
  have e: "length (uint64_pack v) = (if hi = 0 then uint32_size (ucast v) else if hi < 8 then 5 else 5 + ?l)"
    by (simp add: uint64_pack_def hi_def Let_def)
  have s: "uint64_size v = (if hi = 0 then uint32_size (ucast v) else if hi < 2 ^ 3 then 5 else if hi < 2 ^ 10 then 6
      else if hi < 2 ^ 17 then 7 else if hi < 2 ^ 24 then 8 else if hi < 2 ^ 31 then 9 else 10)"
    by (simp add: uint64_size_def hi_def Let_def)
  have "?l \<le> Suc j \<longleftrightarrow> unat hi div 8 < 128 ^ Suc j" for j
    by (simp only: uint64_pack_rest_length unat_drop32) simp
  from this [of 0] this [of 1] this [of 2] this [of 3] this [of 4]
  have b: "?l \<le> Suc 0 \<longleftrightarrow> unat hi < 2 ^ 10" "?l \<le> Suc 1 \<longleftrightarrow> unat hi < 2 ^ 17"
    "?l \<le> Suc 2 \<longleftrightarrow> unat hi < 2 ^ 24" "?l \<le> Suc 3 \<longleftrightarrow> unat hi < 2 ^ 31" "?l \<le> Suc 4 \<longleftrightarrow> unat hi < 2 ^ 38"
    by (simp_all only: One_nat_def) (simp_all add: div_less_iff_less_mult)
  have "unat hi < 2 ^ 38" using unsigned_less [of hi, where 'a = nat] by simp
  moreover have "?r \<noteq> []" using uint64_pack_rest [of "drop_bit 3 hi"] by auto
  then have "1 \<le> ?l" by (cases ?r) simp_all
  ultimately show ?thesis using b unfolding e s word_less_nat_alt by (simp split: if_splits) linarith
qed

lemma length_sint_pack [simp]:
  "length (sint32_pack v) = sint32_size v" "length (sint64_pack w) = sint64_size w"
  by (simp_all add: sint32_pack_def sint32_size_def sint64_pack_def sint64_size_def)

lemma uint_less_numeral: "uint v < numeral k \<longleftrightarrow> unat v < numeral k"
proof -
  have "unat v < numeral k \<longleftrightarrow> int (unat v) < int (numeral k)" by (rule of_nat_less_iff [symmetric])
  then show ?thesis by simp
qed

lemma sint_u32: "sint (v :: u32) = (if uint v < 2 ^ 31 then uint v else uint v - 2 ^ 32)"
proof -
  define n where "n = uint v"
  have n: "uint v = n" "0 \<le> n" "n < 2 ^ 32" using uint_lt2p [of v] by (simp_all add: n_def)
  have "sint v = (n + 2 ^ 31) mod 2 ^ 32 - 2 ^ 31"
    by (simp add: sint_uint n(1) signed_take_bit_eq_take_bit_shift take_bit_eq_mod)
  also have "\<dots> = (if n < 2 ^ 31 then n else n - 2 ^ 32)"
  proof (cases "n < 2 ^ 31")
    case True
    with n show ?thesis by (simp add: mod_pos_pos_trivial)
  next
    case False
    with n have "(n + 2 ^ 31) mod 2 ^ 32 = (n + 2 ^ 31 - 2 ^ 32) mod 2 ^ 32" by (metis minus_mod_self2)
    also have "\<dots> = n + 2 ^ 31 - 2 ^ 32" using False n by (intro mod_pos_pos_trivial) simp_all
    finally show ?thesis using False by simp
  qed
  finally show ?thesis by (auto simp: n_def)
qed

lemma sless_0_iff: "(v :: u32) <s 0 \<longleftrightarrow> 2 ^ 31 \<le> unat v"
  using uint_lt2p [of v] uint_less_numeral [of v, symmetric] by (auto simp: word_sless_alt sint_u32 simp flip: not_less)

lemma length_int32_pack [simp]: "length (int32_pack v) = int32_size v"
proof (cases "v <s 0")
  case True
  then show ?thesis by (simp add: int32_pack_def int32_size_def)
next
  case False
  then have v: "unat v < 2 ^ 31" by (simp add: sless_0_iff)
  then have "v <s 128 \<longleftrightarrow> v < 128" "v <s 16384 \<longleftrightarrow> v < 16384" "v <s 2097152 \<longleftrightarrow> v < 2097152"
    "v <s 268435456 \<longleftrightarrow> v < 268435456"
    by (simp_all add: word_sless_alt sint_u32 word_less_nat_alt uint_less_numeral)
  with False show ?thesis by (simp add: int32_pack_def int32_size_def uint32_size_def)
qed

lemma length_fixed_pack [simp]:
  "length (fixed32_pack v) = 4" "length (fixed64_pack w) = 8" "length (boolean_pack v) = 1"
  by (simp_all add: fixed32_pack_def fixed64_pack_def boolean_pack_def)

section \<open>Parsing inverts packing\<close>

lemma or_push_bit:
  fixes a :: "'a :: len word"
  assumes "\<And>n. bit a n \<Longrightarrow> n < k"
  shows "a OR push_bit k y = a + push_bit k y"
proof -
  have "a AND push_bit k y = 0" by (rule bit_word_eqI) (auto simp: bit_simps dest: assms)
  then show ?thesis by (simp add: disjunctive_add_eq_or)
qed

lemma and_0x7f: "(b :: u8) AND 0x7f = of_nat (unat b mod 128)"
proof -
  have "b AND 0x7f = take_bit 7 b" by (simp add: mask7 take_bit_eq_mask)
  then show ?thesis by (simp add: unat_mod_128)
qed

lemma ucast_digit: "8 \<le> LENGTH('a :: len) \<Longrightarrow> (ucast ((b :: u8) AND 0x7f) :: 'a word) = of_nat (unat b mod 128)"
proof -
  have "unat (b AND 0x7f) = unat b mod 128" by (simp add: and_0x7f unsigned_of_nat take_bit_nat_eq_self)
  then show ?thesis by (metis of_nat_unat)
qed

lemma or_digit:
  assumes "s < 2 ^ k"
  shows "(of_nat s :: 'a :: len word) OR push_bit k (of_nat d) = of_nat (s + 2 ^ k * d)"
proof -
  have "n < k" if "bit (of_nat s :: 'a word) n" for n
  proof (rule ccontr)
    assume "\<not> n < k"
    then have "(2 :: nat) ^ k \<le> 2 ^ n" by (intro power_increasing) simp_all
    with assms(1) have "s < 2 ^ n" by (rule less_le_trans)
    then have "\<not> bit s n" by (simp add: bit_iff_odd)
    with that show False by (simp add: bit_of_nat_iff)
  qed
  then have "(of_nat s :: 'a word) OR push_bit k (of_nat d) = of_nat s + push_bit k (of_nat d)"
    by (rule or_push_bit)
  then show ?thesis by (simp add: push_bit_eq_mult mult.commute)
qed

lemma partial_less: "s < 2 ^ k \<Longrightarrow> s + 2 ^ k * (n mod 128) < 2 ^ (k + 7)" for s :: nat
proof -
  assume "s < 2 ^ k"
  moreover have "2 ^ k * (n mod 128) \<le> 2 ^ k * 127" by (intro mult_le_mono2) (simp add: less_Suc_eq_le [symmetric])
  ultimately have "s + 2 ^ k * (n mod 128) < 2 ^ k + 2 ^ k * 127" by linarith
  then show ?thesis by (simp add: power_add)
qed

lemma parse_uint64_loop:
  "s < 2 ^ k \<Longrightarrow> parse_uint64_loop (of_nat s) k bs = of_nat (s + 2 ^ k * b128 bs)"
proof (induction bs arbitrary: s k)
  case Nil
  then show ?case by simp
next
  case (Cons b bs)
  from Cons.IH [OF partial_less [OF Cons.prems]] show ?case
    by (simp add: ucast_digit or_digit [OF Cons.prems] algebra_simps power_add del: of_nat_add of_nat_mult)
qed

lemma last_digit: "push_bit 28 (ucast (b :: u8) :: u32) = push_bit 28 (of_nat (unat b mod 128))"
proof -
  have "push_bit 28 (ucast (b :: u8) :: u32) = push_bit 28 (ucast (b AND 0x7f))"
    by (rule bit_word_eqI) (auto simp: bit_simps mask7 min_def)
  then show ?thesis by (simp add: ucast_digit)
qed

lemma b128_small: "b128 bs < 128 ^ length bs"
proof (induction bs)
  case (Cons b bs)
  then have "unat b mod 128 + 128 * b128 bs < 128 + 128 * b128 bs" by simp
  also have "\<dots> \<le> 128 * 128 ^ length bs" using Cons by simp
  finally show ?case by simp
qed simp

text \<open>The first four digits, which both parsers read in the same way.\<close>

lemma four_digits:
  "(of_nat (unat b0 mod 128) :: 'a :: len word) OR push_bit 7 (of_nat (unat b1 mod 128)) = of_nat (b128 [b0, b1])"
  "(of_nat (b128 [b0, b1]) :: 'a word) OR push_bit 14 (of_nat (unat b2 mod 128)) = of_nat (b128 [b0, b1, b2])"
  "(of_nat (b128 [b0, b1, b2]) :: 'a word) OR push_bit 21 (of_nat (unat b3 mod 128)) = of_nat (b128 [b0, b1, b2, b3])"
  "(of_nat (b128 [b0, b1, b2, b3]) :: 'a word) OR push_bit 28 (of_nat (unat b4 mod 128)) = of_nat (b128 [b0, b1, b2, b3, b4])"
proof -
  have j: "(of_nat (b128 xs) :: 'a word) OR push_bit (7 * length xs) (of_nat (unat b mod 128)) = of_nat (b128 (xs @ [b]))"
    for xs b
    using b128_small [of xs] by (subst or_digit) (simp_all add: power_mult b128_append)
  from j [of "[b0]" b1] j [of "[b0, b1]" b2] j [of "[b0, b1, b2]" b3] j [of "[b0, b1, b2, b3]" b4]
  show
  "(of_nat (unat b0 mod 128) :: 'a :: len word) OR push_bit 7 (of_nat (unat b1 mod 128)) = of_nat (b128 [b0, b1])"
  "(of_nat (b128 [b0, b1]) :: 'a word) OR push_bit 14 (of_nat (unat b2 mod 128)) = of_nat (b128 [b0, b1, b2])"
  "(of_nat (b128 [b0, b1, b2]) :: 'a word) OR push_bit 21 (of_nat (unat b3 mod 128)) = of_nat (b128 [b0, b1, b2, b3])"
  "(of_nat (b128 [b0, b1, b2, b3]) :: 'a word) OR push_bit 28 (of_nat (unat b4 mod 128)) = of_nat (b128 [b0, b1, b2, b3, b4])"
    by (simp_all del: b128.simps(2)) simp_all
qed

lemma parse_uint32:
  assumes "0 < n" "n \<le> length data"
  shows "parse_uint32 n data = of_nat (b128 (take n data))"
proof -
  note eqs = parse_uint32_def ucast_digit last_digit four_digits
  consider "n = 1" | "n = 2" | "n = 3" | "n = 4" | "5 \<le> n" using assms(1) by linarith
  then show ?thesis
  proof cases
    case 1
    then obtain b0 ds where "data = b0 # ds" using assms(2) by (cases data) auto
    with 1 show ?thesis by (simp add: eqs)
  next
    case 2
    then obtain b0 b1 ds where "data = b0 # b1 # ds"
      using assms(2) by (auto simp: numeral_eq_Suc Suc_le_length_iff)
    with 2 show ?thesis by (simp add: eqs del: b128.simps(2))
  next
    case 3
    then obtain b0 b1 b2 ds where "data = b0 # b1 # b2 # ds"
      using assms(2) by (auto simp: numeral_eq_Suc Suc_le_length_iff)
    with 3 show ?thesis by (simp add: eqs del: b128.simps(2))
  next
    case 4
    then obtain b0 b1 b2 b3 ds where "data = b0 # b1 # b2 # b3 # ds"
      using assms(2) by (auto simp: numeral_eq_Suc Suc_le_length_iff)
    with 4 show ?thesis by (simp add: eqs del: b128.simps(2))
  next
    case 5
    then obtain m where m: "n = 5 + m" using le_Suc_ex by blast
    with assms(2) obtain b0 b1 b2 b3 b4 ds where d: "data = b0 # b1 # b2 # b3 # b4 # ds"
      by (auto simp: numeral_eq_Suc Suc_le_length_iff)
    have "parse_uint32 n data = of_nat (b128 [b0, b1, b2, b3, b4])"
      using m d by (simp add: eqs del: b128.simps(2))
    moreover have "b128 (take n data) = b128 [b0, b1, b2, b3, b4] + 2 ^ 35 * b128 (take m ds)"
      using m d b128_append [of "[b0, b1, b2, b3, b4]" "take m ds"] by (simp add: take_Cons' del: b128.simps(2))
    moreover have "(of_nat (2 ^ 35 * b128 (take m ds)) :: u32) = 0"
      by (simp only: word_of_nat_eq_0_iff) (rule dvd_mult2, simp)
    ultimately show ?thesis by (simp only: of_nat_add add_0_right)
  qed
qed

lemma parse_uint64:
  assumes "0 < n" "n \<le> length data"
  shows "parse_uint64 n data = of_nat (b128 (take n data))"
proof (cases "n < 5")
  case True
  have "b128 (take n data) < 128 ^ length (take n data)" by (rule b128_small)
  also have "\<dots> \<le> 128 ^ 4" using True by (intro power_increasing) simp_all
  finally have "b128 (take n data) < 2 ^ 28" by simp
  then have "unat (of_nat (b128 (take n data)) :: u32) = b128 (take n data)"
    by (simp add: unsigned_of_nat take_bit_nat_eq_self)
  then have "(ucast (of_nat (b128 (take n data)) :: u32) :: u64) = of_nat (b128 (take n data))" by (metis of_nat_unat)
  with True show ?thesis by (simp add: parse_uint64_def parse_uint32 [OF assms])
next
  case False
  then obtain m where m: "n = 5 + m" using le_Suc_ex [of 5 n] by auto
  with assms(2) obtain b0 b1 b2 b3 ds where d: "data = b0 # b1 # b2 # b3 # ds"
    by (auto simp: numeral_eq_Suc Suc_le_length_iff)
  let ?p = "[b0, b1, b2, b3]"
  have "b128 ?p < 2 ^ 28" using b128_small [of ?p] by simp
  from parse_uint64_loop [OF this, of "take (1 + m) ds"]
  have "parse_uint64 n data = of_nat (b128 ?p + 2 ^ 28 * b128 (take (1 + m) ds))"
    using m d by (simp add: parse_uint64_def ucast_digit four_digits drop_take flip: or.assoc del: b128.simps(2))
  moreover have "b128 (take n data) = b128 ?p + 2 ^ 28 * b128 (take (1 + m) ds)"
    using m d b128_append [of ?p "take (1 + m) ds"] by (simp add: take_Cons' del: b128.simps(2))
  ultimately show ?thesis by simp
qed

lemma parse_uint32_pack [simp]: "parse_uint32 (uint32_size v) (uint32_pack v @ rest) = v"
proof -
  have "0 < uint32_size v" by (simp add: uint32_size_def)
  then show ?thesis by (subst parse_uint32) (simp_all flip: length_uint32_pack)
qed

lemma parse_uint64_pack [simp]: "parse_uint64 (uint64_size v) (uint64_pack v @ rest) = v"
proof -
  have "0 < length (uint64_pack v)" by (metis length_greater_0_conv uint64_pack_b128(2) varint.simps(1))
  then show ?thesis by (subst parse_uint64) (simp_all flip: length_uint64_pack)
qed

text \<open>The two cases of the ZigZag form.\<close>

lemma half_of:
  fixes n :: nat
  assumes "n < 2 ^ LENGTH('a :: len)"
  shows "drop_bit 1 (of_nat n :: 'a word) = of_nat (n div 2)" "(of_nat n :: 'a word) AND 1 = 0 \<longleftrightarrow> even n"
proof -
  have u: "unat (of_nat n :: 'a word) = n" using assms by (simp add: unsigned_of_nat take_bit_nat_eq_self)
  then show "drop_bit 1 (of_nat n :: 'a word) = of_nat (n div 2)"
    by (metis drop_bit_eq_div of_nat_unat power_one_right ucast_id unat_drop_bit_eq)
  have "(of_nat n :: 'a word) AND 1 = 0 \<longleftrightarrow> even (of_nat n :: 'a word)" by (simp add: and_one_eq mod_2_eq_odd)
  also have "\<dots> \<longleftrightarrow> even (unat (of_nat n :: 'a word))" by (metis bit_0 bit_unat)
  finally show "(of_nat n :: 'a word) AND 1 = 0 \<longleftrightarrow> even n" by (simp only: u)
qed

lemma zigzag_positive:
  assumes "2 * unat v < 2 ^ LENGTH('a :: len)"
  shows "drop_bit 1 (v * 2) = v \<and> (v * 2) AND 1 = (0 :: 'a word)"
proof -
  have "v * 2 = of_nat (2 * unat v)" by simp
  then show ?thesis by (simp only: half_of [OF assms]) simp
qed

lemma zigzag_negative:
  assumes "2 ^ LENGTH('a :: len) \<le> 2 * unat v"
  shows "- drop_bit 1 (- v * 2 - 1) - 1 = v \<and> (- v * 2 - 1) AND 1 \<noteq> (0 :: 'a word)"
proof -
  define k where "k = 2 ^ LENGTH('a) - unat v"
  have u: "unat v < 2 ^ LENGTH('a)" by (rule unsigned_less)
  then have k: "0 < k" "unat v + k = 2 ^ LENGTH('a)" unfolding k_def by linarith+
  with assms have k2: "2 * k - 1 < 2 ^ LENGTH('a)" by linarith
  have "of_nat (unat v + k) = (0 :: 'a word)" unfolding k(2) by simp
  then have m: "- v = of_nat k" by (simp add: minus_unique)
  have z: "- v * 2 - 1 = of_nat (2 * k - 1)" using k(1) unfolding m by (simp add: of_nat_diff)
  have "drop_bit 1 (- v * 2 - 1) = of_nat (k - 1)"
  proof -
    have "(2 * k - 1) div 2 = k - 1" using k(1) by (cases k) simp_all
    then show ?thesis unfolding z half_of(1) [OF k2] by simp
  qed
  moreover have "- of_nat (k - 1) - 1 = v" using k(1) m by (simp add: of_nat_diff) (metis minus_minus)
  moreover have "odd (2 * k - 1)" using k(1) by (cases k) simp_all
  ultimately show ?thesis unfolding z using half_of(2) [OF k2] by simp
qed

lemma unzigzag32_zigzag32 [simp]: "unzigzag32 (zigzag32 v) = v"
proof (cases "v <s 0")
  case True
  then have "2 ^ LENGTH(32) \<le> 2 * unat v" by (simp add: sless_0_iff)
  from zigzag_negative [OF this] True show ?thesis by (simp add: zigzag32_def unzigzag32_def)
next
  case False
  then have "2 * unat v < 2 ^ LENGTH(32)" by (simp add: sless_0_iff)
  from zigzag_positive [OF this] False show ?thesis by (simp add: zigzag32_def unzigzag32_def)
qed

lemma sless_0_iff_64: "(v :: u64) <s 0 \<longleftrightarrow> 2 ^ 63 \<le> unat v"
proof -
  have "sint v < 0 \<longleftrightarrow> bit v 63" using bit_last_iff [of v] by simp
  moreover have "bit v 63 \<longleftrightarrow> odd (unat v div 2 ^ 63)"
    by (metis bit_iff_odd bit_unat)
  moreover have "unat v div 2 ^ 63 < 2" using unsigned_less [of v, where 'a = nat] by (simp add: less_mult_imp_div_less)
  then have "unat v div 2 ^ 63 = 0 \<or> unat v div 2 ^ 63 = 1" by linarith
  then have "odd (unat v div 2 ^ 63) \<longleftrightarrow> unat v div 2 ^ 63 \<noteq> 0" by (elim disjE) simp_all
  ultimately show ?thesis by (simp add: word_sless_alt div_eq_0_iff not_less)
qed

lemma unzigzag64_zigzag64 [simp]: "unzigzag64 (zigzag64 v) = v"
proof (cases "v <s 0")
  case True
  then have "2 ^ LENGTH(64) \<le> 2 * unat v" by (simp add: sless_0_iff_64)
  from zigzag_negative [OF this] True show ?thesis by (simp add: zigzag64_def unzigzag64_def)
next
  case False
  then have "2 * unat v < 2 ^ LENGTH(64)" by (simp add: sless_0_iff_64)
  from zigzag_positive [OF this] False show ?thesis by (simp add: zigzag64_def unzigzag64_def)
qed

lemma parse_sint_pack [simp]:
  "unzigzag32 (parse_uint32 (sint32_size v) (sint32_pack v @ rest)) = v"
  "unzigzag64 (parse_uint64 (sint64_size w) (sint64_pack w @ rest)) = w"
  by (simp_all add: sint32_pack_def sint32_size_def sint64_pack_def sint64_size_def)

lemma parse_fixed_pack [simp]:
  "parse_fixed_uint32 (fixed32_pack v @ rest) = v" "parse_fixed_uint64 (fixed64_pack w @ rest) = w"
proof -
  have digits: "foldr (\<lambda>b v. ucast b OR push_bit 8 v) (map (\<lambda>i. ucast (drop_bit (8 * (k + i)) v) :: u8) [0..<n]) 0 =
      take_bit (8 * n) (drop_bit (8 * k) v)" if "8 \<le> LENGTH('a)" for v :: "'a :: len word" and n k
  proof (induction n arbitrary: k)
    case (Suc n)
    have m: "map (\<lambda>i. ucast (drop_bit (8 * (k + i)) v) :: u8) [0..<Suc n] =
        ucast (drop_bit (8 * k) v) # map (\<lambda>i. ucast (drop_bit (8 * (Suc k + i)) v)) [0..<n]"
      by (simp only: upt_conv_Cons zero_less_Suc map_Suc_upt [symmetric] list.map map_map comp_def) simp
    have "ucast (ucast (drop_bit (8 * k) v) :: u8) OR push_bit 8 (take_bit (8 * n) (drop_bit (8 * Suc k) v)) =
        take_bit (8 * Suc n) (drop_bit (8 * k) v)"
      by (rule bit_word_eqI) (auto simp: bit_simps that algebra_simps)
    with m Suc.IH [of "Suc k"] show ?case by simp
  qed simp
  show "parse_fixed_uint32 (fixed32_pack v @ rest) = v"
    using digits [of 0 v 4] take_bit_length_eq [of v] by (simp add: parse_fixed_uint32_def fixed32_pack_def)
  show "parse_fixed_uint64 (fixed64_pack w @ rest) = w"
    using digits [of 0 w 8] take_bit_length_eq [of w] by (simp add: parse_fixed_uint64_def fixed64_pack_def)
qed

lemma parse_boolean_pack [simp]: "parse_boolean 1 (boolean_pack v @ rest) = (if v \<noteq> 0 then 1 else 0)"
  by (simp add: parse_boolean_def boolean_pack_def)

lemma varint_boolean [simp]: "varint (boolean_pack v)"
  by (simp add: boolean_pack_def)

lemma negative_digit:
  fixes v :: u32
  assumes "k + 7 \<le> 32"
  shows "bit (push_bit k (ucast (ucast (signed_drop_bit k v OR 0x80) AND 0x7f :: u8)) :: u32) n \<longleftrightarrow> k \<le> n \<and> n < k + 7 \<and> bit v n"
proof (cases "k \<le> n \<and> n < k + 7")
  case True
  then obtain m where "n = k + m" "m < 7" by (metis le_Suc_ex nat_add_left_cancel_less)
  moreover from this assms have "\<not> 32 - k \<le> m" by linarith
  ultimately show ?thesis using assms by (simp add: bit_simps mask7)
next
  case False
  then show ?thesis by (auto simp: bit_simps mask7)
qed

lemma negative_last_digit:
  "bit (push_bit 28 (ucast (ucast (signed_drop_bit 28 v OR 0x80) :: u8)) :: u32) n \<longleftrightarrow> 28 \<le> n \<and> bit (v :: u32) n"
proof (cases "28 \<le> n \<and> n < 32")
  case True
  then have "n = 28 + (n - 28)" "n - 28 < 4" by linarith+
  then obtain m where "n = 28 + m" "m < 4" by blast
  then show ?thesis by (simp add: bit_simps)
next
  case False
  then have "n < 28 \<or> 32 \<le> n" by linarith
  then show ?thesis using bit_imp_le_length [of v n] by (auto simp: bit_simps)
qed

lemma int32_pack_negative:
  assumes "v <s 0"
  shows "parse_uint32 10 (int32_pack v @ rest) = v"
proof -
  have "parse_uint32 10 (int32_pack v @ rest) =
      push_bit 0 (ucast (ucast (signed_drop_bit 0 v OR 0x80) AND 0x7f :: u8)) OR
      push_bit 7 (ucast (ucast (signed_drop_bit 7 v OR 0x80) AND 0x7f :: u8)) OR
      push_bit 14 (ucast (ucast (signed_drop_bit 14 v OR 0x80) AND 0x7f :: u8)) OR
      push_bit 21 (ucast (ucast (signed_drop_bit 21 v OR 0x80) AND 0x7f :: u8)) OR
      push_bit 28 (ucast (ucast (signed_drop_bit 28 v OR 0x80) :: u8))"
    using assms by (simp add: int32_pack_def parse_uint32_def or.assoc)
  also have "\<dots> = v"
    by (rule bit_word_eqI) (simp only: bit_or_iff negative_digit negative_last_digit, auto)
  finally show ?thesis .
qed

lemma parse_int32_pack [simp]: "parse_int32 (int32_size v) (int32_pack v @ rest) = v"
proof (cases "v <s 0")
  case True
  with int32_pack_negative [OF this] show ?thesis by (simp add: parse_int32_def int32_size_def)
next
  case False
  then have "int32_pack v = uint32_pack v" by (simp add: int32_pack_def)
  moreover from this have "int32_size v = uint32_size v" by (metis length_int32_pack length_uint32_pack)
  ultimately show ?thesis by (simp add: parse_int32_def)
qed

lemma varint_sint_pack [simp]: "varint (sint32_pack v)" "varint (sint64_pack w)"
  by (simp_all add: sint32_pack_def sint64_pack_def)

lemma varint_int32_pack [simp]: "varint (int32_pack v)"
proof (cases "v <s 0")
  case True
  then show ?thesis by (simp add: int32_pack_def marked_digit)
next
  case False
  then show ?thesis by (simp add: int32_pack_def)
qed

section \<open>Tags\<close>

text \<open>A tag with the wire type in its three low bits.\<close>

lemma length_tag_pack [simp]: "length (tag_pack i) = get_tag_size i"
proof (cases "i < 2 ^ 29")
  case True
  then have "unat (push_bit 3 i) = 8 * unat i"
    by (simp add: word_less_nat_alt push_bit_eq_mult unat_word_ariths)
  with True show ?thesis
    by (simp add: tag_pack_def get_tag_size_def uint32_size_def word_less_nat_alt)
next
  case False
  have u: "unat i < 2 ^ 32" "2 ^ 29 \<le> unat i" using False unsigned_less [of i, where 'a = nat] by (simp_all add: word_less_nat_alt)
  then have p: "unat (push_bit 3 (ucast i) :: u64) = 8 * unat i"
    by (simp add: push_bit_eq_mult unat_word_ariths unsigned_ucast_eq take_bit_nat_eq_self)
  have "unat (ucast (drop_bit 32 (push_bit 3 (ucast i) :: u64)) :: u32) = 8 * unat i div 2 ^ 32"
    by (simp only: unat_halves(1) p)
  moreover have "0 < 8 * unat i div 2 ^ 32" "8 * unat i div 2 ^ 32 < 8" using u by (simp_all add: less_mult_imp_div_less div_greater_zero_iff)
  ultimately show ?thesis using u
    by (simp add: tag_pack_def get_tag_size_def uint64_size_def word_less_nat_alt Let_def unat_eq_0_iff [symmetric])
qed

end
