(* ===== verification/Pb_Message.thy ===== *)
theory Pb_Message
  imports Pb_Scalars Hash_Table Packet
begin

unbundle bit_operations_syntax

text \<open>
  Messages of the Protocol Buffers runtime (\<^verbatim>\<open>protobuf-c.h\<close>) and their packing (\<^verbatim>\<open>protobuf-c.c\<close>).  A
  message is the memory of its struct: a cell for each member, found by its offset, here the
  name of the member; the members of a union have one offset.  Its descriptor is the table of its fields.  A cell
  that is read with another type than it was written with, and a NULL that is dereferenced, are
  \<^term>\<open>None\<close>.  No descriptor has default values.
\<close>

section \<open>Descriptors\<close>

datatype pb_label = REQUIRED | OPTIONAL | REPEATED | NO_LABEL

datatype pb_type = T_INT32 | T_SINT32 | T_SFIXED32 | T_INT64 | T_SINT64 | T_SFIXED64 | T_UINT32 | T_FIXED32
  | T_UINT64 | T_FIXED64 | T_FLOAT | T_DOUBLE | T_BOOL | T_ENUM | T_STRING | T_BYTES | T_MESSAGE

definition WIRE_VARINT :: u8 where "WIRE_VARINT = 0"
definition WIRE_64BIT :: u8 where "WIRE_64BIT = 1"
definition WIRE_LENGTH_PREFIXED :: u8 where "WIRE_LENGTH_PREFIXED = 2"
definition WIRE_32BIT :: u8 where "WIRE_32BIT = 5"

lemmas wire_defs = WIRE_VARINT_def WIRE_64BIT_def WIRE_LENGTH_PREFIXED_def WIRE_32BIT_def

text \<open>The range table has a last entry that only bounds the range before it.\<close>

datatype msg_desc = Msg_desc (md_name: string) (md_fields: "field_desc list") (md_ranges: "(int \<times> nat) list")
  and field_desc = Field_desc (fd_name: string) (fd_id: u32) (fd_label: pb_label) (fd_type: pb_type)
    (fd_quantifier: string) (fd_offset: string) (fd_sub: "msg_desc option") (fd_packed: bool) (fd_oneof: bool)

text \<open>An array is a cell together with its counter.  A boolean is an int.\<close>

datatype cell = U32 u32 | U64 u64 | Str "string option" | Bytes "u8 list" | Sub "pb_msg option" | Arr "cell list"
  and pb_msg = Msg (members: "string \<Rightarrow> cell") (unknown: "(u32 \<times> u8 \<times> u8 list) list")

text \<open>Reading a cell as a value of one type; strings and embedded messages are pointers.\<close>

definition as_u32 :: "cell \<Rightarrow> u32 option" where
  "as_u32 c = (case c of U32 v \<Rightarrow> Some v | _ \<Rightarrow> None)"

definition as_u64 :: "cell \<Rightarrow> u64 option" where
  "as_u64 c = (case c of U64 v \<Rightarrow> Some v | _ \<Rightarrow> None)"

definition as_string :: "cell \<Rightarrow> string option option" where
  "as_string c = (case c of Str s \<Rightarrow> Some s | _ \<Rightarrow> None)"

definition as_bytes :: "cell \<Rightarrow> u8 list option" where
  "as_bytes c = (case c of Bytes b \<Rightarrow> Some b | _ \<Rightarrow> None)"

definition as_message :: "cell \<Rightarrow> pb_msg option option" where
  "as_message c = (case c of Sub m \<Rightarrow> Some m | _ \<Rightarrow> None)"

definition as_array :: "cell \<Rightarrow> cell list option" where
  "as_array c = (case c of Arr xs \<Rightarrow> Some xs | _ \<Rightarrow> None)"

lemma as_simps [simp]:
  "as_u32 (U32 v) = Some v" "as_u64 (U64 w) = Some w" "as_string (Str s) = Some s" "as_bytes (Bytes b) = Some b"
  "as_message (Sub m) = Some m" "as_array (Arr xs) = Some xs"
  by (simp_all add: as_u32_def as_u64_def as_string_def as_bytes_def as_message_def as_array_def)

lemma as_eq_Some [simp]:
  "as_u32 c = Some v \<longleftrightarrow> c = U32 v" "as_u64 c = Some w \<longleftrightarrow> c = U64 w" "as_string c = Some s \<longleftrightarrow> c = Str s"
  "as_bytes c = Some b \<longleftrightarrow> c = Bytes b" "as_message c = Some m \<longleftrightarrow> c = Sub m" "as_array c = Some xs \<longleftrightarrow> c = Arr xs"
  by (auto simp: as_u32_def as_u64_def as_string_def as_bytes_def as_message_def as_array_def split: cell.splits)

text \<open>A message with all members zero, as the generated initialisers make it.\<close>

definition zero_cell :: "field_desc \<Rightarrow> cell" where
  "zero_cell f =
     (if fd_label f = REPEATED then Arr []
      else case fd_type f of
          T_STRING \<Rightarrow> Str None | T_MESSAGE \<Rightarrow> Sub None | T_BYTES \<Rightarrow> Bytes []
        | T_INT64 \<Rightarrow> U64 0 | T_SINT64 \<Rightarrow> U64 0 | T_SFIXED64 \<Rightarrow> U64 0 | T_UINT64 \<Rightarrow> U64 0 | T_FIXED64 \<Rightarrow> U64 0
        | T_DOUBLE \<Rightarrow> U64 0 | _ \<Rightarrow> U32 0)"

definition message_init :: "msg_desc \<Rightarrow> pb_msg" where
  "message_init D = Msg (fold (\<lambda>f mem. mem(fd_offset f := zero_cell f)) (md_fields D) (\<lambda>_. U32 0)) []"

section \<open>Packed sizes\<close>

definition str_bytes :: "string \<Rightarrow> u8 list" where
  "str_bytes s = map (\<lambda>c. of_nat (code c)) (c_str s)"

definition pointer_type :: "pb_type \<Rightarrow> bool" where
  "pointer_type t \<longleftrightarrow> t = T_MESSAGE \<or> t = T_STRING"

definition null_pointer :: "pb_type \<Rightarrow> cell \<Rightarrow> bool option" where
  "null_pointer t c = (if t = T_STRING then map_option (\<lambda>s. s = None) (as_string c)
                       else map_option (\<lambda>m. m = None) (as_message c))"

text \<open>The switch over the types; \<open>sz\<close> is the size of an embedded message.\<close>

definition prefixed_size :: "nat \<Rightarrow> nat" where
  "prefixed_size n = uint32_size (of_nat n) + n"

definition value_size :: "(pb_msg \<Rightarrow> nat option) \<Rightarrow> pb_type \<Rightarrow> cell \<Rightarrow> nat option" where
  "value_size sz t c =
     (case t of
        T_SINT32 \<Rightarrow> map_option sint32_size (as_u32 c)
      | T_ENUM \<Rightarrow> map_option int32_size (as_u32 c)
      | T_INT32 \<Rightarrow> map_option int32_size (as_u32 c)
      | T_UINT32 \<Rightarrow> map_option uint32_size (as_u32 c)
      | T_SINT64 \<Rightarrow> map_option sint64_size (as_u64 c)
      | T_INT64 \<Rightarrow> map_option uint64_size (as_u64 c)
      | T_UINT64 \<Rightarrow> map_option uint64_size (as_u64 c)
      | T_SFIXED32 \<Rightarrow> map_option (\<lambda>_. 4) (as_u32 c)
      | T_FIXED32 \<Rightarrow> map_option (\<lambda>_. 4) (as_u32 c)
      | T_SFIXED64 \<Rightarrow> map_option (\<lambda>_. 8) (as_u64 c)
      | T_FIXED64 \<Rightarrow> map_option (\<lambda>_. 8) (as_u64 c)
      | T_BOOL \<Rightarrow> map_option (\<lambda>_. 1) (as_u32 c)
      | T_FLOAT \<Rightarrow> map_option (\<lambda>_. 4) (as_u32 c)
      | T_DOUBLE \<Rightarrow> map_option (\<lambda>_. 8) (as_u64 c)
      | T_STRING \<Rightarrow> map_option (\<lambda>s. prefixed_size (case s of None \<Rightarrow> 0 | Some s \<Rightarrow> length (c_str s))) (as_string c)
      | T_BYTES \<Rightarrow> map_option (\<lambda>b. prefixed_size (length b)) (as_bytes c)
      | T_MESSAGE \<Rightarrow> do { m \<leftarrow> as_message c; n \<leftarrow> (case m of None \<Rightarrow> Some 0 | Some m \<Rightarrow> sz m); Some (prefixed_size n) })"

definition required_field_get_packed_size :: "(pb_msg \<Rightarrow> nat option) \<Rightarrow> field_desc \<Rightarrow> cell \<Rightarrow> nat option" where
  "required_field_get_packed_size sz f member = map_option (\<lambda>n. get_tag_size (fd_id f) + n) (value_size sz (fd_type f) member)"

definition oneof_field_get_packed_size :: "(pb_msg \<Rightarrow> nat option) \<Rightarrow> field_desc \<Rightarrow> u32 \<Rightarrow> cell \<Rightarrow> nat option" where
  "oneof_field_get_packed_size sz f oneof_case member =
     (if oneof_case \<noteq> fd_id f then Some 0
      else do {
        absent \<leftarrow> (if pointer_type (fd_type f) then null_pointer (fd_type f) member else Some False);
        (if absent then Some 0 else required_field_get_packed_size sz f member)
      })"

definition optional_field_get_packed_size :: "(pb_msg \<Rightarrow> nat option) \<Rightarrow> field_desc \<Rightarrow> cell \<Rightarrow> cell \<Rightarrow> nat option" where
  "optional_field_get_packed_size sz f qmember member = do {
     absent \<leftarrow> (if pointer_type (fd_type f) then null_pointer (fd_type f) member else map_option (\<lambda>h. h = 0) (as_u32 qmember));
     (if absent then Some 0 else required_field_get_packed_size sz f member)
   }"

text \<open>The floating point zeros are \<^verbatim>\<open>0.0\<close> and \<^verbatim>\<open>-0.0\<close>; of a byte array the first word of the struct, its length, is read.\<close>

definition field_is_zeroish :: "pb_type \<Rightarrow> cell \<Rightarrow> bool option" where
  "field_is_zeroish t c =
     (case t of
        T_SINT64 \<Rightarrow> map_option (\<lambda>v. v = 0) (as_u64 c)
      | T_INT64 \<Rightarrow> map_option (\<lambda>v. v = 0) (as_u64 c)
      | T_UINT64 \<Rightarrow> map_option (\<lambda>v. v = 0) (as_u64 c)
      | T_SFIXED64 \<Rightarrow> map_option (\<lambda>v. v = 0) (as_u64 c)
      | T_FIXED64 \<Rightarrow> map_option (\<lambda>v. v = 0) (as_u64 c)
      | T_FLOAT \<Rightarrow> map_option (\<lambda>v. v AND 0x7fffffff = 0) (as_u32 c)
      | T_DOUBLE \<Rightarrow> map_option (\<lambda>v. v AND 0x7fffffffffffffff = 0) (as_u64 c)
      | T_STRING \<Rightarrow> map_option (\<lambda>s. case s of None \<Rightarrow> True | Some s \<Rightarrow> c_str s = []) (as_string c)
      | T_BYTES \<Rightarrow> map_option (\<lambda>b. b = []) (as_bytes c)
      | T_MESSAGE \<Rightarrow> map_option (\<lambda>m. m = None) (as_message c)
      | _ \<Rightarrow> map_option (\<lambda>v. v = 0) (as_u32 c))"

definition unlabeled_field_get_packed_size :: "(pb_msg \<Rightarrow> nat option) \<Rightarrow> field_desc \<Rightarrow> cell \<Rightarrow> nat option" where
  "unlabeled_field_get_packed_size sz f member = do {
     zeroish \<leftarrow> field_is_zeroish (fd_type f) member;
     (if zeroish then Some 0 else required_field_get_packed_size sz f member)
   }"

text \<open>In an array a NULL is dereferenced.\<close>

definition element_size :: "(pb_msg \<Rightarrow> nat option) \<Rightarrow> pb_type \<Rightarrow> cell \<Rightarrow> nat option" where
  "element_size sz t c = (case c of Str None \<Rightarrow> None | Sub None \<Rightarrow> None | _ \<Rightarrow> value_size sz t c)"

fun sum_sizes :: "(cell \<Rightarrow> nat option) \<Rightarrow> cell list \<Rightarrow> nat option" where
  "sum_sizes g [] = Some 0"
| "sum_sizes g (c # cs) = do { n \<leftarrow> g c; k \<leftarrow> sum_sizes g cs; Some (n + k) }"

definition repeated_field_get_packed_size :: "(pb_msg \<Rightarrow> nat option) \<Rightarrow> field_desc \<Rightarrow> cell \<Rightarrow> nat option" where
  "repeated_field_get_packed_size sz f member = do {
     array \<leftarrow> as_array member;
     (if array = [] then Some 0
      else do {
        rv \<leftarrow> sum_sizes (element_size sz (fd_type f)) array;
        let header_size = get_tag_size (fd_id f);
        Some (if fd_packed f then header_size + uint32_size (of_nat rv) + rv
              else header_size * length array + rv)
      })
   }"

definition unknown_field_get_packed_size :: "u32 \<times> u8 \<times> u8 list \<Rightarrow> nat" where
  "unknown_field_get_packed_size u = (case u of (tag, wire, bs) \<Rightarrow> get_tag_size tag + length bs)"

text \<open>The case distinction of the loop over the fields.\<close>

definition field_size :: "(pb_msg \<Rightarrow> nat option) \<Rightarrow> field_desc \<Rightarrow> pb_msg \<Rightarrow> nat option" where
  "field_size sz f m =
     (let member = members m (fd_offset f); qmember = members m (fd_quantifier f)
      in if fd_label f = REQUIRED then required_field_get_packed_size sz f member
         else if (fd_label f = OPTIONAL \<or> fd_label f = NO_LABEL) \<and> fd_oneof f
         then do { oneof_case \<leftarrow> as_u32 qmember; oneof_field_get_packed_size sz f oneof_case member }
         else if fd_label f = OPTIONAL then optional_field_get_packed_size sz f qmember member
         else if fd_label f = NO_LABEL then unlabeled_field_get_packed_size sz f member
         else repeated_field_get_packed_size sz f member)"

fun protobuf_c_message_get_packed_size :: "msg_desc \<Rightarrow> pb_msg \<Rightarrow> nat option"
  and fields_size :: "field_desc list \<Rightarrow> pb_msg \<Rightarrow> nat option"
  and submessage_size :: "msg_desc option \<Rightarrow> pb_msg \<Rightarrow> nat option" where
  "protobuf_c_message_get_packed_size (Msg_desc nm fs rs) m = do {
     n \<leftarrow> fields_size fs m;
     Some (n + sum_list (map unknown_field_get_packed_size (unknown m)))
   }"
| "fields_size [] m = Some 0"
| "fields_size (Field_desc nm i l t q off sub pk one # fs) m = do {
     n \<leftarrow> field_size (\<lambda>m'. submessage_size sub m') (Field_desc nm i l t q off sub pk one) m;
     k \<leftarrow> fields_size fs m;
     Some (n + k)
   }"
| "submessage_size None m = None"
| "submessage_size (Some D) m = protobuf_c_message_get_packed_size D m"


section \<open>Packing\<close>

text \<open>The wire type is put into the low bits of the first byte of the tag.\<close>

fun with_wire :: "u8 \<Rightarrow> u8 list \<Rightarrow> u8 list" where
  "with_wire w [] = []"
| "with_wire w (b # bs) = (b OR w) # bs"

definition string_pack :: "string option \<Rightarrow> u8 list" where
  "string_pack s =
     (case s of None \<Rightarrow> [0] | Some s \<Rightarrow> uint32_pack (of_nat (length (c_str s))) @ str_bytes s)"

definition binary_data_pack :: "u8 list \<Rightarrow> u8 list" where
  "binary_data_pack b = uint32_pack (of_nat (length b)) @ b"

definition prefixed_message_pack :: "(pb_msg \<Rightarrow> u8 list option) \<Rightarrow> pb_msg option \<Rightarrow> u8 list option" where
  "prefixed_message_pack pk m =
     (case m of None \<Rightarrow> Some [0] | Some m \<Rightarrow> map_option (\<lambda>bs. uint32_pack (of_nat (length bs)) @ bs) (pk m))"

definition wire_type_of :: "pb_type \<Rightarrow> u8" where
  "wire_type_of t =
     (case t of
        T_SFIXED32 \<Rightarrow> WIRE_32BIT | T_FIXED32 \<Rightarrow> WIRE_32BIT | T_FLOAT \<Rightarrow> WIRE_32BIT
      | T_SFIXED64 \<Rightarrow> WIRE_64BIT | T_FIXED64 \<Rightarrow> WIRE_64BIT | T_DOUBLE \<Rightarrow> WIRE_64BIT
      | T_STRING \<Rightarrow> WIRE_LENGTH_PREFIXED | T_BYTES \<Rightarrow> WIRE_LENGTH_PREFIXED | T_MESSAGE \<Rightarrow> WIRE_LENGTH_PREFIXED
      | _ \<Rightarrow> WIRE_VARINT)"

definition value_pack :: "(pb_msg \<Rightarrow> u8 list option) \<Rightarrow> pb_type \<Rightarrow> cell \<Rightarrow> u8 list option" where
  "value_pack pk t c =
     (case t of
        T_SINT32 \<Rightarrow> map_option sint32_pack (as_u32 c)
      | T_ENUM \<Rightarrow> map_option int32_pack (as_u32 c)
      | T_INT32 \<Rightarrow> map_option int32_pack (as_u32 c)
      | T_UINT32 \<Rightarrow> map_option uint32_pack (as_u32 c)
      | T_SINT64 \<Rightarrow> map_option sint64_pack (as_u64 c)
      | T_INT64 \<Rightarrow> map_option uint64_pack (as_u64 c)
      | T_UINT64 \<Rightarrow> map_option uint64_pack (as_u64 c)
      | T_SFIXED32 \<Rightarrow> map_option fixed32_pack (as_u32 c)
      | T_FIXED32 \<Rightarrow> map_option fixed32_pack (as_u32 c)
      | T_SFIXED64 \<Rightarrow> map_option fixed64_pack (as_u64 c)
      | T_FIXED64 \<Rightarrow> map_option fixed64_pack (as_u64 c)
      | T_BOOL \<Rightarrow> map_option boolean_pack (as_u32 c)
      | T_FLOAT \<Rightarrow> map_option fixed32_pack (as_u32 c)
      | T_DOUBLE \<Rightarrow> map_option fixed64_pack (as_u64 c)
      | T_STRING \<Rightarrow> map_option string_pack (as_string c)
      | T_BYTES \<Rightarrow> map_option binary_data_pack (as_bytes c)
      | T_MESSAGE \<Rightarrow> do { m \<leftarrow> as_message c; prefixed_message_pack pk m })"

definition required_field_pack :: "(pb_msg \<Rightarrow> u8 list option) \<Rightarrow> field_desc \<Rightarrow> cell \<Rightarrow> u8 list option" where
  "required_field_pack pk f member =
     map_option (\<lambda>bs. with_wire (wire_type_of (fd_type f)) (tag_pack (fd_id f)) @ bs) (value_pack pk (fd_type f) member)"

definition oneof_field_pack :: "(pb_msg \<Rightarrow> u8 list option) \<Rightarrow> field_desc \<Rightarrow> u32 \<Rightarrow> cell \<Rightarrow> u8 list option" where
  "oneof_field_pack pk f oneof_case member =
     (if oneof_case \<noteq> fd_id f then Some []
      else do {
        absent \<leftarrow> (if pointer_type (fd_type f) then null_pointer (fd_type f) member else Some False);
        (if absent then Some [] else required_field_pack pk f member)
      })"

definition optional_field_pack :: "(pb_msg \<Rightarrow> u8 list option) \<Rightarrow> field_desc \<Rightarrow> cell \<Rightarrow> cell \<Rightarrow> u8 list option" where
  "optional_field_pack pk f qmember member = do {
     absent \<leftarrow> (if pointer_type (fd_type f) then null_pointer (fd_type f) member else map_option (\<lambda>h. h = 0) (as_u32 qmember));
     (if absent then Some [] else required_field_pack pk f member)
   }"

definition unlabeled_field_pack :: "(pb_msg \<Rightarrow> u8 list option) \<Rightarrow> field_desc \<Rightarrow> cell \<Rightarrow> u8 list option" where
  "unlabeled_field_pack pk f member = do {
     zeroish \<leftarrow> field_is_zeroish (fd_type f) member;
     (if zeroish then Some [] else required_field_pack pk f member)
   }"

definition get_type_min_size :: "pb_type \<Rightarrow> nat" where
  "get_type_min_size t =
     (if t = T_SFIXED32 \<or> t = T_FIXED32 \<or> t = T_FLOAT then 4
      else if t = T_SFIXED64 \<or> t = T_FIXED64 \<or> t = T_DOUBLE then 8 else 1)"

definition is_packable_type :: "pb_type \<Rightarrow> bool" where
  "is_packable_type t \<longleftrightarrow> t \<noteq> T_STRING \<and> t \<noteq> T_BYTES \<and> t \<noteq> T_MESSAGE"

fun concat_packed :: "(cell \<Rightarrow> u8 list option) \<Rightarrow> cell list \<Rightarrow> u8 list option" where
  "concat_packed g [] = Some []"
| "concat_packed g (c # cs) = do { bs \<leftarrow> g c; ds \<leftarrow> concat_packed g cs; Some (bs @ ds) }"

text \<open>A packed array: room is left for the length that the smallest elements would give, and
  the payload is moved by one byte when its length needs one byte more, which is asserted.  Other
  types than the packable ones are asserted not to be reached.\<close>

definition repeated_field_pack :: "(pb_msg \<Rightarrow> u8 list option) \<Rightarrow> field_desc \<Rightarrow> cell \<Rightarrow> u8 list option" where
  "repeated_field_pack pk f member = do {
     array \<leftarrow> as_array member;
     (if fd_packed f then
        if array = [] then Some []
        else if \<not> is_packable_type (fd_type f) then None
        else do {
          payload \<leftarrow> concat_packed (value_pack pk (fd_type f)) array;
          let length_size_min = uint32_size (of_nat (get_type_min_size (fd_type f) * length array));
          let actual_length_size = uint32_size (of_nat (length payload));
          let bytes = with_wire WIRE_LENGTH_PREFIXED (tag_pack (fd_id f)) @ uint32_pack (of_nat (length payload)) @ payload;
          (if length_size_min = actual_length_size \<or> actual_length_size = length_size_min + 1 then Some bytes else None)
        }
      else concat_packed (required_field_pack pk f) array)
   }"

definition unknown_field_pack :: "u32 \<times> u8 \<times> u8 list \<Rightarrow> u8 list" where
  "unknown_field_pack u = (case u of (tag, wire, bs) \<Rightarrow> with_wire wire (tag_pack tag) @ bs)"

definition field_pack :: "(pb_msg \<Rightarrow> u8 list option) \<Rightarrow> field_desc \<Rightarrow> pb_msg \<Rightarrow> u8 list option" where
  "field_pack pk f m =
     (let member = members m (fd_offset f); qmember = members m (fd_quantifier f)
      in if fd_label f = REQUIRED then required_field_pack pk f member
         else if (fd_label f = OPTIONAL \<or> fd_label f = NO_LABEL) \<and> fd_oneof f
         then do { oneof_case \<leftarrow> as_u32 qmember; oneof_field_pack pk f oneof_case member }
         else if fd_label f = OPTIONAL then optional_field_pack pk f qmember member
         else if fd_label f = NO_LABEL then unlabeled_field_pack pk f member
         else repeated_field_pack pk f member)"

fun protobuf_c_message_pack :: "msg_desc \<Rightarrow> pb_msg \<Rightarrow> u8 list option"
  and fields_pack :: "field_desc list \<Rightarrow> pb_msg \<Rightarrow> u8 list option"
  and submessage_pack :: "msg_desc option \<Rightarrow> pb_msg \<Rightarrow> u8 list option" where
  "protobuf_c_message_pack (Msg_desc nm fs rs) m = do {
     bs \<leftarrow> fields_pack fs m;
     Some (bs @ concat (map unknown_field_pack (unknown m)))
   }"
| "fields_pack [] m = Some []"
| "fields_pack (Field_desc nm i l t q off sub pk one # fs) m = do {
     bs \<leftarrow> field_pack (\<lambda>m'. submessage_pack sub m') (Field_desc nm i l t q off sub pk one) m;
     ds \<leftarrow> fields_pack fs m;
     Some (bs @ ds)
   }"
| "submessage_pack None m = None"
| "submessage_pack (Some D) m = protobuf_c_message_pack D m"

section \<open>The packed size\<close>

text \<open>Only scalar fields are packed, in the descriptor and all it refers to.\<close>

fun packed_scalars :: "msg_desc \<Rightarrow> bool"
  and packed_fields :: "field_desc list \<Rightarrow> bool"
  and packed_sub :: "msg_desc option \<Rightarrow> bool" where
  "packed_scalars (Msg_desc nm fs rs) = packed_fields fs"
| "packed_fields [] = True"
| "packed_fields (Field_desc nm i l t q off sub pk one # fs) =
     ((pk \<longrightarrow> is_packable_type t) \<and> packed_sub sub \<and> packed_fields fs)"
| "packed_sub None = True"
| "packed_sub (Some D) = packed_scalars D"

lemma length_with_wire [simp]: "length (with_wire w bs) = length bs"
  by (cases bs) simp_all

definition sizes_agree :: "(pb_msg \<Rightarrow> nat option) \<Rightarrow> (pb_msg \<Rightarrow> u8 list option) \<Rightarrow> bool" where
  "sizes_agree sz pk \<longleftrightarrow> (\<forall>m n. sz m = Some n \<longrightarrow> n < 2 ^ 32 \<longrightarrow> (\<exists>bs. pk m = Some bs \<and> length bs = n))"

lemma sizes_agreeD: "sizes_agree sz pk \<Longrightarrow> sz m = Some n \<Longrightarrow> n < 2 ^ 32 \<Longrightarrow> \<exists>bs. pk m = Some bs \<and> length bs = n"
  by (simp add: sizes_agree_def)

lemma length_str_bytes [simp]: "length (str_bytes s) = length (c_str s)"
  by (simp add: str_bytes_def)

lemma uint32_size_0 [simp]: "uint32_size 0 = 1"
  by (simp add: uint32_size_def)

lemma prefixed_message_length:
  assumes "sizes_agree sz pk" "(case m of None \<Rightarrow> Some 0 | Some m \<Rightarrow> sz m) = Some n" "prefixed_size n < 2 ^ 32"
  shows "\<exists>bs. prefixed_message_pack pk m = Some bs \<and> length bs = prefixed_size n"
proof (cases m)
  case None
  with assms(2) show ?thesis by (simp add: prefixed_message_pack_def prefixed_size_def)
next
  case (Some m')
  with sizes_agreeD [OF assms(1), of m' n] assms(2,3) show ?thesis
    by (auto simp: prefixed_message_pack_def prefixed_size_def)
qed

lemma length_prefixed_pack [simp]:
  "length (string_pack s) = prefixed_size (case s of None \<Rightarrow> 0 | Some s \<Rightarrow> length (c_str s))"
  "length (binary_data_pack b) = prefixed_size (length b)"
  by (simp_all add: string_pack_def binary_data_pack_def prefixed_size_def split: option.split)

lemma value_pack_length:
  assumes "sizes_agree sz pk" "value_size sz t c = Some n" "n < 2 ^ 32"
  shows "\<exists>bs. value_pack pk t c = Some bs \<and> length bs = n"
proof (cases "t = T_MESSAGE")
  case True
  with assms(2) obtain m k where "c = Sub m" "(case m of None \<Rightarrow> Some 0 | Some m \<Rightarrow> sz m) = Some k" "n = prefixed_size k"
    by (auto simp: value_size_def split: Option.bind_splits)
  with prefixed_message_length [OF assms(1), of m k] assms(3) True show ?thesis by (simp add: value_pack_def)
next
  case False
  with assms(2) show ?thesis
    by (cases t) (auto simp: value_size_def value_pack_def)
qed

lemma element_size_value: "element_size sz t c = Some n \<Longrightarrow> value_size sz t c = Some n"
  by (simp add: element_size_def split: cell.splits option.splits)

lemma size_bounds:
  "1 \<le> uint32_size v" "uint32_size v \<le> 5" "1 \<le> int32_size v" "int32_size v \<le> 10" "1 \<le> uint64_size w" "uint64_size w \<le> 10"
proof -
  show u: "1 \<le> uint32_size v" "uint32_size v \<le> 5" for v by (simp_all add: uint32_size_def)
  show "1 \<le> int32_size v" "int32_size v \<le> 10" by (simp_all add: int32_size_def)
  show "1 \<le> uint64_size w" "uint64_size w \<le> 10"
    using u [of "ucast w"] by (auto simp: uint64_size_def Let_def)
qed

lemma packable_size:
  assumes "is_packable_type t" "value_size sz t c = Some n"
  shows "get_type_min_size t \<le> n" "n \<le> 10 * get_type_min_size t"
proof -
  have "get_type_min_size t \<le> n \<and> n \<le> 10 * get_type_min_size t"
    using assms size_bounds
    by (cases t) (auto simp: value_size_def get_type_min_size_def is_packable_type_def sint32_size_def sint64_size_def
      intro: order.trans [OF size_bounds(2)])
  then show "get_type_min_size t \<le> n" "n \<le> 10 * get_type_min_size t" by simp_all
qed

lemma sum_sizes_bounds:
  "sum_sizes g cs = Some n \<Longrightarrow> (\<And>c k. g c = Some k \<Longrightarrow> l \<le> k \<and> k \<le> h) \<Longrightarrow> l * length cs \<le> n \<and> n \<le> h * length cs"
  by (induction cs arbitrary: n) (fastforce split: Option.bind_splits)+

lemma concat_packed_length:
  assumes "sum_sizes g cs = Some n" "n < 2 ^ 32" "\<And>c k. g c = Some k \<Longrightarrow> k < 2 ^ 32 \<Longrightarrow> \<exists>bs. h c = Some bs \<and> length bs = d + k"
  shows "\<exists>bs. concat_packed h cs = Some bs \<and> length bs = d * length cs + n"
  using assms(1,2)
proof (induction cs arbitrary: n)
  case Nil
  then show ?case by simp
next
  case (Cons c cs)
  then obtain k j where kj: "g c = Some k" "sum_sizes g cs = Some j" "n = k + j" by (auto split: Option.bind_splits)
  with Cons.prems obtain bs where "h c = Some bs" "length bs = d + k" using assms(3) [of c k] by auto
  moreover obtain ds where "concat_packed h cs = Some ds" "length ds = d * length cs + j"
    using Cons.IH [of j] kj Cons.prems by auto
  ultimately show ?case using kj by simp
qed

text \<open>The length of a payload that is at most ten times the smallest possible one needs at most one more byte.\<close>

lemma length_size_grows_by_one:
  assumes "l \<le> n" "n \<le> 10 * l" "n < 2 ^ 32"
  shows "uint32_size (of_nat l) = uint32_size (of_nat n) \<or> uint32_size (of_nat n) = uint32_size (of_nat l) + 1"
proof -
  have u: "unat (of_nat k :: u32) = k" if "k \<le> n" for k
    using that assms(3) by (simp add: unsigned_of_nat take_bit_nat_eq_self)
  show ?thesis
    using assms by (simp add: uint32_size_def word_less_nat_alt u)
qed

lemma required_field_pack_length:
  assumes "sizes_agree sz pk" "required_field_get_packed_size sz f c = Some n" "n < 2 ^ 32"
  shows "\<exists>bs. required_field_pack pk f c = Some bs \<and> length bs = n"
proof -
  obtain k where k: "value_size sz (fd_type f) c = Some k" "n = get_tag_size (fd_id f) + k"
    using assms(2) by (auto simp: required_field_get_packed_size_def)
  then obtain bs where "value_pack pk (fd_type f) c = Some bs" "length bs = k"
    using value_pack_length [OF assms(1)] assms(3) by fastforce
  with k show ?thesis by (simp add: required_field_pack_def)
qed

lemma repeated_field_pack_length:
  assumes "sizes_agree sz pk" "repeated_field_get_packed_size sz f c = Some n" "n < 2 ^ 32"
    "fd_packed f \<Longrightarrow> is_packable_type (fd_type f)"
  shows "\<exists>bs. repeated_field_pack pk f c = Some bs \<and> length bs = n"
proof -
  obtain array where a: "c = Arr array" using assms(2) by (auto simp: repeated_field_get_packed_size_def split: Option.bind_splits)
  show ?thesis
  proof (cases "array = []")
    case True
    with a assms(2) show ?thesis by (simp add: repeated_field_get_packed_size_def repeated_field_pack_def)
  next
    case False
    then obtain k where k: "sum_sizes (element_size sz (fd_type f)) array = Some k"
        "n = (if fd_packed f then get_tag_size (fd_id f) + uint32_size (of_nat k) + k
              else get_tag_size (fd_id f) * length array + k)"
      using a assms(2) by (auto simp: repeated_field_get_packed_size_def Let_def split: Option.bind_splits)
    with assms(3) have k32: "k < 2 ^ 32" by (auto split: if_splits)
    show ?thesis
    proof (cases "fd_packed f")
      case True
      then have p: "is_packable_type (fd_type f)" by (rule assms(4))
      obtain bs where bs: "concat_packed (value_pack pk (fd_type f)) array = Some bs" "length bs = k"
        using concat_packed_length [OF k(1) k32, of "value_pack pk (fd_type f)" 0]
          value_pack_length [OF assms(1)] element_size_value by fastforce
      have "get_type_min_size (fd_type f) * length array \<le> k \<and> k \<le> 10 * get_type_min_size (fd_type f) * length array"
        by (rule sum_sizes_bounds [OF k(1)]) (use packable_size [OF p] element_size_value in blast)
      then have "uint32_size (of_nat (get_type_min_size (fd_type f) * length array)) = uint32_size (of_nat k) \<or>
          uint32_size (of_nat k) = uint32_size (of_nat (get_type_min_size (fd_type f) * length array)) + 1"
        by (intro length_size_grows_by_one) (use k32 in \<open>simp_all add: mult.assoc\<close>)
      with a False True p bs k(2) show ?thesis by (simp add: repeated_field_pack_def Let_def del: of_nat_mult)
    next
      case False
      have "\<exists>bs. required_field_pack pk f c = Some bs \<and> length bs = get_tag_size (fd_id f) + k"
        if "element_size sz (fd_type f) c = Some k" "k < 2 ^ 32" for c k
        using value_pack_length [OF assms(1) element_size_value [OF that(1)] that(2)] by (auto simp: required_field_pack_def)
      from concat_packed_length [OF k(1) k32 this] k(2) a False show ?thesis
        by (simp add: repeated_field_pack_def)
    qed
  qed
qed

lemma field_pack_length:
  assumes "sizes_agree sz pk" "field_size sz f m = Some n" "n < 2 ^ 32" "fd_packed f \<Longrightarrow> is_packable_type (fd_type f)"
  shows "\<exists>bs. field_pack pk f m = Some bs \<and> length bs = n"
  using assms(2-4) required_field_pack_length [OF assms(1), of f _ n]
    repeated_field_pack_length [OF assms(1), of f _ n]
  by (cases "fd_label f")
    (auto simp: field_size_def field_pack_def Let_def oneof_field_get_packed_size_def oneof_field_pack_def
      optional_field_get_packed_size_def optional_field_pack_def unlabeled_field_get_packed_size_def unlabeled_field_pack_def
      split: Option.bind_splits if_splits)

lemma packs_its_size:
  "packed_scalars D \<Longrightarrow> protobuf_c_message_get_packed_size D m = Some n \<Longrightarrow> n < 2 ^ 32 \<Longrightarrow>
     \<exists>bs. protobuf_c_message_pack D m = Some bs \<and> length bs = n"
  "packed_fields fs \<Longrightarrow> fields_size fs m = Some n \<Longrightarrow> n < 2 ^ 32 \<Longrightarrow> \<exists>bs. fields_pack fs m = Some bs \<and> length bs = n"
  "packed_sub sub \<Longrightarrow> submessage_size sub m = Some n \<Longrightarrow> n < 2 ^ 32 \<Longrightarrow> \<exists>bs. submessage_pack sub m = Some bs \<and> length bs = n"
proof (induction D m and fs m and sub m arbitrary: n and n and n
    rule: protobuf_c_message_get_packed_size_fields_size_submessage_size.induct)
  case (1 nm fs rs m)
  have "length (unknown_field_pack u) = unknown_field_get_packed_size u" for u
    by (simp add: unknown_field_pack_def unknown_field_get_packed_size_def split: prod.split)
  then have "length (concat (map unknown_field_pack us)) = sum_list (map unknown_field_get_packed_size us)" for us
    by (induction us) simp_all
  with 1 show ?case by (fastforce split: Option.bind_splits)
next
  case (3 nm i l t q off sub pk one fs m)
  let ?f = "Field_desc nm i l t q off sub pk one"
  obtain k j where kj: "field_size (\<lambda>m'. submessage_size sub m') ?f m = Some k" "fields_size fs m = Some j" "n = k + j"
    using "3.prems"(2) by (auto split: Option.bind_splits)
  have "sizes_agree (\<lambda>m'. submessage_size sub m') (\<lambda>m'. submessage_pack sub m')"
    using "3.IH"(1) "3.prems"(1) by (auto simp: sizes_agree_def)
  then obtain bs where "field_pack (\<lambda>m'. submessage_pack sub m') ?f m = Some bs" "length bs = k"
    using field_pack_length [of _ _ ?f m k] kj "3.prems"(1,3) by auto
  moreover obtain ds where "fields_pack fs m = Some ds" "length ds = j"
    using "3.IH"(2) [of k j] kj "3.prems"(1,3) by auto
  ultimately show ?case using kj by simp
qed simp_all

end
