(* ===== verification/Pb_Ranges.thy ===== *)
theory Pb_Ranges
  imports Main
begin

text \<open>
  The tables of number ranges of the Protocol Buffers runtime (\<^verbatim>\<open>int_range_lookup\<close> of \<^verbatim>\<open>protobuf-c.c\<close>), in which the
  fields of a message are found by their numbers.
\<close>

section \<open>Binary search\<close>

text \<open>Binary search for a number among ranges of consecutive ones, each given by its first number and the
  index of that one's field.\<close>

function int_range_lookup_loop :: "(int \<times> nat) list \<Rightarrow> int \<Rightarrow> nat \<Rightarrow> nat \<Rightarrow> nat option" where
  "int_range_lookup_loop rs value' start n =
     (if n > 1 then
        (let mid = start + n div 2
         in if value' < fst (rs ! mid) then int_range_lookup_loop rs value' start (mid - start)
            else if value' \<ge> fst (rs ! mid) + (int (snd (rs ! (mid + 1))) - int (snd (rs ! mid)))
            then int_range_lookup_loop rs value' (mid + 1) (start + n - (mid + 1))
            else Some (nat (value' - fst (rs ! mid)) + snd (rs ! mid)))
      else if n > 0 \<and> fst (rs ! start) \<le> value' \<and>
              value' < fst (rs ! start) + (int (snd (rs ! (start + 1))) - int (snd (rs ! start)))
      then Some (nat (value' - fst (rs ! start)) + snd (rs ! start))
      else None)"
  by pat_completeness auto
termination by (relation "measure (\<lambda>(rs, value', start, n). n)") auto

declare int_range_lookup_loop.simps [simp del]

text \<open>The last entry of the table is not counted.\<close>

definition int_range_lookup :: "(int \<times> nat) list \<Rightarrow> int \<Rightarrow> nat option" where
  "int_range_lookup rs value' = int_range_lookup_loop rs value' 0 (length rs - 1)"

section \<open>Trying all ranges\<close>

text \<open>The range that holds a number, in a table whose ranges are in order and do not overlap.\<close>

definition range_end :: "(int \<times> nat) list \<Rightarrow> nat \<Rightarrow> int" where
  "range_end rs i = fst (rs ! i) + (int (snd (rs ! (i + 1))) - int (snd (rs ! i)))"

definition ranges_sorted :: "(int \<times> nat) list \<Rightarrow> bool" where
  "ranges_sorted rs \<longleftrightarrow> (\<forall>i. i + 1 < length rs \<longrightarrow> fst (rs ! i) \<le> range_end rs i) \<and>
     (\<forall>i. i + 2 < length rs \<longrightarrow> range_end rs i \<le> fst (rs ! (i + 1)))"

lemma ranges_ordered:
  assumes "ranges_sorted rs" "i < j" "j + 1 < length rs"
  shows "range_end rs i \<le> fst (rs ! j)"
  using assms(2,3)
proof (induction j)
  case (Suc j)
  then consider "i = j" | "i < j" by linarith
  then show ?case
  proof cases
    case 1
    with assms(1) Suc.prems show ?thesis by (simp add: ranges_sorted_def)
  next
    case 2
    with Suc have "range_end rs i \<le> fst (rs ! j)" by simp
    also have "\<dots> \<le> range_end rs j" using assms(1) Suc.prems by (simp add: ranges_sorted_def)
    also have "\<dots> \<le> fst (rs ! Suc j)" using assms(1) Suc.prems by (simp add: ranges_sorted_def)
    finally show ?thesis .
  qed
qed simp

definition in_range :: "(int \<times> nat) list \<Rightarrow> int \<Rightarrow> nat \<Rightarrow> bool" where
  "in_range rs v i \<longleftrightarrow> fst (rs ! i) \<le> v \<and> v < range_end rs i"

lemma int_range_lookup_loop_linear:
  assumes "ranges_sorted rs"
  shows "start + n < length rs \<Longrightarrow> int_range_lookup_loop rs v start n = Some k \<longleftrightarrow>
    (\<exists>i. start \<le> i \<and> i < start + n \<and> in_range rs v i \<and> k = nat (v - fst (rs ! i)) + snd (rs ! i))"
proof (induction n arbitrary: start rule: less_induct)
  case (less n)
  let ?mid = "start + n div 2"
  have e: "range_end rs i = fst (rs ! i) + (int (snd (rs ! (i + 1))) - int (snd (rs ! i)))" for i
    by (simp add: range_end_def)
  show ?case
  proof (cases "n > 1")
    case False
    then consider "n = 0" | "n = 1" by linarith
    then show ?thesis
    proof cases
      case 1
      then show ?thesis by (auto simp: int_range_lookup_loop.simps [of rs v start 0])
    next
      case 2
      then have "int_range_lookup_loop rs v start n =
          (if in_range rs v start then Some (nat (v - fst (rs ! start)) + snd (rs ! start)) else None)"
        by (subst int_range_lookup_loop.simps) (simp add: in_range_def e)
      moreover have "start \<le> i \<and> i < start + n \<longleftrightarrow> i = start" for i using 2 by auto
      ultimately show ?thesis by (metis option.distinct(1) option.inject)
    qed
  next
    case True
    then have m: "n div 2 < n" "0 < n div 2" "?mid + 1 < length rs" using less.prems by linarith+
    consider "v < fst (rs ! ?mid)" | "range_end rs ?mid \<le> v" "\<not> v < fst (rs ! ?mid)" | "in_range rs v ?mid"
      unfolding in_range_def by linarith
    then show ?thesis
    proof cases
      case 1
      have "\<not> in_range rs v i" if "?mid \<le> i" "i < start + n" for i
      proof (cases "i = ?mid")
        case False
        then have "range_end rs ?mid \<le> fst (rs ! i)" using ranges_ordered [OF assms, of ?mid i] that less.prems by simp
        moreover have "fst (rs ! ?mid) \<le> range_end rs ?mid" using assms m(3) by (simp add: ranges_sorted_def)
        ultimately show ?thesis using 1 by (simp add: in_range_def)
      qed (use 1 in \<open>simp add: in_range_def\<close>)
      then have "start \<le> i \<and> i < start + n \<and> in_range rs v i \<longleftrightarrow> start \<le> i \<and> i < start + n div 2 \<and> in_range rs v i" for i
        using m(1) by (cases "?mid \<le> i") auto
      then have "(\<exists>i. start \<le> i \<and> i < start + n \<and> in_range rs v i \<and> P i) \<longleftrightarrow>
          (\<exists>i. start \<le> i \<and> i < start + n div 2 \<and> in_range rs v i \<and> P i)" for P by blast
      moreover have "int_range_lookup_loop rs v start n = int_range_lookup_loop rs v start (n div 2)"
        using True 1 by (subst int_range_lookup_loop.simps) (simp add: Let_def)
      moreover have "start + n div 2 < length rs" using less.prems m(1) by linarith
      ultimately show ?thesis using less.IH [OF m(1), of start] by (simp only:)
    next
      case 2
      let ?n = "start + n - (?mid + 1)"
      have "\<not> in_range rs v i" if "start \<le> i" "i \<le> ?mid" for i
      proof (cases "i = ?mid")
        case False
        then have "range_end rs i \<le> fst (rs ! ?mid)" using ranges_ordered [OF assms, of i ?mid] that m(3) by simp
        moreover have "fst (rs ! ?mid) \<le> range_end rs ?mid" using assms m(3) by (simp add: ranges_sorted_def)
        ultimately show ?thesis using 2 by (simp add: in_range_def)
      qed (use 2 in \<open>simp add: in_range_def\<close>)
      then have "start \<le> i \<and> i < start + n \<and> in_range rs v i \<longleftrightarrow> ?mid + 1 \<le> i \<and> i < ?mid + 1 + ?n \<and> in_range rs v i" for i
        using m(1) by (cases "i \<le> ?mid") auto
      then have "(\<exists>i. start \<le> i \<and> i < start + n \<and> in_range rs v i \<and> P i) \<longleftrightarrow>
          (\<exists>i. ?mid + 1 \<le> i \<and> i < ?mid + 1 + ?n \<and> in_range rs v i \<and> P i)" for P by blast
      moreover have "int_range_lookup_loop rs v start n = int_range_lookup_loop rs v (?mid + 1) ?n"
        using True 2 e [of ?mid] by (subst int_range_lookup_loop.simps) (simp add: Let_def)
      moreover have "?n < n" "?mid + 1 + ?n < length rs" using m less.prems by linarith+
      ultimately show ?thesis using less.IH [of ?n "?mid + 1"] by (simp only:)
    next
      case 3
      have u: "i = ?mid" if "start \<le> i" "i < start + n" "in_range rs v i" for i
        using that 3 ranges_ordered [OF assms, of i ?mid] ranges_ordered [OF assms, of ?mid i] m(3) less.prems
        by (cases i ?mid rule: linorder_cases) (auto simp: in_range_def)
      have "int_range_lookup_loop rs v start n = Some (nat (v - fst (rs ! ?mid)) + snd (rs ! ?mid))"
        using True 3 e [of ?mid] by (subst int_range_lookup_loop.simps) (simp add: Let_def in_range_def)
      with u 3 m(1) show ?thesis by (metis le_add1 nat_add_left_cancel_less option.inject)
    qed
  qed
qed

text \<open>Looking up a field by its number: in a table whose ranges are in order and do not overlap, the binary search finds
  exactly what trying all ranges finds.\<close>

theorem int_range_lookup_linear:
  assumes "ranges_sorted rs"
  shows "int_range_lookup rs v = Some k \<longleftrightarrow>
    (\<exists>i. i + 1 < length rs \<and> in_range rs v i \<and> k = nat (v - fst (rs ! i)) + snd (rs ! i))"
proof (cases "rs = []")
  case True
  then show ?thesis by (simp add: int_range_lookup_def int_range_lookup_loop.simps)
next
  case False
  then have "0 + (length rs - 1) < length rs" by simp
  moreover have "i < 0 + (length rs - 1) \<longleftrightarrow> i + 1 < length rs" for i by linarith
  ultimately show ?thesis
    using int_range_lookup_loop_linear [OF assms, of 0 "length rs - 1"] by (simp add: int_range_lookup_def)
qed

lemma int_range_lookup_linear_witness:
  "int_range_lookup [(1, 0), (5, 3), (20, 5), (0, 6)] 6 = Some 4"
proof -
  let ?rs = "[(1, 0), (5, 3), (20, 5), (0, 6)] :: (int \<times> nat) list"
  have "ranges_sorted ?rs"
    by (simp add: ranges_sorted_def range_end_def All_less_Suc numeral_eq_Suc)
  then have "int_range_lookup ?rs 6 = Some 4 \<longleftrightarrow>
      (\<exists>i. i + 1 < length ?rs \<and> in_range ?rs 6 i \<and> 4 = nat (6 - fst (?rs ! i)) + snd (?rs ! i))"
    by (rule int_range_lookup_linear)
  also have "\<dots>" by (rule exI [of _ 1]) (simp add: in_range_def range_end_def)
  finally show ?thesis by simp
qed
end
