(* ===== verification/Pb_Unpack.thy ===== *)
theory Pb_Unpack
  imports Pb_Message Pb_Ranges
begin

unbundle bit_operations_syntax

text \<open>
  Unpacking messages (\<^verbatim>\<open>protobuf_c_message_unpack\<close> of \<^verbatim>\<open>protobuf-c.c\<close>): the buffer is scanned into
  members, each with the field its tag belongs to; the required fields are looked for; then the
  members are parsed into the message.  The allocator succeeds, and freed
  memory is not modelled.
\<close>

section \<open>Results\<close>

text \<open>A message cannot be read (the functions return 0, FALSE or NULL), or a length
  wraps around and memory outside the buffer, or a cell of another type, would be
  accessed: there the model ends.\<close>

datatype failure = Unpack_error | Undefined

fun and_then :: "failure + 'a \<Rightarrow> ('a \<Rightarrow> failure + 'b) \<Rightarrow> failure + 'b" where
  "and_then (Inl e) g = Inl e"
| "and_then (Inr x) g = g x"

definition defined :: "'a option \<Rightarrow> failure + 'a" where
  "defined x = (case x of None \<Rightarrow> Inl Undefined | Some y \<Rightarrow> Inr y)"

definition parsed :: "'a option \<Rightarrow> failure + 'a" where
  "parsed x = (case x of None \<Rightarrow> Inl Unpack_error | Some y \<Rightarrow> Inr y)"

definition guard :: "bool \<Rightarrow> failure + unit" where
  "guard b = (if b then Inr () else Inl Unpack_error)"

lemma result_simps [simp]:
  "defined (Some x) = Inr x" "defined None = Inl Undefined" "parsed (Some x) = Inr x" "parsed None = Inl Unpack_error"
  "guard True = Inr ()" "guard False = Inl Unpack_error"
  by (simp_all add: defined_def parsed_def guard_def)

lemma and_then_Inr: "and_then x g = Inr y \<longleftrightarrow> (\<exists>z. x = Inr z \<and> g z = Inr y)"
  by (cases x) auto

section \<open>Scanning\<close>

fun parse_tag_loop :: "u32 \<Rightarrow> nat \<Rightarrow> nat \<Rightarrow> u8 list \<Rightarrow> (nat \<times> u32) option" where
  "parse_tag_loop tag sh rv [] = None"
| "parse_tag_loop tag sh rv (b # bs) =
     (if b AND 0x80 \<noteq> 0 then parse_tag_loop (tag OR push_bit sh (ucast (b AND 0x7f))) (sh + 7) (rv + 1) bs
      else Some (rv + 1, tag OR push_bit sh (ucast b)))"

text \<open>At most five bytes are read; the value has their number, the tag and the wire type.\<close>

definition parse_tag_and_wiretype :: "u8 list \<Rightarrow> (nat \<times> u32 \<times> u8) option" where
  "parse_tag_and_wiretype data =
     (let tag = ucast (drop_bit 3 (data ! 0 AND 0x7f)); wire = data ! 0 AND 7
      in if data ! 0 AND 0x80 = 0 then Some (1, tag, wire)
         else map_option (\<lambda>(used, tag). (used, tag, wire)) (parse_tag_loop tag 4 1 (drop 1 (take 5 data))))"

fun scan_length_loop :: "u32 \<Rightarrow> nat \<Rightarrow> nat \<Rightarrow> u8 list \<Rightarrow> (u32 \<times> nat) option" where
  "scan_length_loop v sh i [] = None"
| "scan_length_loop v sh i (b # bs) =
     (let v = v OR push_bit sh (ucast (b AND 0x7f))
      in if b AND 0x80 = 0 then Some (v, i + 1) else scan_length_loop v (sh + 7) (i + 1) bs)"

text \<open>The length of the prefix and the data, as it is added up in 32 bits, and that of the prefix.  A sum of 0
  is an error of the caller's.\<close>

definition scan_length_prefixed_data :: "u8 list \<Rightarrow> (nat \<times> nat) option" where
  "scan_length_prefixed_data data = do {
     (v, hdr_len) \<leftarrow> scan_length_loop 0 0 0 (take 5 data);
     let n = unat (of_nat hdr_len + v);
     (if n > length data \<or> n = 0 then None else Some (n, hdr_len))
   }"

definition max_b128_numbers :: "u8 list \<Rightarrow> nat" where
  "max_b128_numbers data = length (filter (\<lambda>b. b AND 0x80 = 0) data)"

definition scan_varint :: "u8 list \<Rightarrow> nat" where
  "scan_varint data =
     (let n = length (takeWhile (\<lambda>b. b AND 0x80 \<noteq> 0) (take 10 data))
      in if n = length (take 10 data) then 0 else n + 1)"

text \<open>The length of a member and of its length prefix, by its wire type.\<close>

definition scan_data :: "u8 \<Rightarrow> u8 list \<Rightarrow> (nat \<times> nat) option" where
  "scan_data wire data =
     (if wire = WIRE_VARINT then (let n = scan_varint data in if n = 0 then None else Some (n, 0))
      else if wire = WIRE_64BIT then (if length data < 8 then None else Some (8, 0))
      else if wire = WIRE_LENGTH_PREFIXED then scan_length_prefixed_data data
      else if wire = WIRE_32BIT then (if length data < 4 then None else Some (4, 0))
      else None)"

text \<open>A scanned member: the index of its field, none for an unknown one, and the buffer from its data on.\<close>

record scanned_member =
  sm_tag :: u32
  sm_wire_type :: u8
  sm_length_prefix_len :: nat
  sm_field :: "nat option"
  sm_len :: nat
  sm_data :: "u8 list"

text \<open>What a length-prefixed member holds.  When the length has wrapped around it is
  smaller than its prefix, and the difference wraps around again.\<close>

definition sm_content :: "scanned_member \<Rightarrow> failure + u8 list" where
  "sm_content sm =
     (if sm_len sm < sm_length_prefix_len sm then Inl Undefined
      else Inr (take (sm_len sm - sm_length_prefix_len sm) (drop (sm_length_prefix_len sm) (sm_data sm))))"

definition packed_member :: "field_desc \<Rightarrow> u8 \<Rightarrow> bool" where
  "packed_member f wire \<longleftrightarrow> wire = WIRE_LENGTH_PREFIXED \<and> (fd_packed f \<or> is_packable_type (fd_type f))"

text \<open>How many elements may be in the member.  \<open>len\<close> is a 64-bit difference.\<close>

definition count_packed_elements :: "pb_type \<Rightarrow> scanned_member \<Rightarrow> failure + nat" where
  "count_packed_elements t sm =
     (let len = of_nat (sm_len sm) - of_nat (sm_length_prefix_len sm) :: u64
      in if t = T_SFIXED32 \<or> t = T_FIXED32 \<or> t = T_FLOAT
         then and_then (guard (len mod 4 = 0)) (\<lambda>_. and_then (sm_content sm) (\<lambda>bs. Inr (length bs div 4)))
         else if t = T_SFIXED64 \<or> t = T_FIXED64 \<or> t = T_DOUBLE
         then and_then (guard (len mod 8 = 0)) (\<lambda>_. and_then (sm_content sm) (\<lambda>bs. Inr (length bs div 8)))
         else if t = T_BOOL then and_then (sm_content sm) (\<lambda>bs. Inr (length bs))
         else and_then (guard (is_packable_type t)) (\<lambda>_. and_then (sm_content sm) (\<lambda>bs. Inr (max_b128_numbers bs))))"

text \<open>The elements of a repeated field for which a member reserves space.\<close>

definition member_count :: "field_desc \<Rightarrow> scanned_member \<Rightarrow> failure + nat" where
  "member_count f sm =
     (if fd_label f = REPEATED
      then (if packed_member f (sm_wire_type sm) then count_packed_elements (fd_type f) sm else Inr 1)
      else Inr 0)"

text \<open>The slabs have room for 16, 32, 64, \<dots> members, and there are 23 of them.\<close>

definition max_scanned_members :: nat where
  "max_scanned_members = 16 * (2 ^ 23 - 1)"

text \<open>One round of the scanning loop: the field found last is tried first.  \<open>n\<close> members are in the slabs.\<close>

definition scan_member ::
    "msg_desc \<Rightarrow> nat option \<Rightarrow> nat \<Rightarrow> u8 list \<Rightarrow> failure + (scanned_member \<times> nat option \<times> u8 list)" where
  "scan_member D last_field n data =
     and_then (parsed (parse_tag_and_wiretype data)) (\<lambda>(used, tag, wire).
       let field = (case last_field of
                      Some k \<Rightarrow> if fd_id (md_fields D ! k) = tag then Some k else int_range_lookup (md_ranges D) (sint tag)
                    | None \<Rightarrow> int_range_lookup (md_ranges D) (sint tag));
           last_field = (if field = None then last_field else field);
           data = drop used data
       in and_then (parsed (scan_data wire data)) (\<lambda>(len, pref).
            let sm = \<lparr>sm_tag = tag, sm_wire_type = wire, sm_length_prefix_len = pref, sm_field = field,
                      sm_len = len, sm_data = data\<rparr>
            in and_then (guard (n < max_scanned_members)) (\<lambda>_.
                 and_then (case field of None \<Rightarrow> Inr 0 | Some k \<Rightarrow> member_count (md_fields D ! k) sm)
                   (\<lambda>_. Inr (sm, last_field, drop len data)))))"

lemma parse_tag_used: "parse_tag_loop tag sh rv bs = Some (used, t) \<Longrightarrow> rv < used \<and> used \<le> rv + length bs"
  by (induction tag sh rv bs rule: parse_tag_loop.induct) (auto split: if_splits)

lemma parse_tag_and_wiretype_used: "parse_tag_and_wiretype data = Some (used, tag, wire) \<Longrightarrow> 0 < used"
  by (auto simp: parse_tag_and_wiretype_def Let_def dest: parse_tag_used split: if_splits)

lemma scan_member_shorter:
  assumes "scan_member D last_field n data = Inr (sm, last_field', rest)" "data \<noteq> []"
  shows "length rest < length data"
proof -
  obtain used tag wire where p: "parse_tag_and_wiretype data = Some (used, tag, wire)"
    using assms(1) by (cases "parse_tag_and_wiretype data") (auto simp: scan_member_def)
  obtain len pref where "scan_data wire (drop used data) = Some (len, pref)"
    using assms(1) p by (cases "scan_data wire (drop used data)") (auto simp: scan_member_def Let_def)
  with assms(1) p have "rest = drop len (drop used data)" by (auto simp: scan_member_def Let_def and_then_Inr)
  with parse_tag_and_wiretype_used [OF p] assms(2) show ?thesis by simp
qed

function scan_members :: "msg_desc \<Rightarrow> nat option \<Rightarrow> nat \<Rightarrow> u8 list \<Rightarrow> failure + scanned_member list" where
  "scan_members D last_field n data =
     (if data = [] then Inr []
      else case scan_member D last_field n data of
             Inl e \<Rightarrow> Inl e
           | Inr (sm, last_field, rest) \<Rightarrow> and_then (scan_members D last_field (n + 1) rest) (\<lambda>sms. Inr (sm # sms)))"
  by pat_completeness auto
termination
  by (relation "measure (\<lambda>(D, last_field, n, data). length data)") (auto dest: scan_member_shorter)

declare scan_members.simps [simp del]

section \<open>Parsing\<close>

text \<open>The elements of a packed field.\<close>

function parse_packed_varints :: "(nat \<Rightarrow> u8 list \<Rightarrow> cell) \<Rightarrow> u8 list \<Rightarrow> failure + cell list" where
  "parse_packed_varints g data =
     (if data = [] then Inr []
      else let s = scan_varint data
           in if s = 0 then Inl Unpack_error
              else and_then (parse_packed_varints g (drop s data)) (\<lambda>cs. Inr (g s data # cs)))"
  by pat_completeness auto
termination by (relation "measure (\<lambda>(g, data). length data)") (auto simp: Let_def)

declare parse_packed_varints.simps [simp del]

definition parse_varint :: "pb_type \<Rightarrow> nat \<Rightarrow> u8 list \<Rightarrow> cell" where
  "parse_varint t s data =
     (case t of
        T_ENUM \<Rightarrow> U32 (parse_int32 s data)
      | T_INT32 \<Rightarrow> U32 (parse_int32 s data)
      | T_UINT32 \<Rightarrow> U32 (parse_uint32 s data)
      | T_SINT32 \<Rightarrow> U32 (unzigzag32 (parse_uint32 s data))
      | T_SINT64 \<Rightarrow> U64 (unzigzag64 (parse_uint64 s data))
      | _ \<Rightarrow> U64 (parse_uint64 s data))"

definition parse_packed_repeated_member :: "field_desc \<Rightarrow> scanned_member \<Rightarrow> failure + cell list" where
  "parse_packed_repeated_member f sm =
     and_then (sm_content sm) (\<lambda>rem.
       if fd_type f = T_SFIXED32 \<or> fd_type f = T_FIXED32 \<or> fd_type f = T_FLOAT
       then Inr (map (\<lambda>i. U32 (parse_fixed_uint32 (drop (4 * i) rem))) [0..<length rem div 4])
       else if fd_type f = T_SFIXED64 \<or> fd_type f = T_FIXED64 \<or> fd_type f = T_DOUBLE
       then Inr (map (\<lambda>i. U64 (parse_fixed_uint64 (drop (8 * i) rem))) [0..<length rem div 8])
       else if fd_type f = T_BOOL
       then (if \<exists>b \<in> set rem. b > 1 then Inl Unpack_error else Inr (map (\<lambda>b. U32 (ucast b)) rem))
       else parse_packed_varints (parse_varint (fd_type f)) rem)"

text \<open>Parsing one value; \<open>old\<close> is the value it replaces, \<open>up\<close> unpacks and \<open>mg\<close> merges embedded
  messages.  What is not a message is a NULL left by the zeroing of a union.\<close>

definition parse_required_member ::
    "(u8 list \<Rightarrow> failure + pb_msg) \<Rightarrow> (pb_msg \<Rightarrow> pb_msg \<Rightarrow> failure + pb_msg) \<Rightarrow> field_desc \<Rightarrow> scanned_member \<Rightarrow> cell \<Rightarrow> bool
      \<Rightarrow> failure + cell" where
  "parse_required_member up mg f sm old maybe_clear =
     (let t = fd_type f; len = sm_len sm; data = sm_data sm; wire_type = sm_wire_type sm
      in if t = T_BOOL then Inr (U32 (parse_boolean len data))
         else if wire_type \<noteq> wire_type_of t then Inl Unpack_error
         else if wire_type = WIRE_32BIT then Inr (U32 (parse_fixed_uint32 data))
         else if wire_type = WIRE_64BIT then Inr (U64 (parse_fixed_uint64 data))
         else if wire_type = WIRE_VARINT then Inr (parse_varint t len data)
         else and_then (sm_content sm) (\<lambda>bs.
           if t = T_STRING then Inr (Str (Some (map (\<lambda>b. char_of (unat b)) bs)))
           else if t = T_BYTES then Inr (Bytes bs)
           else and_then (up bs) (\<lambda>subm.
                  case old of
                    Sub (Some earlier) \<Rightarrow> if maybe_clear then and_then (mg earlier subm) (\<lambda>m. Inr (Sub (Some m)))
                                          else Inr (Sub (Some subm))
                  | _ \<Rightarrow> Inr (Sub (Some subm)))))"

fun put :: "string \<Rightarrow> cell \<Rightarrow> pb_msg \<Rightarrow> pb_msg" where
  "put x c (Msg mem us) = Msg (mem(x := c)) us"

text \<open>The previous member of the union is freed and zeroed.\<close>

definition parse_oneof_member ::
    "(u8 list \<Rightarrow> failure + pb_msg) \<Rightarrow> (pb_msg \<Rightarrow> pb_msg \<Rightarrow> failure + pb_msg) \<Rightarrow> msg_desc \<Rightarrow> field_desc \<Rightarrow> scanned_member \<Rightarrow>
      pb_msg \<Rightarrow> failure + pb_msg" where
  "parse_oneof_member up mg D f sm m =
     and_then (defined (as_u32 (members m (fd_quantifier f)))) (\<lambda>oneof_case.
     and_then (if oneof_case = 0 then Inr (members m (fd_offset f))
               else and_then (parsed (int_range_lookup (md_ranges D) (sint oneof_case))) (\<lambda>_. Inr (zero_cell f))) (\<lambda>old.
     and_then (parse_required_member up mg f sm old True) (\<lambda>c.
       Inr (put (fd_quantifier f) (U32 (sm_tag sm)) (put (fd_offset f) c m)))))"

text \<open>Offset 0 stands for a field without a quantifier.\<close>

definition parse_optional_member ::
    "(u8 list \<Rightarrow> failure + pb_msg) \<Rightarrow> (pb_msg \<Rightarrow> pb_msg \<Rightarrow> failure + pb_msg) \<Rightarrow> field_desc \<Rightarrow> scanned_member \<Rightarrow>
      pb_msg \<Rightarrow> failure + pb_msg" where
  "parse_optional_member up mg f sm m =
     and_then (parse_required_member up mg f sm (members m (fd_offset f)) True) (\<lambda>c.
       Inr ((if fd_quantifier f \<noteq> [] then put (fd_quantifier f) (U32 1) else id) (put (fd_offset f) c m)))"

text \<open>The elements go to the end of the array.\<close>

definition parse_repeated_member ::
    "(u8 list \<Rightarrow> failure + pb_msg) \<Rightarrow> (pb_msg \<Rightarrow> pb_msg \<Rightarrow> failure + pb_msg) \<Rightarrow> field_desc \<Rightarrow> scanned_member \<Rightarrow>
      pb_msg \<Rightarrow> failure + pb_msg" where
  "parse_repeated_member up mg f sm m =
     and_then (defined (as_array (members m (fd_offset f)))) (\<lambda>array.
     and_then (if packed_member f (sm_wire_type sm) then parse_packed_repeated_member f sm
               else and_then (parse_required_member up mg f sm (Sub None) False) (\<lambda>c. Inr [c])) (\<lambda>cs.
       Inr (put (fd_offset f) (Arr (array @ cs)) m)))"

fun add_unknown :: "u32 \<times> u8 \<times> u8 list \<Rightarrow> pb_msg \<Rightarrow> pb_msg" where
  "add_unknown u (Msg mem us) = Msg mem (us @ [u])"

definition parse_member ::
    "(u8 list \<Rightarrow> failure + pb_msg) list \<Rightarrow> (pb_msg \<Rightarrow> pb_msg \<Rightarrow> failure + pb_msg) list \<Rightarrow> msg_desc \<Rightarrow> scanned_member \<Rightarrow>
      pb_msg \<Rightarrow> failure + pb_msg" where
  "parse_member ups mgs D sm m =
     (case sm_field sm of
        None \<Rightarrow> Inr (add_unknown (sm_tag sm, sm_wire_type sm, take (sm_len sm) (sm_data sm)) m)
      | Some k \<Rightarrow>
          let f = md_fields D ! k; up = ups ! k; mg = mgs ! k
          in case fd_label f of
               REQUIRED \<Rightarrow> and_then (parse_required_member up mg f sm (members m (fd_offset f)) True)
                             (\<lambda>c. Inr (put (fd_offset f) c m))
             | REPEATED \<Rightarrow> parse_repeated_member up mg f sm m
             | _ \<Rightarrow> if fd_oneof f then parse_oneof_member up mg D f sm m else parse_optional_member up mg f sm m)"

fun parse_members :: "(scanned_member \<Rightarrow> pb_msg \<Rightarrow> failure + pb_msg) \<Rightarrow> scanned_member list \<Rightarrow> pb_msg \<Rightarrow> failure + pb_msg" where
  "parse_members g [] m = Inr m"
| "parse_members g (sm # sms) m = and_then (g sm m) (parse_members g sms)"

section \<open>Merging\<close>

text \<open>An embedded message that occurs twice: \<open>e\<close> is the earlier one, \<open>l\<close> the latter, into which it is merged.
  Moving a member takes it, and its quantifier, out of the earlier message.  The quantifier of a field
  without one is the pointer to the descriptor, which is not 0.\<close>

definition quantifier_set :: "field_desc \<Rightarrow> pb_msg \<Rightarrow> failure + bool" where
  "quantifier_set f m =
     (if fd_quantifier f = [] then Inr True
      else and_then (defined (as_u32 (members m (fd_quantifier f)))) (\<lambda>v. Inr (v \<noteq> 0)))"

definition move_member :: "field_desc \<Rightarrow> pb_msg \<times> pb_msg \<Rightarrow> pb_msg \<times> pb_msg" where
  "move_member g el = (case el of (e, l) \<Rightarrow>
     if fd_quantifier g = [] then (put (fd_offset g) (zero_cell g) e, put (fd_offset g) (members e (fd_offset g)) l)
     else (put (fd_quantifier g) (U32 0) (put (fd_offset g) (zero_cell g) e),
           put (fd_quantifier g) (members e (fd_quantifier g)) (put (fd_offset g) (members e (fd_offset g)) l)))"

definition merge_member ::
    "(pb_msg \<Rightarrow> pb_msg \<Rightarrow> failure + pb_msg) \<Rightarrow> field_desc \<Rightarrow> field_desc \<Rightarrow> pb_msg \<times> pb_msg \<Rightarrow> failure + (pb_msg \<times> pb_msg)" where
  "merge_member mg f g el = (case el of (e, l) \<Rightarrow>
     let ec = members e (fd_offset g); lc = members l (fd_offset g)
     in if fd_type g = T_MESSAGE then
          and_then (defined (as_message ec)) (\<lambda>em. and_then (defined (as_message lc)) (\<lambda>lm.
            case (em, lm) of
              (Some em, Some lm) \<Rightarrow> and_then (mg em lm) (\<lambda>m. Inr (e, put (fd_offset g) (Sub (Some m)) l))
            | (Some em, None) \<Rightarrow> Inr (move_member g (e, l))
            | (None, _) \<Rightarrow> Inr (e, l)))
        else if fd_type g = T_BYTES then
          and_then (defined (as_bytes ec)) (\<lambda>eb. and_then (defined (as_bytes lc)) (\<lambda>lb.
            Inr (if eb \<noteq> [] \<and> lb = [] then move_member g (e, l) else (e, l))))
        else if fd_type g = T_STRING then
          and_then (defined (as_string ec)) (\<lambda>es. and_then (defined (as_string lc)) (\<lambda>ls.
            Inr (if es \<noteq> None \<and> ls = None then move_member g (e, l) else (e, l))))
        else and_then (quantifier_set f e) (\<lambda>eq. and_then (quantifier_set f l) (\<lambda>lq.
            Inr (if eq \<and> \<not> lq then move_member g (e, l) else (e, l)))))"

text \<open>One round of the loop over the fields.\<close>

definition merge_field ::
    "(pb_msg \<Rightarrow> pb_msg \<Rightarrow> failure + pb_msg) list \<Rightarrow> msg_desc \<Rightarrow> nat \<Rightarrow> pb_msg \<times> pb_msg \<Rightarrow> failure + (pb_msg \<times> pb_msg)" where
  "merge_field mgs D i el = (case el of (e, l) \<Rightarrow>
     let f = md_fields D ! i
     in if fd_label f = REPEATED then
          and_then (defined (as_array (members e (fd_offset f)))) (\<lambda>ae. and_then (defined (as_array (members l (fd_offset f)))) (\<lambda>al.
            Inr (if ae = [] then (e, l) else (put (fd_offset f) (Arr []) e, put (fd_offset f) (Arr (ae @ al)) l))))
        else if fd_label f = REQUIRED then Inr (e, l)
        else if fd_oneof f then
          and_then (defined (as_u32 (members l (fd_quantifier f)))) (\<lambda>latter_case.
            if latter_case \<noteq> 0 then Inr (e, l)
            else and_then (defined (as_u32 (members e (fd_quantifier f)))) (\<lambda>earlier_case.
                 and_then (parsed (int_range_lookup (md_ranges D) (sint earlier_case))) (\<lambda>j.
                   merge_member (mgs ! j) f (md_fields D ! j) (e, l))))
        else merge_member (mgs ! i) f f (e, l))"

fun merge_fields :: "(nat \<Rightarrow> pb_msg \<times> pb_msg \<Rightarrow> failure + (pb_msg \<times> pb_msg)) \<Rightarrow> nat list \<Rightarrow> pb_msg \<times> pb_msg \<Rightarrow> failure + pb_msg" where
  "merge_fields g [] el = Inr (snd el)"
| "merge_fields g (i # is) el = and_then (g i el) (merge_fields g is)"

text \<open>The functions of the embedded messages are listed by field.\<close>

fun merge_messages :: "msg_desc \<Rightarrow> pb_msg \<Rightarrow> pb_msg \<Rightarrow> failure + pb_msg"
  and mergers :: "field_desc list \<Rightarrow> (pb_msg \<Rightarrow> pb_msg \<Rightarrow> failure + pb_msg) list"
  and submessage_merge :: "msg_desc option \<Rightarrow> pb_msg \<Rightarrow> pb_msg \<Rightarrow> failure + pb_msg" where
  "merge_messages (Msg_desc nm fs rs) e l =
     merge_fields (merge_field (mergers fs) (Msg_desc nm fs rs)) [0..<length fs] (e, l)"
| "mergers [] = []"
| "mergers (Field_desc nm i l t q off sub pk one # fs) = (\<lambda>e m. submessage_merge sub e m) # mergers fs"
| "submessage_merge None e l = Inl Undefined"
| "submessage_merge (Some D) e l = merge_messages D e l"

section \<open>Unpacking\<close>

definition required_fields_set :: "msg_desc \<Rightarrow> scanned_member list \<Rightarrow> bool" where
  "required_fields_set D sms \<longleftrightarrow>
     (\<forall>k < length (md_fields D). fd_label (md_fields D ! k) = REQUIRED \<longrightarrow> Some k \<in> sm_field ` set sms)"

definition unpack_with :: "(u8 list \<Rightarrow> failure + pb_msg) list \<Rightarrow> msg_desc \<Rightarrow> u8 list \<Rightarrow> failure + pb_msg" where
  "unpack_with ups D data =
     and_then (scan_members D (if md_fields D = [] then None else Some 0) 0 data) (\<lambda>sms.
     and_then (guard (required_fields_set D sms)) (\<lambda>_.
       parse_members (parse_member ups (mergers (md_fields D)) D) sms (message_init D)))"

fun protobuf_c_message_unpack :: "msg_desc \<Rightarrow> u8 list \<Rightarrow> failure + pb_msg"
  and unpackers :: "field_desc list \<Rightarrow> (u8 list \<Rightarrow> failure + pb_msg) list"
  and submessage_unpack :: "msg_desc option \<Rightarrow> u8 list \<Rightarrow> failure + pb_msg" where
  "protobuf_c_message_unpack (Msg_desc nm fs rs) data = unpack_with (unpackers fs) (Msg_desc nm fs rs) data"
| "unpackers [] = []"
| "unpackers (Field_desc nm i l t q off sub pk one # fs) = (\<lambda>bs. submessage_unpack sub bs) # unpackers fs"
| "submessage_unpack None data = Inl Undefined"
| "submessage_unpack (Some D) data = protobuf_c_message_unpack D data"

section \<open>Room for the elements\<close>

lemma scan_varint_terminator:
  assumes "scan_varint data = s" "s \<noteq> 0"
  shows "s \<le> length data" "data ! (s - 1) AND 0x80 = 0"
proof -
  let ?n = "length (takeWhile (\<lambda>b. b AND 0x80 \<noteq> 0) (take 10 data))"
  have n: "?n < length (take 10 data)" "s = ?n + 1"
    using assms length_takeWhile_le [of "\<lambda>b. b AND 0x80 \<noteq> 0" "take 10 data"]
    by (auto simp: scan_varint_def Let_def simp del: length_take split: if_splits)
  then show "s \<le> length data" by simp
  have "take 10 data ! ?n AND 0x80 = 0" using nth_length_takeWhile [OF n(1)] by simp
  then show "data ! (s - 1) AND 0x80 = 0" using n by simp
qed

lemma max_b128_numbers_step:
  assumes "scan_varint data = s" "s \<noteq> 0"
  shows "max_b128_numbers (drop s data) + 1 \<le> max_b128_numbers data"
proof -
  note t = scan_varint_terminator [OF assms]
  have "take s data ! (s - 1) \<in> set (take s data)" using assms(2) t(1) by (intro nth_mem) simp
  then have "data ! (s - 1) \<in> set (filter (\<lambda>b. b AND 0x80 = 0) (take s data))" using assms(2) t(2) by simp
  then have "1 \<le> max_b128_numbers (take s data)" unfolding max_b128_numbers_def by (cases "filter (\<lambda>b. b AND 0x80 = 0) (take s data)") simp_all
  moreover have "max_b128_numbers data = max_b128_numbers (take s data) + max_b128_numbers (drop s data)"
    unfolding max_b128_numbers_def by (metis append_take_drop_id filter_append length_append)
  ultimately show ?thesis by simp
qed

lemma parse_packed_varints_fit:
  "parse_packed_varints g data = Inr cs \<Longrightarrow> length cs \<le> max_b128_numbers data"
proof (induction g data arbitrary: cs rule: parse_packed_varints.induct)
  case (1 g data)
  show ?case
  proof (cases "data = []")
    case True
    with "1.prems" show ?thesis by (simp add: parse_packed_varints.simps [of g "[]"])
  next
    case False
    let ?s = "scan_varint data"
    from "1.prems" False have s: "?s \<noteq> 0" by (auto simp: parse_packed_varints.simps [of g data] Let_def split: if_splits)
    with "1.prems" False obtain ds where "parse_packed_varints g (drop ?s data) = Inr ds" "length cs = length ds + 1"
      by (auto simp: parse_packed_varints.simps [of g data] Let_def and_then_Inr)
    with "1.IH" [OF False refl s] max_b128_numbers_step [OF refl s] show ?thesis by fastforce
  qed
qed

text \<open>Space is reserved for the elements of packed members while scanning, by counting the bytes that end
  varints; parsing never writes more elements than were counted.\<close>

theorem packed_elements_fit:
  assumes "count_packed_elements (fd_type f) sm = Inr n" "parse_packed_repeated_member f sm = Inr cs"
  shows "length cs \<le> n"
proof -
  obtain bs where "sm_content sm = Inr bs" using assms(2) by (auto simp: parse_packed_repeated_member_def and_then_Inr)
  with assms parse_packed_varints_fit show ?thesis
    by (auto simp: parse_packed_repeated_member_def count_packed_elements_def Let_def and_then_Inr split: if_splits)
qed

end
