(* ===== verification/Pb_Wire.thy ===== *)
theory Pb_Wire
  imports Pb_Unpack
begin

unbundle bit_operations_syntax

text \<open>
  What packed bytes of the Protocol Buffers runtime are scanned to (\<^verbatim>\<open>protobuf-c.c\<close>).
\<close>

section \<open>Scanning packed bytes\<close>

lemma varint_digit: "b AND 0x80 = 0 \<Longrightarrow> (ucast (b :: u8) :: u32) = of_nat (unat b mod 128)"
  by (simp add: and_0x80)

lemma parse_tag_loop_varint:
  "s < 2 ^ sh \<Longrightarrow> varint bs \<Longrightarrow>
     parse_tag_loop (of_nat s) sh rv (bs @ rest) = Some (rv + length bs, of_nat (s + 2 ^ sh * b128 bs))"
proof (induction bs arbitrary: s sh rv)
  case Nil
  then show ?case by simp
next
  case (Cons b bs)
  note IH = Cons.IH [OF partial_less [OF Cons.prems(1)]]
  show ?case
  proof (cases "b AND 0x80 = 0")
    case True
    with Cons.prems(2) have "bs = []" by (simp add: varint_Cons split: if_splits)
    with True show ?thesis by (simp add: varint_digit or_digit [OF Cons.prems(1)] del: of_nat_add of_nat_mult)
  next
    case False
    with Cons.prems(2) have "varint bs" by (simp add: varint_Cons split: if_splits)
    from IH [OF this] False show ?thesis
      by (simp add: ucast_digit or_digit [OF Cons.prems(1)] algebra_simps power_add del: of_nat_add of_nat_mult)
  qed
qed

lemma scan_length_loop_varint:
  "s < 2 ^ sh \<Longrightarrow> varint bs \<Longrightarrow>
     scan_length_loop (of_nat s) sh i (bs @ rest) = Some (of_nat (s + 2 ^ sh * b128 bs), i + length bs)"
proof (induction bs arbitrary: s sh i)
  case Nil
  then show ?case by simp
next
  case (Cons b bs)
  note IH = Cons.IH [OF partial_less [OF Cons.prems(1)]]
  show ?case
  proof (cases "b AND 0x80 = 0")
    case True
    with Cons.prems(2) have "bs = []" by (simp add: varint_Cons split: if_splits)
    with True show ?thesis by (simp add: Let_def ucast_digit or_digit [OF Cons.prems(1)] del: of_nat_add of_nat_mult)
  next
    case False
    with Cons.prems(2) have "varint bs" by (simp add: varint_Cons split: if_splits)
    from IH [OF this] False show ?thesis
      by (simp add: Let_def ucast_digit or_digit [OF Cons.prems(1)] algebra_simps power_add del: of_nat_add of_nat_mult)
  qed
qed

lemma takeWhile_varint: "varint bs \<Longrightarrow> takeWhile (\<lambda>b. b AND 0x80 \<noteq> 0) (bs @ rest) = butlast bs"
  by (induction bs) (auto simp: varint_Cons split: if_splits)

lemma varint_nonempty: "varint bs \<Longrightarrow> bs \<noteq> []"
  by auto

lemma take_varint: "varint bs \<Longrightarrow> length bs \<le> n \<Longrightarrow> take n (bs @ rest) = bs @ take (n - length bs) rest"
  by simp

lemma scan_varint_varint:
  assumes "varint bs" "length bs \<le> 10"
  shows "scan_varint (bs @ rest) = length bs"
proof -
  obtain k where "length bs = Suc k" using varint_nonempty [OF assms(1)] by (cases "length bs") auto
  with assms show ?thesis
    by (simp add: scan_varint_def Let_def takeWhile_varint del: takeWhile_append)
qed

text \<open>The tag with its wire type is the varint of eight times the number plus the type.\<close>

lemma wire_arith:
  fixes x y :: nat
  assumes "x mod 8 = 0" "y < 8"
  shows "x + y < 128 \<longleftrightarrow> x < 128" "(x + y) mod 128 div 8 + 16 * n = (x mod 128 + 128 * n) div 8" "(x + y) mod 8 = y"
    "y + 2 ^ 3 * (x div 8) = x + y" "x < 256 \<Longrightarrow> x + y < 256"
proof -
  obtain k where k: "x = 8 * k" using mod_0_imp_dvd [OF assms(1)] by (elim dvdE)
  have m: "8 * k mod 128 = 8 * (k mod 16)" using mod_mult_mult1 [of 8 k 16] by simp
  have "8 * (k mod 16) + y < 128" using assms(2) mod_less_divisor [of 16 k] by linarith
  then have "(8 * k + y) mod 128 = 8 * (k mod 16) + y" by (metis m mod_add_left_eq mod_less)
  then show "(x + y) mod 128 div 8 + 16 * n = (x mod 128 + 128 * n) div 8"
    using assms(2) by (simp add: k m)
  show "x + y < 128 \<longleftrightarrow> x < 128" "(x + y) mod 8 = y" "y + 2 ^ 3 * (x div 8) = x + y" "x < 256 \<Longrightarrow> x + y < 256"
    using assms(2) unfolding k by (simp_all, arith)
qed

lemma multiple_of_8: "(x :: nat) mod 128 + 128 * n = 8 * k \<Longrightarrow> x mod 8 = 0"
proof -
  assume "x mod 128 + 128 * n = 8 * k"
  then have "(x mod 128 + 8 * (16 * n)) mod 8 = 8 * k mod 8" by simp
  then have "x mod 128 mod 8 = 0" by (simp only: mod_mult_self2 mod_mult_self1_is_0)
  then show "x mod 8 = 0" by (simp add: mod_mod_cancel)
qed

lemma wire_bits:
  fixes b w :: u8
  assumes "unat b mod 8 = 0" "unat w < 8"
  shows "unat (b OR w) = unat b + unat w"
proof -
  have "unat b = 8 * (unat b div 8)" using assms(1) by presburger
  then have "of_nat (8 * (unat b div 8)) = b" by (metis of_nat_unat ucast_id)
  then have "b = push_bit 3 (of_nat (unat b div 8))" by (simp add: push_bit_eq_mult mult.commute)
  then have "b OR w = of_nat (unat w) OR push_bit 3 (of_nat (unat b div 8))" by (metis or.commute of_nat_unat ucast_id)
  also have "\<dots> = of_nat (unat w + 2 ^ 3 * (unat b div 8))" using assms(2) by (intro or_digit) simp
  also have "unat w + 2 ^ 3 * (unat b div 8) = unat b + unat w" by (rule wire_arith(4) [OF assms])
  finally have "b OR w = of_nat (unat b + unat w)" .
  moreover have "unat b + unat w < 256" by (rule wire_arith(5) [OF assms]) (use unsigned_less [of b, where 'a = nat] in simp)
  ultimately show ?thesis by (simp add: unsigned_of_nat take_bit_nat_eq_self del: of_nat_add)
qed

lemma tag_pack_b128: "b128 (tag_pack i) = 8 * unat i" "varint (tag_pack i)"
proof -
  have "unat (push_bit 3 i) = 8 * unat i" if "i < 2 ^ 29"
    using that by (simp add: word_less_nat_alt push_bit_eq_mult unat_word_ariths)
  moreover have "unat (push_bit 3 (ucast i) :: u64) = 8 * unat i"
    using unsigned_less [of i, where 'a = nat]
    by (simp add: push_bit_eq_mult unat_word_ariths unsigned_ucast_eq take_bit_nat_eq_self)
  ultimately show "b128 (tag_pack i) = 8 * unat i" by (simp add: tag_pack_def)
  show "varint (tag_pack i)" by (simp add: tag_pack_def)
qed

lemma parse_tag_pack:
  assumes "unat w < 8"
  shows "parse_tag_and_wiretype (with_wire w (tag_pack i) @ rest) = Some (get_tag_size i, i, w)"
proof -
  obtain b bs where t: "tag_pack i = b # bs" using varint_nonempty [OF tag_pack_b128(2)] by (cases "tag_pack i") auto
  have v: "unat b mod 128 + 128 * b128 bs = 8 * unat i" using tag_pack_b128(1) [of i] t by simp
  then have b8: "unat b mod 8 = 0" by (rule multiple_of_8)
  note u = wire_bits [OF this assms]
  have m: "unat (b OR w) < 128 \<longleftrightarrow> unat b < 128" unfolding u by (rule wire_arith(1) [OF b8 assms])
  have five: "length bs \<le> 4" using length_tag_pack [of i] t by (simp add: get_tag_size_def split: if_splits)
  let ?s = "unat (b OR w) mod 128 div 8"
  have sum: "?s + 2 ^ 4 * b128 bs = unat i" using wire_arith(2) [OF b8 assms, of "b128 bs"] v u by simp
  have low: "(ucast (drop_bit 3 ((b OR w) AND 0x7f)) :: u32) = of_nat ?s"
  proof -
    have "unat (drop_bit 3 ((b OR w) AND 0x7f)) = ?s"
      by (simp add: unat_drop32 and_0x7f unsigned_of_nat take_bit_nat_eq_self)
    then show ?thesis by (metis of_nat_unat)
  qed
  have wire: "(b OR w) AND 7 = w"
  proof -
    have "unat ((b OR w) AND 7) = unat (b OR w) mod 8"
    proof -
      have "(7 :: u8) = mask 3" by (simp add: mask_eq_exp_minus_1)
      then have "(b OR w) AND 7 = take_bit 3 (b OR w)" by (simp only: take_bit_eq_mask)
      then show ?thesis by (simp only: unsigned_take_bit_eq) (simp only: take_bit_eq_mod, simp)
    qed
    also have "\<dots> = unat w" unfolding u by (rule wire_arith(3) [OF b8 assms])
    finally show ?thesis by (rule word_unat_eq_iff [THEN iffD2])
  qed
  show ?thesis
  proof (cases "bs = []")
    case True
    then have "b AND 0x80 = 0" using tag_pack_b128(2) [of i] t by simp
    then have "(b OR w) AND 0x80 = 0" using m by (simp add: and_0x80)
    moreover have "get_tag_size i = 1" using length_tag_pack [of i] t True by simp
    moreover have "of_nat ?s = i" using sum True by (metis b128.simps(1) add.right_neutral mult_0_right of_nat_unat ucast_id)
    ultimately show ?thesis using t True low wire by (simp add: parse_tag_and_wiretype_def)
  next
    case False
    then have "b AND 0x80 \<noteq> 0" "varint bs" using tag_pack_b128(2) [of i] t by (simp_all add: varint_Cons)
    then have c: "(b OR w) AND 0x80 \<noteq> 0" using m by (simp add: and_0x80)
    have "parse_tag_loop (of_nat ?s) 4 1 (bs @ take (4 - length bs) rest) =
        Some (1 + length bs, of_nat (?s + 2 ^ 4 * b128 bs))"
      by (rule parse_tag_loop_varint) (use \<open>varint bs\<close> in \<open>simp_all add: less_mult_imp_div_less\<close>)
    moreover have "1 + length bs = get_tag_size i" using length_tag_pack [of i] t by simp
    ultimately have "parse_tag_loop (of_nat ?s) 4 1 (bs @ take (4 - length bs) rest) = Some (get_tag_size i, i)"
      unfolding sum by simp
    moreover have "drop 1 (take 5 (with_wire w (tag_pack i) @ rest)) = bs @ take (4 - length bs) rest" using t five by simp
    ultimately show ?thesis using t c low wire by (simp add: parse_tag_and_wiretype_def del: drop_append)
  qed
qed

lemma scan_length_prefixed_pack:
  assumes "length bs < 2 ^ 32 - 5"
  shows "scan_length_prefixed_data (uint32_pack (of_nat (length bs)) @ bs @ rest) =
    Some (uint32_size (of_nat (length bs)) + length bs, uint32_size (of_nat (length bs)))"
proof -
  let ?n = "of_nat (length bs) :: u32"
  have n: "unat ?n = length bs" using assms by (simp add: unsigned_of_nat take_bit_nat_eq_self)
  have "scan_length_loop (of_nat 0) 0 0 (uint32_pack ?n @ take (5 - uint32_size ?n) (bs @ rest)) =
      Some (of_nat (0 + 2 ^ 0 * b128 (uint32_pack ?n)), 0 + length (uint32_pack ?n))"
    by (rule scan_length_loop_varint) simp_all
  then have "scan_length_loop 0 0 0 (take 5 (uint32_pack ?n @ bs @ rest)) = Some (?n, uint32_size ?n)"
    using size_bounds(2) [of ?n] n by simp
  moreover have "unat (of_nat (uint32_size ?n) + ?n) = uint32_size ?n + length bs"
    using assms size_bounds(2) [of ?n] by (simp add: unsigned_of_nat take_bit_nat_eq_self flip: of_nat_add)
  ultimately show ?thesis using size_bounds(1) [of ?n] by (simp add: scan_length_prefixed_data_def)
qed

section \<open>Members on the wire\<close>

text \<open>A packed message is a sequence of numbers with a wire type and data, as an unknown field is.\<close>

type_synonym wire_field = "u32 \<times> u8 \<times> u8 list"

definition data_of :: "wire_field list \<Rightarrow> u8 list" where
  "data_of us = concat (map unknown_field_pack us)"

lemma data_of_simps [simp]: "data_of [] = []" "data_of (u # us) = unknown_field_pack u @ data_of us"
    "data_of (us @ vs) = data_of us @ data_of vs"
  by (simp_all add: data_of_def)

definition prefix_len :: "u8 \<Rightarrow> u8 list \<Rightarrow> nat" where
  "prefix_len wire bs = (case scan_data wire bs of None \<Rightarrow> 0 | Some (n, p) \<Rightarrow> p)"

text \<open>The data of the field is scanned as a whole, whatever follows.\<close>

definition scans_whole :: "wire_field \<Rightarrow> bool" where
  "scans_whole u = (case u of (tag, wire, bs) \<Rightarrow>
     unat wire < 8 \<and> (\<forall>rest. scan_data wire (bs @ rest) = Some (length bs, prefix_len wire bs)))"

lemma scans_wholeI:
  assumes "unat wire < 8" "\<And>rest. scan_data wire (bs @ rest) = Some (length bs, p)"
  shows "scans_whole (tag, wire, bs) \<and> prefix_len wire bs = p"
  using assms(2) [of "[]"] assms by (simp add: scans_whole_def prefix_len_def)

lemma varint_scans_whole: "varint bs \<Longrightarrow> length bs \<le> 10 \<Longrightarrow> scans_whole (tag, WIRE_VARINT, bs)"
  using scans_wholeI [of WIRE_VARINT bs 0 tag] varint_nonempty [of bs]
  by (simp add: scan_data_def scan_varint_varint Let_def WIRE_VARINT_def)

lemma fixed_scans_whole:
  "length bs = 4 \<Longrightarrow> scans_whole (tag, WIRE_32BIT, bs)" "length bs = 8 \<Longrightarrow> scans_whole (tag, WIRE_64BIT, bs)"
  using scans_wholeI [of WIRE_32BIT bs 0 tag] scans_wholeI [of WIRE_64BIT bs 0 tag]
  by (simp_all add: scan_data_def wire_defs)

definition prefixed :: "u8 list \<Rightarrow> u8 list" where
  "prefixed bs = uint32_pack (of_nat (length bs)) @ bs"

lemma prefixed_scans_whole:
  assumes "length bs < 2 ^ 32 - 5"
  shows "scans_whole (tag, WIRE_LENGTH_PREFIXED, prefixed bs)"
    "prefix_len WIRE_LENGTH_PREFIXED (prefixed bs) = uint32_size (of_nat (length bs))"
  using scans_wholeI [of WIRE_LENGTH_PREFIXED "prefixed bs" "uint32_size (of_nat (length bs))" tag]
    scan_length_prefixed_pack [OF assms]
  by (simp_all add: scan_data_def wire_defs prefixed_def)

text \<open>The member that is scanned for it.\<close>

definition member_of :: "msg_desc \<Rightarrow> wire_field \<Rightarrow> u8 list \<Rightarrow> scanned_member" where
  "member_of D u rest = (case u of (tag, wire, bs) \<Rightarrow>
     \<lparr>sm_tag = tag, sm_wire_type = wire, sm_length_prefix_len = prefix_len wire bs,
      sm_field = int_range_lookup (md_ranges D) (sint tag), sm_len = length bs, sm_data = bs @ rest\<rparr>)"

fun members_of :: "msg_desc \<Rightarrow> wire_field list \<Rightarrow> u8 list \<Rightarrow> scanned_member list" where
  "members_of D [] rest = []"
| "members_of D (u # us) rest = member_of D u (data_of us @ rest) # members_of D us rest"

lemma members_of_append [simp]: "members_of D (us @ vs) rest = members_of D us (data_of vs @ rest) @ members_of D vs rest"
  by (induction us) simp_all

lemma sm_content_prefixed:
  assumes "length bs < 2 ^ 32 - 5"
  shows "sm_content (member_of D (tag, WIRE_LENGTH_PREFIXED, prefixed bs) rest) = Inr bs"
  using prefixed_scans_whole(2) [OF assms] by (simp add: sm_content_def member_of_def prefixed_def)

text \<open>Each field is found by its number.\<close>

definition numbered :: "field_desc list \<Rightarrow> (int \<times> nat) list \<Rightarrow> bool" where
  "numbered fs rs \<longleftrightarrow> (\<forall>v k. int_range_lookup rs v = Some k \<longleftrightarrow> k < length fs \<and> sint (fd_id (fs ! k)) = v)"

definition counted :: "msg_desc \<Rightarrow> wire_field \<Rightarrow> bool" where
  "counted D u \<longleftrightarrow> (\<forall>rest k. int_range_lookup (md_ranges D) (sint (fst u)) = Some k \<longrightarrow>
     (\<exists>c. member_count (md_fields D ! k) (member_of D u rest) = Inr c))"

lemma scan_member_of:
  assumes "numbered (md_fields D) (md_ranges D)" "scans_whole u" "counted D u" "n < max_scanned_members"
    "\<forall>k. last_field = Some k \<longrightarrow> k < length (md_fields D)"
  shows "\<exists>last_field'. scan_member D last_field n (unknown_field_pack u @ rest) = Inr (member_of D u rest, last_field', rest) \<and>
    (\<forall>k. last_field' = Some k \<longrightarrow> k < length (md_fields D))"
proof -
  obtain tag wire bs where u: "u = (tag, wire, bs)" by (cases u)
  let ?i = "int_range_lookup (md_ranges D) (sint tag)"
  have p: "parse_tag_and_wiretype (with_wire wire (tag_pack tag) @ bs @ rest) = Some (get_tag_size tag, tag, wire)"
    using parse_tag_pack [of wire tag "bs @ rest"] assms(2) u by (simp add: scans_whole_def)
  have found: "(case last_field of Some k \<Rightarrow> if fd_id (md_fields D ! k) = tag then Some k else ?i | None \<Rightarrow> ?i) = ?i"
  proof (cases "\<exists>k. last_field = Some k \<and> fd_id (md_fields D ! k) = tag")
    case True
    then obtain k where k: "last_field = Some k" "fd_id (md_fields D ! k) = tag" by blast
    then have "?i = Some k" using assms(1,5) by (simp add: numbered_def)
    with k show ?thesis by simp
  next
    case False
    then show ?thesis by (cases last_field) auto
  qed
  have count: "\<exists>c. (case ?i of None \<Rightarrow> Inr 0 | Some k \<Rightarrow> member_count (md_fields D ! k) (member_of D u rest)) = Inr c"
    using assms(3) u by (auto simp: counted_def split: option.split)
  have bound: "\<forall>k. ?i = Some k \<longrightarrow> k < length (md_fields D)" using assms(1) by (simp add: numbered_def)
  let ?l = "if ?i = None then last_field else ?i"
  have "scan_member D last_field n (unknown_field_pack u @ rest) = Inr (member_of D u rest, ?l, rest)"
    using p found count assms(2,4) u
    by (auto simp: unknown_field_pack_def scan_member_def Let_def scans_whole_def member_of_def)
  then show ?thesis using bound assms(5) by (intro exI [of _ ?l]) simp
qed

lemma scan_members_of:
  assumes "numbered (md_fields D) (md_ranges D)" "\<forall>u \<in> set us. scans_whole u \<and> counted D u"
    "n + length us \<le> max_scanned_members" "\<forall>k. last_field = Some k \<longrightarrow> k < length (md_fields D)"
  shows "scan_members D last_field n (data_of us) = Inr (members_of D us [])"
  using assms(2-4)
proof (induction us arbitrary: n last_field)
  case Nil
  then show ?case by (subst scan_members.simps) simp
next
  case (Cons u us)
  obtain tag wire bs where u: "u = (tag, wire, bs)" by (cases u)
  have "tag_pack tag \<noteq> []" using varint_nonempty [OF tag_pack_b128(2)] .
  then have "unknown_field_pack u @ data_of us \<noteq> []" using u by (cases "tag_pack tag") (auto simp: unknown_field_pack_def)
  moreover obtain last_field' where l: "scan_member D last_field n (unknown_field_pack u @ data_of us) =
      Inr (member_of D u (data_of us), last_field', data_of us)" "\<forall>k. last_field' = Some k \<longrightarrow> k < length (md_fields D)"
    using scan_member_of [OF assms(1), of u n last_field "data_of us"] Cons.prems by auto
  moreover have "scan_members D last_field' (n + 1) (data_of us) = Inr (members_of D us [])"
    using Cons.IH [of "n + 1" last_field'] Cons.prems l(2) by simp
  ultimately show ?case by (subst scan_members.simps) simp
qed

end
