(* ===== verification/Pb_Roundtrip.thy ===== *)
theory Pb_Roundtrip
  imports Pb_Wire
begin

unbundle bit_operations_syntax

text \<open>
  Unpacking a packed message of the Protocol Buffers runtime (\<^verbatim>\<open>protobuf-c.c\<close>) gives the message back.
\<close>

section \<open>Values\<close>

text \<open>A value of its type.  A string has no NUL before its end, a boolean is 0 or 1; \<open>sg\<close> holds of a good embedded
  message.\<close>

definition value_good :: "(pb_msg \<Rightarrow> bool) \<Rightarrow> pb_type \<Rightarrow> cell \<Rightarrow> bool" where
  "value_good sg t c =
     (case t of
        T_STRING \<Rightarrow> (\<exists>s. c = Str (Some s) \<and> c_str s = s)
      | T_BYTES \<Rightarrow> (\<exists>b. c = Bytes b)
      | T_MESSAGE \<Rightarrow> (\<exists>m. c = Sub (Some m) \<and> sg m)
      | T_BOOL \<Rightarrow> c = U32 0 \<or> c = U32 1
      | T_SINT64 \<Rightarrow> (\<exists>w. c = U64 w) | T_INT64 \<Rightarrow> (\<exists>w. c = U64 w) | T_UINT64 \<Rightarrow> (\<exists>w. c = U64 w)
      | T_SFIXED64 \<Rightarrow> (\<exists>w. c = U64 w) | T_FIXED64 \<Rightarrow> (\<exists>w. c = U64 w) | T_DOUBLE \<Rightarrow> (\<exists>w. c = U64 w)
      | _ \<Rightarrow> (\<exists>v. c = U32 v))"

definition unpacks_packed :: "(pb_msg \<Rightarrow> bool) \<Rightarrow> (pb_msg \<Rightarrow> u8 list option) \<Rightarrow> (u8 list \<Rightarrow> failure + pb_msg) \<Rightarrow> bool" where
  "unpacks_packed sg pk up \<longleftrightarrow> (\<forall>m bs. sg m \<longrightarrow> pk m = Some bs \<longrightarrow> length bs < 2 ^ 26 \<longrightarrow> up bs = Inr m)"

definition varint_type :: "pb_type \<Rightarrow> bool" where
  "varint_type t \<longleftrightarrow> t \<in> {T_ENUM, T_INT32, T_UINT32, T_SINT32, T_SINT64, T_INT64, T_UINT64}"

lemma varint_value:
  assumes "varint_type t" "value_good sg t c" "value_pack pk t c = Some bs"
  shows "varint bs" "length bs \<le> 10" "parse_varint t (length bs) (bs @ rest) = c"
proof -
  have l: "uint32_size v \<le> 10" "sint32_size v \<le> 10" "sint64_size w \<le> 10" for v w
    using size_bounds(2) [of v] size_bounds(2) [of "zigzag32 v"] size_bounds(6) by (simp_all add: sint32_size_def sint64_size_def)
  show "varint bs" "length bs \<le> 10" "parse_varint t (length bs) (bs @ rest) = c"
    using assms l size_bounds by (auto simp: varint_type_def value_good_def value_pack_def parse_varint_def)
qed

lemma string_bytes: "map (\<lambda>b. char_of (unat (b :: u8))) (map (\<lambda>c. of_nat (code c)) s) = s"
proof -
  have "char_of (unat (of_nat (code c) :: u8)) = c" for c
    by (simp add: code_def unsigned_of_nat take_bit_nat_eq_self)
  then show ?thesis by (induction s) simp_all
qed

lemma prefixed_eq:
  "string_pack (Some s) = prefixed (str_bytes s)" "binary_data_pack b = prefixed b"
  "prefixed_message_pack pk (Some m) = map_option prefixed (pk m)"
  by (simp_all add: string_pack_def binary_data_pack_def prefixed_message_pack_def prefixed_def [abs_def])

definition no_message :: "cell \<Rightarrow> bool" where
  "no_message c \<longleftrightarrow> (\<forall>m. c \<noteq> Sub (Some m))"

lemma value_roundtrip:
  assumes "value_good sg (fd_type f) c" "value_pack pk (fd_type f) c = Some bs" "length bs < 2 ^ 26"
    "unpacks_packed sg pk up" "mc \<longrightarrow> no_message old"
  shows "scans_whole (tag, wire_type_of (fd_type f), bs) \<and>
    parse_required_member up mg f (member_of D (tag, wire_type_of (fd_type f), bs) rest) old mc = Inr c"
proof -
  let ?t = "fd_type f"
  consider "varint_type ?t" | "wire_type_of ?t = WIRE_32BIT" | "wire_type_of ?t = WIRE_64BIT" | "?t = T_BOOL"
    | "wire_type_of ?t = WIRE_LENGTH_PREFIXED"
    by (cases ?t) (simp_all add: varint_type_def wire_type_of_def)
  then show ?thesis
  proof cases
    case 1
    then have "wire_type_of ?t = WIRE_VARINT" "?t \<noteq> T_BOOL"
      by (auto simp: varint_type_def wire_type_of_def)
    with varint_value [OF 1 assms(1,2)] varint_scans_whole [of bs tag] show ?thesis
      by (simp add: parse_required_member_def member_of_def wire_defs)
  next
    case 2
    then have "\<exists>v. c = U32 v \<and> bs = fixed32_pack v"
      using assms(1,2) by (cases ?t) (auto simp: wire_type_of_def wire_defs value_good_def value_pack_def)
    moreover have "?t \<noteq> T_BOOL" using 2 by (auto simp: wire_type_of_def wire_defs)
    ultimately show ?thesis using 2 fixed_scans_whole(1) [of bs tag]
      by (auto simp: parse_required_member_def member_of_def)
  next
    case 3
    then have "\<exists>v. c = U64 v \<and> bs = fixed64_pack v"
      using assms(1,2) by (cases ?t) (auto simp: wire_type_of_def wire_defs value_good_def value_pack_def)
    moreover have "?t \<noteq> T_BOOL" using 3 by (auto simp: wire_type_of_def wire_defs)
    ultimately show ?thesis using 3 fixed_scans_whole(2) [of bs tag]
      by (auto simp: parse_required_member_def member_of_def wire_defs)
  next
    case 4
    then obtain v where "c = U32 v" "v = 0 \<or> v = 1" "bs = boolean_pack v"
      using assms(1,2) by (auto simp: value_good_def value_pack_def)
    with 4 varint_scans_whole [of bs tag] parse_boolean_pack [of v rest] show ?thesis
      by (auto simp: parse_required_member_def member_of_def wire_type_of_def)
  next
    case 5
    then obtain ds where ds: "bs = prefixed ds"
        "(if ?t = T_STRING then Inr (Str (Some (map (\<lambda>b. char_of (unat b)) ds)))
          else if ?t = T_BYTES then Inr (Bytes ds) else and_then (up ds) (\<lambda>subm. Inr (Sub (Some subm)))) = Inr c"
    proof -
      have "\<exists>ds. bs = prefixed ds \<and> (if ?t = T_STRING then Inr (Str (Some (map (\<lambda>b. char_of (unat b)) ds)))
          else if ?t = T_BYTES then Inr (Bytes ds) else and_then (up ds) (\<lambda>subm. Inr (Sub (Some subm)))) = Inr c"
      proof (cases ?t)
        case T_STRING
        then obtain s where "c = Str (Some s)" "c_str s = s" "bs = prefixed (str_bytes s)"
          using assms(1,2) by (auto simp: value_good_def value_pack_def prefixed_eq)
        with T_STRING string_bytes [of s] show ?thesis by (auto simp: str_bytes_def)
      next
        case T_BYTES
        with assms(1,2) show ?thesis by (auto simp: value_good_def value_pack_def prefixed_eq)
      next
        case T_MESSAGE
        then obtain m ds where m: "c = Sub (Some m)" "sg m" "pk m = Some ds" "bs = prefixed ds"
          using assms(1,2) by (auto simp: value_good_def value_pack_def prefixed_eq)
        then have "length ds < 2 ^ 26" using assms(3) by (simp add: prefixed_def)
        with m assms(4) have "up ds = Inr m" by (simp add: unpacks_packed_def)
        with m T_MESSAGE show ?thesis by auto
      qed (use 5 in \<open>simp_all add: wire_type_of_def wire_defs\<close>)
      with that show thesis by blast
    qed
    then have "length ds < 2 ^ 32 - 5" using assms(3) by (simp add: prefixed_def)
    note p = prefixed_scans_whole(1) [OF this, of tag] sm_content_prefixed [OF this, of D tag rest]
    have "?t \<noteq> T_BOOL" "WIRE_LENGTH_PREFIXED \<noteq> WIRE_32BIT" "WIRE_LENGTH_PREFIXED \<noteq> WIRE_64BIT" "WIRE_LENGTH_PREFIXED \<noteq> WIRE_VARINT"
      using 5 by (auto simp: wire_type_of_def wire_defs)
    moreover have "sm_wire_type (member_of D (tag, WIRE_LENGTH_PREFIXED, prefixed ds) rest) = WIRE_LENGTH_PREFIXED"
      by (simp add: member_of_def)
    moreover have "(case old of Sub (Some earlier) \<Rightarrow> if mc then and_then (mg earlier subm) (\<lambda>m. Inr (Sub (Some m)))
        else Inr (Sub (Some subm)) | _ \<Rightarrow> Inr (Sub (Some subm))) = Inr (Sub (Some subm))" for subm
      using assms(5) by (auto simp: no_message_def split: cell.split option.split)
    ultimately show ?thesis using 5 p ds
      by (auto simp: parse_required_member_def Let_def split: if_splits)
  qed
qed

section \<open>Arrays\<close>

text \<open>What was written between two tags is the value of the field.\<close>

lemma required_field_pack_wire:
  "required_field_pack pk f c = Some bs \<longleftrightarrow>
     (\<exists>ds. value_pack pk (fd_type f) c = Some ds \<and> bs = unknown_field_pack (fd_id f, wire_type_of (fd_type f), ds))"
  by (auto simp: required_field_pack_def unknown_field_pack_def)

lemma concat_packed_Cons:
  "concat_packed g (c # cs) = Some bs \<longleftrightarrow> (\<exists>ds es. g c = Some ds \<and> concat_packed g cs = Some es \<and> bs = ds @ es)"
  by (auto split: Option.bind_splits)

lemma parse_packed_varints_pack:
  "varint_type t \<Longrightarrow> \<forall>c \<in> set cs. value_good sg t c \<Longrightarrow> concat_packed (value_pack pk t) cs = Some bs \<Longrightarrow>
     parse_packed_varints (parse_varint t) bs = Inr cs"
proof (induction cs arbitrary: bs)
  case Nil
  then show ?case by (subst parse_packed_varints.simps) simp
next
  case (Cons c cs)
  then obtain ds es where d: "value_pack pk t c = Some ds" "concat_packed (value_pack pk t) cs = Some es" "bs = ds @ es"
    by (auto simp: concat_packed_Cons simp del: concat_packed.simps)
  have g: "value_good sg t c" using Cons.prems(2) by simp
  note v = varint_value [OF Cons.prems(1) g d(1)]
  have "scan_varint (ds @ es) = length ds" using v(1,2) by (rule scan_varint_varint)
  with d v(3) Cons varint_nonempty [OF v(1)] show ?case
    by (subst parse_packed_varints.simps) (simp add: Let_def)
qed

lemma chunks_pack:
  assumes "\<And>c ds rest. P c \<Longrightarrow> g c = Some ds \<Longrightarrow> length ds = k \<and> h (ds @ rest) = c"
  shows "\<forall>c \<in> set cs. P c \<Longrightarrow> concat_packed g cs = Some bs \<Longrightarrow>
     length bs = k * length cs \<and> map (\<lambda>i. h (drop (k * i) bs)) [0..<length cs] = cs"
proof (induction cs arbitrary: bs)
  case Nil
  then show ?case by simp
next
  case (Cons c cs)
  then obtain ds es where d: "g c = Some ds" "concat_packed g cs = Some es" "bs = ds @ es"
    by (auto simp: concat_packed_Cons simp del: concat_packed.simps)
  then have l: "length ds = k" "h (ds @ es) = c" using assms [of c ds es] Cons.prems(1) by simp_all
  have "map (\<lambda>i. h (drop (k * i) bs)) [0..<length (c # cs)] =
      h bs # map (\<lambda>i. h (drop (k * i) es)) [0..<length cs]"
    using d(3) l(1) by (simp only: list.size(4) upt_conv_Cons zero_less_Suc map_Suc_upt [symmetric] list.map map_map comp_def add.right_neutral
      add_Suc_right) simp
  with Cons d l show ?case by simp
qed

lemma multiple_mod:
  assumes "length bs < 2 ^ 26" "k dvd length bs" "k < 2 ^ 26"
  shows "(of_nat (length bs) :: u64) mod of_nat k = 0"
proof -
  have "unat ((of_nat (length bs) :: u64) mod of_nat k) = length bs mod k"
    using assms(1,3) by (simp add: unat_mod_distrib unsigned_of_nat take_bit_nat_eq_self)
  then show ?thesis using assms(2) by (simp add: unat_eq_0_iff)
qed

lemma packed_roundtrip:
  assumes "is_packable_type (fd_type f)" "\<forall>c \<in> set cs. value_good sg (fd_type f) c"
    "concat_packed (value_pack pk (fd_type f)) cs = Some bs" "length bs < 2 ^ 26"
  shows "parse_packed_repeated_member f (member_of D (tag, WIRE_LENGTH_PREFIXED, prefixed bs) rest) = Inr cs \<and>
    (\<exists>n. count_packed_elements (fd_type f) (member_of D (tag, WIRE_LENGTH_PREFIXED, prefixed bs) rest) = Inr n)"
proof -
  let ?t = "fd_type f"
  let ?sm = "member_of D (tag, WIRE_LENGTH_PREFIXED, prefixed bs) rest"
  have l: "length bs < 2 ^ 32 - 5" using assms(4) by simp
  note c = sm_content_prefixed [OF l, of D tag rest]
  have len: "of_nat (sm_len ?sm) - of_nat (sm_length_prefix_len ?sm) = (of_nat (length bs) :: u64)"
    using prefixed_scans_whole(2) [OF l] by (simp add: member_of_def prefixed_def)
  consider "varint_type ?t" | "?t = T_SFIXED32 \<or> ?t = T_FIXED32 \<or> ?t = T_FLOAT"
    | "?t = T_SFIXED64 \<or> ?t = T_FIXED64 \<or> ?t = T_DOUBLE" | "?t = T_BOOL"
    using assms(1) by (cases ?t) (simp_all add: varint_type_def is_packable_type_def)
  then show ?thesis
  proof cases
    case 1
    with c parse_packed_varints_pack [OF 1 assms(2,3)] show ?thesis
      by (auto simp: parse_packed_repeated_member_def count_packed_elements_def Let_def varint_type_def is_packable_type_def)
  next
    case 2
    have "length bs = 4 * length cs \<and> map (\<lambda>i. U32 (parse_fixed_uint32 (drop (4 * i) bs))) [0..<length cs] = cs"
      by (rule chunks_pack [OF _ assms(2,3)]) (use 2 in \<open>auto simp: value_good_def value_pack_def\<close>)
    with 2 c len multiple_mod [OF assms(4), of 4] show ?thesis
      by (auto simp: parse_packed_repeated_member_def count_packed_elements_def Let_def)
  next
    case 3
    have "length bs = 8 * length cs \<and> map (\<lambda>i. U64 (parse_fixed_uint64 (drop (8 * i) bs))) [0..<length cs] = cs"
      by (rule chunks_pack [OF _ assms(2,3)]) (use 3 in \<open>auto simp: value_good_def value_pack_def\<close>)
    with 3 c len multiple_mod [OF assms(4), of 8] show ?thesis
      by (auto simp: parse_packed_repeated_member_def count_packed_elements_def Let_def)
  next
    case 4
    have "(\<forall>b \<in> set bs. \<not> b > 1) \<and> map (\<lambda>b. U32 (ucast b)) bs = cs"
      using assms(2,3)
    proof (induction cs arbitrary: bs)
      case (Cons c cs)
      then obtain ds es where d: "value_pack pk T_BOOL c = Some ds" "concat_packed (value_pack pk T_BOOL) cs = Some es" "bs = ds @ es"
        unfolding 4 concat_packed_Cons by blast
      moreover from this have "(\<forall>b \<in> set es. \<not> b > 1) \<and> map (\<lambda>b. U32 (ucast b)) es = cs"
        using Cons.IH [of es] Cons.prems(1) 4 by simp
      moreover have "c = U32 0 \<or> c = U32 1" using Cons.prems(1) 4 by (simp add: value_good_def)
      ultimately show ?case by (auto simp: value_pack_def boolean_pack_def)
    qed simp
    with 4 c show ?thesis
      by (auto simp: parse_packed_repeated_member_def count_packed_elements_def Let_def)
  qed
qed

section \<open>Fields\<close>

text \<open>Whether a field is packed at all.\<close>

definition present :: "field_desc \<Rightarrow> pb_msg \<Rightarrow> bool" where
  "present f m =
     (let c = members m (fd_offset f); q = members m (fd_quantifier f)
      in if fd_label f = REQUIRED then True
         else if fd_label f = REPEATED then c \<noteq> Arr []
         else if fd_oneof f then q = U32 (fd_id f)
         else if fd_label f = NO_LABEL then field_is_zeroish (fd_type f) c \<noteq> Some True
         else if pointer_type (fd_type f) then null_pointer (fd_type f) c \<noteq> Some True
         else q = U32 1)"

text \<open>A field of the right type.  A quantifier that the descriptor has is 1 when the
  field is there, also where its pointer would do.\<close>

definition field_good :: "(pb_msg \<Rightarrow> bool) \<Rightarrow> field_desc \<Rightarrow> pb_msg \<Rightarrow> bool" where
  "field_good sg f m \<longleftrightarrow>
     (let c = members m (fd_offset f); q = members m (fd_quantifier f)
      in if fd_label f = REPEATED then \<exists>cs. c = Arr cs \<and> (\<forall>c \<in> set cs. value_good sg (fd_type f) c)
         else (present f m \<longrightarrow> value_good sg (fd_type f) c) \<and>
              (fd_label f \<noteq> REQUIRED \<longrightarrow>
                 (if fd_oneof f then \<exists>v. q = U32 v
                  else if present f m then fd_quantifier f \<noteq> [] \<longrightarrow> q = U32 1
                  else fd_label f = OPTIONAL \<longrightarrow> \<not> pointer_type (fd_type f) \<longrightarrow> q = U32 0)))"

text \<open>The members a field writes, and what they must be before.\<close>

definition has_quantifier :: "field_desc \<Rightarrow> bool" where
  "has_quantifier f \<longleftrightarrow> (fd_label f = OPTIONAL \<or> fd_label f = NO_LABEL) \<and> (fd_oneof f \<or> fd_quantifier f \<noteq> [])"

definition writes :: "field_desc \<Rightarrow> string set" where
  "writes f = insert (fd_offset f) (if has_quantifier f then {fd_quantifier f} else {})"

definition ready :: "field_desc \<Rightarrow> pb_msg \<Rightarrow> bool" where
  "ready f m \<longleftrightarrow> (fd_label f = REPEATED \<longrightarrow> members m (fd_offset f) = Arr []) \<and> no_message (members m (fd_offset f)) \<and>
     (has_quantifier f \<longrightarrow> fd_oneof f \<longrightarrow> members m (fd_quantifier f) = U32 0)"

definition copy_field :: "field_desc \<Rightarrow> pb_msg \<Rightarrow> pb_msg \<Rightarrow> pb_msg" where
  "copy_field f m m0 = Msg (\<lambda>x. if x \<in> writes f then members m x else members m0 x) (unknown m0)"

definition field_layout :: "field_desc \<Rightarrow> bool" where
  "field_layout f \<longleftrightarrow> (has_quantifier f \<longrightarrow> fd_offset f \<noteq> fd_quantifier f) \<and> fd_id f \<noteq> 0 \<and>
     (fd_packed f \<longrightarrow> is_packable_type (fd_type f))"

lemma members_put [simp]: "members (put x c m) = (members m)(x := c)" "unknown (put x c m) = unknown m"
  by (cases m; simp)+

lemma pb_msg_eqI: "(\<And>x. members m x = members m' x) \<Longrightarrow> unknown m = unknown m' \<Longrightarrow> m = m'"
  by (cases m; cases m') (auto simp: fun_eq_iff)

lemma not_packed_member: "\<not> fd_packed f \<Longrightarrow> \<not> packed_member f (wire_type_of (fd_type f))"
  by (cases "fd_type f") (simp_all add: packed_member_def wire_type_of_def wire_defs is_packable_type_def)

text \<open>The context of the lemmas: field \<open>k\<close> of a descriptor and the functions of its embedded messages.\<close>

definition field_context :: "msg_desc \<Rightarrow> nat \<Rightarrow> (pb_msg \<Rightarrow> bool) \<Rightarrow> (pb_msg \<Rightarrow> u8 list option) \<Rightarrow>
    (u8 list \<Rightarrow> failure + pb_msg) \<Rightarrow> field_desc \<Rightarrow> bool" where
  "field_context D k sg pk up f \<longleftrightarrow> md_fields D ! k = f \<and> int_range_lookup (md_ranges D) (sint (fd_id f)) = Some k \<and>
     field_layout f \<and> unpacks_packed sg pk up"

definition token :: "field_desc \<Rightarrow> u8 list \<Rightarrow> wire_field" where
  "token f ds = (fd_id f, wire_type_of (fd_type f), ds)"

lemma sm_member_of:
  assumes "field_context D k sg pk up f"
  shows "sm_field (member_of D (fd_id f, w, ds) rest) = Some k" "sm_tag (member_of D (fd_id f, w, ds) rest) = fd_id f"
    "sm_wire_type (member_of D (fd_id f, w, ds) rest) = w" "md_fields D ! k = f"
  using assms by (simp_all add: field_context_def member_of_def)

text \<open>A field with one value.\<close>

lemma single_member:
  assumes "field_context D k sg pk up f" "ups ! k = up" "fd_label f \<noteq> REPEATED"
    "value_good sg (fd_type f) (members m (fd_offset f))" "present f m" "field_good sg f m"
    "value_pack pk (fd_type f) (members m (fd_offset f)) = Some ds" "length ds < 2 ^ 26" "ready f m0"
  shows "parse_member ups mgs D (member_of D (token f ds) rest) m0 = Inr (copy_field f m m0)"
proof -
  let ?c = "members m (fd_offset f)"
  have up: "unpacks_packed sg pk up" "field_layout f" using assms(1) by (simp_all add: field_context_def)
  have "no_message (members m0 (fd_offset f))" using assms(9) by (simp add: ready_def)
  then have v: "parse_required_member up (mgs ! k) f (member_of D (token f ds) rest) (members m0 (fd_offset f)) True = Inr ?c"
    unfolding token_def using value_roundtrip [OF assms(4,7,8) up(1)] by simp
  note s = sm_member_of(1-3) [OF assms(1), of "wire_type_of (fd_type f)" ds rest, folded token_def] sm_member_of(4) [OF assms(1)]
  show ?thesis
  proof (cases "fd_label f = REQUIRED")
    case True
    with s v assms(2) show ?thesis
      by (auto simp: parse_member_def copy_field_def writes_def has_quantifier_def intro!: pb_msg_eqI)
  next
    case False
    with assms(3) have l: "fd_label f = OPTIONAL \<or> fd_label f = NO_LABEL" by (cases "fd_label f") simp_all
    show ?thesis
    proof (cases "fd_oneof f")
      case True
      then have "members m0 (fd_quantifier f) = U32 0" "members m (fd_quantifier f) = U32 (fd_id f)"
        using assms(5,9) l by (auto simp: ready_def has_quantifier_def present_def)
      with True l s v assms(2) up(2) show ?thesis
        by (auto simp: parse_member_def parse_oneof_member_def copy_field_def writes_def has_quantifier_def field_layout_def
            intro!: pb_msg_eqI)
    next
      case False
      then have "fd_quantifier f \<noteq> [] \<Longrightarrow> members m (fd_quantifier f) = U32 1"
        using assms(5,6) l by (auto simp: field_good_def)
      with False l s v assms(2) up(2) show ?thesis
        by (auto simp: parse_member_def parse_optional_member_def copy_field_def writes_def has_quantifier_def field_layout_def
            intro!: pb_msg_eqI)
    qed
  qed
qed

text \<open>The wire fields of a field: they are its own, and they are scanned as they were written.\<close>

definition wire_fields_of :: "msg_desc \<Rightarrow> field_desc \<Rightarrow> wire_field list \<Rightarrow> bool" where
  "wire_fields_of D f us \<longleftrightarrow> (\<forall>u \<in> set us. fst u = fd_id f \<and> scans_whole u \<and> counted D u)"

lemma counted_single:
  assumes "field_context D k sg pk up f" "fd_label f = REPEATED \<longrightarrow> \<not> fd_packed f"
  shows "counted D (token f ds)"
  using assms not_packed_member [of f] by (auto simp: counted_def token_def field_context_def member_count_def member_of_def)

lemma repeated_members:
  assumes "field_context D k sg pk up f" "ups ! k = up" "fd_label f = REPEATED" "\<not> fd_packed f"
  shows "\<forall>c \<in> set cs. value_good sg (fd_type f) c \<Longrightarrow> concat_packed (required_field_pack pk f) cs = Some bs \<Longrightarrow>
    length bs < 2 ^ 26 \<Longrightarrow>
    \<exists>us. bs = data_of us \<and> length us = length cs \<and> wire_fields_of D f us \<and>
      (\<forall>pre m0 rest. members m0 (fd_offset f) = Arr pre \<longrightarrow>
         parse_members (parse_member ups mgs D) (members_of D us rest) m0 = Inr (put (fd_offset f) (Arr (pre @ cs)) m0))"
proof (induction cs arbitrary: bs)
  case Nil
  then show ?case by (auto simp: wire_fields_of_def intro!: exI [of _ "[]"] pb_msg_eqI)
next
  case (Cons c cs)
  have up: "unpacks_packed sg pk up" using assms(1) by (simp add: field_context_def)
  obtain ds es where d: "value_pack pk (fd_type f) c = Some ds" "concat_packed (required_field_pack pk f) cs = Some es"
      "bs = unknown_field_pack (token f ds) @ es"
    using Cons.prems(2) unfolding concat_packed_Cons required_field_pack_wire token_def by blast
  then have l: "length ds < 2 ^ 26" "length es < 2 ^ 26"
    using Cons.prems(3) by (simp_all add: unknown_field_pack_def token_def)
  obtain us where us: "es = data_of us" "length us = length cs" "wire_fields_of D f us"
      "\<forall>pre m0 rest. members m0 (fd_offset f) = Arr pre \<longrightarrow>
         parse_members (parse_member ups mgs D) (members_of D us rest) m0 = Inr (put (fd_offset f) (Arr (pre @ cs)) m0)"
    using Cons.IH [OF _ d(2) l(2)] Cons.prems(1) by auto
  have v: "scans_whole (token f ds)"
      "parse_required_member up mg f (member_of D (token f ds) rest) (Sub None) False = Inr c" for rest mg
    unfolding token_def using value_roundtrip [OF _ d(1) l(1) up, where mc = False] Cons.prems(1) by simp_all
  have "parse_member ups mgs D (member_of D (token f ds) rest) m0 = Inr (put (fd_offset f) (Arr (pre @ [c])) m0)"
    if "members m0 (fd_offset f) = Arr pre" for pre m0 rest
    using that v(2) assms sm_member_of(1-3) [OF assms(1), of "wire_type_of (fd_type f)" ds rest, folded token_def]
      sm_member_of(4) [OF assms(1)]
      not_packed_member [OF assms(4)]
    by (simp add: parse_member_def parse_repeated_member_def)
  then have "parse_members (parse_member ups mgs D) (members_of D (token f ds # us) rest) m0 =
      Inr (put (fd_offset f) (Arr (pre @ c # cs)) m0)" if "members m0 (fd_offset f) = Arr pre" for pre m0 rest
    using that us(4) by (auto intro!: pb_msg_eqI)
  moreover have "wire_fields_of D f (token f ds # us)"
    using us(3) v(1) counted_single [OF assms(1)] assms(4) by (simp add: wire_fields_of_def token_def)
  ultimately show ?case using d(3) us(1,2) by (intro exI [of _ "token f ds # us"]) auto
qed

lemma copy_absent: "\<not> present f m \<Longrightarrow> fd_label f = REPEATED \<Longrightarrow> members m (fd_offset f) = Arr []"
  by (simp add: present_def Let_def)

text \<open>Packing a field that is there gives wire fields that parse to it; one that is absent gives none.\<close>

lemma field_roundtrip:
  assumes "field_context D k sg pk up f" "ups ! k = up" "field_good sg f m" "field_pack pk f m = Some bs" "length bs < 2 ^ 26"
  shows "\<exists>us. bs = data_of us \<and> wire_fields_of D f us \<and> (us \<noteq> [] \<longleftrightarrow> present f m) \<and>
    (\<forall>m0 rest. ready f m0 \<longrightarrow> parse_members (parse_member ups mgs D) (members_of D us rest) m0 =
       Inr (if present f m then copy_field f m m0 else m0))"
proof (cases "fd_label f = REPEATED")
  case True
  then obtain cs where cs: "members m (fd_offset f) = Arr cs" "\<forall>c \<in> set cs. value_good sg (fd_type f) c"
    using assms(3) by (auto simp: field_good_def)
  have p: "repeated_field_pack pk f (Arr cs) = Some bs" using assms(4) True cs(1) by (simp add: field_pack_def)
  have layout: "field_layout f" using assms(1) by (simp add: field_context_def)
  have copy: "put (fd_offset f) (Arr cs) m0 = (if present f m then copy_field f m m0 else m0)" if "ready f m0" for m0
    using that True cs(1) by (auto simp: present_def ready_def copy_field_def writes_def has_quantifier_def intro!: pb_msg_eqI)
  show ?thesis
  proof (cases "fd_packed f \<and> cs \<noteq> []")
    case False
    then have "concat_packed (required_field_pack pk f) cs = Some bs" "\<not> fd_packed f \<or> cs = []"
      using p by (auto simp: repeated_field_pack_def split: if_splits)
    then show ?thesis
    proof (cases "cs = []")
      case True
      with \<open>concat_packed _ cs = Some bs\<close> copy cs(1) \<open>fd_label f = REPEATED\<close> show ?thesis
        by (intro exI [of _ "[]"]) (simp add: wire_fields_of_def present_def)
    next
      case False
      with repeated_members [OF assms(1,2) True _ cs(2) _ assms(5), of mgs]
        \<open>concat_packed _ cs = Some bs\<close> \<open>\<not> fd_packed f \<or> cs = []\<close>
      obtain us where us: "bs = data_of us" "length us = length cs" "wire_fields_of D f us"
        "\<forall>pre m0 rest. members m0 (fd_offset f) = Arr pre \<longrightarrow>
           parse_members (parse_member ups mgs D) (members_of D us rest) m0 = Inr (put (fd_offset f) (Arr (pre @ cs)) m0)"
        by blast
      moreover have "us \<noteq> [] \<longleftrightarrow> present f m" using us(2) False True cs(1) by (auto simp: present_def)
      moreover have "parse_members (parse_member ups mgs D) (members_of D us rest) m0 =
          Inr (if present f m then copy_field f m m0 else m0)" if "ready f m0" for m0 rest
        using us(4) that True copy [OF that] by (auto simp: ready_def)
      ultimately show ?thesis by blast
    qed
  next
    case packed: True
    then have t: "is_packable_type (fd_type f)" using layout by (simp add: field_layout_def)
    obtain payload where pl: "concat_packed (value_pack pk (fd_type f)) cs = Some payload"
        "bs = unknown_field_pack (fd_id f, WIRE_LENGTH_PREFIXED, prefixed payload)"
      using p packed t by (auto simp: repeated_field_pack_def unknown_field_pack_def prefixed_def Let_def split: Option.bind_splits if_splits)
    let ?u = "(fd_id f, WIRE_LENGTH_PREFIXED, prefixed payload)"
    have l: "length payload < 2 ^ 26" using pl(2) assms(5) by (simp add: unknown_field_pack_def prefixed_def)
    then have s: "scans_whole ?u" by (intro prefixed_scans_whole) simp
    note r = packed_roundtrip [OF t cs(2) pl(1) l]
    note sm = sm_member_of(4) [OF assms(1)] sm_member_of(1-3) [OF assms(1), of WIRE_LENGTH_PREFIXED "prefixed payload"]
    have pm: "packed_member f WIRE_LENGTH_PREFIXED" using packed by (simp add: packed_member_def)
    have "counted D ?u"
      using r sm pm True assms(1) by (auto simp: counted_def member_count_def field_context_def)
    moreover have "parse_member ups mgs D (member_of D ?u rest) m0 = Inr (put (fd_offset f) (Arr cs) m0)"
      if "ready f m0" for m0 rest
      using that r sm pm True by (simp add: parse_member_def parse_repeated_member_def ready_def)
    ultimately show ?thesis using pl s copy True packed cs(1)
      by (intro exI [of _ "[?u]"]) (simp add: wire_fields_of_def present_def)
  qed
next
  case False
  let ?c = "members m (fd_offset f)"
  have label: "fd_label f = REQUIRED \<or> fd_label f = OPTIONAL \<or> fd_label f = NO_LABEL" using False by (cases "fd_label f") simp_all
  show ?thesis
  proof (cases "present f m")
    case True
    then have v: "value_good sg (fd_type f) ?c" using assms(3) False by (simp add: field_good_def Let_def)
    have nn: "null_pointer (fd_type f) ?c \<noteq> Some True" if "pointer_type (fd_type f)"
      using that v by (auto simp: pointer_type_def null_pointer_def value_good_def)
    have "required_field_pack pk f ?c = Some bs"
      using assms(4) True label v nn
      by (auto simp: field_pack_def present_def Let_def oneof_field_pack_def optional_field_pack_def unlabeled_field_pack_def
          split: Option.bind_splits if_splits)
    then obtain ds where ds: "value_pack pk (fd_type f) ?c = Some ds" "bs = unknown_field_pack (token f ds)"
      unfolding required_field_pack_wire token_def by blast
    then have l: "length ds < 2 ^ 26" using assms(5) by (simp add: unknown_field_pack_def token_def)
    have up: "unpacks_packed sg pk up" using assms(1) by (simp add: field_context_def)
    have "scans_whole (token f ds)"
      unfolding token_def using value_roundtrip [OF v ds(1) l up, where mc = False] by simp
    moreover have "parse_member ups mgs D (member_of D (token f ds) rest) m0 = Inr (copy_field f m m0)" if "ready f m0" for m0 rest
      by (rule single_member [OF assms(1,2) False v True assms(3) ds(1) l that])
    ultimately show ?thesis using ds(2) True False counted_single [OF assms(1)]
      by (intro exI [of _ "[token f ds]"]) (simp add: wire_fields_of_def token_def)
  next
    case absent: False
    have "fd_label f \<noteq> REQUIRED" using absent by (auto simp: present_def)
    then consider "fd_oneof f" "fd_label f = OPTIONAL \<or> fd_label f = NO_LABEL" | "\<not> fd_oneof f" "fd_label f = OPTIONAL"
      | "\<not> fd_oneof f" "fd_label f = NO_LABEL"
      using label by blast
    then have "bs = []"
    proof cases
      case 1
      then obtain v where "members m (fd_quantifier f) = U32 v" "v \<noteq> fd_id f"
        using assms(3) absent by (auto simp: field_good_def present_def)
      with 1 assms(4) show ?thesis by (auto simp: field_pack_def oneof_field_pack_def)
    next
      case 2
      show ?thesis
      proof (cases "pointer_type (fd_type f)")
        case True
        with 2 absent have "null_pointer (fd_type f) ?c = Some True" by (simp add: present_def)
        with 2 True assms(4) show ?thesis by (simp add: field_pack_def optional_field_pack_def)
      next
        case ptr: False
        with 2 absent assms(3) have "members m (fd_quantifier f) = U32 0" by (simp add: field_good_def)
        with 2 ptr assms(4) show ?thesis by (simp add: field_pack_def optional_field_pack_def)
      qed
    next
      case 3
      with absent have "field_is_zeroish (fd_type f) ?c = Some True" by (simp add: present_def)
      with 3 assms(4) show ?thesis by (simp add: field_pack_def unlabeled_field_pack_def)
    qed
    with absent show ?thesis by (intro exI [of _ "[]"]) (simp add: wire_fields_of_def)
  qed
qed

section \<open>Messages\<close>

text \<open>Different fields write different members, but for those of one union.\<close>

definition compatible :: "field_desc \<Rightarrow> field_desc \<Rightarrow> bool" where
  "compatible f g \<longleftrightarrow> writes f \<inter> writes g = {} \<or>
     has_quantifier f \<and> has_quantifier g \<and> fd_oneof f \<and> fd_oneof g \<and> fd_quantifier f = fd_quantifier g"

definition layout_ok :: "field_desc list \<Rightarrow> bool" where
  "layout_ok fs \<longleftrightarrow> (\<forall>f \<in> set fs. field_layout f) \<and>
     (\<forall>i < length fs. \<forall>j < length fs. i \<noteq> j \<longrightarrow> compatible (fs ! i) (fs ! j))"

fun desc_ok :: "msg_desc \<Rightarrow> bool"
  and fields_ok :: "field_desc list \<Rightarrow> bool"
  and sub_ok :: "msg_desc option \<Rightarrow> bool" where
  "desc_ok (Msg_desc nm fs rs) = (numbered fs rs \<and> layout_ok fs \<and> fields_ok fs)"
| "fields_ok [] = True"
| "fields_ok (Field_desc nm i l t q off sub pk one # fs) = (sub_ok sub \<and> fields_ok fs)"
| "sub_ok None = True"
| "sub_ok (Some D) = desc_ok D"

text \<open>All fields are good, what no field writes is as it was initialised, and unknown fields are
  unknown.\<close>

fun message_good :: "msg_desc \<Rightarrow> pb_msg \<Rightarrow> bool"
  and fields_good :: "field_desc list \<Rightarrow> pb_msg \<Rightarrow> bool"
  and sub_good :: "msg_desc option \<Rightarrow> pb_msg \<Rightarrow> bool" where
  "message_good (Msg_desc nm fs rs) m =
     (fields_good fs m \<and>
      (\<forall>x. members m x \<noteq> members (message_init (Msg_desc nm fs rs)) x \<longrightarrow> (\<exists>f \<in> set fs. present f m \<and> x \<in> writes f)) \<and>
      (\<forall>u \<in> set (unknown m). int_range_lookup rs (sint (fst u)) = None \<and> scans_whole u))"
| "fields_good [] m = True"
| "fields_good (Field_desc nm i l t q off sub pk one # fs) m =
     (field_good (\<lambda>m'. sub_good sub m') (Field_desc nm i l t q off sub pk one) m \<and> fields_good fs m)"
| "sub_good None m = False"
| "sub_good (Some D) m = message_good D m"

lemma fields_good_iff: "fields_good fs m \<longleftrightarrow> (\<forall>f \<in> set fs. field_good (sub_good (fd_sub f)) f m)"
proof (induction fs)
  case (Cons f fs)
  then show ?case by (cases f) simp
qed simp

lemma fields_ok_iff: "fields_ok fs \<longleftrightarrow> (\<forall>f \<in> set fs. sub_ok (fd_sub f))"
proof (induction fs)
  case (Cons f fs)
  then show ?case by (cases f) simp
qed simp

lemma fields_pack_Cons: "fields_pack (f # fs) m = do {
    bs \<leftarrow> field_pack (submessage_pack (fd_sub f)) f m; ds \<leftarrow> fields_pack fs m; Some (bs @ ds) }"
  by (cases f) simp

lemma unpackers_eq: "unpackers fs = map (\<lambda>f. submessage_unpack (fd_sub f)) fs"
proof (induction fs)
  case (Cons f fs)
  then show ?case by (cases f) simp
qed simp

text \<open>The initial message is ready for every field.\<close>

lemma init_members:
  assumes "x \<notin> fd_offset ` set fs \<Longrightarrow> P (mem x)" "\<And>f. f \<in> set fs \<Longrightarrow> fd_offset f = x \<Longrightarrow> P (zero_cell f)"
  shows "P (fold (\<lambda>f mem. mem(fd_offset f := zero_cell f)) fs mem x)"
  using assms
proof (induction fs arbitrary: mem)
  case (Cons f fs)
  show ?case unfolding fold.simps comp_def
    by (rule Cons.IH) (use Cons.prems in auto)
qed simp

lemma no_message_zero: "no_message (zero_cell f)"
  by (simp add: no_message_def zero_cell_def split: pb_type.split)

lemma offset_writes: "fd_offset f \<in> writes f"
  by (simp add: writes_def)

lemma init_ready:
  assumes "layout_ok fs" "f \<in> set fs"
  shows "ready f (message_init (Msg_desc nm fs rs))"
proof -
  have layout: "field_layout g" if "g \<in> set fs" for g using that assms(1) by (simp add: layout_ok_def)
  have comp: "compatible f g \<or> f = g" if "g \<in> set fs" for g
    using that assms by (auto simp: layout_ok_def in_set_conv_nth)
  have "members (message_init (Msg_desc nm fs rs)) (fd_offset f) = Arr []" if l: "fd_label f = REPEATED"
    unfolding message_init_def pb_msg.sel msg_desc.sel
  proof (rule init_members)
    show "fd_offset f \<notin> fd_offset ` set fs \<Longrightarrow> U32 0 = Arr []" using assms(2) by simp
    fix g assume g: "g \<in> set fs" "fd_offset g = fd_offset f"
    then have "writes f \<inter> writes g \<noteq> {}" using offset_writes [of f] offset_writes [of g] by auto
    then have "g = f" using comp [OF g(1)] l by (auto simp: compatible_def has_quantifier_def)
    then show "zero_cell g = Arr []" using l by (simp add: zero_cell_def)
  qed
  moreover have "no_message (members (message_init (Msg_desc nm fs rs)) (fd_offset f))"
    unfolding message_init_def pb_msg.sel msg_desc.sel
    by (rule init_members) (simp_all add: no_message_zero, simp add: no_message_def)
  moreover have "members (message_init (Msg_desc nm fs rs)) (fd_quantifier f) = U32 0" if q: "has_quantifier f" "fd_oneof f"
    unfolding message_init_def pb_msg.sel msg_desc.sel
  proof (rule init_members)
    fix g assume g: "g \<in> set fs" "fd_offset g = fd_quantifier f"
    then have "writes f \<inter> writes g \<noteq> {}" using q(1) offset_writes [of g] by (auto simp: writes_def)
    then have "g = f \<or> has_quantifier g \<and> fd_quantifier g = fd_quantifier f" using comp [OF g(1)] by (auto simp: compatible_def)
    with layout [OF g(1)] q(1) g(2) show "zero_cell g = U32 0" by (auto simp: field_layout_def)
  qed simp
  ultimately show ?thesis by (simp add: ready_def)
qed

text \<open>A member of a union that is there excludes the others.\<close>

lemma present_disjoint:
  assumes "compatible f g" "fd_id f \<noteq> fd_id g" "present f m" "present g m"
  shows "writes f \<inter> writes g = {}"
  using assms by (auto simp: compatible_def present_def has_quantifier_def Let_def)

lemma ready_cong:
  "(\<And>x. x \<in> writes f \<Longrightarrow> members m x = members m' x) \<Longrightarrow> ready f m \<Longrightarrow> ready f m'"
  by (auto simp: ready_def writes_def)

definition copy_fields :: "field_desc list \<Rightarrow> pb_msg \<Rightarrow> pb_msg \<Rightarrow> pb_msg" where
  "copy_fields fs m m0 =
     Msg (\<lambda>x. if \<exists>f \<in> set fs. present f m \<and> x \<in> writes f then members m x else members m0 x) (unknown m0)"

lemma copy_fields_Cons:
  "copy_fields (f # fs) m m0 = copy_fields fs m (if present f m then copy_field f m m0 else m0)"
  by (rule pb_msg_eqI) (auto simp: copy_fields_def copy_field_def)

lemma parse_members_append: "parse_members g (xs @ ys) m = and_then (parse_members g xs m) (parse_members g ys)"
proof (induction xs arbitrary: m)
  case (Cons x xs)
  then show ?case by (cases "g x m") simp_all
qed simp

definition in_context :: "msg_desc \<Rightarrow> field_desc \<Rightarrow> bool" where
  "in_context D f \<longleftrightarrow> (\<exists>k < length (md_fields D).
     field_context D k (sub_good (fd_sub f)) (submessage_pack (fd_sub f)) (submessage_unpack (fd_sub f)) f)"

lemma fields_roundtrip:
  assumes "\<forall>f \<in> set fs. in_context D f \<and> field_good (sub_good (fd_sub f)) f m"
    "sorted_wrt (\<lambda>f g. present f m \<longrightarrow> present g m \<longrightarrow> writes f \<inter> writes g = {}) fs"
    "fields_pack fs m = Some bs" "length bs < 2 ^ 26"
  shows "\<exists>us. bs = data_of us \<and> (\<forall>u \<in> set us. scans_whole u \<and> counted D u) \<and>
    (\<forall>f \<in> set fs. present f m \<longrightarrow> fd_id f \<in> fst ` set us) \<and>
    (\<forall>m0 rest. (\<forall>f \<in> set fs. present f m \<longrightarrow> ready f m0) \<longrightarrow>
       parse_members (parse_member (unpackers (md_fields D)) mgs D) (members_of D us rest) m0 = Inr (copy_fields fs m m0))"
  using assms
proof (induction fs arbitrary: bs)
  case Nil
  then show ?case by (intro exI [of _ "[]"]) (auto simp: copy_fields_def intro!: pb_msg_eqI)
next
  case (Cons f fs)
  let ?ups = "unpackers (md_fields D)"
  obtain k where k: "field_context D k (sub_good (fd_sub f)) (submessage_pack (fd_sub f)) (submessage_unpack (fd_sub f)) f"
      "k < length (md_fields D)"
    using Cons.prems(1) by (auto simp: in_context_def)
  then have up: "?ups ! k = submessage_unpack (fd_sub f)" by (simp add: unpackers_eq field_context_def)
  obtain ds es where d: "field_pack (submessage_pack (fd_sub f)) f m = Some ds" "fields_pack fs m = Some es" "bs = ds @ es"
    using Cons.prems(3) by (auto simp: fields_pack_Cons simp del: fields_pack.simps split: Option.bind_splits)
  then have l: "length ds < 2 ^ 26" "length es < 2 ^ 26" using Cons.prems(4) by simp_all
  have good: "field_good (sub_good (fd_sub f)) f m" using Cons.prems(1) by simp
  obtain us where us: "ds = data_of us" "wire_fields_of D f us" "us \<noteq> [] \<longleftrightarrow> present f m"
      "\<forall>m0 rest. ready f m0 \<longrightarrow> parse_members (parse_member ?ups mgs D) (members_of D us rest) m0 =
         Inr (if present f m then copy_field f m m0 else m0)"
    using field_roundtrip [OF k(1) up good d(1) l(1), of mgs] by blast
  obtain vs where vs: "es = data_of vs" "\<forall>u \<in> set vs. scans_whole u \<and> counted D u"
      "\<forall>f \<in> set fs. present f m \<longrightarrow> fd_id f \<in> fst ` set vs"
      "\<forall>m0 rest. (\<forall>f \<in> set fs. present f m \<longrightarrow> ready f m0) \<longrightarrow>
         parse_members (parse_member ?ups mgs D) (members_of D vs rest) m0 = Inr (copy_fields fs m m0)"
    using Cons.IH [OF _ _ d(2) l(2)] Cons.prems(1,2) by auto
  have first: "parse_members (parse_member ?ups mgs D) (members_of D us rest) m0 =
      Inr (if present f m then copy_field f m m0 else m0)" if "present f m \<longrightarrow> ready f m0" for m0 rest
    using that us(3,4) by (cases "present f m") auto
  have "parse_members (parse_member ?ups mgs D) (members_of D (us @ vs) rest) m0 = Inr (copy_fields (f # fs) m m0)"
    if r: "\<forall>f \<in> set (f # fs). present f m \<longrightarrow> ready f m0" for m0 rest
  proof -
    let ?m1 = "if present f m then copy_field f m m0 else m0"
    have "\<forall>g \<in> set fs. present g m \<longrightarrow> ready g ?m1"
    proof (intro ballI impI)
      fix g assume g: "g \<in> set fs" "present g m"
      then have disj: "present f m \<longrightarrow> writes f \<inter> writes g = {}" using Cons.prems(2) by simp
      have "ready g m0" using g r by simp
      moreover have "members m0 x = members ?m1 x" if "x \<in> writes g" for x
        using that disj by (cases "present f m") (auto simp: copy_field_def)
      ultimately show "ready g ?m1" by (rule ready_cong [rotated])
    qed
    then have "parse_members (parse_member ?ups mgs D) (members_of D vs rest) ?m1 = Inr (copy_fields fs m ?m1)"
      using vs(4) by blast
    moreover have "parse_members (parse_member ?ups mgs D) (members_of D us (data_of vs @ rest)) m0 = Inr ?m1"
      using r by (intro first) simp
    ultimately show ?thesis by (simp only: members_of_append parse_members_append and_then.simps copy_fields_Cons)
  qed
  moreover have "fd_id f \<in> fst ` set us" if "present f m"
    using that us(2,3) by (cases us) (auto simp: wire_fields_of_def)
  moreover have "bs = data_of (us @ vs)" using d(3) us(1) vs(1) by simp
  moreover have "\<forall>u \<in> set (us @ vs). scans_whole u \<and> counted D u" using us(2) vs(2) by (auto simp: wire_fields_of_def)
  moreover have "\<forall>g \<in> set (f # fs). present g m \<longrightarrow> fd_id g \<in> fst ` set (us @ vs)"
    using calculation(2) vs(3) by (auto simp: image_Un)
  ultimately show ?case by blast
qed

lemma parse_unknown:
  "\<forall>u \<in> set us. int_range_lookup (md_ranges D) (sint (fst u)) = None \<Longrightarrow>
     parse_members (parse_member ups mgs D) (members_of D us rest) m = Inr (Msg (members m) (unknown m @ us))"
proof (induction us arbitrary: m)
  case Nil
  then show ?case by (cases m) simp
next
  case (Cons u us)
  obtain tag wire bs where "u = (tag, wire, bs)" by (cases u)
  with Cons show ?case by (cases m) (simp add: parse_member_def member_of_def)
qed

lemma members_of_fields: "sm_field ` set (members_of D us rest) = (\<lambda>u. int_range_lookup (md_ranges D) (sint (fst u))) ` set us"
  by (induction us) (auto simp: member_of_def split: prod.splits)

lemma length_data_of: "length us \<le> length (data_of us)"
proof (induction us)
  case (Cons u us)
  obtain tag wire bs where "u = (tag, wire, bs)" by (cases u)
  moreover have "1 \<le> get_tag_size tag" by (simp add: get_tag_size_def)
  ultimately have "1 \<le> length (unknown_field_pack u)" by (simp add: unknown_field_pack_def)
  with Cons show ?case by simp
qed simp

lemma message_roundtrip:
  fixes nm fs rs
  defines "D \<equiv> Msg_desc nm fs rs"
  assumes "desc_ok D" "message_good D m" "protobuf_c_message_pack D m = Some bs" "length bs < 2 ^ 26"
    "\<forall>f \<in> set fs. unpacks_packed (sub_good (fd_sub f)) (submessage_pack (fd_sub f)) (submessage_unpack (fd_sub f))"
  shows "protobuf_c_message_unpack D bs = Inr m"
proof -
  have ok: "numbered fs rs" "layout_ok fs" "fields_ok fs" using assms(2) by (simp_all add: D_def)
  have good: "\<forall>f \<in> set fs. field_good (sub_good (fd_sub f)) f m"
      "\<forall>x. members m x \<noteq> members (message_init D) x \<longrightarrow> (\<exists>f \<in> set fs. present f m \<and> x \<in> writes f)"
      "\<forall>u \<in> set (unknown m). int_range_lookup rs (sint (fst u)) = None \<and> scans_whole u"
    using assms(3) by (simp_all add: D_def fields_good_iff)
  obtain ds where ds: "fields_pack fs m = Some ds" "bs = ds @ data_of (unknown m)"
    using assms(4) by (auto simp: D_def data_of_def split: Option.bind_splits)
  have ctx: "\<forall>f \<in> set fs. in_context D f"
  proof
    fix f assume f: "f \<in> set fs"
    then obtain k where "k < length fs" "fs ! k = f" by (auto simp: in_set_conv_nth)
    with ok assms(6) f show "in_context D f"
      by (auto simp: in_context_def field_context_def D_def numbered_def layout_ok_def intro!: exI [of _ k])
  qed
  have "sorted_wrt (\<lambda>f g. present f m \<longrightarrow> present g m \<longrightarrow> writes f \<inter> writes g = {}) fs"
    unfolding sorted_wrt_iff_nth_less
  proof (intro allI impI)
    fix i j assume ij: "i < j" "j < length fs" "present (fs ! i) m" "present (fs ! j) m"
    then have "compatible (fs ! i) (fs ! j)" using ok(2) by (simp add: layout_ok_def)
    moreover have "fd_id (fs ! i) \<noteq> fd_id (fs ! j)"
    proof
      assume e: "fd_id (fs ! i) = fd_id (fs ! j)"
      have "int_range_lookup rs (sint (fd_id (fs ! j))) = Some i" using ok(1) ij e by (simp add: numbered_def)
      moreover have "int_range_lookup rs (sint (fd_id (fs ! j))) = Some j" using ok(1) ij by (simp add: numbered_def)
      ultimately show False using ij(1) by simp
    qed
    ultimately show "writes (fs ! i) \<inter> writes (fs ! j) = {}" by (rule present_disjoint [OF _ _ ij(3,4)])
  qed
  with ctx good(1) ds assms(5) obtain us where us: "ds = data_of us" "\<forall>u \<in> set us. scans_whole u \<and> counted D u"
      "\<forall>f \<in> set fs. present f m \<longrightarrow> fd_id f \<in> fst ` set us"
      "\<forall>m0 rest. (\<forall>f \<in> set fs. present f m \<longrightarrow> ready f m0) \<longrightarrow>
         parse_members (parse_member (unpackers fs) (mergers fs) D) (members_of D us rest) m0 = Inr (copy_fields fs m m0)"
    using fields_roundtrip [of fs D m ds "mergers fs"] by (auto simp: D_def)
  let ?us = "us @ unknown m"
  have bs: "bs = data_of ?us" using us(1) ds(2) by simp
  have unk: "\<forall>u \<in> set (unknown m). scans_whole u \<and> counted D u"
    using good(3) by (simp add: counted_def D_def)
  have "0 + length ?us \<le> max_scanned_members"
    using length_data_of [of ?us] bs assms(5) by (simp add: max_scanned_members_def)
  then have scan: "scan_members D (if fs = [] then None else Some 0) 0 bs = Inr (members_of D ?us [])"
    unfolding bs by (intro scan_members_of) (use ok(1) us(2) unk in \<open>auto simp: D_def\<close>)
  have req: "required_fields_set D (members_of D ?us [])"
    unfolding required_fields_set_def
  proof (intro allI impI)
    fix k assume k: "k < length (md_fields D)" "fd_label (md_fields D ! k) = REQUIRED"
    then have "present (fs ! k) m" "fs ! k \<in> set fs" by (simp_all add: present_def D_def)
    then obtain u where "u \<in> set us" "fst u = fd_id (fs ! k)" using us(3) by force
    moreover have "int_range_lookup rs (sint (fd_id (fs ! k))) = Some k" using ok(1) k(1) by (simp add: numbered_def D_def)
    ultimately show "Some k \<in> sm_field ` set (members_of D ?us [])"
      unfolding members_of_fields by (force simp: D_def)
  qed
  have "parse_members (parse_member (unpackers fs) (mergers fs) D) (members_of D ?us []) (message_init D) =
      Inr (Msg (members (copy_fields fs m (message_init D))) (unknown (copy_fields fs m (message_init D)) @ unknown m))"
    using us(4) init_ready [OF ok(2)] good(3) parse_unknown [of "unknown m" D]
    by (simp add: parse_members_append D_def)
  also have "Msg (members (copy_fields fs m (message_init D))) (unknown (copy_fields fs m (message_init D)) @ unknown m) = m"
  proof (rule pb_msg_eqI)
    fix x
    show "members (Msg (members (copy_fields fs m (message_init D))) (unknown (copy_fields fs m (message_init D)) @ unknown m)) x =
        members m x"
      using good(2) by (cases "members m x = members (message_init D) x") (auto simp: copy_fields_def)
  qed (simp add: copy_fields_def message_init_def)
  finally show ?thesis using scan req by (simp add: D_def unpack_with_def)
qed


lemma unpack_pack_all:
  "desc_ok D \<Longrightarrow> message_good D m \<Longrightarrow> protobuf_c_message_pack D m = Some bs \<Longrightarrow> length bs < 2 ^ 26 \<Longrightarrow>
     protobuf_c_message_unpack D bs = Inr m"
  "fields_ok fs \<Longrightarrow> f \<in> set fs \<Longrightarrow> unpacks_packed (sub_good (fd_sub f)) (submessage_pack (fd_sub f)) (submessage_unpack (fd_sub f))"
  "sub_ok sub \<Longrightarrow> unpacks_packed (sub_good sub) (submessage_pack sub) (submessage_unpack sub)"
proof (induction D and fs and sub arbitrary: m bs and f rule: desc_ok_fields_ok_sub_ok.induct)
  case (1 nm fs rs)
  then show ?case by (intro message_roundtrip) auto
next
  case (3 nm i l t q off sub pk one fs)
  then show ?case by auto
next
  case (5 D)
  then show ?case by (simp add: unpacks_packed_def)
qed (simp_all add: unpacks_packed_def)

section \<open>Good messages are packed\<close>

lemma value_good_size:
  assumes "value_good sg t c" "\<forall>m. sg m \<longrightarrow> (\<exists>n. sz m = Some n)"
  shows "\<exists>n. value_size sz t c = Some n \<and> element_size sz t c = Some n"
proof -
  have "\<exists>n. value_size sz t c = Some n"
    using assms by (cases t) (auto simp: value_good_def value_size_def)
  moreover have "c \<noteq> Str None" "c \<noteq> Sub None"
    using assms(1) by (cases t; auto simp: value_good_def)+
  then have "element_size sz t c = value_size sz t c" by (simp add: element_size_def split: cell.split option.split)
  ultimately show ?thesis by simp
qed

lemma sum_sizes_defined: "\<forall>c \<in> set cs. \<exists>n. g c = Some n \<Longrightarrow> \<exists>n. sum_sizes g cs = Some n"
  by (induction cs) auto

lemma field_good_size:
  assumes "field_good sg f m" "\<forall>m. sg m \<longrightarrow> (\<exists>n. sz m = Some n)"
  shows "\<exists>n. field_size sz f m = Some n"
proof (cases "fd_label f = REPEATED")
  case True
  then obtain cs where cs: "members m (fd_offset f) = Arr cs" "\<forall>c \<in> set cs. value_good sg (fd_type f) c"
    using assms(1) by (auto simp: field_good_def)
  then have "\<exists>n. sum_sizes (element_size sz (fd_type f)) cs = Some n"
    using value_good_size [OF _ assms(2)] by (blast intro: sum_sizes_defined)
  with True cs(1) show ?thesis by (auto simp: field_size_def repeated_field_get_packed_size_def Let_def)
next
  case False
  let ?c = "members m (fd_offset f)"
  have label: "fd_label f = REQUIRED \<or> fd_label f = OPTIONAL \<or> fd_label f = NO_LABEL" using False by (cases "fd_label f") simp_all
  show ?thesis
  proof (cases "present f m")
    case True
    then have v: "value_good sg (fd_type f) ?c" using assms(1) False by (simp add: field_good_def Let_def)
    then obtain n where n: "required_field_get_packed_size sz f ?c = Some n"
      using value_good_size [OF v assms(2)] by (auto simp: required_field_get_packed_size_def)
    have nn: "null_pointer (fd_type f) ?c = Some False" if "pointer_type (fd_type f)"
      using that v by (auto simp: pointer_type_def null_pointer_def value_good_def)
    have z: "\<exists>z. field_is_zeroish (fd_type f) ?c = Some z"
      using v by (cases "fd_type f") (auto simp: field_is_zeroish_def value_good_def)
    have q: "as_u32 (members m (fd_quantifier f)) = Some (fd_id f)" if "fd_oneof f" "fd_label f = OPTIONAL \<or> fd_label f = NO_LABEL"
      using True that by (auto simp: present_def)
    have q1: "as_u32 (members m (fd_quantifier f)) = Some 1" if "\<not> fd_oneof f" "fd_label f = OPTIONAL" "\<not> pointer_type (fd_type f)"
      using True that by (auto simp: present_def)
    consider "fd_label f = REQUIRED" | "fd_oneof f" "fd_label f = OPTIONAL \<or> fd_label f = NO_LABEL"
      | "\<not> fd_oneof f" "fd_label f = OPTIONAL" | "\<not> fd_oneof f" "fd_label f = NO_LABEL"
      using label by blast
    then show ?thesis
    proof cases
      case 1
      with n show ?thesis by (simp add: field_size_def)
    next
      case 2
      with n q nn show ?thesis by (cases "pointer_type (fd_type f)") (auto simp: field_size_def oneof_field_get_packed_size_def Let_def)
    next
      case 3
      with n q1 nn show ?thesis
        by (cases "pointer_type (fd_type f)") (auto simp: field_size_def optional_field_get_packed_size_def)
    next
      case 4
      with n z show ?thesis by (auto simp: field_size_def unlabeled_field_get_packed_size_def)
    qed
  next
    case absent: False
    then have "fd_label f \<noteq> REQUIRED" by (auto simp: present_def)
    then consider "fd_oneof f" "fd_label f = OPTIONAL \<or> fd_label f = NO_LABEL" | "\<not> fd_oneof f" "fd_label f = OPTIONAL"
      | "\<not> fd_oneof f" "fd_label f = NO_LABEL"
      using label by blast
    then show ?thesis
    proof cases
      case 1
      then obtain v where "members m (fd_quantifier f) = U32 v" "v \<noteq> fd_id f"
        using assms(1) absent by (auto simp: field_good_def present_def)
      with 1 show ?thesis by (auto simp: field_size_def oneof_field_get_packed_size_def)
    next
      case 2
      with absent assms(1) show ?thesis
        by (cases "pointer_type (fd_type f)")
          (auto simp: field_size_def optional_field_get_packed_size_def present_def field_good_def)
    next
      case 3
      with absent show ?thesis by (auto simp: field_size_def unlabeled_field_get_packed_size_def present_def)
    qed
  qed
qed

lemma fields_size_Cons: "fields_size (f # fs) m = do {
    n \<leftarrow> field_size (submessage_size (fd_sub f)) f m; k \<leftarrow> fields_size fs m; Some (n + k) }"
  by (cases f) simp

lemma good_size:
  "message_good D m \<Longrightarrow> \<exists>n. protobuf_c_message_get_packed_size D m = Some n"
  "fields_good fs m \<Longrightarrow> \<exists>n. fields_size fs m = Some n"
  "sub_good sub m \<Longrightarrow> \<exists>n. submessage_size sub m = Some n"
proof (induction D m and fs m and sub m rule: message_good_fields_good_sub_good.induct)
  case (3 nm i l t q off sub pk one fs m)
  let ?f = "Field_desc nm i l t q off sub pk one"
  have "\<exists>n. field_size (submessage_size sub) ?f m = Some n"
    using field_good_size [of "sub_good sub" ?f m "submessage_size sub"] 3 by simp
  with 3 show ?case unfolding fields_size_Cons by auto
qed auto

lemma desc_packed_scalars:
  "desc_ok D \<Longrightarrow> packed_scalars D"
  "fields_ok fs \<Longrightarrow> (\<forall>f \<in> set fs. field_layout f) \<Longrightarrow> packed_fields fs"
  "sub_ok sub \<Longrightarrow> packed_sub sub"
  by (induction D and fs and sub rule: desc_ok_fields_ok_sub_ok.induct) (auto simp: layout_ok_def field_layout_def)

lemma unpack_pack_holds:
  assumes "desc_ok D" "message_good D m"
  shows "\<exists>n. protobuf_c_message_get_packed_size D m = Some n \<and>
    (n < 2 ^ 26 \<longrightarrow> (\<exists>bs. protobuf_c_message_pack D m = Some bs \<and> length bs = n \<and> protobuf_c_message_unpack D bs = Inr m))"
proof -
  obtain n where n: "protobuf_c_message_get_packed_size D m = Some n" using good_size(1) [OF assms(2)] by blast
  moreover have "\<exists>bs. protobuf_c_message_pack D m = Some bs \<and> length bs = n \<and> protobuf_c_message_unpack D bs = Inr m"
    if l: "n < 2 ^ 26"
    using packs_its_size(1) [OF desc_packed_scalars(1) [OF assms(1)] n] unpack_pack_all(1) [OF assms] l by fastforce
  ultimately show ?thesis by blast
qed

text \<open>C7. A message of the Protocol Buffers runtime whose members are of their types, and that is below 64 MiB when packed,
  is packed into exactly as many bytes as its size was computed to be, and unpacking them gives the
  message back.\<close>

theorem unpack_pack:
  assumes "desc_ok D" "message_good D m"
  shows "\<exists>n. protobuf_c_message_get_packed_size D m = Some n \<and>
    (n < 2 ^ 26 \<longrightarrow> (\<exists>bs. protobuf_c_message_pack D m = Some bs \<and> length bs = n \<and> protobuf_c_message_unpack D bs = Inr m))"
  using assms by (rule unpack_pack_holds)

end
