(* ===== verification/Pb_Messages.thy ===== *)
theory Pb_Messages
  imports Pb_Roundtrip
begin

unbundle bit_operations_syntax

text \<open>
  The messages of \<^verbatim>\<open>analysis.proto\<close>: their descriptors (\<^verbatim>\<open>analysis.pb-c.c\<close>), the functions the program calls on
  them, and the members of the request structs (\<^verbatim>\<open>analysis.pb-c.h\<close>) that the connection handler reads.
\<close>

section \<open>Descriptors\<close>

definition analysis__protocol__descriptor :: msg_desc where
  "analysis__protocol__descriptor = Msg_desc ''analysis.Protocol''
     [Field_desc ''id'' 1 REQUIRED T_STRING [] ''id'' None False False,
      Field_desc ''activeMetrics'' 2 REQUIRED T_UINT32 [] ''activemetrics'' None False False,
      Field_desc ''clientIp'' 3 OPTIONAL T_UINT32 ''has_clientip'' ''clientip'' None False False,
      Field_desc ''clientPorts'' 4 REPEATED T_UINT32 ''n_clientports'' ''clientports'' None False False,
      Field_desc ''serverIp'' 5 OPTIONAL T_UINT32 ''has_serverip'' ''serverip'' None False False,
      Field_desc ''serverPorts'' 6 REPEATED T_UINT32 ''n_serverports'' ''serverports'' None False False]
     [(1, 0), (0, 6)]"

definition analysis__net_int__descriptor :: msg_desc where
  "analysis__net_int__descriptor = Msg_desc ''analysis.NetInt''
     [Field_desc ''id'' 1 REQUIRED T_STRING [] ''id'' None False False,
      Field_desc ''protocols'' 2 REPEATED T_MESSAGE ''n_protocols'' ''protocols'' (Some analysis__protocol__descriptor) False False]
     [(1, 0), (0, 2)]"

definition analysis__init__descriptor :: msg_desc where
  "analysis__init__descriptor = Msg_desc ''analysis.Init''
     [Field_desc ''netInts'' 1 REPEATED T_MESSAGE ''n_netints'' ''netints'' (Some analysis__net_int__descriptor) False False,
      Field_desc ''interval'' 2 REQUIRED T_UINT32 [] ''interval'' None False False,
      Field_desc ''duration'' 3 REQUIRED T_UINT32 [] ''duration'' None False False]
     [(1, 0), (0, 3)]"

definition analysis__freq__descriptor :: msg_desc where
  "analysis__freq__descriptor = Msg_desc ''analysis.Freq''
     [Field_desc ''name'' 1 REQUIRED T_STRING [] ''name'' None False False,
      Field_desc ''freq'' 2 REQUIRED T_DOUBLE [] ''freq'' None False False]
     [(1, 0), (0, 2)]"

definition analysis__data__descriptor :: msg_desc where
  "analysis__data__descriptor = Msg_desc ''analysis.Data''
     [Field_desc ''time'' 1 REQUIRED T_INT64 [] ''time'' None False False,
      Field_desc ''netInt'' 2 REQUIRED T_STRING [] ''netint'' None False False,
      Field_desc ''rstAvg'' 3 OPTIONAL T_DOUBLE ''has_rstavg'' ''rstavg'' None False False,
      Field_desc ''rstMin'' 4 OPTIONAL T_DOUBLE ''has_rstmin'' ''rstmin'' None False False,
      Field_desc ''rstMax'' 5 OPTIONAL T_DOUBLE ''has_rstmax'' ''rstmax'' None False False,
      Field_desc ''rstClient'' 6 OPTIONAL T_DOUBLE ''has_rstclient'' ''rstclient'' None False False,
      Field_desc ''errRate'' 7 OPTIONAL T_DOUBLE ''has_errrate'' ''errrate'' None False False,
      Field_desc ''errRateMin'' 8 OPTIONAL T_DOUBLE ''has_errratemin'' ''errratemin'' None False False,
      Field_desc ''errRateMax'' 9 OPTIONAL T_DOUBLE ''has_errratemax'' ''errratemax'' None False False,
      Field_desc ''errRateClient'' 10 OPTIONAL T_DOUBLE ''has_errrateclient'' ''errrateclient'' None False False,
      Field_desc ''reqRate'' 11 OPTIONAL T_DOUBLE ''has_reqrate'' ''reqrate'' None False False,
      Field_desc ''reqRateMin'' 12 OPTIONAL T_DOUBLE ''has_reqratemin'' ''reqratemin'' None False False,
      Field_desc ''reqRateMax'' 13 OPTIONAL T_DOUBLE ''has_reqratemax'' ''reqratemax'' None False False,
      Field_desc ''reqRateClient'' 14 OPTIONAL T_DOUBLE ''has_reqrateclient'' ''reqrateclient'' None False False,
      Field_desc ''connRate'' 15 OPTIONAL T_DOUBLE ''has_connrate'' ''connrate'' None False False,
      Field_desc ''connRateMin'' 16 OPTIONAL T_DOUBLE ''has_connratemin'' ''connratemin'' None False False,
      Field_desc ''connRateMax'' 17 OPTIONAL T_DOUBLE ''has_connratemax'' ''connratemax'' None False False,
      Field_desc ''client'' 18 REPEATED T_MESSAGE ''n_client'' ''client'' (Some analysis__freq__descriptor) False False,
      Field_desc ''req_path'' 19 REPEATED T_MESSAGE ''n_req_path'' ''req_path'' (Some analysis__freq__descriptor) False False,
      Field_desc ''req_method'' 20 REPEATED T_MESSAGE ''n_req_method'' ''req_method'' (Some analysis__freq__descriptor) False False,
      Field_desc ''req_type'' 21 REPEATED T_MESSAGE ''n_req_type'' ''req_type'' (Some analysis__freq__descriptor) False False,
      Field_desc ''rsp_status'' 22 REPEATED T_MESSAGE ''n_rsp_status'' ''rsp_status'' (Some analysis__freq__descriptor) False False,
      Field_desc ''tpAvg'' 23 OPTIONAL T_DOUBLE ''has_tpavg'' ''tpavg'' None False False,
      Field_desc ''tpMin'' 24 OPTIONAL T_DOUBLE ''has_tpmin'' ''tpmin'' None False False,
      Field_desc ''tpMax'' 25 OPTIONAL T_DOUBLE ''has_tpmax'' ''tpmax'' None False False,
      Field_desc ''tpRevAvg'' 26 OPTIONAL T_DOUBLE ''has_tprevavg'' ''tprevavg'' None False False,
      Field_desc ''tpRevMin'' 27 OPTIONAL T_DOUBLE ''has_tprevmin'' ''tprevmin'' None False False,
      Field_desc ''tpRevMax'' 28 OPTIONAL T_DOUBLE ''has_tprevmax'' ''tprevmax'' None False False]
     [(1, 0), (0, 28)]"

definition analysis__metric_avg_msg__descriptor :: msg_desc where
  "analysis__metric_avg_msg__descriptor = Msg_desc ''analysis.MetricAvgMsg''
     [Field_desc ''avg'' 5 REQUIRED T_DOUBLE [] ''avg'' None False False,
      Field_desc ''min'' 6 REQUIRED T_DOUBLE [] ''min'' None False False,
      Field_desc ''max'' 7 REQUIRED T_DOUBLE [] ''max'' None False False]
     [(5, 0), (0, 3)]"

definition analysis__metric_cum_distr_msg__descriptor :: msg_desc where
  "analysis__metric_cum_distr_msg__descriptor = Msg_desc ''analysis.MetricCumDistrMsg''
     [Field_desc ''freqs'' 1 REPEATED T_MESSAGE ''n_freqs'' ''freqs'' (Some analysis__freq__descriptor) False False]
     [(1, 0), (0, 1)]"

definition analysis__metric_msg__descriptor :: msg_desc where
  "analysis__metric_msg__descriptor = Msg_desc ''analysis.MetricMsg''
     [Field_desc ''name'' 1 REQUIRED T_STRING [] ''name'' None False False,
      Field_desc ''netInt'' 2 REQUIRED T_STRING [] ''netint'' None False False,
      Field_desc ''netIntId'' 3 REQUIRED T_UINT32 [] ''netintid'' None False False,
      Field_desc ''protocol'' 4 REQUIRED T_STRING [] ''protocol'' None False False,
      Field_desc ''protocolId'' 5 REQUIRED T_UINT32 [] ''protocolid'' None False False,
      Field_desc ''time'' 6 REQUIRED T_INT64 [] ''time'' None False False,
      Field_desc ''clientId'' 7 REQUIRED T_INT64 [] ''clientid'' None False False,
      Field_desc ''metricAvg'' 8 OPTIONAL T_MESSAGE ''values_case'' ''values'' (Some analysis__metric_avg_msg__descriptor) False True,
      Field_desc ''metricCumDistr'' 9 OPTIONAL T_MESSAGE ''values_case'' ''values'' (Some analysis__metric_cum_distr_msg__descriptor) False True]
     [(1, 0), (0, 9)]"

definition analysis__close__descriptor :: msg_desc where
  "analysis__close__descriptor = Msg_desc ''analysis.Close''
     []
     []"

lemmas descriptor_defs = analysis__protocol__descriptor_def analysis__net_int__descriptor_def analysis__init__descriptor_def
  analysis__freq__descriptor_def analysis__data__descriptor_def analysis__metric_avg_msg__descriptor_def
  analysis__metric_cum_distr_msg__descriptor_def analysis__metric_msg__descriptor_def analysis__close__descriptor_def

text \<open>The functions generated for the messages that are packed and unpacked.\<close>

definition analysis__init__unpack :: "u8 list \<Rightarrow> failure + pb_msg" where
  "analysis__init__unpack data = protobuf_c_message_unpack analysis__init__descriptor data"

definition analysis__init__pack :: "pb_msg \<Rightarrow> u8 list option" where
  "analysis__init__pack m = protobuf_c_message_pack analysis__init__descriptor m"

definition analysis__metric_msg__get_packed_size :: "pb_msg \<Rightarrow> nat option" where
  "analysis__metric_msg__get_packed_size m = protobuf_c_message_get_packed_size analysis__metric_msg__descriptor m"

definition analysis__metric_msg__pack :: "pb_msg \<Rightarrow> u8 list option" where
  "analysis__metric_msg__pack m = protobuf_c_message_pack analysis__metric_msg__descriptor m"

definition analysis__metric_msg__unpack :: "u8 list \<Rightarrow> failure + pb_msg" where
  "analysis__metric_msg__unpack data = protobuf_c_message_unpack analysis__metric_msg__descriptor data"

section \<open>The descriptors are well-formed\<close>

lemma numbered_single:
  assumes "map (\<lambda>f. sint (fd_id f)) fs = map (\<lambda>k. s + int k) [0..<length fs]" "n = length fs"
  shows "numbered fs [(s, 0), (0, n)]"
proof -
  have ids: "sint (fd_id (fs ! k)) = s + int k" if "k < length fs" for k
    using arg_cong [OF assms(1), of "\<lambda>xs. xs ! k"] that by simp
  have "int_range_lookup [(s, 0), (0, n)] v = (if s \<le> v \<and> v < s + int n then Some (nat (v - s)) else None)" for v
    by (simp add: int_range_lookup_def int_range_lookup_loop.simps)
  with ids show ?thesis by (auto simp: numbered_def assms(2))
qed

lemma compatible_sym: "compatible f g \<Longrightarrow> compatible g f"
  by (auto simp: compatible_def)

lemma layout_ok_sorted: "layout_ok fs \<longleftrightarrow> (\<forall>f \<in> set fs. field_layout f) \<and> sorted_wrt compatible fs"
proof -
  have "(\<forall>i < length fs. \<forall>j < length fs. i \<noteq> j \<longrightarrow> compatible (fs ! i) (fs ! j))" if s: "sorted_wrt compatible fs"
  proof (intro allI impI)
    fix i j assume "i < length fs" "j < length fs" "i \<noteq> j"
    then consider "i < j" "j < length fs" | "j < i" "i < length fs" by linarith
    then show "compatible (fs ! i) (fs ! j)"
      by cases (use s in \<open>auto simp: sorted_wrt_iff_nth_less intro: compatible_sym\<close>)
  qed
  then show ?thesis by (auto simp: layout_ok_def sorted_wrt_iff_nth_less)
qed

text \<open>Enough when nothing is shared.\<close>

definition written :: "field_desc \<Rightarrow> string list" where
  "written f = fd_offset f # (if has_quantifier f then [fd_quantifier f] else [])"

lemma layout_ok_distinct:
  assumes "\<forall>f \<in> set fs. field_layout f" "distinct (concat (map written fs))"
  shows "layout_ok fs"
  unfolding layout_ok_sorted
proof (intro conjI assms(1))
  have w: "writes f = set (written f)" for f by (simp add: writes_def written_def)
  show "sorted_wrt compatible fs"
    using assms(2) by (induction fs) (auto simp: compatible_def w)
qed

lemmas layout_simps = field_layout_def has_quantifier_def is_packable_type_def written_def

lemma protocol_ok: "desc_ok analysis__protocol__descriptor"
  by (simp add: analysis__protocol__descriptor_def numbered_single layout_ok_distinct layout_simps)

lemma net_int_ok: "desc_ok analysis__net_int__descriptor"
  by (simp add: analysis__net_int__descriptor_def numbered_single layout_ok_distinct layout_simps protocol_ok)

lemma init_ok: "desc_ok analysis__init__descriptor"
  by (simp add: analysis__init__descriptor_def numbered_single layout_ok_distinct layout_simps net_int_ok)

lemma freq_ok: "desc_ok analysis__freq__descriptor"
  by (simp add: analysis__freq__descriptor_def numbered_single layout_ok_distinct layout_simps)

lemma metric_avg_msg_ok: "desc_ok analysis__metric_avg_msg__descriptor"
  by (simp add: analysis__metric_avg_msg__descriptor_def numbered_single layout_ok_distinct layout_simps)

lemma metric_cum_distr_msg_ok: "desc_ok analysis__metric_cum_distr_msg__descriptor"
  by (simp add: analysis__metric_cum_distr_msg__descriptor_def numbered_single layout_ok_distinct layout_simps freq_ok)

lemma metric_msg_ok: "desc_ok analysis__metric_msg__descriptor"
  by (simp add: analysis__metric_msg__descriptor_def numbered_single layout_ok_sorted layout_simps metric_avg_msg_ok
      metric_cum_distr_msg_ok compatible_def writes_def)

lemma data_ok: "desc_ok analysis__data__descriptor"
  by (simp add: analysis__data__descriptor_def numbered_single layout_ok_distinct layout_simps freq_ok)

lemma close_ok: "desc_ok analysis__close__descriptor"
  by (simp add: analysis__close__descriptor_def numbered_def layout_ok_def int_range_lookup_def int_range_lookup_loop.simps)

section \<open>Structs\<close>

text \<open>A struct that is initialised and then assigned some members.\<close>

definition struct_of :: "msg_desc \<Rightarrow> (string \<times> cell) list \<Rightarrow> pb_msg" where
  "struct_of D kvs = Msg (\<lambda>x. case map_of kvs x of Some c \<Rightarrow> c | None \<Rightarrow> members (message_init D) x) []"

lemma struct_good:
  assumes "fields_good fs (struct_of (Msg_desc nm fs rs) kvs)"
    "\<forall>(x, c) \<in> set kvs. c = members (message_init (Msg_desc nm fs rs)) x \<or>
       (\<exists>f \<in> set fs. present f (struct_of (Msg_desc nm fs rs) kvs) \<and> x \<in> writes f)"
  shows "message_good (Msg_desc nm fs rs) (struct_of (Msg_desc nm fs rs) kvs)"
proof -
  let ?m = "struct_of (Msg_desc nm fs rs) kvs"
  have "\<exists>f \<in> set fs. present f ?m \<and> x \<in> writes f" if d: "members ?m x \<noteq> members (message_init (Msg_desc nm fs rs)) x" for x
  proof -
    obtain c where c: "map_of kvs x = Some c" "c \<noteq> members (message_init (Msg_desc nm fs rs)) x"
      using d by (auto simp: struct_of_def split: option.splits)
    with assms(2) show ?thesis by (fastforce dest: map_of_SomeD)
  qed
  with assms(1) show ?thesis by (simp add: struct_of_def)
qed

section \<open>Requests\<close>

record protocol_msg =
  pm_id :: string
  pm_activemetrics :: u32
  pm_clientip :: "u32 option"      \<comment> \<open>\<^verbatim>\<open>has_clientip\<close> and \<^verbatim>\<open>clientip\<close>\<close>
  pm_clientports :: "u32 list"
  pm_serverip :: "u32 option"
  pm_serverports :: "u32 list"

record netint_msg =
  ni_id :: string
  ni_protocols :: "protocol_msg list"

record init_msg =
  in_netints :: "netint_msg list"
  in_interval :: u32
  in_duration :: u32

text \<open>Reading the members; a string ends at its first NUL.\<close>

definition read_string :: "cell \<Rightarrow> string option" where
  "read_string c = do { s \<leftarrow> as_string c; map_option c_str s }"

definition read_optional :: "cell \<Rightarrow> cell \<Rightarrow> u32 option option" where
  "read_optional has c = do { h \<leftarrow> as_u32 has; v \<leftarrow> as_u32 c; Some (if h \<noteq> 0 then Some v else None) }"

definition read_array :: "(cell \<Rightarrow> 'a option) \<Rightarrow> cell \<Rightarrow> 'a list option" where
  "read_array g c = do { cs \<leftarrow> as_array c; those (map g cs) }"

definition read_sub :: "(pb_msg \<Rightarrow> 'a option) \<Rightarrow> cell \<Rightarrow> 'a option" where
  "read_sub g c = do { m \<leftarrow> as_message c; m \<leftarrow> m; g m }"

definition read_protocol :: "pb_msg \<Rightarrow> protocol_msg option" where
  "read_protocol m = do {
     id \<leftarrow> read_string (members m ''id'');
     am \<leftarrow> as_u32 (members m ''activemetrics'');
     cip \<leftarrow> read_optional (members m ''has_clientip'') (members m ''clientip'');
     cps \<leftarrow> read_array as_u32 (members m ''clientports'');
     sip \<leftarrow> read_optional (members m ''has_serverip'') (members m ''serverip'');
     sps \<leftarrow> read_array as_u32 (members m ''serverports'');
     Some \<lparr>pm_id = id, pm_activemetrics = am, pm_clientip = cip, pm_clientports = cps, pm_serverip = sip, pm_serverports = sps\<rparr>
   }"

definition read_netint :: "pb_msg \<Rightarrow> netint_msg option" where
  "read_netint m = do {
     id \<leftarrow> read_string (members m ''id'');
     ps \<leftarrow> read_array (read_sub read_protocol) (members m ''protocols'');
     Some \<lparr>ni_id = id, ni_protocols = ps\<rparr>
   }"

definition read_init :: "pb_msg \<Rightarrow> init_msg option" where
  "read_init m = do {
     ns \<leftarrow> read_array (read_sub read_netint) (members m ''netints'');
     i \<leftarrow> as_u32 (members m ''interval'');
     d \<leftarrow> as_u32 (members m ''duration'');
     Some \<lparr>in_netints = ns, in_interval = i, in_duration = d\<rparr>
   }"

text \<open>The structs with these members.\<close>

definition optional_members :: "string \<Rightarrow> string \<Rightarrow> u32 option \<Rightarrow> (string \<times> cell) list" where
  "optional_members has x v = (case v of None \<Rightarrow> [] | Some v \<Rightarrow> [(has, U32 1), (x, U32 v)])"

definition protocol_struct :: "protocol_msg \<Rightarrow> pb_msg" where
  "protocol_struct pm = struct_of analysis__protocol__descriptor
     ([(''id'', Str (Some (pm_id pm))), (''activemetrics'', U32 (pm_activemetrics pm)),
       (''clientports'', Arr (map U32 (pm_clientports pm))), (''serverports'', Arr (map U32 (pm_serverports pm)))] @
      optional_members ''has_clientip'' ''clientip'' (pm_clientip pm) @
      optional_members ''has_serverip'' ''serverip'' (pm_serverip pm))"

definition netint_struct :: "netint_msg \<Rightarrow> pb_msg" where
  "netint_struct n = struct_of analysis__net_int__descriptor
     [(''id'', Str (Some (ni_id n))), (''protocols'', Arr (map (Sub \<circ> Some \<circ> protocol_struct) (ni_protocols n)))]"

definition init_struct :: "init_msg \<Rightarrow> pb_msg" where
  "init_struct init = struct_of analysis__init__descriptor
     [(''netints'', Arr (map (Sub \<circ> Some \<circ> netint_struct) (in_netints init))),
      (''interval'', U32 (in_interval init)), (''duration'', U32 (in_duration init))]"

text \<open>C strings have no NUL.\<close>

definition request_ok :: "init_msg \<Rightarrow> bool" where
  "request_ok init \<longleftrightarrow> (\<forall>n \<in> set (in_netints init). c_str (ni_id n) = ni_id n \<and>
     (\<forall>pm \<in> set (ni_protocols n). c_str (pm_id pm) = pm_id pm))"

lemma those_map: "(\<And>x. x \<in> set xs \<Longrightarrow> g (h x) = Some x) \<Longrightarrow> those (map g (map h xs)) = Some xs"
  by (induction xs) simp_all

lemmas init_simps = message_init_def zero_cell_def

lemma read_protocol_struct: "c_str (pm_id pm) = pm_id pm \<Longrightarrow> read_protocol (protocol_struct pm) = Some pm"
  using those_map [of "pm_clientports pm" as_u32 U32] those_map [of "pm_serverports pm" as_u32 U32]
  by (cases "pm_clientip pm"; cases "pm_serverip pm")
    (simp_all add: read_protocol_def protocol_struct_def struct_of_def optional_members_def read_string_def read_optional_def
      read_array_def init_simps analysis__protocol__descriptor_def)

lemma read_netint_struct:
  assumes "c_str (ni_id n) = ni_id n" "\<forall>pm \<in> set (ni_protocols n). c_str (pm_id pm) = pm_id pm"
  shows "read_netint (netint_struct n) = Some n"
  using assms those_map [of "ni_protocols n" "read_sub read_protocol" "Sub \<circ> Some \<circ> protocol_struct"]
  by (simp add: read_netint_def netint_struct_def struct_of_def read_string_def read_array_def read_sub_def read_protocol_struct)

lemma read_init_struct:
  assumes "request_ok init"
  shows "read_init (init_struct init) = Some init"
  using assms those_map [of "in_netints init" "read_sub read_netint" "Sub \<circ> Some \<circ> netint_struct"]
  by (simp add: read_init_def init_struct_def struct_of_def read_array_def read_sub_def read_netint_struct request_ok_def)

lemmas field_good_simps = field_good_def present_def value_good_def has_quantifier_def writes_def pointer_type_def

lemma protocol_struct_good:
  assumes "c_str (pm_id pm) = pm_id pm"
  shows "message_good analysis__protocol__descriptor (protocol_struct pm)"
  unfolding protocol_struct_def analysis__protocol__descriptor_def
  by (rule struct_good; cases "pm_clientip pm"; cases "pm_serverip pm")
    (use assms in \<open>simp_all add: struct_of_def field_good_simps optional_members_def init_simps\<close>)

lemma netint_struct_good:
  assumes "c_str (ni_id n) = ni_id n" "\<forall>pm \<in> set (ni_protocols n). c_str (pm_id pm) = pm_id pm"
  shows "message_good analysis__net_int__descriptor (netint_struct n)"
  unfolding netint_struct_def analysis__net_int__descriptor_def
  by (rule struct_good)
    (use assms protocol_struct_good in \<open>simp_all add: struct_of_def field_good_simps init_simps\<close>)

lemma init_struct_good:
  assumes "request_ok init"
  shows "message_good analysis__init__descriptor (init_struct init)"
  unfolding init_struct_def analysis__init__descriptor_def
  by (rule struct_good)
    (use assms netint_struct_good in \<open>simp_all add: struct_of_def field_good_simps init_simps request_ok_def\<close>)

text \<open>A request that is packed is read back as it was.\<close>

lemma request_roundtrip:
  assumes "request_ok init" "analysis__init__pack (init_struct init) = Some bs" "length bs < 2 ^ 26"
  shows "\<exists>m. analysis__init__unpack bs = Inr m \<and> read_init m = Some init"
  using unpack_pack_all(1) [OF init_ok init_struct_good [OF assms(1)]] assms(2,3) read_init_struct [OF assms(1)]
  by (simp add: analysis__init__unpack_def analysis__init__pack_def)

text \<open>A request that is empty lacks its required fields.\<close>

lemma init_unpack_empty: "analysis__init__unpack [] = Inl Unpack_error"
proof -
  have "\<not> required_fields_set analysis__init__descriptor []"
    by (auto simp: required_fields_set_def analysis__init__descriptor_def intro!: exI [of _ 1])
  then show ?thesis
    by (simp add: analysis__init__unpack_def analysis__init__descriptor_def unpack_with_def scan_members.simps)
qed

end
