(* ===== verification/Server.thy ===== *)
theory Server
  imports Delivery Varint Pb_Messages
begin

unbundle bit_operations_syntax

text \<open>
  \<^verbatim>\<open>connection_handler\<close> of \<^verbatim>\<open>server.c\<close>: reading the request of a client and building the analyses
  and monitors it asks for; and the configuration of the program's stand-alone mode
  (\<^verbatim>\<open>main\<close> of \<^verbatim>\<open>main.c\<close>).  \<open>J\<close> is what the
  allocator leaves in uninitialised fields.  \<^verbatim>\<open>error\<close> ends the thread: it is the left summand.
\<close>

section \<open>The request\<close>

record junk =
  j_monitor :: monitor
  j_hq :: http_req
  j_hs :: http_rsp
  j_mq :: mc_req
  j_ms :: mc_rsp
  j_wild :: u32
  j_wild8 :: u8

section \<open>Building monitors\<close>

definition new_protocol :: "junk \<Rightarrow> analysis \<Rightarrow> string \<Rightarrow> u32 \<Rightarrow> string + monitor" where
  "new_protocol J an protocolName j =
     (if protocolName = ''HTTP'' then Inr (Http_new (j_monitor J) (j_hq J) (j_hs J) an protocolName j)
      else if protocolName = ''MEMCACHED''
      then Inr (MemCached_new (j_monitor J) (j_mq J) (j_ms J) (j_wild J) (j_wild8 J) an protocolName j)
      else if protocolName = ''MYSQL'' then Inr (MySQL_new (j_monitor J) an protocolName j)
      else Inl ''Unrecognized protocol'')"

text \<open>The ports are 32 bits wide in the message and 16 in the monitor.\<close>

definition configure :: "protocol_msg \<Rightarrow> monitor \<Rightarrow> monitor" where
  "configure pm S =
     (let S = activeMetrics (pm_activemetrics pm) S;
          S = (case pm_clientip pm of None \<Rightarrow> S | Some ip \<Rightarrow> setClientIp ip S);
          S = fold (\<lambda>p. addClientPort (ucast p)) (pm_clientports pm) S;
          S = (case pm_serverip pm of None \<Rightarrow> S | Some ip \<Rightarrow> setServerIp ip S)
      in fold (\<lambda>p. addServerPort (ucast p)) (pm_serverports pm) S)"

fun build_protocols :: "junk \<Rightarrow> analysis \<Rightarrow> u32 \<Rightarrow> protocol_msg list \<Rightarrow> string + monitor list" where
  "build_protocols J an j [] = Inr []"
| "build_protocols J an j (pm # pms) =
     (case new_protocol J an (pm_id pm) j of
        Inl e \<Rightarrow> Inl e
      | Inr S \<Rightarrow> map_sum id (\<lambda>Ss. configure pm S # Ss) (build_protocols J an (j + 1) pms))"

text \<open>The interfaces are served one after the other: \<^verbatim>\<open>start_analysis\<close> returns when the analysis is
  over.  The value lists the analyses that were started and the error that ended the thread, if any.\<close>

fun serve_netints :: "junk \<Rightarrow> int \<Rightarrow> bool \<Rightarrow> init_msg \<Rightarrow> u32 \<Rightarrow> netint_msg list \<Rightarrow> (analysis \<times> monitor list) list \<times> string option" where
  "serve_netints J fd dbg init i [] = ([], None)"
| "serve_netints J fd dbg init i (n # ns) =
     (let an = (Analysis_new fd (ni_id n) i (in_interval init) (in_duration init))\<lparr>an_debug := dbg\<rparr>
      in case build_protocols J an 0 (ni_protocols n) of
           Inl e \<Rightarrow> ([], Some e)
         | Inr Ss \<Rightarrow> (case serve_netints J fd dbg init (i + 1) ns of (started, e) \<Rightarrow> ((an, Ss) # started, e)))"

datatype connection = Disconnected | Thread_error string | Served "(analysis \<times> monitor list) list" "string option"

definition connection_handler :: "junk \<Rightarrow> int \<Rightarrow> bool \<Rightarrow> u8 list \<Rightarrow> connection option" where
  "connection_handler J fd dbg bytes = do {
     (msg_len, rest) \<leftarrow> decode_varint bytes;
     (if msg_len > 0
      then if length rest < unat msg_len then Some (Thread_error ''Framing error'')
           else (case analysis__init__unpack (take (unat msg_len) rest) of
                   Inl Unpack_error \<Rightarrow> Some (Thread_error ''error unpacking incoming message'')
                 | Inl Undefined \<Rightarrow> None
                 | Inr m \<Rightarrow> do {
                     init \<leftarrow> read_init m;
                     Some (case_prod Served (serve_netints J fd dbg init 0 (in_netints init)))
                   })
      else Some Disconnected)
   }"

text \<open>Without a server: one analysis of the protocol MEMCACHED with all its metrics.\<close>

definition main_analysis :: "junk \<Rightarrow> string option \<Rightarrow> string \<Rightarrow> bool \<Rightarrow> analysis \<times> monitor list" where
  "main_analysis J netInt tracefile dbg =
     (let an = (case netInt of
                  None \<Rightarrow> (Analysis_new (-1) tracefile 0 5 600)\<lparr>livemode := 0\<rparr>
                | Some i \<Rightarrow> (Analysis_new (-1) i 0 5 600)\<lparr>livemode := 1\<rparr>);
          an = an\<lparr>serverMode := False, an_debug := dbg\<rparr>;
          S = MemCached_new (j_monitor J) (j_mq J) (j_ms J) (j_wild J) (j_wild8 J) an ''MEMCACHED'' 0
      in (an, [activeMetrics 0x7fffffff S]))"

section \<open>What the configuration builds\<close>

definition known :: "(string \<times> kind) list" where
  "known = [(''HTTP'', HTTP), (''MEMCACHED'', MEMCACHED), (''MYSQL'', MYSQL)]"

definition default_ports :: "kind \<Rightarrow> u16 list" where
  "default_ports k = (case k of HTTP \<Rightarrow> [80, 8080, 8000] | MEMCACHED \<Rightarrow> [11211] | MYSQL \<Rightarrow> [3306])"

lemma new_protocol_known:
  assumes "map_of known name = Some k"
  obtains S where "new_protocol J an name j = Inr S" "store_ok k (length (pr_store S)) (pr_store S)" "ops_of k (pr_ops S)"
    "pr_metrics S = [0..<length (pr_store S)]" "pr_em S = EventManager_new" "serverPorts S = default_ports k"
    "clientPorts S = []" "\<not> hasClientIp S" "\<not> hasServerIp S" "pr_analysis S = an" "pr_name S = name" "pr_id S = j"
    "pr_pq S = Queue_new" "pr_fht S = FlowHashTable_new Queue_new"
proof -
  have e: "(name, k) \<in> {(''HTTP'', HTTP), (''MEMCACHED'', MEMCACHED), (''MYSQL'', MYSQL)}"
    using assms by (auto simp: known_def split: if_splits)
  then consider "name = ''HTTP''" "k = HTTP" | "name = ''MEMCACHED''" "k = MEMCACHED" | "name = ''MYSQL''" "k = MYSQL"
    by auto
  then show thesis
  proof cases
    case 1
    show thesis
      by (rule that [of "Http_new (j_monitor J) (j_hq J) (j_hs J) an name j"])
        (use 1 store_ok_new(1) in \<open>simp_all add: new_protocol_def Http_new_def push_metrics_def Protocol_new_def
          default_ports_def ops_of_protocols store_ok_def distr_ok_new\<close>)
  next
    case 2
    show thesis
      by (rule that [of "MemCached_new (j_monitor J) (j_mq J) (j_ms J) (j_wild J) (j_wild8 J) an name j"])
        (use 2 in \<open>simp_all add: new_protocol_def MemCached_new_def push_metrics_def Protocol_new_def
          default_ports_def ops_of_protocols store_ok_def distr_ok_new\<close>)
  next
    case 3
    show thesis
      by (rule that [of "MySQL_new (j_monitor J) an name j"])
        (use 3 in \<open>simp_all add: new_protocol_def MySQL_new_def push_metrics_def Protocol_new_def
          default_ports_def ops_of_protocols store_ok_def distr_ok_new\<close>)
  qed
qed

lemma fold_addClientPort: "fold (\<lambda>p. addClientPort (ucast p)) ps S = S\<lparr>clientPorts := clientPorts S @ map ucast ps\<rparr>"
  by (induction ps arbitrary: S) (simp_all add: addClientPort_def)

lemma fold_addServerPort: "fold (\<lambda>p. addServerPort (ucast p)) ps S = S\<lparr>serverPorts := serverPorts S @ map ucast ps\<rparr>"
  by (induction ps arbitrary: S) (simp_all add: addServerPort_def)

text \<open>A monitor built for a message.\<close>

definition built :: "protocol_msg \<Rightarrow> kind \<Rightarrow> monitor \<Rightarrow> bool" where
  "built pm k S \<longleftrightarrow> monitor_ok k S \<and> ops_of k (pr_ops S) \<and>
     pr_metrics S = filter (bit (pm_activemetrics pm)) [0..<length (pr_store S)] \<and>
     (\<forall>e. observers_of e (pr_em S) = rev (filter (\<lambda>i. e \<in> set (subscriptions (pr_store S ! i))) (pr_metrics S))) \<and>
     serverPorts S = default_ports k @ map ucast (pm_serverports pm) \<and> clientPorts S = map ucast (pm_clientports pm) \<and>
     (if hasClientIp S then pm_clientip pm = Some (clientIp S) else pm_clientip pm = None) \<and>
     (if hasServerIp S then pm_serverip pm = Some (serverIp S) else pm_serverip pm = None) \<and>
     pr_pq S = Queue_new \<and> pr_fht S = FlowHashTable_new Queue_new"

lemma configure_built:
  assumes "map_of known (pm_id pm) = Some k"
  shows "\<exists>S. new_protocol J an (pm_id pm) j = Inr S \<and> built pm k (configure pm S)"
proof -
  obtain S where S: "new_protocol J an (pm_id pm) j = Inr S" "store_ok k (length (pr_store S)) (pr_store S)"
    "ops_of k (pr_ops S)" "pr_metrics S = [0..<length (pr_store S)]" "pr_em S = EventManager_new"
    "serverPorts S = default_ports k" "clientPorts S = []" "\<not> hasClientIp S" "\<not> hasServerIp S"
    "pr_pq S = Queue_new" "pr_fht S = FlowHashTable_new Queue_new"
    using new_protocol_known [OF assms] by metis
  let ?am = "pm_activemetrics pm"
  have none: "observers_of e EventManager_new = []" for e by (cases e) (simp_all add: EventManager_new_def)
  obtain em where em: "activeMetrics ?am S = S\<lparr>pr_em := em, pr_metrics := filter (bit ?am) [0..<length (pr_store S)]\<rparr>"
      "\<forall>e. observers_of e em = rev (filter (\<lambda>i. bit ?am i \<and> e \<in> set (subscriptions (pr_store S ! i))) [0..<length (pr_store S)])"
    using activate_selects [of S "length (pr_store S)" "[]" ?am] S(4,5) none by (auto simp: activeMetrics_def)
  have "monitor_ok k (S\<lparr>pr_em := em\<rparr>)" using S(2) em(2) by (auto simp: monitor_ok_def)
  then show ?thesis
    using S em
    by (cases "pm_clientip pm"; cases "pm_serverip pm")
      (simp_all add: configure_def fold_addClientPort fold_addServerPort built_def setClientIp_def setServerIp_def
        monitor_ok_def filter_filter Let_def)
qed

section \<open>Serving a client\<close>

definition analysis_for :: "int \<Rightarrow> bool \<Rightarrow> init_msg \<Rightarrow> u32 \<Rightarrow> netint_msg \<Rightarrow> analysis \<Rightarrow> bool" where
  "analysis_for fd dbg init i n an \<longleftrightarrow> an_interface an = ni_id n \<and> interfaceId an = i \<and> interval an = in_interval init \<and>
     duration an = in_duration init \<and> an_socket an = fd \<and> an_debug an = dbg \<and> isServerMode an \<and> \<not> isStopped an"

lemma build_protocols_built:
  assumes "\<forall>pm \<in> set pms. map_of known (pm_id pm) \<noteq> None"
  shows "\<exists>Ss. build_protocols J an j pms = Inr Ss \<and>
    list_all2 (\<lambda>pm S. \<exists>k. map_of known (pm_id pm) = Some k \<and> built pm k S) pms Ss"
  using assms
proof (induction pms arbitrary: j)
  case Nil
  then show ?case by simp
next
  case (Cons pm pms)
  then obtain k where k: "map_of known (pm_id pm) = Some k" by auto
  obtain S where "new_protocol J an (pm_id pm) j = Inr S" "built pm k (configure pm S)"
    using configure_built [OF k] by blast
  moreover obtain Ss where "build_protocols J an (j + 1) pms = Inr Ss"
      "list_all2 (\<lambda>pm S. \<exists>k. map_of known (pm_id pm) = Some k \<and> built pm k S) pms Ss"
    using Cons.IH Cons.prems by fastforce
  ultimately show ?case using k by auto
qed

lemma build_protocols_unknown:
  "\<exists>pm \<in> set pms. map_of known (pm_id pm) = None \<Longrightarrow> build_protocols J an j pms = Inl ''Unrecognized protocol''"
proof (induction pms arbitrary: j)
  case Nil
  then show ?case by simp
next
  case (Cons pm pms)
  show ?case
  proof (cases "map_of known (pm_id pm)")
    case None
    then show ?thesis by (auto simp: known_def new_protocol_def split: if_splits)
  next
    case (Some k)
    then obtain S where "new_protocol J an (pm_id pm) j = Inr S" using configure_built by metis
    with Cons Some show ?thesis by simp
  qed
qed

definition known_interface :: "netint_msg \<Rightarrow> bool" where
  "known_interface n \<longleftrightarrow> (\<forall>pm \<in> set (ni_protocols n). map_of known (pm_id pm) \<noteq> None)"

definition started_for :: "int \<Rightarrow> bool \<Rightarrow> init_msg \<Rightarrow> nat \<Rightarrow> netint_msg \<Rightarrow> analysis \<times> monitor list \<Rightarrow> bool" where
  "started_for fd dbg init i n x \<longleftrightarrow> analysis_for fd dbg init (of_nat i) n (fst x) \<and>
     list_all2 (\<lambda>pm S. \<exists>k. map_of known (pm_id pm) = Some k \<and> built pm k S) (ni_protocols n) (snd x)"

lemma serve_netints_started:
  "\<exists>xs. serve_netints J fd dbg init (of_nat i) ns =
       (xs, if \<forall>n \<in> set ns. known_interface n then None else Some ''Unrecognized protocol'') \<and>
     length xs = length (takeWhile known_interface ns) \<and>
     (\<forall>k < length xs. started_for fd dbg init (i + k) (ns ! k) (xs ! k))"
proof (induction ns arbitrary: i)
  case Nil
  then show ?case by simp
next
  case (Cons n ns)
  let ?an = "(Analysis_new fd (ni_id n) (of_nat i) (in_interval init) (in_duration init))\<lparr>an_debug := dbg\<rparr>"
  show ?case
  proof (cases "known_interface n")
    case True
    then obtain Ss where Ss: "build_protocols J ?an 0 (ni_protocols n) = Inr Ss"
        "list_all2 (\<lambda>pm S. \<exists>k. map_of known (pm_id pm) = Some k \<and> built pm k S) (ni_protocols n) Ss"
      using build_protocols_built [of "ni_protocols n" J ?an 0] by (auto simp: known_interface_def)
    obtain xs where xs: "serve_netints J fd dbg init (of_nat (Suc i)) ns =
        (xs, if \<forall>n \<in> set ns. known_interface n then None else Some ''Unrecognized protocol'')"
      "length xs = length (takeWhile known_interface ns)" "\<forall>k < length xs. started_for fd dbg init (Suc i + k) (ns ! k) (xs ! k)"
      using Cons.IH [of "Suc i"] by blast
    have "started_for fd dbg init i n (?an, Ss)"
      using Ss(2) by (simp add: started_for_def analysis_for_def Analysis_new_def isServerMode_def isStopped_def)
    with True Ss(1) xs show ?thesis
      by (intro exI [of _ "(?an, Ss) # xs"]) (auto simp: Let_def nth_Cons add.commute split: nat.split)
  next
    case False
    then have "build_protocols J ?an 0 (ni_protocols n) = Inl ''Unrecognized protocol''"
      by (intro build_protocols_unknown) (auto simp: known_interface_def)
    with False show ?thesis by (simp add: Let_def)
  qed
qed


text \<open>A request to watch MYSQL on eth0 for errors at one address, and another protocol on eth1.\<close>

definition a_request :: init_msg where
  "a_request = \<lparr>in_netints =
     [\<lparr>ni_id = ''eth0'', ni_protocols = [\<lparr>pm_id = ''MYSQL'', pm_activemetrics = 3, pm_clientip = Some 0x0a000001,
        pm_clientports = [], pm_serverip = None, pm_serverports = [65616]\<rparr>]\<rparr>,
      \<lparr>ni_id = ''eth1'', ni_protocols = [\<lparr>pm_id = ''SMTP'', pm_activemetrics = 1, pm_clientip = None,
        pm_clientports = [], pm_serverip = None, pm_serverports = []\<rparr>]\<rparr>],
     in_interval = 5, in_duration = 60\<rparr>"

definition a_request_bytes :: "u8 list" where
  "a_request_bytes =
     [10, 26, 10, 4, 101, 116, 104, 48, 18, 18, 10, 5, 77, 89, 83, 81, 76, 16, 3, 24, 129, 128, 128, 80, 48, 208, 128, 4,
      10, 16, 10, 4, 101, 116, 104, 49, 18, 8, 10, 4, 83, 77, 84, 80, 16, 1, 16, 5, 24, 60]"

lemma a_request_bytes: "request_ok a_request" "analysis__init__pack (init_struct a_request) = Some a_request_bytes"
proof -
  show "request_ok a_request" by (simp add: request_ok_def a_request_def c_str_def)
  show "analysis__init__pack (init_struct a_request) = Some a_request_bytes" by code_simp
qed


text \<open>A requested port above 65535 watches another port: the remainder modulo 65536.\<close>

theorem large_ports_are_cut:
  "p \<in> set (pm_serverports pm) \<Longrightarrow> new_protocol J an (pm_id pm) j = Inr S \<Longrightarrow>
     isPacketOf (ucast p) dp (configure pm S) \<and> (p = 65616 \<longrightarrow> isPacketOf 80 dp (configure pm S))"
proof -
  assume p: "p \<in> set (pm_serverports pm)"
  have "set (map ucast (pm_serverports pm)) \<subseteq> set (serverPorts (configure pm S))"
    by (simp add: configure_def Let_def fold_addServerPort)
  then have "isPacketOf (ucast p) dp (configure pm S)" using p by (auto simp: isPacketOf_def)
  moreover have "p = 65616 \<Longrightarrow> ucast p = (80 :: u16)" by simp
  ultimately show ?thesis by metis
qed

lemma large_ports_are_cut_witness:
  "\<forall>J an. \<exists>S. new_protocol J an ''MYSQL'' 0 = Inr S \<and>
     isPacketOf 80 1 (configure (ni_protocols (in_netints a_request ! 0) ! 0) S)"
proof (intro allI)
  fix J an
  let ?pm = "ni_protocols (in_netints a_request ! 0) ! 0"
  have pm: "65616 \<in> set (pm_serverports ?pm)" "pm_id ?pm = ''MYSQL''" by (simp_all add: a_request_def)
  have "new_protocol J an ''MYSQL'' 0 = Inr (MySQL_new (j_monitor J) an ''MYSQL'' 0)" by (simp add: new_protocol_def)
  with large_ports_are_cut [OF pm(1), unfolded pm(2)]
  show "\<exists>S. new_protocol J an ''MYSQL'' 0 = Inr S \<and> isPacketOf 80 1 (configure ?pm S)" by blast
qed

section \<open>Monitors never fault\<close>

datatype monitor_op = Extract pflow | Second | Interval_end int

primrec monitor_step :: "monitor_op \<Rightarrow> monitor \<Rightarrow> monitor option" where
  "monitor_step (Extract f) S = map_option snd (extractData f S)"
| "monitor_step Second S = tell Timer onTimerExpired S"
| "monitor_step (Interval_end now) S = map_option snd (interval_expired now (pr_analysis S) S)"

lemma tell_timer_keeps: "monitor_ok k S \<Longrightarrow> \<exists>S'. tell Timer onTimerExpired S = Some S' \<and> monitor_ok k S'"
proof -
  assume ok: "monitor_ok k S"
  then have "\<forall>a \<in> set (observers_of Timer (pr_em S)). a < length (pr_store S)" unfolding monitor_ok_def by blast
  then obtain ms where "notify onTimerExpired (observers_of Timer (pr_em S)) (pr_store S) = Some ms"
      "store_ok k (length (pr_store S)) ms"
    using notify_keeps [OF other_handlers_keep(3), of k "length (pr_store S)" "pr_store S"] ok
    unfolding monitor_ok_def by blast
  with ok show ?thesis by (auto simp: tell_def monitor_ok_def store_ok_def)
qed

lemma interval_expired_keeps:
  "monitor_ok k S \<Longrightarrow> \<exists>out S'. interval_expired now an S = Some (out, S') \<and> monitor_ok k S'"
proof -
  assume ok: "monitor_ok k S"
  then have "\<forall>a \<in> set (observers_of Interval (pr_em S)). a < length (pr_store S)" unfolding monitor_ok_def by blast
  then have "\<forall>a \<in> set (intervalExpired (pr_em S)). a < length (pr_store S)" by simp
  then obtain out ms where "notify_interval an (mk_msg now S) (intervalExpired (pr_em S)) (pr_store S) = Some (out, ms)"
      "store_ok k (length (pr_store S)) ms"
    using notify_interval_keeps [of k "length (pr_store S)" "pr_store S"] ok unfolding monitor_ok_def by blast
  with ok show ?thesis by (auto simp: interval_expired_def monitor_ok_def store_ok_def)
qed

text \<open>C5. A monitor built for a client's request never dereferences what is not there: whatever flows
  of its protocol are extracted, seconds pass and intervals end, in any order, every
  observer that is notified exists and finds the members it reads.\<close>

theorem built_monitors_never_fault:
  assumes "built pm k S" "\<forall>f. Extract f \<in> set ops \<longrightarrow> (\<forall>p \<in> set (f_pairs f). pair_of k p)"
  shows "\<exists>S'. steps monitor_step ops S = Some S'"
proof -
  have "\<exists>S'. steps monitor_step ops S = Some S' \<and> monitor_ok k S'"
    if "monitor_ok k S" "\<forall>f. Extract f \<in> set ops \<longrightarrow> (\<forall>p \<in> set (f_pairs f). pair_of k p)" for S
    using that
  proof (induction ops arbitrary: S)
    case Nil
    then show ?case by simp
  next
    case (Cons x ops)
    have "\<exists>S1. monitor_step x S = Some S1 \<and> monitor_ok k S1"
    proof (cases x)
      case (Extract f)
      with Cons.prems have "\<forall>p \<in> set (f_pairs f). pair_of k p" by auto
      from extractData_keeps [OF Cons.prems(1) this] Extract show ?thesis by auto
    next
      case Second
      with tell_timer_keeps Cons.prems(1) show ?thesis by simp
    next
      case (Interval_end now)
      with interval_expired_keeps [OF Cons.prems(1), of now "pr_analysis S"] show ?thesis by auto
    qed
    with Cons show ?case by fastforce
  qed
  with assms show ?thesis unfolding built_def by blast
qed

lemma built_monitors_never_fault_witness:
  "\<forall>J an p. \<exists>S S'. new_protocol J an ''MYSQL'' 0 = Inr S \<and>
     steps monitor_step [Extract (p\<lparr>f_pairs := [Pair_new]\<rparr>), Second, Interval_end 17]
       (configure (ni_protocols (in_netints a_request ! 0) ! 0) S) = Some S'"
proof (intro allI)
  fix J an and p :: pflow
  let ?pm = "ni_protocols (in_netints a_request ! 0) ! 0"
  have "map_of known (pm_id ?pm) = Some MYSQL" "pm_id ?pm = ''MYSQL''" by (simp_all add: a_request_def known_def)
  then obtain S where S: "new_protocol J an ''MYSQL'' 0 = Inr S" "built ?pm MYSQL (configure ?pm S)"
    using configure_built [of ?pm MYSQL J an 0] by auto
  have "\<exists>S'. steps monitor_step [Extract (p\<lparr>f_pairs := [Pair_new]\<rparr>), Second, Interval_end 17] (configure ?pm S) = Some S'"
    by (rule built_monitors_never_fault [OF S(2)]) (simp add: pair_of_def Pair_new_def)
  with S(1) show "\<exists>S S'. new_protocol J an ''MYSQL'' 0 = Inr S \<and>
     steps monitor_step [Extract (p\<lparr>f_pairs := [Pair_new]\<rparr>), Second, Interval_end 17] (configure ?pm S) = Some S'" by blast
qed

end
