(* ===== verification/Startup.thy ===== *)
theory Startup
  imports Server
begin

text \<open>
  How the program starts (\<^verbatim>\<open>main\<close> of \<^verbatim>\<open>main.c\<close>): its command line, and the choice between a stand-alone
  analysis and the server; and the server's loops (\<^verbatim>\<open>start_server\<close> of \<^verbatim>\<open>server.c\<close>).  The sockets are modelled by what
  the system calls on them return.
\<close>

section \<open>The command line\<close>

text \<open>The C library's \<^verbatim>\<open>getopt\<close> with the option string \<^verbatim>\<open>:i:f:o:p:h:d\<close>: the options with their arguments, in order.
  An option whose argument is missing is reported as a colon, an unknown one as a question mark; arguments that
  are no options are passed over.\<close>

definition takes_argument :: "char \<Rightarrow> bool" where
  "takes_argument c \<longleftrightarrow> c \<in> set ''ifoph''"

function getopt :: "string list \<Rightarrow> (char \<times> string) list"
  and getopt_cluster :: "string \<Rightarrow> string list \<Rightarrow> (char \<times> string) list" where
  "getopt [] = []"
| "getopt (a # args) =
     (if a = ''--'' then []
      else if a \<noteq> [] \<and> hd a = CHR ''-'' then getopt_cluster (tl a) args
      else getopt args)"
| "getopt_cluster [] args = getopt args"
| "getopt_cluster (c # cs) args =
     (if takes_argument c then
        (if cs \<noteq> [] then (c, cs) # getopt args
         else case args of [] \<Rightarrow> [(CHR '':'', [])] | b # rest \<Rightarrow> (c, b) # getopt rest)
      else if c = CHR ''d'' then (c, []) # getopt_cluster cs args
      else (CHR ''?'', []) # getopt_cluster cs args)"
  by pat_completeness auto
termination
  by (relation "measure (case_sum (\<lambda>args. 2 * length (concat args) + 2 * length args)
        (\<lambda>(cs, args). 2 * length cs + 2 * length (concat args) + 2 * length args + 1))") auto

record options =
  op_interface :: "string option"
  op_ipaddress :: "string option"
  op_debug :: bool
  op_tracefile :: "string option"

definition no_options :: options where
  "no_options = \<lparr>op_interface = None, op_ipaddress = None, op_debug = False, op_tracefile = None\<rparr>"

text \<open>The loop over the options.  \<^term>\<open>None\<close>: the usage is printed and the program ends.\<close>

fun parse_options :: "(char \<times> string) list \<Rightarrow> options \<Rightarrow> options option" where
  "parse_options [] s = Some s"
| "parse_options ((opt, optarg) # rest) s =
     (if opt = CHR ''h'' then None
      else if opt = CHR ''i'' then parse_options rest (s\<lparr>op_interface := Some optarg\<rparr>)
      else if opt = CHR ''p'' then parse_options rest (s\<lparr>op_ipaddress := Some optarg\<rparr>)
      else if opt = CHR ''d'' then parse_options rest (s\<lparr>op_debug := True\<rparr>)
      else if opt = CHR ''f'' then parse_options rest (s\<lparr>op_tracefile := Some optarg\<rparr>)
      else parse_options rest s)"

datatype program = Usage | Server_mode bool | App_mode analysis "monitor list" "string option"

definition main_program :: "junk \<Rightarrow> string list \<Rightarrow> program" where
  "main_program J args =
     (case parse_options (getopt args) no_options of
        None \<Rightarrow> Usage
      | Some s \<Rightarrow>
          (case (op_interface s, op_tracefile s) of
             (None, None) \<Rightarrow> Server_mode (op_debug s)
           | (None, Some tracefile) \<Rightarrow> (case main_analysis J None tracefile (op_debug s) of (an, Ss) \<Rightarrow> App_mode an Ss (op_ipaddress s))
           | (Some netInt, _) \<Rightarrow> (case main_analysis J (Some netInt) [] (op_debug s) of (an, Ss) \<Rightarrow> App_mode an Ss (op_ipaddress s))))"

section \<open>The server\<close>

text \<open>The addresses are tried one after the other: the result of \<^verbatim>\<open>socket\<close> for each and whether \<^verbatim>\<open>bind\<close> succeeds.\<close>

fun bind_loop :: "(int \<times> bool) list \<Rightarrow> int option" where
  "bind_loop [] = None"
| "bind_loop ((sfd, bound) # rp) = (if sfd < 0 then bind_loop rp else if bound then Some sfd else bind_loop rp)"

record config =
  cf_socket :: int
  cf_debug :: bool

text \<open>The loop ends when \<^verbatim>\<open>accept\<close> returns 0.  Its value: the configurations of the handlers it starts, and the last
  return value when it has ended.\<close>

fun accept_loop :: "bool \<Rightarrow> int list \<Rightarrow> config list \<times> int option" where
  "accept_loop dbg [] = ([], None)"
| "accept_loop dbg (client_sock # rest) =
     (if client_sock \<noteq> 0
      then (case accept_loop dbg rest of (cs, e) \<Rightarrow> (\<lparr>cf_socket = client_sock, cf_debug = dbg\<rparr> # cs, e))
      else ([], Some client_sock))"

text \<open>After the loop a failed \<^verbatim>\<open>accept\<close> is logged.\<close>

datatype server_run = Exit_failure | Bind_error | Running int "config list" | Ended int "config list" (logged: bool)

definition start_server :: "int \<Rightarrow> (int \<times> bool) list \<Rightarrow> int list \<Rightarrow> bool \<Rightarrow> server_run" where
  "start_server s addresses accepts dbg =
     (if s \<noteq> 0 then Exit_failure
      else case bind_loop addresses of
             None \<Rightarrow> Bind_error
           | Some sfd \<Rightarrow> (case accept_loop dbg accepts of
                            (cs, None) \<Rightarrow> Running sfd cs
                          | (cs, Some client_sock) \<Rightarrow> Ended sfd cs (client_sock < 0)))"

section \<open>What the options do\<close>

lemma parse_options_append: "parse_options (xs @ ys) s = Option.bind (parse_options xs s) (parse_options ys)"
  by (induction xs s rule: parse_options.induct) auto

text \<open>An option and its argument in separate arguments.\<close>

lemma getopt_separate: "takes_argument c \<Longrightarrow> c \<noteq> CHR ''-'' \<Longrightarrow> getopt ([CHR ''-'', c] # b # args) = (c, b) # getopt args"
  by simp

section \<open>What the server's loops do\<close>

lemma bind_loop_first:
  "0 \<le> sfd \<Longrightarrow> \<forall>(fd, b) \<in> set xs. fd < 0 \<or> \<not> b \<Longrightarrow> bind_loop (xs @ (sfd, True) # ys) = Some sfd"
  by (induction xs) auto

lemma accept_loop_takeWhile:
  "accept_loop dbg socks = (map (\<lambda>fd. \<lparr>cf_socket = fd, cf_debug = dbg\<rparr>) (takeWhile (\<lambda>fd. fd \<noteq> 0) socks),
     if 0 \<in> set socks then Some 0 else None)"
  by (induction socks) auto

text \<open>C33. The server listens on the first address that it can create and bind a socket for, and starts a handler for
  every result of \<^verbatim>\<open>accept\<close> before the first 0 - errors, which are negative, included: on such a
  socket the handler reads nothing and ends.  What follows the loop is reached with 0 only, so
  a failed \<^verbatim>\<open>accept\<close> is never logged.\<close>

theorem accept_errors_start_handlers:
  assumes "addresses = xs @ (sfd, True) # ys" "0 \<le> sfd" "\<forall>(fd, b) \<in> set xs. fd < 0 \<or> \<not> b"
  shows "start_server 0 addresses accepts dbg =
      (let cs = map (\<lambda>fd. \<lparr>cf_socket = fd, cf_debug = dbg\<rparr>) (takeWhile (\<lambda>fd. fd \<noteq> 0) accepts)
       in if 0 \<in> set accepts then Ended sfd cs False else Running sfd cs) \<and>
    connection_handler J fd dbg [] = Some Disconnected"
proof
  have "bind_loop addresses = Some sfd" using bind_loop_first [OF assms(2,3)] assms(1) by simp
  then show "start_server 0 addresses accepts dbg =
      (let cs = map (\<lambda>fd. \<lparr>cf_socket = fd, cf_debug = dbg\<rparr>) (takeWhile (\<lambda>fd. fd \<noteq> 0) accepts)
       in if 0 \<in> set accepts then Ended sfd cs False else Running sfd cs)"
    by (simp add: start_server_def accept_loop_takeWhile Let_def)
  show "connection_handler J fd dbg [] = Some Disconnected"
    by (simp add: connection_handler_def decode_varint_def)
qed

lemma accept_errors_start_handlers_witness:
  "start_server 0 [(-1, False), (5, False), (6, True)] [7, -1, 0] True =
     Ended 6 [\<lparr>cf_socket = 7, cf_debug = True\<rparr>, \<lparr>cf_socket = -1, cf_debug = True\<rparr>] False"
  using accept_errors_start_handlers [of "[(-1, False), (5, False), (6, True)]" "[(-1, False), (5, False)]" 6 "[]" "[7, -1, 0]" True]
  by simp

text \<open>The option string gives \<^verbatim>\<open>-h\<close> an argument: alone it does not print the usage, and the server is started.\<close>

lemma help_needs_an_argument:
  "main_program J [''-h''] = Server_mode False" "main_program J [''-h'', ''x''] = Usage"
  by (simp_all add: main_program_def takes_argument_def no_options_def)

text \<open>An interface takes precedence over a trace file, wherever it is given; the analysis is not in server mode and runs
  for ten minutes with intervals of five seconds.\<close>

lemma interface_wins:
  "\<exists>an Ss. main_program J [''-f'', t, ''-d'', ''-i'', n, ''-p'', ip] = App_mode an Ss (Some ip) \<and> an_interface an = n \<and> livemode an = 1 \<and>
     \<not> isServerMode an \<and> an_debug an \<and> interval an = 5 \<and> duration an = 600 \<and> length Ss = 1"
  by (simp add: main_program_def takes_argument_def no_options_def main_analysis_def Analysis_new_def isServerMode_def Let_def)

end
