(* ===== verification/Pipeline.thy ===== *)
theory Pipeline
  imports Capture Delivery
begin

unbundle bit_operations_syntax

text \<open>
  The threads of an analysis (\<^verbatim>\<open>main.c\<close>, \<^verbatim>\<open>timer.c\<close>): capture, preprocessing, the packet and flow
  threads, the scrubber and the timer, which share the analysis, its raw packet queue and its
  monitors.  A step of a thread is one access to a queue with the work on what it got, for one
  monitor; the queues and tables are locked during their operations.  What a step observably
  moves between the queues is recorded.  Clock readings, captured frames and uninitialised
  memory are inputs of the steps.
\<close>

datatype pc = Check | At nat | Exited

record sys =
  y_an :: analysis
  y_rpq :: "raw_pkt Queue"
  y_mons :: "monitor list"
  y_counters :: counters
  y_sent :: "metric_msg list"
  pc_capture :: bool              \<comment> \<open>the capture thread has left its loop\<close>
  pc_raw :: bool                  \<comment> \<open>\<^verbatim>\<open>process_packet\<close> has left its loop\<close>
  pc_packet :: pc
  pc_flow :: pc
  pc_scrub :: pc

definition start_analysis :: "analysis \<Rightarrow> monitor list \<Rightarrow> counters \<Rightarrow> sys" where
  "start_analysis an Ss c = \<lparr>y_an = an, y_rpq = Queue_new, y_mons = Ss, y_counters = c, y_sent = [],
     pc_capture = False, pc_raw = False, pc_packet = Check, pc_flow = Check, pc_scrub = At 0\<rparr>"

datatype obs = Enq_raw raw_pkt | Deq_raw raw_pkt | Enq_pkt nat packet_t | Deq_pkt nat packet_t

section \<open>Capture\<close>

text \<open>One return of \<^verbatim>\<open>pcap_next\<close>: the packet header and the captured bytes.  The copy takes
  \<^verbatim>\<open>len\<close> bytes of them.\<close>

definition capture_main :: "raw_pkt \<Rightarrow> sys \<Rightarrow> (obs list \<times> sys) option" where
  "capture_main hdr Y =
     (if pc_capture Y \<or> unat (len hdr) < 54 then Some ([], Y)
      else if isStopped (y_an Y) then Some ([], Y\<lparr>pc_capture := True\<rparr>)
      else if unat (len hdr) > length (raw hdr) then None
      else do {
        let pkt2 = hdr\<lparr>raw := take (unat (len hdr)) (raw hdr)\<rparr>;
        q \<leftarrow> Queue_enq pkt2 (y_rpq Y);
        Some ([Enq_raw pkt2], Y\<lparr>y_rpq := q\<rparr>)
      })"

section \<open>process\_packet\<close>

text \<open>The monitor that a packet went to: the first one that owns a port.\<close>

fun owner :: "packet_t \<Rightarrow> monitor list \<Rightarrow> nat \<Rightarrow> nat" where
  "owner pkt [] i = i"
| "owner pkt (S # Ss) i = (if isPacketOf (sport pkt) (dport pkt) S then i else owner pkt Ss (Suc i))"

definition process_packet :: "sys \<Rightarrow> (obs list \<times> sys) option" where
  "process_packet Y =
     (if pc_raw Y then Some ([], Y)
      else do {
        (rpkt, q) \<leftarrow> Queue_deq (y_rpq Y);
        let Y = Y\<lparr>y_rpq := q\<rparr>;
        (case rpkt of
           None \<Rightarrow> Some ([], if isStopped (y_an Y) then Y\<lparr>pc_raw := True\<rparr> else Y)
         | Some rp \<Rightarrow> do {
             (r, Ss, c) \<leftarrow> packet_preprocess rp (y_mons Y) (y_counters Y);
             Some (Deq_raw rp # (case r of Queued pkt \<Rightarrow> [Enq_pkt (owner pkt (y_mons Y) 0) pkt] | _ \<Rightarrow> []),
               Y\<lparr>y_mons := Ss, y_counters := c\<rparr>)
           })
      })"

section \<open>process\_packet\_queue and process\_flow\_queue\<close>

text \<open>Both loop over the monitors and check for the end of the analysis before each round.\<close>

definition next_round :: "sys \<Rightarrow> pc" where
  "next_round Y = (if isStopped (y_an Y) then Exited else At 0)"

definition upd_mon :: "nat \<Rightarrow> monitor \<Rightarrow> sys \<Rightarrow> sys" where
  "upd_mon i S Y = Y\<lparr>y_mons := (y_mons Y)[i := S]\<rparr>"

definition process_packet_queue :: "pflow \<Rightarrow> int \<times> int \<Rightarrow> sys \<Rightarrow> (obs list \<times> sys) option" where
  "process_packet_queue junk now Y =
     (case pc_packet Y of
        Exited \<Rightarrow> Some ([], Y)
      | Check \<Rightarrow> Some ([], Y\<lparr>pc_packet := next_round Y\<rparr>)
      | At i \<Rightarrow>
          if i \<ge> length (y_mons Y) then Some ([], Y\<lparr>pc_packet := Check\<rparr>)
          else do {
            let S = y_mons Y ! i;
            let Y = Y\<lparr>pc_packet := At (Suc i)\<rparr>;
            (pkt, q) \<leftarrow> Queue_deq (pr_pq S);
            (case pkt of
               None \<Rightarrow> Some ([], upd_mon i (S\<lparr>pr_pq := q\<rparr>) Y)
             | Some p \<Rightarrow> do {
                 t \<leftarrow> fht_add_packet junk now p (pr_fht S);
                 Some ([Deq_pkt i p], upd_mon i (S\<lparr>pr_pq := q, pr_fht := t\<rparr>) Y)
               })
          })"

definition process_flow_queue :: "sys \<Rightarrow> (obs list \<times> sys) option" where
  "process_flow_queue Y =
     (case pc_flow Y of
        Exited \<Rightarrow> Some ([], Y)
      | Check \<Rightarrow> Some ([], Y\<lparr>pc_flow := next_round Y\<rparr>)
      | At i \<Rightarrow>
          if i \<ge> length (y_mons Y) then Some ([], Y\<lparr>pc_flow := Check\<rparr>)
          else do {
            let S = y_mons Y ! i;
            let Y = Y\<lparr>pc_flow := At (Suc i)\<rparr>;
            (flow, q) \<leftarrow> Queue_deq (fht_fq (pr_fht S));
            let S = S\<lparr>pr_fht := (pr_fht S)\<lparr>fht_fq := q\<rparr>\<rparr>;
            (case flow of
               None \<Rightarrow> Some ([], upd_mon i S Y)
             | Some a \<Rightarrow> do {
                 f \<leftarrow> fl_obj (pr_fht S) a;
                 (r, f) \<leftarrow> extractPair (pr_ops S) f True;
                 (f, S) \<leftarrow> extractData f S;
                 Some ([], upd_mon i (S\<lparr>pr_fht := (pr_fht S)\<lparr>fl_obj := (fl_obj (pr_fht S))(a := None)\<rparr>\<rparr>) Y)
               })
          })"

section \<open>The scrubber\<close>

text \<open>When the analysis has ended, the thread exits after the table of one monitor.\<close>

definition scrubbing_flow_htbl :: "(addr \<Rightarrow> int) \<Rightarrow> sys \<Rightarrow> (obs list \<times> sys) option" where
  "scrubbing_flow_htbl now Y =
     (case pc_scrub Y of
        At i \<Rightarrow>
          if i \<ge> length (y_mons Y) then Some ([], Y\<lparr>pc_scrub := At 0\<rparr>)
          else do {
            let S = y_mons Y ! i;
            let stopped = isStopped (y_an Y);
            (num, t) \<leftarrow> flow_scrubber (if stopped then -1 else 60 * 10) now (pr_fht S);
            Some ([], upd_mon i (S\<lparr>pr_fht := t\<rparr>) (Y\<lparr>pc_scrub := (if stopped then Exited else At (Suc i))\<rparr>))
          }
      | _ \<Rightarrow> Some ([], Y))"

section \<open>The timer\<close>

fun each :: "('m \<Rightarrow> ('r \<times> 'm) option) \<Rightarrow> 'm list \<Rightarrow> ('r list \<times> 'm list) option" where
  "each f [] = Some ([], [])"
| "each f (S # Ss) = do {
     (r, S) \<leftarrow> f S;
     (rs, Ss) \<leftarrow> each f Ss;
     Some (r # rs, S # Ss)
   }"

definition second_over :: "monitor \<Rightarrow> (unit \<times> monitor) option" where
  "second_over S = do {
     S \<leftarrow> flowHashProcess S;
     S \<leftarrow> tell Timer onTimerExpired S;
     Some ((), S)
   }"

text \<open>The timer is deleted soon after the analysis has ended; until then it still fires.\<close>

definition processData :: "int \<Rightarrow> sys \<Rightarrow> (obs list \<times> sys) option" where
  "processData now Y = do {
     let an = (y_an Y)\<lparr>int_step := int_step (y_an Y) + 1\<rparr>;
     (us, Ss) \<leftarrow> each second_over (y_mons Y);
     (if int_step an < interval an then Some ([], Y\<lparr>y_an := an, y_mons := Ss\<rparr>)
      else do {
        (outs, Ss) \<leftarrow> each (interval_expired now an) Ss;
        Some ([], Y\<lparr>y_an := an\<lparr>int_step := 0\<rparr>, y_mons := Ss, y_sent := y_sent Y @ concat outs\<rparr>)
      })
   }"

definition stop_analysis :: "sys \<Rightarrow> (obs list \<times> sys) option" where
  "stop_analysis Y = Some ([], Y\<lparr>y_an := analysis_stop (y_an Y)\<rparr>)"

section \<open>Interleavings\<close>

datatype action = Capture raw_pkt | Preprocess | Packet_thread pflow "int \<times> int" | Flow_thread
  | Scrubber "addr \<Rightarrow> int" | Timer_second int | Stop

primrec act :: "action \<Rightarrow> sys \<Rightarrow> (obs list \<times> sys) option" where
  "act (Capture hdr) Y = capture_main hdr Y"
| "act Preprocess Y = process_packet Y"
| "act (Packet_thread junk now) Y = process_packet_queue junk now Y"
| "act Flow_thread Y = process_flow_queue Y"
| "act (Scrubber now) Y = scrubbing_flow_htbl now Y"
| "act (Timer_second now) Y = processData now Y"
| "act Stop Y = stop_analysis Y"

inductive reach :: "sys \<Rightarrow> obs list \<Rightarrow> sys \<Rightarrow> bool" for Y0 where
  start: "reach Y0 [] Y0"
| step: "reach Y0 os Y \<Longrightarrow> act a Y = Some (os', Y') \<Longrightarrow> reach Y0 (os @ os') Y'"

inductive_cases reach_step: "reach Y0 os Y"

section \<open>What the steps do to the queues\<close>

lemma Queue_deq_cases:
  assumes "Queue_rep q xs"
  obtains "xs = []" "Queue_deq q = Some (None, q)"
  | x ys q' where "xs = x # ys" "Queue_deq q = Some (Some x, q')" "Queue_rep q' ys"
proof (cases xs)
  case Nil
  have "Queue_deq q = Some (None, q)" by (rule Queue_deq_empty) (use assms(1) Nil in simp)
  with Nil show thesis by (rule that(1))
next
  case (Cons x ys)
  then have "Queue_rep q (x # ys)" using assms(1) by simp
  from Queue_deq_rep [OF this] obtain q' where "Queue_deq q = Some (Some x, q')" "Queue_rep q' ys" by (elim exE conjE)
  with Cons show thesis by (rule that(2))
qed

lemma Queue_enq_Some:
  assumes "Queue_rep q xs" "Queue_enq x q = Some q'"
  shows "Queue_rep q' (xs @ [x])"
  using Queue_enq_rep [OF assms(1), of x] assms(2) by auto

text \<open>The operations of the monitors other than those of the packet thread leave the packet queue.\<close>

lemma tell_pq: "tell e h S = Some S' \<Longrightarrow> pr_pq S' = pr_pq S"
  by (auto simp: tell_def)

lemma extractData_pq:
  assumes "extractData f S = Some (f', S')"
  shows "pr_pq S' = pr_pq S"
proof (cases "passes S f")
  case True
  have "map_option (\<lambda>ms. (f\<lparr>f_processed := True, f_pairs := kept [] (f_pairs f)\<rparr>, counted_totals (flow_events f) ms S))
      (steps (announce (f\<lparr>f_processed := True\<rparr>) (pr_em S)) (flow_events f) (pr_store S)) = Some (f', S')"
    using assms unfolding extractData_eq if_P [OF True] counted_totals_def .
  then obtain ms where "S' = counted_totals (flow_events f) ms S" by blast
  then show ?thesis by (simp add: counted_totals_def)
next
  case False
  with assms show ?thesis by (simp add: extractData_def)
qed

lemma flow_walk_pq:
  assumes "flow_walk p S = Some S'"
  shows "pr_pq S' = pr_pq S"
proof (rule flow_walk.raw_induct [where P = "\<lambda>p S S'. pr_pq S' = pr_pq S", OF _ assms], goal_cases)
  case (1 fw p S S')
  show ?case
  proof (cases p)
    case None
    with 1(2) show ?thesis by simp
  next
    case (Some a)
    with 1(2) obtain g h S1 where S1: "extractData g S = Some (h, S1)"
        "fw (fl_next (pr_fht S) a) (S1\<lparr>pr_fht := upd_flow a h (pr_fht S1)\<rparr>) = Some S'"
      by (auto simp: bind_eq_Some_conv Let_def)
    from 1(1) [OF S1(2)] extractData_pq [OF S1(1)] show ?thesis by simp
  qed
qed

lemma over_buckets_pq:
  assumes "over_buckets g hs S = Some S'" "\<And>h S S'. g h S = Some S' \<Longrightarrow> pr_pq S' = pr_pq S"
  shows "pr_pq S' = pr_pq S"
  using assms(1)
proof (induction hs arbitrary: S)
  case Nil
  then show ?case by simp
next
  case (Cons h hs)
  then obtain S1 where "g h S = Some S1" "over_buckets g hs S1 = Some S'" by (auto simp: bind_eq_Some_conv)
  with Cons.IH assms(2) show ?case by metis
qed

lemma second_over_pq: "second_over S = Some (u, S') \<Longrightarrow> pr_pq S' = pr_pq S"
  unfolding second_over_def flowHashProcess_def
  by (auto simp: bind_eq_Some_conv dest!: tell_pq elim!: over_buckets_pq dest: flow_walk_pq)

lemma interval_expired_pq: "interval_expired now an S = Some (out, S') \<Longrightarrow> pr_pq S' = pr_pq S"
  by (auto simp: interval_expired_def)

lemma each_pq:
  assumes "each f Ss = Some (rs, Ss')" "\<And>S r S'. f S = Some (r, S') \<Longrightarrow> pr_pq S' = pr_pq S"
  shows "map pr_pq Ss' = map pr_pq Ss"
  using assms(1)
proof (induction Ss arbitrary: rs Ss')
  case Nil
  then show ?case by simp
next
  case (Cons S Ss)
  then show ?case using assms(2) by (auto simp: bind_eq_Some_conv)
qed

lemma classify_ports:
  assumes "classify P cp pkt = Some p"
  shows "sport p = sport pkt \<and> dport p = dport pkt"
proof -
  obtain h where h: "isHeaderPacket cp (unat (tcp_dl pkt)) P = Some h"
    using assms by (cases "isHeaderPacket cp (unat (tcp_dl pkt)) P") (simp_all add: classify_def)
  show ?thesis
  proof (cases h)
    case False
    with assms h have "p = pkt\<lparr>tcp_odata := None, tcp_data := None\<rparr>" by (simp add: classify_def)
    then show ?thesis by simp
  next
    case True
    obtain q where q: "p_isRequest P cp (unat (tcp_dl pkt)) = Some q"
      using h by (cases "p_isRequest P cp (unat (tcp_dl pkt))") (simp_all add: isHeaderPacket_def)
    obtain r where r: "(if q \<noteq> None then Some None else p_isResponse P cp (unat (tcp_dl pkt))) = Some r"
      using assms True h q by (cases "if q \<noteq> None then Some None else p_isResponse P cp (unat (tcp_dl pkt))")
        (simp_all only: classify_def bind.simps if_True option.distinct(1))
    define x where "x = (if q \<noteq> None then pkt\<lparr>ptype := REQ\<rparr> else if r \<noteq> None then pkt\<lparr>ptype := RSP\<rparr> else pkt)"
    define y where "y = (if q \<noteq> None \<or> r \<noteq> None then x\<lparr>tcp_dl := ucast (raw_len x) -
        (ucast (ip_hl x) + ucast (tcp_hl x) + of_nat sizeof_ethhdr)\<rparr> else x)"
    have "(if unat (tcp_dl y) \<le> length cp then Some (y\<lparr>tcp_odata := Some (take (unat (tcp_dl y)) cp), tcp_data := Some 0\<rparr>)
        else None) = Some p"
      using assms True h q r by (simp only: classify_def bind.simps if_True Let_def x_def y_def)
    then have "p = y\<lparr>tcp_odata := Some (take (unat (tcp_dl y)) cp), tcp_data := Some 0\<rparr>" by (simp split: if_splits)
    moreover have "sport y = sport pkt \<and> dport y = dport pkt" by (simp add: x_def y_def)
    ultimately show ?thesis by simp
  qed
qed

lemma offer_effect:
  assumes "offer pkt cp Ss c = Some (r, Ss', c')"
  shows "(case r of
      Queued p \<Rightarrow> \<exists>i q. owner p Ss k = k + i \<and> i < length Ss \<and> Queue_enq p (pr_pq (Ss ! i)) = Some q \<and>
        Ss' = Ss[i := (Ss ! i)\<lparr>pr_pq := q\<rparr>]
    | _ \<Rightarrow> Ss' = Ss) \<and> (\<forall>p. r = Queued p \<longrightarrow> sport p = sport pkt \<and> dport p = dport pkt)"
  using assms
proof (induction pkt cp Ss c arbitrary: r Ss' c' k rule: offer.induct)
  case (1 pkt cp c)
  then show ?case by simp
next
  case (2 pkt cp S Ss c)
  have ports: "sport p = sport pkt \<and> dport p = dport pkt" if "classify P cp pkt = Some p" for P p
    using that by (rule classify_ports)
  show ?case
  proof (cases "isPacketOf (sport pkt) (dport pkt) S")
    case True
    show ?thesis
    proof (cases "tcp_dl pkt = 0")
      case dl: True
      with True "2.prems" show ?thesis by auto
    next
      case False
      with True "2.prems" obtain p q where p: "classify (pr_ops S) cp pkt = Some p" "Queue_enq p (pr_pq S) = Some q"
          and r: "r = Queued p" "Ss' = S\<lparr>pr_pq := q\<rparr> # Ss"
        by (auto simp: bind_eq_Some_conv)
      have own: "owner p (S # Ss) k = k + 0" using ports [OF p(1)] True by simp
      have "0 < length (S # Ss)" "Queue_enq p (pr_pq ((S # Ss) ! 0)) = Some q"
          "Ss' = (S # Ss)[0 := ((S # Ss) ! 0)\<lparr>pr_pq := q\<rparr>]" using p r by simp_all
      with own have "\<exists>i q. owner p (S # Ss) k = k + i \<and> i < length (S # Ss) \<and>
          Queue_enq p (pr_pq ((S # Ss) ! i)) = Some q \<and> Ss' = (S # Ss)[i := ((S # Ss) ! i)\<lparr>pr_pq := q\<rparr>]" by blast
      then show ?thesis unfolding r(1) using ports [OF p(1)] by (simp del: owner.simps)
    qed
  next
    case False
    then obtain Ss1 where o: "offer pkt cp Ss c = Some (r, Ss1, c')" "Ss' = S # Ss1"
      using "2.prems" by (auto simp: bind_eq_Some_conv)
    note IH = "2.IH" [OF False o(1), of "Suc k"]
    show ?thesis
    proof (cases r)
      case (Queued p)
      with IH obtain i q where i: "owner p Ss (Suc k) = Suc k + i" "i < length Ss" "Queue_enq p (pr_pq (Ss ! i)) = Some q"
          "Ss1 = Ss[i := (Ss ! i)\<lparr>pr_pq := q\<rparr>]" "sport p = sport pkt" "dport p = dport pkt" by auto
      with False Queued o show ?thesis
        by (auto intro!: exI [of _ "Suc i"])
    qed (use IH o in simp_all)
  qed
qed

section \<open>The queues as buffers between the threads\<close>

definition enq_raws :: "obs list \<Rightarrow> raw_pkt list" where
  "enq_raws os = concat (map (\<lambda>x. case x of Enq_raw r \<Rightarrow> [r] | _ \<Rightarrow> []) os)"

definition deq_raws :: "obs list \<Rightarrow> raw_pkt list" where
  "deq_raws os = concat (map (\<lambda>x. case x of Deq_raw r \<Rightarrow> [r] | _ \<Rightarrow> []) os)"

definition enq_pkts :: "nat \<Rightarrow> obs list \<Rightarrow> packet_t list" where
  "enq_pkts i os = concat (map (\<lambda>x. case x of Enq_pkt j p \<Rightarrow> if i = j then [p] else [] | _ \<Rightarrow> []) os)"

definition deq_pkts :: "nat \<Rightarrow> obs list \<Rightarrow> packet_t list" where
  "deq_pkts i os = concat (map (\<lambda>x. case x of Deq_pkt j p \<Rightarrow> if i = j then [p] else [] | _ \<Rightarrow> []) os)"

lemmas moved_defs = enq_raws_def deq_raws_def enq_pkts_def deq_pkts_def

lemma moved_append [simp]:
  "enq_raws (a @ b) = enq_raws a @ enq_raws b" "deq_raws (a @ b) = deq_raws a @ deq_raws b"
  "enq_pkts i (a @ b) = enq_pkts i a @ enq_pkts i b" "deq_pkts i (a @ b) = deq_pkts i a @ deq_pkts i b"
  by (simp_all add: moved_defs)

definition buffers :: "obs list \<Rightarrow> sys \<Rightarrow> bool" where
  "buffers os Y \<longleftrightarrow>
     (\<exists>rs. Queue_rep (y_rpq Y) rs \<and> enq_raws os = deq_raws os @ rs) \<and>
     (\<forall>i < length (y_mons Y). \<exists>qs. Queue_rep (pr_pq (y_mons Y ! i)) qs \<and> enq_pkts i os = deq_pkts i os @ qs)"

lemma buffers_frame:
  assumes "buffers os Y" "y_rpq Y' = y_rpq Y" "map pr_pq (y_mons Y') = map pr_pq (y_mons Y)"
  shows "buffers (os @ []) Y'"
proof -
  have l: "length (y_mons Y') = length (y_mons Y)" using arg_cong [OF assms(3), of length] by simp
  have "pr_pq (y_mons Y' ! i) = pr_pq (y_mons Y ! i)" if "i < length (y_mons Y)" for i
    using that l arg_cong [OF assms(3), of "\<lambda>xs. xs ! i"] by simp
  with assms(1,2) l show ?thesis by (simp add: buffers_def)
qed

lemma map_pq_update: "pr_pq S = pr_pq (Ss ! i) \<Longrightarrow> map pr_pq (Ss[i := S]) = map pr_pq Ss"
  by (metis list_update_id map_update)

lemma preprocess_effect:
  assumes "packet_preprocess rp Ss c = Some (r, Ss', c')"
  shows "case r of
      Queued p \<Rightarrow> \<exists>q. owner p Ss 0 < length Ss \<and> Queue_enq p (pr_pq (Ss ! owner p Ss 0)) = Some q \<and>
        Ss' = Ss[owner p Ss 0 := (Ss ! owner p Ss 0)\<lparr>pr_pq := q\<rparr>]
    | _ \<Rightarrow> Ss' = Ss"
proof -
  obtain h where h: "parse_headers rp = Some h" using assms by (auto simp: packet_preprocess_def bind_eq_Some_conv)
  show ?thesis
  proof (cases h)
    case None
    with assms h show ?thesis by (auto simp: packet_preprocess_def)
  next
    case (Some x)
    then obtain pkt cp where "offer pkt (drop cp (raw rp)) Ss c = Some (r, Ss', c')"
      using assms h by (cases x) (auto simp: packet_preprocess_def)
    from offer_effect [OF this, of 0] show ?thesis by (cases r) auto
  qed
qed

lemma capture_buffers:
  assumes "buffers os Y" "capture_main hdr Y = Some (os', Y')"
  shows "buffers (os @ os') Y'"
proof (cases "pc_capture Y \<or> unat (len hdr) < 54 \<or> isStopped (y_an Y)")
  case True
  with assms(2) have "os' = []" "y_rpq Y' = y_rpq Y" "y_mons Y' = y_mons Y"
    by (auto simp: capture_main_def split: if_splits)
  with buffers_frame [OF assms(1)] show ?thesis by simp
next
  case False
  let ?p = "hdr\<lparr>raw := take (unat (len hdr)) (raw hdr)\<rparr>"
  obtain q where q: "Queue_enq ?p (y_rpq Y) = Some q" "os' = [Enq_raw ?p]" "Y' = Y\<lparr>y_rpq := q\<rparr>"
    using assms(2) False by (auto simp: capture_main_def bind_eq_Some_conv Let_def split: if_splits)
  obtain rs where "Queue_rep (y_rpq Y) rs" "enq_raws os = deq_raws os @ rs"
    using assms(1) by (auto simp: buffers_def)
  with Queue_enq_Some [OF _ q(1)] assms(1) show ?thesis
    by (simp add: q(2,3) buffers_def) (simp add: moved_defs)
qed

lemma preprocess_buffers:
  assumes "buffers os Y" "process_packet Y = Some (os', Y')"
  shows "buffers (os @ os') Y'"
proof (cases "pc_raw Y")
  case True
  with assms show ?thesis by (auto simp: process_packet_def)
next
  case False
  obtain rs where rs: "Queue_rep (y_rpq Y) rs" "enq_raws os = deq_raws os @ rs"
    using assms(1) by (auto simp: buffers_def)
  from rs(1) show ?thesis
  proof (cases rule: Queue_deq_cases)
    case 1
    with assms(2) False have "os' = []" "y_rpq Y' = y_rpq Y" "y_mons Y' = y_mons Y"
      by (auto simp: process_packet_def)
    with buffers_frame [OF assms(1)] show ?thesis by simp
  next
    case (2 rp ys q')
    obtain r Ss c where pre: "packet_preprocess rp (y_mons Y) (y_counters Y) = Some (r, Ss, c)"
      using assms(2) False 2(2) by (auto simp: process_packet_def bind_eq_Some_conv Let_def)
    have os': "os' = Deq_raw rp # (case r of Queued pkt \<Rightarrow> [Enq_pkt (owner pkt (y_mons Y) 0) pkt] | _ \<Rightarrow> [])"
      and Y': "Y' = Y\<lparr>y_rpq := q', y_mons := Ss, y_counters := c\<rparr>"
      using assms(2) False 2(2) pre by (cases r; auto simp: process_packet_def Let_def)+
    have raws: "Queue_rep (y_rpq Y') ys \<and> enq_raws (os @ os') = deq_raws (os @ os') @ ys"
      using rs(2) 2 by (cases r) (simp_all add: Y' os' moved_defs)
    show ?thesis
    proof (cases "\<exists>p. r = Queued p")
      case False
      then have "Ss = y_mons Y" "enq_pkts i os' = []" "deq_pkts i os' = []" for i
        using preprocess_effect [OF pre] by (cases r; simp add: os' moved_defs)+
      with raws assms(1) show ?thesis by (auto simp: buffers_def Y')
    next
      case True
      then obtain p where r: "r = Queued p" by blast
      let ?k = "owner p (y_mons Y) 0"
      obtain q where k: "?k < length (y_mons Y)" "Queue_enq p (pr_pq (y_mons Y ! ?k)) = Some q"
          "Ss = (y_mons Y)[?k := (y_mons Y ! ?k)\<lparr>pr_pq := q\<rparr>]"
        using preprocess_effect [OF pre] r by auto
      have "\<exists>qs. Queue_rep (pr_pq (Ss ! i)) qs \<and> enq_pkts i (os @ os') = deq_pkts i (os @ os') @ qs"
        if i: "i < length Ss" for i
      proof -
        obtain qs where qs: "Queue_rep (pr_pq (y_mons Y ! i)) qs" "enq_pkts i os = deq_pkts i os @ qs"
          using assms(1) i k(3) by (auto simp: buffers_def)
        have moved: "enq_pkts i os' = (if i = ?k then [p] else [])" "deq_pkts i os' = []"
          by (simp_all add: os' r moved_defs)
        show ?thesis
        proof (cases "i = ?k")
          case True
          then have "Ss ! i = (y_mons Y ! ?k)\<lparr>pr_pq := q\<rparr>" using k(1,3) by simp
          with Queue_enq_Some [OF _ k(2)] qs moved True show ?thesis by (intro exI [of _ "qs @ [p]"]) simp
        next
          case False
          with qs moved k(3) show ?thesis by (intro exI [of _ qs]) simp
        qed
      qed
      with raws show ?thesis by (auto simp: buffers_def Y')
    qed
  qed
qed

lemma packet_thread_buffers:
  assumes "buffers os Y" "process_packet_queue junk now Y = Some (os', Y')"
  shows "buffers (os @ os') Y'"
proof (cases "\<exists>i < length (y_mons Y). pc_packet Y = At i")
  case False
  then have n: "length (y_mons Y) \<le> i" if "pc_packet Y = At i" for i using that by (meson not_le)
  have "os' = [] \<and> y_rpq Y' = y_rpq Y \<and> y_mons Y' = y_mons Y"
    using assms(2) n by (cases "pc_packet Y") (auto simp: process_packet_queue_def)
  with buffers_frame [OF assms(1)] show ?thesis by simp
next
  case True
  then obtain i where i: "i < length (y_mons Y)" "pc_packet Y = At i" by blast
  let ?S = "y_mons Y ! i"
  obtain qs where qs: "Queue_rep (pr_pq ?S) qs" "enq_pkts i os = deq_pkts i os @ qs"
    using assms(1) i(1) by (auto simp: buffers_def)
  from qs(1) show ?thesis
  proof (cases rule: Queue_deq_cases)
    case 1
    with assms(2) i have "os' = []" "y_rpq Y' = y_rpq Y" "y_mons Y' = (y_mons Y)[i := ?S]"
      by (auto simp: process_packet_queue_def upd_mon_def Let_def)
    with buffers_frame [OF assms(1)] show ?thesis by simp
  next
    case (2 p ys q')
    obtain t where t: "os' = [Deq_pkt i p]" "y_rpq Y' = y_rpq Y" "y_mons Y' = (y_mons Y)[i := ?S\<lparr>pr_pq := q', pr_fht := t\<rparr>]"
      using assms(2) i 2(2) by (auto simp: process_packet_queue_def upd_mon_def Let_def bind_eq_Some_conv)
    have "\<exists>qs. Queue_rep (pr_pq (y_mons Y' ! j)) qs \<and> enq_pkts j (os @ os') = deq_pkts j (os @ os') @ qs"
      if j: "j < length (y_mons Y')" for j
    proof (cases "j = i")
      case True
      with 2 qs t i(1) show ?thesis by (intro exI [of _ ys]) (simp add: moved_defs)
    next
      case False
      obtain rs where "Queue_rep (pr_pq (y_mons Y ! j)) rs" "enq_pkts j os = deq_pkts j os @ rs"
        using assms(1) j t(3) by (auto simp: buffers_def)
      with False t show ?thesis by (intro exI [of _ rs]) (simp add: moved_defs)
    qed
    moreover have "enq_raws os' = []" "deq_raws os' = []" by (simp_all add: t(1) moved_defs)
    ultimately show ?thesis using assms(1) t(2) by (simp add: buffers_def)
  qed
qed

lemma flow_thread_frame:
  assumes "process_flow_queue Y = Some (os', Y')"
  shows "os' = [] \<and> y_rpq Y' = y_rpq Y \<and> map pr_pq (y_mons Y') = map pr_pq (y_mons Y)"
proof (cases "\<exists>i < length (y_mons Y). pc_flow Y = At i")
  case False
  then have n: "length (y_mons Y) \<le> i" if "pc_flow Y = At i" for i using that by (meson not_le)
  then show ?thesis using assms by (cases "pc_flow Y") (auto simp: process_flow_queue_def)
next
  case True
  then obtain i where i: "i < length (y_mons Y)" "pc_flow Y = At i" by blast
  let ?S = "y_mons Y ! i"
  obtain fl q where d: "Queue_deq (fht_fq (pr_fht ?S)) = Some (fl, q)"
    using assms i by (auto simp: process_flow_queue_def Let_def bind_eq_Some_conv)
  have "\<exists>S'. pr_pq S' = pr_pq ?S \<and> os' = [] \<and> y_rpq Y' = y_rpq Y \<and> y_mons Y' = (y_mons Y)[i := S']"
  proof (cases fl)
    case None
    with assms i d show ?thesis
      by (intro exI [of _ "?S\<lparr>pr_fht := (pr_fht ?S)\<lparr>fht_fq := q\<rparr>\<rparr>"])
        (auto simp: process_flow_queue_def upd_mon_def Let_def)
  next
    case (Some a)
    with assms i d obtain f g S1 where "extractData f (?S\<lparr>pr_fht := (pr_fht ?S)\<lparr>fht_fq := q\<rparr>\<rparr>) = Some (g, S1)"
        "os' = []" "y_rpq Y' = y_rpq Y"
        "y_mons Y' = (y_mons Y)[i := S1\<lparr>pr_fht := (pr_fht S1)\<lparr>fl_obj := (fl_obj (pr_fht S1))(a := None)\<rparr>\<rparr>]"
      by (auto simp: process_flow_queue_def upd_mon_def Let_def bind_eq_Some_conv)
    moreover from this have "pr_pq S1 = pr_pq ?S" using extractData_pq by fastforce
    ultimately show ?thesis
      by (intro exI [of _ "S1\<lparr>pr_fht := (pr_fht S1)\<lparr>fl_obj := (fl_obj (pr_fht S1))(a := None)\<rparr>\<rparr>"]) simp
  qed
  then show ?thesis using map_pq_update by metis
qed

lemma scrubber_frame:
  assumes "scrubbing_flow_htbl now Y = Some (os', Y')"
  shows "os' = [] \<and> y_rpq Y' = y_rpq Y \<and> map pr_pq (y_mons Y') = map pr_pq (y_mons Y)"
proof (cases "\<exists>i < length (y_mons Y). pc_scrub Y = At i")
  case False
  then have n: "length (y_mons Y) \<le> i" if "pc_scrub Y = At i" for i using that by (meson not_le)
  then show ?thesis using assms by (cases "pc_scrub Y") (auto simp: scrubbing_flow_htbl_def)
next
  case True
  then obtain i where i: "i < length (y_mons Y)" "pc_scrub Y = At i" by blast
  with assms obtain t where "os' = []" "y_rpq Y' = y_rpq Y" "y_mons Y' = (y_mons Y)[i := (y_mons Y ! i)\<lparr>pr_fht := t\<rparr>]"
    by (auto simp: scrubbing_flow_htbl_def upd_mon_def Let_def bind_eq_Some_conv)
  then show ?thesis by (simp add: map_pq_update)
qed

lemma timer_frame:
  assumes "processData now Y = Some (os', Y')"
  shows "os' = [] \<and> y_rpq Y' = y_rpq Y \<and> map pr_pq (y_mons Y') = map pr_pq (y_mons Y)"
proof -
  let ?an = "(y_an Y)\<lparr>int_step := int_step (y_an Y) + 1\<rparr>"
  obtain us Ss where s: "each second_over (y_mons Y) = Some (us, Ss)"
    using assms by (auto simp: processData_def Let_def bind_eq_Some_conv)
  have one: "map pr_pq Ss = map pr_pq (y_mons Y)" by (rule each_pq [OF s]) (rule second_over_pq)
  show ?thesis
  proof (cases "int_step ?an < interval ?an")
    case True
    with assms s one show ?thesis by (auto simp: processData_def Let_def)
  next
    case int: False
    then obtain outs Ss' where e: "each (interval_expired now ?an) Ss = Some (outs, Ss')"
        "os' = []" "y_rpq Y' = y_rpq Y" "y_mons Y' = Ss'"
      using assms s by (auto simp: processData_def Let_def bind_eq_Some_conv)
    have "map pr_pq Ss' = map pr_pq Ss" by (rule each_pq [OF e(1)]) (rule interval_expired_pq)
    with e one show ?thesis by simp
  qed
qed

lemma act_buffers: "buffers os Y \<Longrightarrow> act a Y = Some (os', Y') \<Longrightarrow> buffers (os @ os') Y'"
proof (cases a)
  case (Packet_thread junk now)
  then show "buffers os Y \<Longrightarrow> act a Y = Some (os', Y') \<Longrightarrow> ?thesis" by (simp add: packet_thread_buffers)
next
  case Flow_thread
  then show "buffers os Y \<Longrightarrow> act a Y = Some (os', Y') \<Longrightarrow> ?thesis"
    using flow_thread_frame [of Y os' Y'] buffers_frame [of os Y Y'] by simp
next
  case (Scrubber now)
  then show "buffers os Y \<Longrightarrow> act a Y = Some (os', Y') \<Longrightarrow> ?thesis"
    using scrubber_frame [of now Y os' Y'] buffers_frame [of os Y Y'] by simp
next
  case (Timer_second now)
  then show "buffers os Y \<Longrightarrow> act a Y = Some (os', Y') \<Longrightarrow> ?thesis"
    using timer_frame [of now Y os' Y'] buffers_frame [of os Y Y'] by simp
next
  case Stop
  assume b: "buffers os Y" and "act a Y = Some (os', Y')"
  then have "os' = []" "Y' = Y\<lparr>y_an := analysis_stop (y_an Y)\<rparr>" by (simp_all add: Stop stop_analysis_def)
  with buffers_frame [OF b, of Y'] show ?thesis by simp
qed (simp_all add: capture_buffers preprocess_buffers)

lemma reach_buffers: "reach Y0 os Y \<Longrightarrow> buffers os0 Y0 \<Longrightarrow> buffers (os0 @ os) Y"
proof (induction rule: reach.induct)
  case start
  then show ?case by simp
next
  case (step os Y a os' Y')
  then show ?case using act_buffers [of "os0 @ os" Y a os' Y'] by simp
qed

lemma start_buffers: "\<forall>S \<in> set Ss. Queue_rep (pr_pq S) [] \<Longrightarrow> buffers [] (start_analysis an Ss c)"
  by (auto simp: buffers_def start_analysis_def moved_defs intro!: exI [of _ "[]"] Queue_rep_new)

lemma act_mons_length: "buffers os Y \<Longrightarrow> act a Y = Some (os', Y') \<Longrightarrow> length (y_mons Y') = length (y_mons Y)"
proof (cases a)
  case (Capture hdr)
  then show "act a Y = Some (os', Y') \<Longrightarrow> ?thesis"
    by (auto simp: capture_main_def bind_eq_Some_conv Let_def split: if_splits)
next
  case Preprocess
  assume "act a Y = Some (os', Y')"
  with Preprocess have p: "process_packet Y = Some (os', Y')" by simp
  show ?thesis
  proof (cases "pc_raw Y")
    case True
    with p show ?thesis by (simp add: process_packet_def)
  next
    case False
    then obtain rp q where d: "Queue_deq (y_rpq Y) = Some (rp, q)" using p by (auto simp: process_packet_def bind_eq_Some_conv)
    show ?thesis
    proof (cases rp)
      case None
      with p False d show ?thesis by (auto simp: process_packet_def Let_def)
    next
      case (Some x)
      obtain r Ss c where pre: "packet_preprocess x (y_mons Y) (y_counters Y) = Some (r, Ss, c)"
        using p False d Some by (auto simp: process_packet_def bind_eq_Some_conv Let_def)
      then have "y_mons Y' = Ss" using p False d Some by (auto simp: process_packet_def Let_def)
      with preprocess_effect [OF pre] show ?thesis by (cases r) auto
    qed
  qed
next
  case (Packet_thread junk now)
  assume "act a Y = Some (os', Y')"
  with Packet_thread show ?thesis
    by (auto simp: process_packet_queue_def upd_mon_def Let_def bind_eq_Some_conv split: pc.splits if_splits option.splits)
next
  case Flow_thread
  then show "act a Y = Some (os', Y') \<Longrightarrow> ?thesis" using flow_thread_frame [of Y os' Y'] by (metis act.simps(4) length_map)
next
  case (Scrubber now)
  then show "act a Y = Some (os', Y') \<Longrightarrow> ?thesis" using scrubber_frame [of now Y os' Y'] by (metis act.simps(5) length_map)
next
  case (Timer_second now)
  then show "act a Y = Some (os', Y') \<Longrightarrow> ?thesis" using timer_frame [of now Y os' Y'] by (metis act.simps(6) length_map)
next
  case Stop
  then show "act a Y = Some (os', Y') \<Longrightarrow> ?thesis" by (auto simp: stop_analysis_def)
qed

lemma reach_length: "reach Y0 os Y \<Longrightarrow> buffers os0 Y0 \<Longrightarrow> length (y_mons Y) = length (y_mons Y0)"
proof (induction rule: reach.induct)
  case (step os Y a os' Y')
  from reach_buffers [OF step.hyps(1) step.prems] act_mons_length [OF _ step.hyps(2)] step.IH step.prems
  show ?case by simp
qed simp


text \<open>One frame that is not IP is captured and preprocessed.\<close>

definition an_arp :: raw_pkt where
  "an_arp = \<lparr>ts_sec = 1, ts_usec = 2, caplen = 60, len = 60, raw = replicate 60 (CHR 0x08)\<rparr>"

lemma an_arp_freed: "packet_preprocess an_arp Ss c = Some (Freed, Ss, c)"
proof -
  have "load16 (raw an_arp) 12 = 0x0808"
    by (simp add: load16_def byte_def at_def an_arp_def code_def push_bit_eq_mult bit_simps)
  then show ?thesis
    by (simp add: packet_preprocess_def parse_headers_def packet_parse_ethhdr_def sizeof_defs an_arp_def ntohs_def
        push_bit_eq_mult drop_bit_eq_div)
qed

definition an_analysis :: analysis where "an_analysis = Analysis_new 4 ''eth0'' 0 2 60"

lemma capture_arp:
  "\<not> pc_capture Y \<Longrightarrow> \<not> isStopped (y_an Y) \<Longrightarrow> Queue_enq an_arp (y_rpq Y) = Some q \<Longrightarrow>
     act (Capture an_arp) Y = Some ([Enq_raw an_arp], Y\<lparr>y_rpq := q\<rparr>)"
  by (simp add: capture_main_def an_arp_def Let_def)


section \<open>The end of an analysis\<close>

lemma exited_stays:
  assumes "act a Y = Some (os', Y')" "pc_packet Y = Exited"
  shows "pc_packet Y' = Exited \<and> deq_pkts i os' = []"
proof (cases a)
  case (Capture hdr)
  with assms show ?thesis
    by (auto simp: capture_main_def bind_eq_Some_conv Let_def moved_defs split: if_splits)
next
  case Preprocess
  with assms have p: "process_packet Y = Some (os', Y')" by simp
  show ?thesis
  proof (cases "pc_raw Y")
    case True
    with p assms(2) show ?thesis by (simp add: process_packet_def moved_defs)
  next
    case False
    then obtain rp q where d: "Queue_deq (y_rpq Y) = Some (rp, q)" using p by (auto simp: process_packet_def bind_eq_Some_conv)
    show ?thesis
    proof (cases rp)
      case None
      with p False d assms(2) show ?thesis by (auto simp: process_packet_def Let_def moved_defs)
    next
      case (Some x)
      then obtain r Ss c where pre: "packet_preprocess x (y_mons Y) (y_counters Y) = Some (r, Ss, c)"
        using p False d by (auto simp: process_packet_def bind_eq_Some_conv Let_def)
      with p False d Some assms(2) show ?thesis
        by (cases r) (auto simp: process_packet_def Let_def moved_defs)
    qed
  qed
next
  case (Packet_thread junk now)
  with assms show ?thesis by (simp add: process_packet_queue_def moved_defs)
next
  case Flow_thread
  then have "os' = []" using assms(1) flow_thread_frame [of Y os' Y'] by simp
  with Flow_thread assms show ?thesis
    by (auto simp: process_flow_queue_def upd_mon_def Let_def bind_eq_Some_conv moved_defs split: pc.splits if_splits option.splits)
next
  case (Scrubber now)
  with assms show ?thesis
    by (auto simp: scrubbing_flow_htbl_def upd_mon_def Let_def bind_eq_Some_conv moved_defs split: pc.splits if_splits)
next
  case (Timer_second now)
  with assms show ?thesis
    by (auto simp: processData_def Let_def bind_eq_Some_conv moved_defs split: if_splits)
next
  case Stop
  with assms show ?thesis by (auto simp: stop_analysis_def moved_defs)
qed

lemma reach_exited: "reach Y os Y' \<Longrightarrow> pc_packet Y = Exited \<Longrightarrow> pc_packet Y' = Exited \<and> deq_pkts i os = []"
proof (induction rule: reach.induct)
  case start
  then show ?case by (simp add: moved_defs)
next
  case (step os Y' a os' Y'')
  then show ?case using exited_stays [OF step.hyps(2), of i] by simp
qed

text \<open>The packet thread does not drain its queues when an analysis ends: once it has exited, no packet is
  taken from any queue, so those that were waiting and those that the preprocessing still adds
  are never accounted for.\<close>

theorem stopped_packet_thread_strands_packets:
  assumes "reach (start_analysis an Ss c) os Y" "\<forall>S \<in> set Ss. Queue_rep (pr_pq S) []"
    "pc_packet Y = Exited" "reach Y os' Y'" "i < length Ss"
  shows "\<exists>qs. Queue_rep (pr_pq (y_mons Y ! i)) qs \<and> Queue_rep (pr_pq (y_mons Y' ! i)) (qs @ enq_pkts i os') \<and>
    deq_pkts i os' = []"
proof -
  have b0: "buffers [] (start_analysis an Ss c)" by (rule start_buffers [OF assms(2)])
  have b: "buffers os Y" using reach_buffers [OF assms(1) b0] by simp
  have l: "length (y_mons Y) = length Ss" "length (y_mons Y') = length Ss"
    using reach_length [OF assms(1) b0] reach_length [OF assms(4) b] by (simp_all add: start_analysis_def)
  have d: "deq_pkts i os' = []" using reach_exited [OF assms(4,3)] by blast
  obtain qs where qs: "Queue_rep (pr_pq (y_mons Y ! i)) qs" "enq_pkts i os = deq_pkts i os @ qs"
    using b assms(5) l(1) by (auto simp: buffers_def)
  obtain qs' where "Queue_rep (pr_pq (y_mons Y' ! i)) qs'" "enq_pkts i (os @ os') = deq_pkts i (os @ os') @ qs'"
    using reach_buffers [OF assms(4) b] assms(5) l(2) by (auto simp: buffers_def)
  with qs d show ?thesis by auto
qed

lemma stopped_packet_thread_strands_packets_witness:
  "\<forall>junk f. \<exists>Y. reach (start_analysis an_analysis [MySQL_new junk an_analysis ''MYSQL'' 0] \<lparr>req_n = 0, rsp_n = 0\<rparr>) [] Y \<and>
     pc_packet Y = Exited \<and>
     (\<exists>qs. Queue_rep (pr_pq (y_mons Y ! 0)) qs \<and> Queue_rep (pr_pq (y_mons Y ! 0)) (qs @ []) \<and> deq_pkts 0 [] = [])"
proof (intro allI)
  fix junk and f :: pflow
  let ?S = "MySQL_new junk an_analysis ''MYSQL'' 0"
  let ?Y = "start_analysis an_analysis [?S] \<lparr>req_n = 0, rsp_n = 0\<rparr>"
  let ?Y1 = "?Y\<lparr>y_an := analysis_stop an_analysis\<rparr>"
  let ?Y2 = "?Y1\<lparr>pc_packet := Exited\<rparr>"
  have "act Stop ?Y = Some ([], ?Y1)" by (simp add: stop_analysis_def start_analysis_def)
  from reach.step [OF reach.start this] have r1: "reach ?Y [] ?Y1" by simp
  have "act (Packet_thread f (0, 0)) ?Y1 = Some ([], ?Y2)"
    by (simp add: process_packet_queue_def start_analysis_def next_round_def isStopped_def analysis_stop_def)
  from reach.step [OF r1 this] have r: "reach ?Y [] ?Y2" by simp
  have pq: "\<forall>S \<in> set [?S]. Queue_rep (pr_pq S) []"
    by (simp add: MySQL_new_def push_metrics_def Protocol_new_def Queue_rep_new)
  have "pc_packet ?Y2 = Exited" "0 < length [?S]" by simp_all
  from stopped_packet_thread_strands_packets [OF r pq this(1) reach.start this(2)] r
  show "\<exists>Y. reach ?Y [] Y \<and> pc_packet Y = Exited \<and>
     (\<exists>qs. Queue_rep (pr_pq (y_mons Y ! 0)) qs \<and> Queue_rep (pr_pq (y_mons Y ! 0)) (qs @ []) \<and> deq_pkts 0 [] = [])"
    by (intro exI [of _ ?Y2]) (simp add: moved_defs)
qed

text \<open>The frames on which preprocessing is defined, whatever is on the queues.\<close>

definition frame_defined :: "monitor list \<Rightarrow> raw_pkt \<Rightarrow> bool" where
  "frame_defined Ss rp \<longleftrightarrow> (\<exists>r. parse_headers rp = Some r \<and>
     (\<forall>pkt cp. r = Some (pkt, cp) \<longrightarrow> (\<forall>S \<in> set Ss. classify (pr_ops S) (drop cp (raw rp)) pkt \<noteq> None)))"

lemma offer_defined:
  assumes "\<forall>S \<in> set Ss. classify (pr_ops S) cp pkt \<noteq> None" "\<forall>S \<in> set Ss. \<exists>qs. Queue_rep (pr_pq S) qs"
  shows "\<exists>r Ss' c'. offer pkt cp Ss c = Some (r, Ss', c')"
  using assms
proof (induction Ss)
  case Nil
  then show ?case by simp
next
  case (Cons S Ss)
  obtain p qs where p: "classify (pr_ops S) cp pkt = Some p" "Queue_rep (pr_pq S) qs" using Cons.prems by auto
  obtain q where q: "Queue_enq p (pr_pq S) = Some q" using Queue_enq_rep [OF p(2)] by blast
  have "\<exists>r Ss' c'. offer pkt cp Ss c = Some (r, Ss', c')" using Cons.prems by (intro Cons.IH) auto
  then obtain r Ss' c' where r: "offer pkt cp Ss c = Some (r, Ss', c')" by blast
  show ?case unfolding offer.simps p(1) r by (simp add: q)
qed

lemma preprocess_defined:
  assumes "frame_defined Ss rp" "\<forall>S \<in> set Ss. \<exists>qs. Queue_rep (pr_pq S) qs"
  shows "\<exists>r Ss' c'. packet_preprocess rp Ss c = Some (r, Ss', c') \<and> map pr_ops Ss' = map pr_ops Ss"
proof -
  obtain h where h: "parse_headers rp = Some h"
      "\<forall>pkt cp. h = Some (pkt, cp) \<longrightarrow> (\<forall>S \<in> set Ss. classify (pr_ops S) (drop cp (raw rp)) pkt \<noteq> None)"
    using assms(1) by (auto simp: frame_defined_def)
  have "\<exists>r Ss' c'. packet_preprocess rp Ss c = Some (r, Ss', c')"
  proof (cases h)
    case None
    with h show ?thesis by (simp add: packet_preprocess_def)
  next
    case (Some x)
    obtain pkt cp where x: "x = (pkt, cp)" by (cases x)
    then have "\<forall>S \<in> set Ss. classify (pr_ops S) (drop cp (raw rp)) pkt \<noteq> None" using h(2) Some by blast
    from offer_defined [OF this assms(2), of c] h(1) Some x show ?thesis by (simp add: packet_preprocess_def)
  qed
  then obtain r Ss' c' where p: "packet_preprocess rp Ss c = Some (r, Ss', c')" by blast
  have "map pr_ops Ss' = map pr_ops Ss"
  proof (cases r)
    case (Queued pkt)
    with preprocess_effect [OF p] show ?thesis
      by (auto simp: map_update) (metis (no_types, lifting) length_map list_update_id nth_map)
  qed (use preprocess_effect [OF p] in simp_all)
  with p show ?thesis by blast
qed

lemma frame_defined_ops: "map pr_ops Ss' = map pr_ops Ss \<Longrightarrow> frame_defined Ss rp = frame_defined Ss' rp"
proof -
  assume m: "map pr_ops Ss' = map pr_ops Ss"
  have "(\<forall>S \<in> set Ss. Q (pr_ops S)) = (\<forall>S \<in> set Ss'. Q (pr_ops S))" for Q
  proof -
    have "(\<forall>S \<in> set Ss. Q (pr_ops S)) = (\<forall>P \<in> set (map pr_ops Ss). Q P)" for Ss :: "monitor list" by simp
    then show ?thesis using m by metis
  qed
  from this [where Q = "\<lambda>P. classify P (drop cp (raw rp)) pkt \<noteq> None" for cp pkt] show ?thesis
    unfolding frame_defined_def by presburger
qed

lemma preprocess_drains:
  assumes "buffers os Y" "\<not> pc_raw Y" "isStopped (y_an Y)" "Queue_rep (y_rpq Y) rs" "\<forall>rp \<in> set rs. frame_defined (y_mons Y) rp"
  shows "\<exists>os' Y'. reach Y os' Y' \<and> pc_raw Y' \<and> deq_raws os' = rs \<and> Queue_rep (y_rpq Y') [] \<and> y_an Y' = y_an Y"
  using assms
proof (induction rs arbitrary: os Y)
  case Nil
  then have "act Preprocess Y = Some ([], Y\<lparr>pc_raw := True\<rparr>)"
    using Queue_deq_empty [OF Nil(4)] by (simp add: process_packet_def Let_def)
  from reach.step [OF reach.start this] Nil(4) show ?case
    by (intro exI [of _ "[]"] exI [of _ "Y\<lparr>pc_raw := True\<rparr>"]) (simp add: moved_defs)
next
  case (Cons rp rs)
  obtain q where q: "Queue_deq (y_rpq Y) = Some (Some rp, q)" "Queue_rep q rs"
    using Queue_deq_rep [OF Cons.prems(4)] by blast
  have "\<forall>S \<in> set (y_mons Y). \<exists>qs. Queue_rep (pr_pq S) qs"
    using Cons.prems(1) unfolding buffers_def by (metis in_set_conv_nth)
  then obtain r Ss c where p: "packet_preprocess rp (y_mons Y) (y_counters Y) = Some (r, Ss, c)"
      "map pr_ops Ss = map pr_ops (y_mons Y)"
    using preprocess_defined [of "y_mons Y" rp "y_counters Y"] Cons.prems(5) by auto
  define os1 where "os1 = Deq_raw rp # (case r of Queued pkt \<Rightarrow> [Enq_pkt (owner pkt (y_mons Y) 0) pkt] | _ \<Rightarrow> [])"
  let ?Y = "Y\<lparr>y_rpq := q, y_mons := Ss, y_counters := c\<rparr>"
  have a: "act Preprocess Y = Some (os1, ?Y)"
    using Cons.prems(2) q(1) p(1) by (cases r) (simp_all add: os1_def process_packet_def Let_def)
  have "buffers (os @ os1) ?Y" by (rule act_buffers [OF Cons.prems(1) a])
  then obtain os' Y' where r': "reach ?Y os' Y'" "pc_raw Y'" "deq_raws os' = rs" "Queue_rep (y_rpq Y') []" "y_an Y' = y_an ?Y"
    using Cons.IH [of "os @ os1" ?Y] Cons.prems q(2) frame_defined_ops [OF p(2)] by auto
  have first: "reach Y os1 ?Y" using reach.step [OF reach.start a] by simp
  have "reach Y (os1 @ os') Y'"
    using r'(1)
  proof (induction rule: reach.induct)
    case start
    then show ?case using first by simp
  next
    case (step os1 Y1 a1 os2 Y2)
    from reach.step [OF step.IH step.hyps(2)] show ?case by simp
  qed
  moreover have "deq_raws os1 = [rp]" by (cases r) (simp_all add: os1_def moved_defs)
  ultimately show ?case using r' by (intro exI [of _ "os1 @ os'"] exI [of _ Y']) (simp add: moved_append)
qed



section \<open>The timer counts the intervals\<close>

lemma processData_cases:
  assumes "processData now Y = Some (os', Y')"
  shows "interval (y_an Y') = interval (y_an Y)"
    "int_step (y_an Y) + 1 < interval (y_an Y) \<Longrightarrow>
       int_step (y_an Y') = int_step (y_an Y) + 1 \<and> y_sent Y' = y_sent Y"
    "\<not> int_step (y_an Y) + 1 < interval (y_an Y) \<Longrightarrow> int_step (y_an Y') = 0"
  using assms by (auto simp: processData_def Let_def bind_eq_Some_conv split: if_splits)

lemma seconds_count:
  assumes "steps (\<lambda>now Y. map_option snd (processData now Y)) nows Y = Some Y'" "int_step (y_an Y) < interval (y_an Y)"
  shows "unat (int_step (y_an Y')) = (unat (int_step (y_an Y)) + length nows) mod unat (interval (y_an Y)) \<and>
    (unat (int_step (y_an Y)) + length nows < unat (interval (y_an Y)) \<longrightarrow> y_sent Y' = y_sent Y)"
  using assms
proof (induction nows arbitrary: Y)
  case Nil
  then show ?case by (simp add: word_less_nat_alt)
next
  case (Cons now nows)
  let ?k = "int_step (y_an Y)" and ?I = "interval (y_an Y)"
  obtain os1 Y1 where p: "processData now Y = Some (os1, Y1)"
      "steps (\<lambda>now Y. map_option snd (processData now Y)) nows Y1 = Some Y'"
    using Cons.prems(1) by (auto simp: bind_eq_Some_conv)
  note c = processData_cases [OF p(1)]
  have lt: "unat ?k < unat ?I" using Cons.prems(2) by (simp add: word_less_nat_alt)
  have "?k + 1 \<noteq> 0"
  proof
    assume "?k + 1 = 0"
    then have "?k = - 1" by (simp add: eq_neg_iff_add_eq_0)
    with Cons.prems(2) show False by simp
  qed
  then have k1: "unat (?k + 1) = unat ?k + 1" using unatSuc [of ?k] by (simp add: add.commute)
  show ?case
  proof (cases "?k + 1 < ?I")
    case True
    with c Cons.IH [OF p(2)] k1 show ?thesis by auto
  next
    case False
    with lt k1 have "unat ?k + 1 = unat ?I" by (simp add: word_less_nat_alt)
    moreover have "0 < ?I" using lt by (simp add: word_less_nat_alt)
    moreover have "(unat ?k + length (now # nows)) mod unat ?I = (length nows) mod unat ?I"
      using calculation(1) by (metis add.assoc length_Cons mod_add_self1 plus_1_eq_Suc)
    ultimately show ?thesis using False c Cons.IH [OF p(2)] by auto
  qed
qed

text \<open>C36. The timer counts whole intervals: after any number of seconds from a step counter below the
  interval length, the counter is the number of seconds modulo the length, and before the interval is over
  nothing has been sent.\<close>

theorem timer_counts_seconds:
  assumes "steps (\<lambda>now Y. map_option snd (processData now Y)) nows Y = Some Y'" "int_step (y_an Y) < interval (y_an Y)"
  shows "unat (int_step (y_an Y')) = (unat (int_step (y_an Y)) + length nows) mod unat (interval (y_an Y)) \<and>
    (unat (int_step (y_an Y)) + length nows < unat (interval (y_an Y)) \<longrightarrow> y_sent Y' = y_sent Y)"
  by (rule seconds_count [OF assms])

lemma timer_counts_seconds_witness:
  "\<exists>Y'. steps (\<lambda>now Y. map_option snd (processData now Y)) [11, 12, 13]
     (start_analysis an_analysis [] \<lparr>req_n = 0, rsp_n = 0\<rparr>) = Some Y' \<and> unat (int_step (y_an Y')) = 1"
proof -
  let ?Y = "start_analysis an_analysis [] \<lparr>req_n = 0, rsp_n = 0\<rparr>"
  have s: "steps (\<lambda>now Y. map_option snd (processData now Y)) [11, 12, 13] ?Y =
      Some (?Y\<lparr>y_an := an_analysis\<lparr>int_step := 1\<rparr>\<rparr>)"
    by (simp add: processData_def start_analysis_def an_analysis_def Analysis_new_def)
  have "int_step (y_an ?Y) < interval (y_an ?Y)" by (simp add: start_analysis_def an_analysis_def Analysis_new_def)
  from timer_counts_seconds [OF s this] s show ?thesis
    by (intro exI [of _ "?Y\<lparr>y_an := an_analysis\<lparr>int_step := 1\<rparr>\<rparr>"])
      (simp add: start_analysis_def an_analysis_def Analysis_new_def)
qed

end
