(* ===== verification/Reports.thy ===== *)
theory Reports
  imports Metrics Pb_Messages
begin

unbundle bit_operations_syntax

text \<open>
  What \<^verbatim>\<open>sendMsg\<close> of \<^verbatim>\<open>MetricAvg\<close> and \<^verbatim>\<open>MetricCumDistr\<close> sends (\<^verbatim>\<open>metricAvg.cpp\<close>, \<^verbatim>\<open>metricCumDistr.cpp\<close>): the struct
  of a report, packed behind its length.  \<open>ieee\<close> is the representation of a double in memory.
\<close>

section \<open>The structs\<close>

definition avg_struct :: "(double \<Rightarrow> u64) \<Rightarrow> avg_msg \<Rightarrow> pb_msg" where
  "avg_struct ieee a = (case a of (av, mi, ma) \<Rightarrow> struct_of analysis__metric_avg_msg__descriptor
     [(''avg'', U64 (ieee av)), (''min'', U64 (ieee mi)), (''max'', U64 (ieee ma))])"

definition freq_struct :: "(double \<Rightarrow> u64) \<Rightarrow> cf_item \<Rightarrow> pb_msg" where
  "freq_struct ieee it = struct_of analysis__freq__descriptor
     [(''name'', Str (cf_name it)), (''freq'', U64 (ieee (c_freq it)))]"

definition cum_distr_struct :: "(double \<Rightarrow> u64) \<Rightarrow> cf_item list \<Rightarrow> pb_msg" where
  "cum_distr_struct ieee its = struct_of analysis__metric_cum_distr_msg__descriptor
     [(''freqs'', Arr (map (Sub \<circ> Some \<circ> freq_struct ieee) its))]"

text \<open>The client id is not assigned.  The values are in a union.\<close>

definition metric_struct :: "(double \<Rightarrow> u64) \<Rightarrow> metric_msg \<Rightarrow> pb_msg" where
  "metric_struct ieee r = struct_of analysis__metric_msg__descriptor
     [(''values_case'', U32 (case mm_values r of MetricAvgMsg _ \<Rightarrow> 8 | MetricCumDistrMsg _ \<Rightarrow> 9)),
      (''values'', Sub (Some (case mm_values r of MetricAvgMsg a \<Rightarrow> avg_struct ieee a
                                | MetricCumDistrMsg its \<Rightarrow> cum_distr_struct ieee its))),
      (''name'', Str (Some (mm_name r))), (''netint'', Str (Some (mm_netint r))), (''netintid'', U32 (mm_netintid r)),
      (''protocol'', Str (Some (mm_protocol r))), (''protocolid'', U32 (mm_protocolid r)),
      (''time'', U64 (of_int (mm_time r)))]"

section \<open>Sending\<close>

text \<open>The buffer holds the length and the packed struct; the computed size of both is sent.\<close>

definition sendMsg :: "(double \<Rightarrow> u64) \<Rightarrow> metric_msg \<Rightarrow> u8 list option" where
  "sendMsg ieee r = do {
     let msg = metric_struct ieee r;
     msg_len \<leftarrow> analysis__metric_msg__get_packed_size msg;
     let varint = encode_varint (of_nat msg_len);
     bs \<leftarrow> analysis__metric_msg__pack msg;
     Some (take (length varint + msg_len) (varint @ bs))
   }"

fun send_all :: "(double \<Rightarrow> u64) \<Rightarrow> metric_msg list \<Rightarrow> u8 list option" where
  "send_all ieee [] = Some []"
| "send_all ieee (r # rs) = do { bs \<leftarrow> sendMsg ieee r; ds \<leftarrow> send_all ieee rs; Some (bs @ ds) }"

section \<open>Reading\<close>

text \<open>A client that reads \<open>n\<close> reports from its socket, each by its length; what is left is returned.\<close>

fun read_reports :: "nat \<Rightarrow> u8 list \<Rightarrow> (pb_msg list \<times> u8 list) option" where
  "read_reports 0 sock = Some ([], sock)"
| "read_reports (Suc n) sock = do {
     (msg_len, sock) \<leftarrow> decode_varint sock;
     m \<leftarrow> (case analysis__metric_msg__unpack (take (unat msg_len) sock) of Inl _ \<Rightarrow> None | Inr m \<Rightarrow> Some m);
     (ms, sock) \<leftarrow> read_reports n (drop (unat msg_len) sock);
     Some (m # ms, sock)
   }"

text \<open>The strings of a report have no NUL, and it is below 64 MiB.\<close>

definition report_ok :: "(double \<Rightarrow> u64) \<Rightarrow> metric_msg \<Rightarrow> bool" where
  "report_ok ieee r \<longleftrightarrow> c_str (mm_name r) = mm_name r \<and> c_str (mm_netint r) = mm_netint r \<and> c_str (mm_protocol r) = mm_protocol r \<and>
     (case mm_values r of MetricAvgMsg _ \<Rightarrow> True
        | MetricCumDistrMsg its \<Rightarrow> \<forall>it \<in> set its. \<exists>s. cf_name it = Some s \<and> c_str s = s) \<and>
     (\<forall>n. analysis__metric_msg__get_packed_size (metric_struct ieee r) = Some n \<longrightarrow> n < 2 ^ 26)"

lemma avg_struct_good: "message_good analysis__metric_avg_msg__descriptor (avg_struct ieee a)"
proof (cases a)
  case (fields av mi ma)
  show ?thesis
    unfolding fields avg_struct_def prod.case analysis__metric_avg_msg__descriptor_def
    by (rule struct_good) (simp_all add: struct_of_def field_good_simps init_simps)
qed

lemma freq_struct_good:
  assumes "cf_name it = Some s" "c_str s = s"
  shows "message_good analysis__freq__descriptor (freq_struct ieee it)"
  unfolding freq_struct_def analysis__freq__descriptor_def
  by (rule struct_good) (use assms in \<open>simp_all add: struct_of_def field_good_simps init_simps\<close>)

lemma cum_distr_struct_good:
  assumes "\<forall>it \<in> set its. \<exists>s. cf_name it = Some s \<and> c_str s = s"
  shows "message_good analysis__metric_cum_distr_msg__descriptor (cum_distr_struct ieee its)"
  unfolding cum_distr_struct_def analysis__metric_cum_distr_msg__descriptor_def
  by (rule struct_good)
    (use assms in \<open>auto simp: struct_of_def field_good_simps init_simps intro: freq_struct_good\<close>)

lemma metric_struct_good:
  assumes "report_ok ieee r"
  shows "message_good analysis__metric_msg__descriptor (metric_struct ieee r)"
proof (cases "mm_values r")
  case (MetricAvgMsg a)
  show ?thesis
    unfolding metric_struct_def analysis__metric_msg__descriptor_def
    by (rule struct_good)
      (use assms MetricAvgMsg avg_struct_good in \<open>simp_all add: report_ok_def struct_of_def field_good_simps init_simps\<close>)
next
  case (MetricCumDistrMsg its)
  show ?thesis
    unfolding metric_struct_def analysis__metric_msg__descriptor_def
    by (rule struct_good)
      (use assms MetricCumDistrMsg cum_distr_struct_good in \<open>simp_all add: report_ok_def struct_of_def field_good_simps init_simps\<close>)
qed

lemma sendMsg_framed:
  assumes "report_ok ieee r"
  shows "\<exists>bs. sendMsg ieee r = Some (encode_varint (of_nat (length bs)) @ bs) \<and> length bs < 2 ^ 26 \<and>
    analysis__metric_msg__unpack bs = Inr (metric_struct ieee r)"
proof -
  obtain n bs where n: "analysis__metric_msg__get_packed_size (metric_struct ieee r) = Some n" "n < 2 ^ 26"
      "analysis__metric_msg__pack (metric_struct ieee r) = Some bs" "length bs = n"
      "analysis__metric_msg__unpack bs = Inr (metric_struct ieee r)"
    using unpack_pack_holds [OF metric_msg_ok metric_struct_good [OF assms]] assms
    unfolding analysis__metric_msg__get_packed_size_def analysis__metric_msg__pack_def analysis__metric_msg__unpack_def report_ok_def
    by blast
  then show ?thesis by (auto simp: sendMsg_def)
qed


end
