(* ===== verification/Pb_Typed.thy ===== *)
theory Pb_Typed
  imports Pb_Roundtrip "HOL-Library.Sublist"
begin

unbundle bit_operations_syntax

text \<open>
  What unpacking arbitrary bytes can give (\<^verbatim>\<open>protobuf-c.c\<close>): a message whose members have the types of its
  descriptor and whose required members are there, as \<^verbatim>\<open>protobuf_c_message_check\<close> tests it, or an error.  Memory outside
  the buffer is accessed only when a length wraps around, for which three bytes \<^verbatim>\<open>0xff\<close> in a row are needed.
\<close>

section \<open>Results that satisfy a condition\<close>

text \<open>If there is a result it satisfies the condition, and with \<open>ok\<close> nothing undefined happens.\<close>

definition returns :: "bool \<Rightarrow> ('a \<Rightarrow> bool) \<Rightarrow> failure + 'a \<Rightarrow> bool" where
  "returns ok P r \<longleftrightarrow> (case r of Inr x \<Rightarrow> P x | Inl Unpack_error \<Rightarrow> True | Inl Undefined \<Rightarrow> \<not> ok)"

lemma returns_simps [simp]:
  "returns ok P (Inr x) \<longleftrightarrow> P x" "returns ok P (Inl Unpack_error)" "returns ok P (Inl Undefined) \<longleftrightarrow> \<not> ok"
  "returns ok P (parsed y) \<longleftrightarrow> (\<forall>x. y = Some x \<longrightarrow> P x)"
  by (auto simp: returns_def parsed_def guard_def split: option.split)

lemma returns_guard [simp]: "returns ok P (guard b) \<longleftrightarrow> (b \<longrightarrow> P ())"
  by (simp add: guard_def)

lemma returns_defined: "y = Some x \<Longrightarrow> P x \<Longrightarrow> returns ok P (defined y)"
  by simp

lemma returns_and_then:
  assumes "returns ok P r" "\<And>x. P x \<Longrightarrow> r = Inr x \<Longrightarrow> returns ok Q (g x)"
  shows "returns ok Q (and_then r g)"
  using assms by (cases r) (auto simp: returns_def split: failure.splits)

lemma returns_mono: "returns ok P r \<Longrightarrow> (\<And>x. P x \<Longrightarrow> Q x) \<Longrightarrow> (ok' \<Longrightarrow> ok) \<Longrightarrow> returns ok' Q r"
  by (auto simp: returns_def split: sum.splits failure.splits)

section \<open>Lengths that do not wrap around\<close>

definition no_ff_run :: "u8 list \<Rightarrow> bool" where
  "no_ff_run bs \<longleftrightarrow> \<not> sublist [0xff, 0xff, 0xff] bs"

lemma no_ff_run_sublist: "no_ff_run bs \<Longrightarrow> sublist cs bs \<Longrightarrow> no_ff_run cs"
  by (auto simp: no_ff_run_def intro: sublist_order.order.trans)

lemma no_ff_run_cut: "no_ff_run bs \<Longrightarrow> no_ff_run (take n bs)" "no_ff_run bs \<Longrightarrow> no_ff_run (drop n bs)"
  by (auto elim: no_ff_run_sublist intro: prefix_imp_sublist suffix_imp_sublist take_is_prefix suffix_drop)

lemma scan_length_loop_digits:
  assumes "s < 2 ^ sh" "scan_length_loop (of_nat s) sh i bs = Some (v, n)"
  shows "\<exists>ds rest. bs = ds @ rest \<and> varint ds \<and> n = i + length ds \<and> v = of_nat (s + 2 ^ sh * b128 ds)"
  using assms
proof (induction bs arbitrary: s sh i)
  case Nil
  then show ?case by simp
next
  case (Cons b bs)
  have digit: "(of_nat s :: u32) OR push_bit sh (ucast (b AND 0x7f)) = of_nat (s + 2 ^ sh * (unat b mod 128))"
    by (simp add: ucast_digit or_digit [OF Cons.prems(1)] del: of_nat_add of_nat_mult)
  show ?case
  proof (cases "b AND 0x80 = 0")
    case True
    with Cons.prems(2) digit show ?thesis
      by (intro exI [of _ "[b]"] exI [of _ bs]) (simp add: Let_def varint_Cons del: of_nat_add of_nat_mult)
  next
    case False
    with Cons.prems(2) digit have "scan_length_loop (of_nat (s + 2 ^ sh * (unat b mod 128))) (sh + 7) (i + 1) bs = Some (v, n)"
      by (simp add: Let_def del: of_nat_add of_nat_mult)
    from Cons.IH [OF partial_less [OF Cons.prems(1)] this] obtain ds rest where
      "bs = ds @ rest" "varint ds" "n = i + 1 + length ds"
      "v = of_nat (s + 2 ^ sh * (unat b mod 128) + 2 ^ (sh + 7) * b128 ds)" by blast
    with False have "b # bs = (b # ds) @ rest \<and> varint (b # ds) \<and> n = i + length (b # ds) \<and> v = of_nat (s + 2 ^ sh * b128 (b # ds))"
      using varint_nonempty [of ds] by (simp add: varint_Cons algebra_simps power_add del: of_nat_add of_nat_mult)
    then show ?thesis by blast
  qed
qed

text \<open>A prefix of four bytes is far below the limit; one of five that reaches it has three bytes with all bits set.\<close>

lemma five_digits_wrap:
  fixes a b c d e :: nat
  assumes "a < 128" "b < 128" "c < 128" "d < 128"
    "2 ^ 32 - 5 \<le> (a + 128 * (b + 128 * (c + 128 * (d + 128 * e)))) mod 2 ^ 32"
  shows "b = 127 \<and> c = 127 \<and> d = 127"
proof -
  obtain r q where e: "e = r + 16 * q" "r < 16" using mod_less_divisor [of 16 e] mod_mult_div_eq [of e 16] by (metis zero_less_numeral)
  have "a + 128 * (b + 128 * (c + 128 * (d + 128 * e))) = a + 128 * b + 16384 * c + 2097152 * d + 268435456 * r + 2 ^ 32 * q"
    by (simp add: e(1))
  then have "(a + 128 * (b + 128 * (c + 128 * (d + 128 * e)))) mod 2 ^ 32 \<le> a + 128 * b + 16384 * c + 2097152 * d + 268435456 * r"
    by (simp only: mod_mult_self2 mod_less_eq_dividend)
  with assms e(2) show ?thesis by auto
qed

lemma scan_length_plain:
  assumes "scan_length_loop 0 0 0 (take 5 data) = Some (v, n)" "no_ff_run data"
  shows "unat v + n < 2 ^ 32"
proof -
  obtain ds rest where ds: "take 5 data = ds @ rest" "varint ds" "n = length ds" "v = of_nat (b128 ds)"
    using scan_length_loop_digits [of 0 0 0 "take 5 data" v n] assms(1) by auto
  have "length ds \<le> 5" using arg_cong [OF ds(1), of length] by simp
  then consider "length ds \<le> 4" | "length ds = 5" by linarith
  then show ?thesis
  proof cases
    case 1
    have "b128 ds < 128 ^ length ds" by (rule b128_small)
    also have "\<dots> \<le> 128 ^ 4" using 1 by (intro power_increasing) simp_all
    finally show ?thesis using 1 ds(3,4) by (simp add: unsigned_of_nat take_bit_nat_eq_self)
  next
    case 2
    then obtain a b c d e where l: "ds = [a, b, c, d, e]"
      by (auto simp: numeral_eq_Suc length_Suc_conv)
    have "no_ff_run ds" using no_ff_run_cut(1) [OF assms(2), of 5] unfolding ds(1) by (rule no_ff_run_sublist) simp
    then have no: "\<not> (b = 0xff \<and> c = 0xff \<and> d = 0xff)" unfolding l no_ff_run_def by (auto simp: sublist_Cons_right)
    have big: "128 \<le> unat b" "128 \<le> unat c" "128 \<le> unat d"
      using ds(2) unfolding l by (auto simp: varint_Cons and_0x80 split: if_splits)
    have u: "unat x = 255 \<longleftrightarrow> x = 0xff" for x :: u8 by (auto simp: word_unat_eq_iff)
    have m: "unat x = 255" if "128 \<le> unat x" "unat x mod 128 = 127" for x :: u8
      using that unsigned_less [of x, where 'a = nat] by (simp add: le_mod_geq)
    have v: "unat v = (unat a mod 128 + 128 * (unat b mod 128 + 128 * (unat c mod 128 + 128 * (unat d mod 128 + 128 * (unat e mod 128))))) mod 2 ^ 32"
      unfolding ds(4) l by (simp add: unsigned_of_nat take_bit_eq_mod del: of_nat_add of_nat_mult)
    have "\<not> 2 ^ 32 - 5 \<le> unat v"
    proof
      assume "2 ^ 32 - 5 \<le> unat v"
      then have "unat b mod 128 = 127 \<and> unat c mod 128 = 127 \<and> unat d mod 128 = 127"
        unfolding v by (intro five_digits_wrap [of "unat a mod 128"]) (simp_all only: mod_less_divisor zero_less_numeral)
      then have "unat b = 255 \<and> unat c = 255 \<and> unat d = 255" using m big by blast
      with no show False by (simp add: u)
    qed
    then have "unat v < 2 ^ 32 - 5" by (simp only: not_le)
    with 2 ds(3) show ?thesis by simp
  qed
qed

lemma scan_data_no_wrap:
  assumes "scan_data wire data = Some (len, pref)" "no_ff_run data"
  shows "pref \<le> len"
proof -
  have "pref \<le> len" if s: "scan_length_prefixed_data data = Some (len, pref)"
  proof -
    obtain v where v: "scan_length_loop 0 0 0 (take 5 data) = Some (v, pref)" "len = unat (of_nat pref + v)"
      using s by (auto simp: scan_length_prefixed_data_def Let_def split: Option.bind_splits if_splits)
    have b: "unat v + pref < 2 ^ 32" using scan_length_plain [OF v(1) assms(2)] .
    then have "unat (of_nat pref :: u32) = pref" by (simp add: unsigned_of_nat take_bit_nat_eq_self)
    then have "len = pref + unat v" using b v(2) unat_add_lem [of "of_nat pref :: u32" v] by simp
    then show ?thesis by simp
  qed
  with assms(1) show ?thesis by (auto simp: scan_data_def Let_def split: if_splits)
qed

section \<open>Messages of the types of their descriptor\<close>

text \<open>Members of one union share its case; here they must also share their place and type, and embedded messages must
  have descriptors.\<close>

definition same_union :: "field_desc \<Rightarrow> field_desc \<Rightarrow> bool" where
  "same_union f g \<longleftrightarrow> has_quantifier f \<and> has_quantifier g \<and> fd_oneof f \<and> fd_oneof g \<and> fd_quantifier f = fd_quantifier g"

fun described :: "msg_desc \<Rightarrow> bool"
  and described_fields :: "field_desc list \<Rightarrow> bool"
  and described_sub :: "msg_desc option \<Rightarrow> bool" where
  "described (Msg_desc nm fs rs) = (numbered fs rs \<and> layout_ok fs \<and> described_fields fs \<and>
     (\<forall>f \<in> set fs. \<forall>g \<in> set fs. same_union f g \<longrightarrow> fd_offset f = fd_offset g \<and> fd_type f = fd_type g))"
| "described_fields [] = True"
| "described_fields (Field_desc nm i l t q off sub pk one # fs) =
     ((t = T_MESSAGE \<longrightarrow> sub \<noteq> None) \<and> (one \<longrightarrow> q \<noteq> [] \<and> (l = OPTIONAL \<or> l = NO_LABEL)) \<and> described_sub sub \<and> described_fields fs)"
| "described_sub None = True"
| "described_sub (Some D) = described D"

lemma described_fields_iff:
  "described_fields fs \<longleftrightarrow> (\<forall>f \<in> set fs. (fd_type f = T_MESSAGE \<longrightarrow> fd_sub f \<noteq> None) \<and>
     (fd_oneof f \<longrightarrow> fd_quantifier f \<noteq> [] \<and> (fd_label f = OPTIONAL \<or> fd_label f = NO_LABEL)) \<and> described_sub (fd_sub f))"
proof (induction fs)
  case (Cons f fs)
  then show ?case by (cases f) auto
qed simp

text \<open>A value of a type; strings and messages may be NULL, \<open>sg\<close> holds of the messages.\<close>

definition value_typed :: "(pb_msg \<Rightarrow> bool) \<Rightarrow> pb_type \<Rightarrow> cell \<Rightarrow> bool" where
  "value_typed sg t c =
     (case t of
        T_STRING \<Rightarrow> (\<exists>s. c = Str s)
      | T_BYTES \<Rightarrow> (\<exists>b. c = Bytes b)
      | T_MESSAGE \<Rightarrow> (\<exists>m. c = Sub m \<and> (\<forall>m'. m = Some m' \<longrightarrow> sg m'))
      | T_INT64 \<Rightarrow> (\<exists>v. c = U64 v) | T_SINT64 \<Rightarrow> (\<exists>v. c = U64 v) | T_SFIXED64 \<Rightarrow> (\<exists>v. c = U64 v)
      | T_UINT64 \<Rightarrow> (\<exists>v. c = U64 v) | T_FIXED64 \<Rightarrow> (\<exists>v. c = U64 v) | T_DOUBLE \<Rightarrow> (\<exists>v. c = U64 v)
      | _ \<Rightarrow> (\<exists>v. c = U32 v))"

definition null_cell :: "cell \<Rightarrow> bool" where
  "null_cell c \<longleftrightarrow> c = Str None \<or> c = Sub None"

definition field_typed :: "(pb_msg \<Rightarrow> bool) \<Rightarrow> field_desc \<Rightarrow> pb_msg \<Rightarrow> bool" where
  "field_typed sg f m \<longleftrightarrow>
     (let c = members m (fd_offset f); q = members m (fd_quantifier f)
      in if fd_label f = REPEATED then \<exists>cs. c = Arr cs \<and> (\<forall>c \<in> set cs. value_typed sg (fd_type f) c \<and> \<not> null_cell c)
         else if fd_label f \<noteq> REQUIRED \<and> fd_oneof f
         then \<exists>v. q = U32 v \<and> (v = 0 \<longrightarrow> c = zero_cell f) \<and> (v = fd_id f \<longrightarrow> value_typed sg (fd_type f) c)
         else value_typed sg (fd_type f) c \<and> (fd_label f \<noteq> REQUIRED \<longrightarrow> fd_quantifier f \<noteq> [] \<longrightarrow> (\<exists>v. q = U32 v)))"

text \<open>The case of a union is the number of one of its members.\<close>

definition cases_known :: "field_desc list \<Rightarrow> pb_msg \<Rightarrow> bool" where
  "cases_known fs m \<longleftrightarrow> (\<forall>f \<in> set fs. has_quantifier f \<longrightarrow> fd_oneof f \<longrightarrow>
     (\<exists>v. members m (fd_quantifier f) = U32 v \<and> (v = 0 \<or> (\<exists>g \<in> set fs. same_union f g \<and> fd_id g = v))))"

definition required_there :: "field_desc list \<Rightarrow> pb_msg \<Rightarrow> bool" where
  "required_there fs m \<longleftrightarrow> (\<forall>f \<in> set fs. fd_label f = REQUIRED \<longrightarrow> \<not> null_cell (members m (fd_offset f)))"

text \<open>What no field writes is as it was initialised.\<close>

definition nothing_else :: "field_desc list \<Rightarrow> pb_msg \<Rightarrow> bool" where
  "nothing_else fs m \<longleftrightarrow> (\<forall>x. (\<forall>f \<in> set fs. x \<notin> writes f) \<longrightarrow> members m x = U32 0)"

fun complete_message :: "msg_desc \<Rightarrow> pb_msg \<Rightarrow> bool"
  and typed_fields :: "field_desc list \<Rightarrow> pb_msg \<Rightarrow> bool"
  and complete_sub :: "msg_desc option \<Rightarrow> pb_msg \<Rightarrow> bool" where
  "complete_message (Msg_desc nm fs rs) m = (typed_fields fs m \<and> cases_known fs m \<and> nothing_else fs m \<and> required_there fs m)"
| "typed_fields [] m = True"
| "typed_fields (Field_desc nm i l t q off sub pk one # fs) m =
     (field_typed (\<lambda>m'. complete_sub sub m') (Field_desc nm i l t q off sub pk one) m \<and> typed_fields fs m)"
| "complete_sub None m = False"
| "complete_sub (Some D) m = complete_message D m"

lemma typed_fields_iff: "typed_fields fs m \<longleftrightarrow> (\<forall>f \<in> set fs. field_typed (complete_sub (fd_sub f)) f m)"
proof (induction fs)
  case (Cons f fs)
  then show ?case by (cases f) simp
qed simp

lemma value_typed_zero: "fd_label f \<noteq> REPEATED \<Longrightarrow> value_typed sg (fd_type f) (zero_cell f)"
  by (cases "fd_type f") (simp_all add: value_typed_def zero_cell_def)

lemma value_typedE:
  assumes "value_typed sg t c"
  shows "t = T_MESSAGE \<Longrightarrow> \<exists>m. c = Sub m \<and> (\<forall>m'. m = Some m' \<longrightarrow> sg m')" "t = T_STRING \<Longrightarrow> \<exists>s. c = Str s"
    "t = T_BYTES \<Longrightarrow> \<exists>b. c = Bytes b"
  using assms by (simp_all add: value_typed_def)

section \<open>Writing one member\<close>

text \<open>What is typed in a message while it is parsed or merged: all fields, and the cases of its unions.\<close>

definition typed :: "field_desc list \<Rightarrow> pb_msg \<Rightarrow> bool" where
  "typed fs m \<longleftrightarrow> typed_fields fs m \<and> cases_known fs m \<and> nothing_else fs m"

definition fields_described :: "field_desc list \<Rightarrow> bool" where
  "fields_described fs \<longleftrightarrow> layout_ok fs \<and> inj_on fd_id (set fs) \<and>
     (\<forall>f \<in> set fs. (fd_type f = T_MESSAGE \<longrightarrow> fd_sub f \<noteq> None) \<and> (fd_oneof f \<longrightarrow> fd_quantifier f \<noteq> [] \<and> (fd_label f = OPTIONAL \<or> fd_label f = NO_LABEL))) \<and>
     (\<forall>f \<in> set fs. \<forall>g \<in> set fs. same_union f g \<longrightarrow> fd_offset f = fd_offset g \<and> fd_type f = fd_type g)"

lemma others_compatible:
  assumes "fields_described fs" "f \<in> set fs" "g \<in> set fs" "g \<noteq> f"
  shows "writes f \<inter> writes g = {} \<or> same_union f g"
proof -
  obtain i j where "i < length fs" "fs ! i = f" "j < length fs" "fs ! j = g" using assms(2,3) by (auto simp: in_set_conv_nth)
  with assms(1,4) show ?thesis unfolding fields_described_def layout_ok_def compatible_def same_union_def by blast
qed

lemma same_union_place:
  assumes "fields_described fs" "f \<in> set fs" "g \<in> set fs" "same_union f g"
  shows "fd_offset g = fd_offset f \<and> fd_type g = fd_type f \<and> fd_quantifier g = fd_quantifier f"
proof -
  have "fd_offset f = fd_offset g \<and> fd_type f = fd_type g" using assms unfolding fields_described_def by blast
  with assms(4) show ?thesis by (simp add: same_union_def)
qed

lemma typed_field: "typed fs m \<Longrightarrow> f \<in> set fs \<Longrightarrow> field_typed (complete_sub (fd_sub f)) f m"
  by (simp add: typed_def typed_fields_iff)

text \<open>A field reads no more than it writes.\<close>

lemma field_typed_cong:
  assumes "field_typed sg f m" "\<And>x. x \<in> writes f \<Longrightarrow> members m' x = members m x"
  shows "field_typed sg f m'"
  using assms(1) assms(2) [of "fd_offset f"] assms(2) [of "fd_quantifier f"]
  by (cases "fd_label f") (auto simp: field_typed_def writes_def has_quantifier_def Let_def split: if_splits)

lemma typed_update:
  assumes "fields_described fs" "typed fs m" "f \<in> set fs" "\<And>x. x \<notin> writes f \<Longrightarrow> members m' x = members m x"
    "field_typed (complete_sub (fd_sub f)) f m'"
    "has_quantifier f \<Longrightarrow> fd_oneof f \<Longrightarrow> \<exists>v. members m' (fd_quantifier f) = U32 v \<and> (v = 0 \<or> v = fd_id f)"
  shows "typed fs m'"
  unfolding typed_def
proof (intro conjI)
  show "nothing_else fs m'" using assms(2-4) unfolding typed_def nothing_else_def by metis
  show "typed_fields fs m'" unfolding typed_fields_iff
  proof
    fix g assume g: "g \<in> set fs"
    note old = typed_field [OF assms(2) g]
    show "field_typed (complete_sub (fd_sub g)) g m'"
    proof (cases "g = f")
      case True
      with assms(5) show ?thesis by simp
    next
      case False
      from others_compatible [OF assms(1,3) g False] consider "writes f \<inter> writes g = {}" | "same_union f g" by blast
      then show ?thesis
      proof cases
        case 1
        show ?thesis by (rule field_typed_cong [OF old]) (use 1 assms(4) in auto)
      next
        case 2
        then have u: "fd_offset g = fd_offset f" "fd_type g = fd_type f" "fd_quantifier g = fd_quantifier f"
          using same_union_place [OF assms(1,3) g] by simp_all
        obtain v where v: "members m' (fd_quantifier f) = U32 v" "v = 0 \<or> v = fd_id f"
          using assms(6) 2 by (auto simp: same_union_def)
        have l: "fd_label f \<noteq> REPEATED" "fd_label f \<noteq> REQUIRED" "fd_oneof f" "fd_label g \<noteq> REPEATED" "fd_label g \<noteq> REQUIRED" "fd_oneof g"
          using 2 by (auto simp: same_union_def has_quantifier_def)
        have "fd_id g \<noteq> fd_id f" using assms(1,3) g False unfolding fields_described_def inj_on_def by blast
        moreover have "fd_id g \<noteq> 0" using assms(1) g by (simp add: fields_described_def layout_ok_def field_layout_def)
        moreover have "zero_cell g = zero_cell f" using l u(2) by (simp add: zero_cell_def)
        ultimately show ?thesis using assms(5) v l u by (auto simp: field_typed_def Let_def)
      qed
    qed
  qed
  show "cases_known fs m'" unfolding cases_known_def
  proof (intro ballI impI)
    fix g assume g: "g \<in> set fs" "has_quantifier g" "fd_oneof g"
    show "\<exists>v. members m' (fd_quantifier g) = U32 v \<and> (v = 0 \<or> (\<exists>h \<in> set fs. same_union g h \<and> fd_id h = v))"
    proof (cases "same_union f g \<or> g = f")
      case True
      then have u: "same_union g f" "has_quantifier f" "fd_oneof f" "fd_quantifier g = fd_quantifier f"
        using g by (auto simp: same_union_def)
      obtain v where "members m' (fd_quantifier f) = U32 v" "v = 0 \<or> v = fd_id f" using assms(6) u by blast
      with u assms(3) show ?thesis by auto
    next
      case False
      then have "writes f \<inter> writes g = {}" using others_compatible [OF assms(1,3) g(1)] by blast
      with g assms(4) [of "fd_quantifier g"] have "members m' (fd_quantifier g) = members m (fd_quantifier g)" by (auto simp: writes_def)
      with assms(2) g show ?thesis by (simp add: typed_def cases_known_def)
    qed
  qed
qed

lemma required_there_update:
  assumes "fields_described fs" "f \<in> set fs" "\<And>x. x \<notin> writes f \<Longrightarrow> members m' x = members m x"
    "g \<in> set fs" "fd_label g = REQUIRED" "\<not> null_cell (members m (fd_offset g))" "g = f \<Longrightarrow> \<not> null_cell (members m' (fd_offset g))"
  shows "\<not> null_cell (members m' (fd_offset g))"
proof (cases "g = f")
  case False
  then have "writes f \<inter> writes g = {}"
    using others_compatible [OF assms(1,2,4)] assms(5) by (auto simp: same_union_def has_quantifier_def)
  then have "fd_offset g \<notin> writes f" using offset_writes [of g] by blast
  with assms(3) [of "fd_offset g"] assms(6) show ?thesis by simp
qed (use assms(7) in simp)

section \<open>Values from scanned members\<close>

definition sm_fine :: "bool \<Rightarrow> field_desc list \<Rightarrow> scanned_member \<Rightarrow> bool" where
  "sm_fine ok fs sm \<longleftrightarrow> (\<forall>k. sm_field sm = Some k \<longrightarrow> k < length fs \<and> fd_id (fs ! k) = sm_tag sm) \<and>
     (ok \<longrightarrow> no_ff_run (sm_data sm) \<and> sm_length_prefix_len sm \<le> sm_len sm)"

lemma sm_content_returns:
  assumes "sm_fine ok fs sm"
  shows "returns ok (\<lambda>bs. ok \<longrightarrow> no_ff_run bs) (sm_content sm)"
  using assms by (auto simp: sm_content_def sm_fine_def intro: no_ff_run_cut)

definition filled :: "(pb_msg \<Rightarrow> bool) \<Rightarrow> pb_type \<Rightarrow> cell \<Rightarrow> bool" where
  "filled sg t c \<longleftrightarrow> value_typed sg t c \<and> \<not> null_cell c"

lemma filled_varint: "wire_type_of t = WIRE_VARINT \<Longrightarrow> t \<noteq> T_BOOL \<Longrightarrow> filled sg t (parse_varint t n data)"
  by (cases t) (simp_all add: filled_def value_typed_def null_cell_def parse_varint_def wire_type_of_def wire_defs)

lemma filled_scalar:
  "wire_type_of t = WIRE_32BIT \<Longrightarrow> filled sg t (U32 v)" "wire_type_of t = WIRE_64BIT \<Longrightarrow> filled sg t (U64 w)" "filled sg T_BOOL (U32 v)"
  by (cases t, simp_all add: filled_def value_typed_def null_cell_def wire_type_of_def wire_defs)+

lemma parse_required_returns:
  assumes "sm_fine ok fs sm" "\<And>bs. fd_type f = T_MESSAGE \<Longrightarrow> ok \<longrightarrow> no_ff_run bs \<Longrightarrow> returns ok sg (up bs)"
    "\<And>e l. fd_type f = T_MESSAGE \<Longrightarrow> sg e \<Longrightarrow> sg l \<Longrightarrow> returns ok sg (mg e l)"
    "\<And>m. fd_type f = T_MESSAGE \<Longrightarrow> maybe_clear \<Longrightarrow> old = Sub (Some m) \<Longrightarrow> sg m"
  shows "returns ok (filled sg (fd_type f)) (parse_required_member up mg f sm old maybe_clear)"
proof (cases "sm_wire_type sm = wire_type_of (fd_type f) \<and> fd_type f \<in> {T_STRING, T_BYTES, T_MESSAGE}")
  case False
  then show ?thesis
    by (auto simp: parse_required_member_def Let_def filled_scalar filled_varint)
       (auto simp: wire_type_of_def wire_defs split: pb_type.splits)
next
  case True
  then have "parse_required_member up mg f sm old maybe_clear = and_then (sm_content sm) (\<lambda>bs.
           if fd_type f = T_STRING then Inr (Str (Some (map (\<lambda>b. char_of (unat b)) bs)))
           else if fd_type f = T_BYTES then Inr (Bytes bs)
           else and_then (up bs) (\<lambda>subm.
                  case old of
                    Sub (Some earlier) \<Rightarrow> if maybe_clear then and_then (mg earlier subm) (\<lambda>m. Inr (Sub (Some m)))
                                          else Inr (Sub (Some subm))
                  | _ \<Rightarrow> Inr (Sub (Some subm))))"
    by (auto simp: parse_required_member_def Let_def wire_type_of_def wire_defs)
  moreover have "returns ok (filled sg (fd_type f)) \<dots>"
  proof (rule returns_and_then [OF sm_content_returns [OF assms(1)]])
    fix bs assume bs: "ok \<longrightarrow> no_ff_run bs"
    have "returns ok (filled sg T_MESSAGE) (and_then (up bs) (\<lambda>subm.
                  case old of
                    Sub (Some earlier) \<Rightarrow> if maybe_clear then and_then (mg earlier subm) (\<lambda>m. Inr (Sub (Some m)))
                                          else Inr (Sub (Some subm))
                  | _ \<Rightarrow> Inr (Sub (Some subm))))" if t: "fd_type f = T_MESSAGE"
    proof (rule returns_and_then [OF assms(2) [OF t bs]])
      fix subm assume s: "sg subm"
      have plain: "filled sg T_MESSAGE (Sub (Some m))" if "sg m" for m
        using that by (simp add: filled_def value_typed_def null_cell_def)
      have merged: "returns ok (filled sg T_MESSAGE) (and_then (mg earlier subm) (\<lambda>m. Inr (Sub (Some m))))"
        if "sg earlier" for earlier
        by (rule returns_and_then [OF assms(3) [OF t that s]]) (simp add: plain)
      from s assms(4) [OF t] plain merged show "returns ok (filled sg T_MESSAGE) (case old of
                    Sub (Some earlier) \<Rightarrow> if maybe_clear then and_then (mg earlier subm) (\<lambda>m. Inr (Sub (Some m)))
                                          else Inr (Sub (Some subm))
                  | _ \<Rightarrow> Inr (Sub (Some subm)))"
        by (auto split: cell.split option.split)
    qed
    with True show "returns ok (filled sg (fd_type f)) (if fd_type f = T_STRING then Inr (Str (Some (map (\<lambda>b. char_of (unat b)) bs)))
           else if fd_type f = T_BYTES then Inr (Bytes bs)
           else and_then (up bs) (\<lambda>subm.
                  case old of
                    Sub (Some earlier) \<Rightarrow> if maybe_clear then and_then (mg earlier subm) (\<lambda>m. Inr (Sub (Some m)))
                                          else Inr (Sub (Some subm))
                  | _ \<Rightarrow> Inr (Sub (Some subm))))"
      by (auto simp: filled_def value_typed_def null_cell_def)
  qed
  ultimately show ?thesis by simp
qed

lemma parse_packed_varints_all: "parse_packed_varints g data = Inr cs \<Longrightarrow> c \<in> set cs \<Longrightarrow> \<exists>n d. c = g n d"
proof (induction g data arbitrary: cs rule: parse_packed_varints.induct)
  case (1 g data)
  show ?case
  proof (cases "data = []")
    case True
    with "1.prems" show ?thesis by (simp add: parse_packed_varints.simps [of g "[]"])
  next
    case False
    with "1.prems" obtain ds where "parse_packed_varints g (drop (scan_varint data) data) = Inr ds" "scan_varint data \<noteq> 0"
        "cs = g (scan_varint data) data # ds"
      by (auto simp: parse_packed_varints.simps [of g data] Let_def and_then_Inr split: if_splits)
    with "1.IH" [OF False refl] "1.prems"(2) show ?thesis by (cases "c \<in> set ds") auto
  qed
qed

lemma parse_packed_varints_defined: "parse_packed_varints g data \<noteq> Inl Undefined"
proof (induction g data rule: parse_packed_varints.induct)
  case (1 g data)
  then show ?case
    by (subst parse_packed_varints.simps) (cases "parse_packed_varints g (drop (scan_varint data) data)", auto simp: Let_def)
qed

lemma parse_packed_returns:
  assumes "sm_fine ok fs sm" "is_packable_type (fd_type f)"
  shows "returns ok (\<lambda>cs. \<forall>c \<in> set cs. filled sg (fd_type f) c) (parse_packed_repeated_member f sm)"
  unfolding parse_packed_repeated_member_def
proof (rule returns_and_then [OF sm_content_returns [OF assms(1)]])
  fix bs
  have "returns ok (\<lambda>cs. \<forall>c \<in> set cs. filled sg (fd_type f) c) (parse_packed_varints (parse_varint (fd_type f)) bs)"
    if "wire_type_of (fd_type f) = WIRE_VARINT" "fd_type f \<noteq> T_BOOL"
    using parse_packed_varints_all [of "parse_varint (fd_type f)" bs] parse_packed_varints_defined [of "parse_varint (fd_type f)" bs]
      filled_varint [OF that] by (cases "parse_packed_varints (parse_varint (fd_type f)) bs")
      (fastforce simp: returns_def split: failure.split)+
  with assms(2) show "returns ok (\<lambda>cs. \<forall>c \<in> set cs. filled sg (fd_type f) c)
     (if fd_type f = T_SFIXED32 \<or> fd_type f = T_FIXED32 \<or> fd_type f = T_FLOAT
       then Inr (map (\<lambda>i. U32 (parse_fixed_uint32 (drop (4 * i) bs))) [0..<length bs div 4])
       else if fd_type f = T_SFIXED64 \<or> fd_type f = T_FIXED64 \<or> fd_type f = T_DOUBLE
       then Inr (map (\<lambda>i. U64 (parse_fixed_uint64 (drop (8 * i) bs))) [0..<length bs div 8])
       else if fd_type f = T_BOOL
       then (if \<exists>b \<in> set bs. b > 1 then Inl Unpack_error else Inr (map (\<lambda>b. U32 (ucast b)) bs))
       else parse_packed_varints (parse_varint (fd_type f)) bs)"
    by (cases "fd_type f") (auto simp: filled_def value_typed_def null_cell_def is_packable_type_def wire_type_of_def wire_defs)
qed

section \<open>Filling a field\<close>

lemma described_fields_described:
  assumes "described (Msg_desc nm fs rs)"
  shows "fields_described fs"
proof -
  have n: "numbered fs rs" using assms by simp
  have "inj_on fd_id (set fs)"
  proof (rule inj_onI)
    fix f g assume "f \<in> set fs" "g \<in> set fs" "fd_id f = fd_id g"
    then obtain i j where ij: "i < length fs" "fs ! i = f" "j < length fs" "fs ! j = g" by (auto simp: in_set_conv_nth)
    then have "int_range_lookup rs (sint (fd_id f)) = Some i" "int_range_lookup rs (sint (fd_id f)) = Some j"
      using n \<open>fd_id f = fd_id g\<close> unfolding numbered_def by metis+
    with ij show "f = g" by simp
  qed
  then show ?thesis using assms by (simp add: fields_described_def described_fields_iff)
qed

lemma field_found:
  assumes "numbered fs rs" "int_range_lookup rs (sint v) = Some j"
  shows "j < length fs" "fd_id (fs ! j) = v"
  using assms unfolding numbered_def by (metis, metis sint_word_ariths signed_word_eqI)

lemma layout_apart: "fields_described fs \<Longrightarrow> f \<in> set fs \<Longrightarrow> has_quantifier f \<Longrightarrow> fd_offset f \<noteq> fd_quantifier f"
  by (simp add: fields_described_def layout_ok_def field_layout_def)

lemma id_not_0: "fields_described fs \<Longrightarrow> f \<in> set fs \<Longrightarrow> fd_id f \<noteq> 0"
  by (simp add: fields_described_def layout_ok_def field_layout_def)

lemma typed_fill_array:
  assumes "fields_described fs" "typed fs m" "f \<in> set fs" "fd_label f = REPEATED"
    "\<forall>c \<in> set cs. filled (complete_sub (fd_sub f)) (fd_type f) c"
  shows "typed fs (put (fd_offset f) (Arr cs) m)"
  by (rule typed_update [OF assms(1-3)])
    (use assms(4,5) in \<open>auto simp: writes_def field_typed_def filled_def has_quantifier_def Let_def\<close>)

lemma typed_fill_plain:
  assumes "fields_described fs" "typed fs m" "f \<in> set fs" "fd_label f \<noteq> REPEATED" "\<not> has_quantifier f"
    "value_typed (complete_sub (fd_sub f)) (fd_type f) c"
  shows "typed fs (put (fd_offset f) c m)"
proof (rule typed_update [OF assms(1-3)])
  have "fd_label f = REQUIRED \<or> \<not> fd_oneof f \<and> fd_quantifier f = []"
    using assms(4,5) by (cases "fd_label f") (auto simp: has_quantifier_def)
  with assms(4,6) show "field_typed (complete_sub (fd_sub f)) f (put (fd_offset f) c m)"
    by (auto simp: field_typed_def Let_def)
qed (use assms(5) in \<open>auto simp: writes_def\<close>)

lemma typed_fill_quantified:
  assumes "fields_described fs" "typed fs m" "f \<in> set fs" "has_quantifier f"
    "value_typed (complete_sub (fd_sub f)) (fd_type f) c" "fd_oneof f \<Longrightarrow> v = fd_id f \<or> v = 0 \<and> c = zero_cell f"
  shows "typed fs (put (fd_quantifier f) (U32 v) (put (fd_offset f) c m))"
proof (rule typed_update [OF assms(1-3)])
  have "fd_label f \<noteq> REPEATED" "fd_label f \<noteq> REQUIRED" using assms(4) by (auto simp: has_quantifier_def)
  then show "field_typed (complete_sub (fd_sub f)) f (put (fd_quantifier f) (U32 v) (put (fd_offset f) c m))"
    using assms(5,6) layout_apart [OF assms(1,3,4)] id_not_0 [OF assms(1,3)]
    by (auto simp: field_typed_def Let_def)
qed (use assms(4,6) in \<open>auto simp: writes_def\<close>)

text \<open>Filling a field that is not required leaves the required ones alone.\<close>

lemma required_there_fill:
  assumes "fields_described fs" "required_there fs m" "f \<in> set fs" "fd_label f \<noteq> REQUIRED"
    "\<And>x. x \<notin> writes f \<Longrightarrow> members m' x = members m x"
  shows "required_there fs m'"
  unfolding required_there_def
proof (intro ballI impI)
  fix g assume g: "g \<in> set fs" "fd_label g = REQUIRED"
  then have "\<not> null_cell (members m (fd_offset g))" "g \<noteq> f" using assms(2,4) by (auto simp: required_there_def)
  then show "\<not> null_cell (members m' (fd_offset g))"
    using required_there_update [OF assms(1,3,5) g] by blast
qed

section \<open>Merging keeps messages complete\<close>

definition both_fine :: "field_desc list \<Rightarrow> pb_msg \<times> pb_msg \<Rightarrow> bool" where
  "both_fine fs el \<longleftrightarrow> typed fs (fst el) \<and> typed fs (snd el) \<and> required_there fs (snd el)"

text \<open>The fields that can be moved.\<close>

definition movable :: "field_desc list \<Rightarrow> field_desc \<Rightarrow> pb_msg \<Rightarrow> bool" where
  "movable fs g e \<longleftrightarrow> g \<in> set fs \<and> (fd_label g = OPTIONAL \<or> fd_label g = NO_LABEL) \<and>
     value_typed (complete_sub (fd_sub g)) (fd_type g) (members e (fd_offset g)) \<and>
     (has_quantifier g \<longrightarrow> (\<exists>v. members e (fd_quantifier g) = U32 v \<and> (fd_oneof g \<longrightarrow> v = fd_id g)))"

lemma move_member_fine:
  assumes "fields_described fs" "both_fine fs (e, l)" "movable fs g e"
  shows "both_fine fs (move_member g (e, l))"
proof -
  have g: "g \<in> set fs" "fd_label g \<noteq> REPEATED" "fd_label g \<noteq> REQUIRED"
      "value_typed (complete_sub (fd_sub g)) (fd_type g) (members e (fd_offset g))"
    using assms(3) by (auto simp: movable_def)
  have z: "value_typed (complete_sub (fd_sub g)) (fd_type g) (zero_cell g)" using g(2) by (rule value_typed_zero)
  have te: "typed fs e" "typed fs l" "required_there fs l" using assms(2) by (simp_all add: both_fine_def)
  note there = required_there_fill [OF assms(1) te(3) g(1,3)]
  show ?thesis
  proof (cases "fd_quantifier g = []")
    case True
    then have n: "\<not> has_quantifier g" using assms(1) g(1) by (auto simp: fields_described_def has_quantifier_def)
    have "required_there fs (put (fd_offset g) (members e (fd_offset g)) l)" by (rule there) (simp add: writes_def)
    with True typed_fill_plain [OF assms(1) te(1) g(1,2) n z] typed_fill_plain [OF assms(1) te(2) g(1,2) n g(4)]
    show ?thesis by (simp add: both_fine_def move_member_def)
  next
    case False
    then have q: "has_quantifier g" using assms(3) by (auto simp: movable_def has_quantifier_def)
    then obtain v where v: "members e (fd_quantifier g) = U32 v" "fd_oneof g \<longrightarrow> v = fd_id g"
      using assms(3) by (auto simp: movable_def)
    have "required_there fs (put (fd_quantifier g) (U32 v) (put (fd_offset g) (members e (fd_offset g)) l))"
      by (rule there) (use q in \<open>simp add: writes_def\<close>)
    moreover have "typed fs (put (fd_quantifier g) (U32 0) (put (fd_offset g) (zero_cell g) e))"
      by (rule typed_fill_quantified [OF assms(1) te(1) g(1) q z]) simp
    moreover have "typed fs (put (fd_quantifier g) (U32 v) (put (fd_offset g) (members e (fd_offset g)) l))"
      by (rule typed_fill_quantified [OF assms(1) te(2) g(1) q g(4)]) (use v in simp)
    ultimately show ?thesis using False v by (simp add: both_fine_def move_member_def)
  qed
qed

lemma field_reads:
  assumes "typed fs m" "f \<in> set fs" "fd_label f \<noteq> REPEATED" "fd_label f \<noteq> REQUIRED"
  shows "\<not> fd_oneof f \<Longrightarrow> value_typed (complete_sub (fd_sub f)) (fd_type f) (members m (fd_offset f))"
    "fd_quantifier f \<noteq> [] \<or> fd_oneof f \<Longrightarrow> \<exists>v. members m (fd_quantifier f) = U32 v"
    "fd_oneof f \<Longrightarrow> members m (fd_quantifier f) = U32 (fd_id f) \<Longrightarrow>
       value_typed (complete_sub (fd_sub f)) (fd_type f) (members m (fd_offset f))"
    "fd_oneof f \<Longrightarrow> members m (fd_quantifier f) = U32 0 \<Longrightarrow> members m (fd_offset f) = zero_cell f"
  using typed_field [OF assms(1,2)] assms(3,4) by (auto simp: field_typed_def Let_def split: if_splits)

lemma quantifier_set_returns:
  assumes "typed fs m" "f \<in> set fs" "fd_label f \<noteq> REPEATED" "fd_label f \<noteq> REQUIRED"
  shows "returns ok (\<lambda>_. True) (quantifier_set f m)"
  using field_reads(2) [OF assms] by (auto simp: quantifier_set_def)

text \<open>Merging one member, for a field that is no union and for the present member of one.\<close>

lemma merge_member_returns:
  assumes d: "fields_described fs" and b: "both_fine fs (e, l)" and g: "movable fs g e" and f: "f \<in> set fs"
    "fd_label f \<noteq> REPEATED" "fd_label f \<noteq> REQUIRED"
    and mg: "\<And>e l. fd_type g = T_MESSAGE \<Longrightarrow> complete_sub (fd_sub g) e \<Longrightarrow> complete_sub (fd_sub g) l \<Longrightarrow>
        returns ok (complete_sub (fd_sub g)) (mg e l)"
    and lc: "if fd_oneof g then members l (fd_offset g) = zero_cell g
             else value_typed (complete_sub (fd_sub g)) (fd_type g) (members l (fd_offset g))"
  shows "returns ok (both_fine fs) (merge_member mg f g (e, l))"
proof -
  note moved = move_member_fine [OF d b g]
  have gs: "g \<in> set fs" "fd_label g \<noteq> REPEATED" "fd_label g \<noteq> REQUIRED"
    and ec: "value_typed (complete_sub (fd_sub g)) (fd_type g) (members e (fd_offset g))"
    using g by (auto simp: movable_def)
  have lt: "value_typed (complete_sub (fd_sub g)) (fd_type g) (members l (fd_offset g))"
    using lc value_typed_zero [OF gs(2)] by (auto split: if_splits)
  have te: "typed fs e" "typed fs l" "required_there fs l" using b by (simp_all add: both_fine_def)
  consider "fd_type g = T_MESSAGE" | "fd_type g = T_BYTES" | "fd_type g = T_STRING"
    | "fd_type g \<notin> {T_MESSAGE, T_BYTES, T_STRING}" by blast
  then show ?thesis
  proof cases
    case 1
    obtain em where em: "members e (fd_offset g) = Sub em" "\<And>m. em = Some m \<Longrightarrow> complete_sub (fd_sub g) m"
      using value_typedE(1) [OF ec 1] by auto
    obtain lm where lm: "members l (fd_offset g) = Sub lm" "\<And>m. lm = Some m \<Longrightarrow> complete_sub (fd_sub g) m"
      using value_typedE(1) [OF lt 1] by auto
    have "returns ok (both_fine fs) (and_then (mg x y) (\<lambda>m. Inr (e, put (fd_offset g) (Sub (Some m)) l)))"
      if xy: "em = Some x" "lm = Some y" for x y
    proof (rule returns_and_then [OF mg [OF 1 em(2) [OF xy(1)] lm(2) [OF xy(2)]]])
      fix m assume m: "complete_sub (fd_sub g) m"
      have no: "\<not> fd_oneof g" using lc lm(1) xy(2) 1 gs(2) by (auto simp: zero_cell_def)
      have v: "value_typed (complete_sub (fd_sub g)) (fd_type g) (Sub (Some m))" using 1 m by (simp add: value_typed_def)
      have apart: "fd_quantifier g = [] \<or> fd_offset g \<noteq> fd_quantifier g"
        using layout_apart [OF d gs(1)] g by (auto simp: has_quantifier_def movable_def)
      have "typed fs (put (fd_offset g) (Sub (Some m)) l)"
      proof (rule typed_update [OF d te(2) gs(1)])
        show "field_typed (complete_sub (fd_sub g)) g (put (fd_offset g) (Sub (Some m)) l)"
          using typed_field [OF te(2) gs(1)] no gs(2,3) v apart
          by (auto simp: field_typed_def Let_def)
      qed (use no in \<open>auto simp: writes_def\<close>)
      moreover have "required_there fs (put (fd_offset g) (Sub (Some m)) l)"
        by (rule required_there_fill [OF d te(3) gs(1,3)]) (auto simp: writes_def)
      ultimately show "returns ok (both_fine fs) (Inr (e, put (fd_offset g) (Sub (Some m)) l))"
        using te by (simp add: both_fine_def)
    qed
    then show ?thesis using 1 em(1) lm(1) moved b
      by (auto simp: merge_member_def split: option.split)
  next
    case 2
    with value_typedE(3) [OF ec] value_typedE(3) [OF lt] moved b show ?thesis by (auto simp: merge_member_def Let_def)
  next
    case 3
    with value_typedE(2) [OF ec] value_typedE(2) [OF lt] moved b show ?thesis by (auto simp: merge_member_def Let_def)
  next
    case 4
    then have "merge_member mg f g (e, l) = and_then (quantifier_set f e) (\<lambda>eq. and_then (quantifier_set f l) (\<lambda>lq.
            Inr (if eq \<and> \<not> lq then move_member g (e, l) else (e, l))))"
      by (simp add: merge_member_def)
    also have "returns ok (both_fine fs) \<dots>"
      by (rule returns_and_then [OF quantifier_set_returns [OF te(1) f]],
          rule returns_and_then [OF quantifier_set_returns [OF te(2) f]]) (use moved b in simp)
    finally show ?thesis .
  qed
qed

lemma merge_field_returns:
  assumes d: "fields_described fs" and n: "numbered fs rs" and b: "both_fine fs (e, l)" and i: "i < length fs"
    and mgs: "\<And>k e l. k < length fs \<Longrightarrow> fd_type (fs ! k) = T_MESSAGE \<Longrightarrow> complete_sub (fd_sub (fs ! k)) e \<Longrightarrow>
        complete_sub (fd_sub (fs ! k)) l \<Longrightarrow> returns ok (complete_sub (fd_sub (fs ! k))) ((mgs ! k) e l)"
  shows "returns ok (both_fine fs) (merge_field mgs (Msg_desc nm fs rs) i (e, l))"
proof -
  let ?f = "fs ! i"
  have f: "?f \<in> set fs" using i by simp
  have te: "typed fs e" "typed fs l" "required_there fs l" using b by (simp_all add: both_fine_def)
  consider "fd_label ?f = REPEATED" | "fd_label ?f = REQUIRED" | "fd_label ?f \<noteq> REPEATED" "fd_label ?f \<noteq> REQUIRED" "fd_oneof ?f"
    | "fd_label ?f \<noteq> REPEATED" "fd_label ?f \<noteq> REQUIRED" "\<not> fd_oneof ?f" by blast
  then show ?thesis
  proof cases
    case 1
    obtain ae al where a: "members e (fd_offset ?f) = Arr ae" "members l (fd_offset ?f) = Arr al"
      "\<forall>c \<in> set ae. filled (complete_sub (fd_sub ?f)) (fd_type ?f) c" "\<forall>c \<in> set al. filled (complete_sub (fd_sub ?f)) (fd_type ?f) c"
      using typed_field [OF te(1) f] typed_field [OF te(2) f] 1 by (auto simp: field_typed_def filled_def)
    have "typed fs (put (fd_offset ?f) (Arr []) e)" using typed_fill_array [OF d te(1) f 1, of "[]"] by simp
    moreover have "typed fs (put (fd_offset ?f) (Arr (ae @ al)) l)" using typed_fill_array [OF d te(2) f 1, of "ae @ al"] a by auto
    moreover have "required_there fs (put (fd_offset ?f) (Arr (ae @ al)) l)"
      by (rule required_there_fill [OF d te(3) f]) (use 1 in \<open>auto simp: writes_def\<close>)
    ultimately show ?thesis using 1 a b by (cases "ae = []") (simp_all add: merge_field_def both_fine_def Let_def)
  next
    case 2
    with b show ?thesis by (simp add: merge_field_def)
  next
    case 3
    obtain ve vl where v: "members e (fd_quantifier ?f) = U32 ve" "members l (fd_quantifier ?f) = U32 vl"
      using field_reads(2) [OF te(1) f 3(1,2)] field_reads(2) [OF te(2) f 3(1,2)] 3(3) by auto
    have q: "has_quantifier ?f" using 3 by (cases "fd_label ?f") (auto simp: has_quantifier_def)
    have "returns ok (both_fine fs) (merge_member (mgs ! j) ?f (fs ! j) (e, l))"
      if z: "vl = 0" and j: "int_range_lookup rs (sint ve) = Some j" for j
    proof -
      have jf: "j < length fs" "fd_id (fs ! j) = ve" by (rule field_found [OF n j])+
      then have gs: "fs ! j \<in> set fs" by simp
      from jf(2) id_not_0 [OF d gs] have "ve \<noteq> 0" by simp
      with te(1) f q 3(3) v(1) obtain h where h: "h \<in> set fs" "same_union ?f h" "fd_id h = ve"
        by (force simp: typed_def cases_known_def)
      then have "h = fs ! j" using d gs jf(2) unfolding fields_described_def inj_on_def by blast
      with h have u: "same_union ?f (fs ! j)" by simp
      have l: "fd_label (fs ! j) = OPTIONAL \<or> fd_label (fs ! j) = NO_LABEL" "fd_oneof (fs ! j)" "fd_quantifier ?f = fd_quantifier (fs ! j)"
        using u by (auto simp: same_union_def has_quantifier_def)
      then have l': "fd_label (fs ! j) \<noteq> REPEATED" "fd_label (fs ! j) \<noteq> REQUIRED" by auto
      have m: "movable fs (fs ! j) e"
        using field_reads(3) [OF te(1) gs l' l(2)] v(1) jf(2) l gs by (auto simp: movable_def)
      have lc: "members l (fd_offset (fs ! j)) = zero_cell (fs ! j)"
        using field_reads(4) [OF te(2) gs l' l(2)] v(2) z l(3) by simp
      show ?thesis
        by (rule merge_member_returns [OF d b m f 3(1,2) mgs [OF jf(1)]]) (use lc l(2) in simp_all)
    qed
    with 3 v b show ?thesis
      by (cases "int_range_lookup rs (sint ve)") (simp_all add: merge_field_def Let_def)
  next
    case 4
    note r = field_reads [OF te(1) f 4(1,2)] field_reads [OF te(2) f 4(1,2)]
    have m: "movable fs ?f e" using r(1,2) f 4 by (cases "fd_label ?f") (auto simp: movable_def has_quantifier_def)
    have "returns ok (both_fine fs) (merge_member (mgs ! i) ?f ?f (e, l))"
      by (rule merge_member_returns [OF d b m f 4(1,2) mgs [OF i]]) (use r(5) 4 in simp_all)
    with 4 show ?thesis by (simp add: merge_field_def Let_def)
  qed
qed

lemma merge_fields_returns:
  assumes "\<And>i e l. i \<in> set is \<Longrightarrow> both_fine fs (e, l) \<Longrightarrow> returns ok (both_fine fs) (g i (e, l))" "both_fine fs el"
  shows "returns ok (\<lambda>m. typed fs m \<and> required_there fs m) (merge_fields g is el)"
  using assms
proof (induction "is" arbitrary: el)
  case Nil
  then show ?case by (simp add: both_fine_def)
next
  case (Cons i "is")
  obtain e l where el: "el = (e, l)" by (cases el)
  have "returns ok (\<lambda>m. typed fs m \<and> required_there fs m) (and_then (g i (e, l)) (merge_fields g is))"
    by (rule returns_and_then [OF Cons.prems(1)]) (use Cons el in auto)
  then show ?case by (simp add: el)
qed

lemma complete_iff: "complete_message (Msg_desc nm fs rs) m \<longleftrightarrow> typed fs m \<and> required_there fs m"
  by (auto simp: typed_def)

lemma mergers_eq: "mergers fs = map (\<lambda>f. submessage_merge (fd_sub f)) fs"
proof (induction fs)
  case (Cons f fs)
  then show ?case by (cases f) simp
qed simp

lemma complete_sub_eq [simp]: "complete_sub (Some D) = complete_message D" "complete_sub None = (\<lambda>m. False)"
  by (simp_all add: fun_eq_iff)

lemma merge_messages_returns:
  "described D \<Longrightarrow> complete_message D e \<Longrightarrow> complete_message D l \<Longrightarrow> returns ok (complete_message D) (merge_messages D e l)"
  "described_fields fs \<Longrightarrow> \<forall>f \<in> set fs. fd_type f = T_MESSAGE \<longrightarrow> (\<forall>e l. complete_sub (fd_sub f) e \<longrightarrow> complete_sub (fd_sub f) l \<longrightarrow>
     returns ok (complete_sub (fd_sub f)) (submessage_merge (fd_sub f) e l))"
  "described_sub sub \<Longrightarrow> complete_sub sub e \<Longrightarrow> complete_sub sub l \<Longrightarrow> returns ok (complete_sub sub) (submessage_merge sub e l)"
proof (induction D e l and fs and sub e l rule: merge_messages_mergers_submessage_merge.induct)
  case (1 nm fs rs e l)
  note d = described_fields_described [OF "1.prems"(1)]
  have "numbered fs rs" using "1.prems"(1) by simp
  have "returns ok (\<lambda>m. typed fs m \<and> required_there fs m)
      (merge_fields (merge_field (mergers fs) (Msg_desc nm fs rs)) [0..<length fs] (e, l))"
  proof (rule merge_fields_returns)
    show "both_fine fs (e, l)" using "1.prems"(2,3) unfolding complete_iff by (simp add: both_fine_def)
    fix i e l assume "i \<in> set [0..<length fs]" "both_fine fs (e, l)"
    then show "returns ok (both_fine fs) (merge_field (mergers fs) (Msg_desc nm fs rs) i (e, l))"
      using "1.IH" "1.prems"(1) by (intro merge_field_returns [OF d \<open>numbered fs rs\<close>]) (simp_all add: mergers_eq)
  qed
  then show ?case by (simp add: complete_iff [abs_def] flip: typed_def)
qed simp_all

section \<open>Parsing keeps messages typed\<close>

text \<open>The functions for the embedded messages of each field.\<close>

definition subs_return :: "bool \<Rightarrow> field_desc list \<Rightarrow> (u8 list \<Rightarrow> failure + pb_msg) list \<Rightarrow> (pb_msg \<Rightarrow> pb_msg \<Rightarrow> failure + pb_msg) list \<Rightarrow> bool" where
  "subs_return ok fs ups mgs \<longleftrightarrow> (\<forall>k < length fs. fd_type (fs ! k) = T_MESSAGE \<longrightarrow>
     (\<forall>bs. (ok \<longrightarrow> no_ff_run bs) \<longrightarrow> returns ok (complete_sub (fd_sub (fs ! k))) ((ups ! k) bs)) \<and>
     (\<forall>e l. complete_sub (fd_sub (fs ! k)) e \<longrightarrow> complete_sub (fd_sub (fs ! k)) l \<longrightarrow>
        returns ok (complete_sub (fd_sub (fs ! k))) ((mgs ! k) e l)))"

text \<open>Parsing a member keeps the message typed, keeps the required members that are there and adds its own.\<close>

definition extends :: "field_desc list \<Rightarrow> pb_msg \<Rightarrow> nat option \<Rightarrow> pb_msg \<Rightarrow> bool" where
  "extends fs m field m' \<longleftrightarrow> typed fs m' \<and> (\<forall>g \<in> set fs. fd_label g = REQUIRED \<longrightarrow>
     \<not> null_cell (members m (fd_offset g)) \<or> (\<exists>k. field = Some k \<and> g = fs ! k) \<longrightarrow> \<not> null_cell (members m' (fd_offset g)))"

lemma extendsI:
  assumes "fields_described fs" "fs ! k \<in> set fs" "\<And>x. x \<notin> writes (fs ! k) \<Longrightarrow> members m' x = members m x" "typed fs m'"
    "fd_label (fs ! k) = REQUIRED \<Longrightarrow> \<not> null_cell (members m' (fd_offset (fs ! k)))"
  shows "extends fs m (Some k) m'"
  unfolding extends_def
proof (intro conjI ballI impI assms(4))
  fix g assume g: "g \<in> set fs" "fd_label g = REQUIRED"
    and "\<not> null_cell (members m (fd_offset g)) \<or> (\<exists>j. Some k = Some j \<and> g = fs ! j)"
  then consider "g = fs ! k" | "g \<noteq> fs ! k" "\<not> null_cell (members m (fd_offset g))" by auto
  then show "\<not> null_cell (members m' (fd_offset g))"
  proof cases
    case 1
    with assms(5) g show ?thesis by simp
  next
    case 2
    with required_there_update [OF assms(1-3) g] show ?thesis by blast
  qed
qed

lemma parse_member_returns:
  assumes d: "fields_described fs" and t: "typed fs m" and sm: "sm_fine ok fs sm" and subs: "subs_return ok fs ups mgs"
  shows "returns ok (extends fs m (sm_field sm)) (parse_member ups mgs (Msg_desc nm fs rs) sm m)"
proof (cases "sm_field sm")
  case None
  obtain mem us where m: "m = Msg mem us" by (cases m)
  have "typed fs (add_unknown u m) = typed fs m" for u
  proof -
    have "field_typed sg f (add_unknown u m) = field_typed sg f m" for sg f by (simp add: m field_typed_def)
    then show ?thesis by (simp add: typed_def typed_fields_iff cases_known_def nothing_else_def) (simp add: m)
  qed
  with None t show ?thesis by (simp add: parse_member_def extends_def) (simp add: m)
next
  case (Some k)
  define f where "f = fs ! k"
  have k: "k < length fs" "fd_id f = sm_tag sm" using sm Some by (auto simp: sm_fine_def f_def)
  then have f: "f \<in> set fs" "fs ! k \<in> set fs" by (simp_all add: f_def)
  have old: "returns ok (filled (complete_sub (fd_sub f)) (fd_type f)) (parse_required_member (ups ! k) (mgs ! k) f sm old mc)"
    if "\<And>m. fd_type f = T_MESSAGE \<Longrightarrow> mc \<Longrightarrow> old = Sub (Some m) \<Longrightarrow> complete_sub (fd_sub f) m" for old mc
    using subs k(1) that by (intro parse_required_returns [OF sm]) (auto simp: subs_return_def f_def)
  have vt: "value_typed (complete_sub (fd_sub f)) (fd_type f) c" "\<not> null_cell c"
    if "filled (complete_sub (fd_sub f)) (fd_type f) c" for c
    using that by (simp_all add: filled_def)
  have mine: "complete_sub (fd_sub f) m'"
    if "value_typed (complete_sub (fd_sub f)) (fd_type f) (Sub (Some m'))" "fd_type f = T_MESSAGE" for m'
    using that by (simp add: value_typed_def)
  consider "fd_label f = REQUIRED" | "fd_label f = REPEATED"
    | "fd_label f \<noteq> REQUIRED" "fd_label f \<noteq> REPEATED" "fd_oneof f" | "fd_label f \<noteq> REQUIRED" "fd_label f \<noteq> REPEATED" "\<not> fd_oneof f"
    by blast
  then have "returns ok (extends fs m (Some k)) (parse_member ups mgs (Msg_desc nm fs rs) sm m)"
  proof cases
    case 1
    then have n: "\<not> has_quantifier f" "fd_label f \<noteq> REPEATED" by (auto simp: has_quantifier_def)
    have c: "value_typed (complete_sub (fd_sub f)) (fd_type f) (members m (fd_offset f))"
      using typed_field [OF t f(1)] 1 by (simp add: field_typed_def Let_def)
    have "returns ok (extends fs m (Some k)) (and_then (parse_required_member (ups ! k) (mgs ! k) f sm (members m (fd_offset f)) True)
        (\<lambda>c. Inr (put (fd_offset f) c m)))"
    proof (rule returns_and_then [OF old])
      show "complete_sub (fd_sub f) m'" if "fd_type f = T_MESSAGE" "members m (fd_offset f) = Sub (Some m')" for m'
        using c mine that by simp
      fix c assume "filled (complete_sub (fd_sub f)) (fd_type f) c"
      with typed_fill_plain [OF d t f(1) n(2,1)] vt
      show "returns ok (extends fs m (Some k)) (Inr (put (fd_offset f) c m))"
        by (auto intro!: extendsI [OF d f(2)] simp: writes_def simp flip: f_def)
    qed
    with 1 Some show ?thesis by (simp add: parse_member_def Let_def flip: f_def)
  next
    case 2
    obtain array where a: "members m (fd_offset f) = Arr array" "\<forall>c \<in> set array. filled (complete_sub (fd_sub f)) (fd_type f) c"
      using typed_field [OF t f(1)] 2 by (auto simp: field_typed_def filled_def)
    have "is_packable_type (fd_type f)" if "packed_member f (sm_wire_type sm)"
      using that d f(1) by (auto simp: packed_member_def fields_described_def layout_ok_def field_layout_def)
    then have "returns ok (\<lambda>cs. \<forall>c \<in> set cs. filled (complete_sub (fd_sub f)) (fd_type f) c)
        (if packed_member f (sm_wire_type sm) then parse_packed_repeated_member f sm
         else and_then (parse_required_member (ups ! k) (mgs ! k) f sm (Sub None) False) (\<lambda>c. Inr [c]))"
      using parse_packed_returns [OF sm] by (auto intro!: returns_and_then [OF old])
    then have "returns ok (extends fs m (Some k)) (parse_repeated_member (ups ! k) (mgs ! k) f sm m)"
      unfolding parse_repeated_member_def a(1) as_simps result_simps and_then.simps
    proof (rule returns_and_then)
      fix cs assume "\<forall>c \<in> set cs. filled (complete_sub (fd_sub f)) (fd_type f) c"
      with a(2) have "typed fs (put (fd_offset f) (Arr (array @ cs)) m)" by (intro typed_fill_array [OF d t f(1) 2]) auto
      then show "returns ok (extends fs m (Some k)) (Inr (put (fd_offset f) (Arr (array @ cs)) m))"
        using 2 by (auto intro!: extendsI [OF d f(2)] simp: writes_def simp flip: f_def)
    qed
    with 2 Some show ?thesis by (simp add: parse_member_def Let_def flip: f_def)
  next
    case 3
    have q: "has_quantifier f" using 3 by (cases "fd_label f") (auto simp: has_quantifier_def)
    obtain v where v: "members m (fd_quantifier f) = U32 v" using field_reads(2) [OF t f(1) 3(2,1)] 3(3) by auto
    let ?P = "\<lambda>old. \<forall>m'. old \<noteq> Sub (Some m')"
    have nz: "?P (zero_cell f)" using no_message_zero [of f] by (simp add: no_message_def)
    have "returns ok ?P (if v = 0 then Inr (members m (fd_offset f))
               else and_then (parsed (int_range_lookup rs (sint v))) (\<lambda>_. Inr (zero_cell f)))"
    proof (cases "v = 0")
      case True
      with field_reads(4) [OF t f(1) 3(2,1,3)] v nz show ?thesis by simp
    next
      case False
      have "returns ok ?P (and_then (parsed (int_range_lookup rs (sint v))) (\<lambda>_. Inr (zero_cell f)))"
        by (rule returns_and_then [of _ "\<lambda>_. True"]) (use nz in simp_all)
      with False show ?thesis by simp
    qed
    then have "returns ok (extends fs m (Some k)) (parse_oneof_member (ups ! k) (mgs ! k) (Msg_desc nm fs rs) f sm m)"
      unfolding parse_oneof_member_def v as_simps result_simps and_then.simps msg_desc.sel
    proof (rule returns_and_then)
      fix old assume "?P old"
      then show "returns ok (extends fs m (Some k)) (and_then (parse_required_member (ups ! k) (mgs ! k) f sm old True) (\<lambda>c.
          Inr (put (fd_quantifier f) (U32 (sm_tag sm)) (put (fd_offset f) c m))))"
      proof (intro returns_and_then [OF old])
        fix c assume "filled (complete_sub (fd_sub f)) (fd_type f) c"
        then have "typed fs (put (fd_quantifier f) (U32 (sm_tag sm)) (put (fd_offset f) c m))"
          using k(2) vt(1) by (intro typed_fill_quantified [OF d t f(1) q]) simp_all
        then show "returns ok (extends fs m (Some k)) (Inr (put (fd_quantifier f) (U32 (sm_tag sm)) (put (fd_offset f) c m)))"
          using 3(1) q by (auto intro!: extendsI [OF d f(2)] simp: writes_def simp flip: f_def)
      qed simp
    qed
    with 3 Some show ?thesis by (cases "fd_label f") (simp_all add: parse_member_def Let_def flip: f_def)
  next
    case 4
    have c: "value_typed (complete_sub (fd_sub f)) (fd_type f) (members m (fd_offset f))"
      by (rule field_reads(1) [OF t f(1) 4(2,1,3)])
    have "returns ok (extends fs m (Some k)) (parse_optional_member (ups ! k) (mgs ! k) f sm m)"
      unfolding parse_optional_member_def
    proof (rule returns_and_then [OF old])
      show "complete_sub (fd_sub f) m'" if "fd_type f = T_MESSAGE" "members m (fd_offset f) = Sub (Some m')" for m'
        using c mine that by simp
      fix c assume c: "filled (complete_sub (fd_sub f)) (fd_type f) c"
      let ?m = "(if fd_quantifier f \<noteq> [] then put (fd_quantifier f) (U32 1) else id) (put (fd_offset f) c m)"
      have "typed fs ?m \<and> (\<forall>x. x \<notin> writes f \<longrightarrow> members ?m x = members m x)"
      proof (cases "fd_quantifier f = []")
        case True
        with 4 have "\<not> has_quantifier f" by (simp add: has_quantifier_def)
        with True typed_fill_plain [OF d t f(1) 4(2) _ vt(1) [OF c]] show ?thesis by (simp add: writes_def)
      next
        case False
        with 4 have "has_quantifier f" by (cases "fd_label f") (auto simp: has_quantifier_def)
        with False 4(3) typed_fill_quantified [OF d t f(1) _ vt(1) [OF c]] show ?thesis by (simp add: writes_def)
      qed
      then show "returns ok (extends fs m (Some k)) (Inr ?m)"
        using 4(1) by (auto intro!: extendsI [OF d f(2)] simp flip: f_def)
    qed
    with 4 Some show ?thesis by (cases "fd_label f") (simp_all add: parse_member_def Let_def flip: f_def)
  qed
  with Some show ?thesis by simp
qed

lemma parse_members_returns:
  assumes d: "fields_described fs" and subs: "subs_return ok fs ups mgs"
  shows "typed fs m \<Longrightarrow> \<forall>sm \<in> set sms. sm_fine ok fs sm \<Longrightarrow>
    returns ok (\<lambda>m'. typed fs m' \<and> (\<forall>g \<in> set fs. fd_label g = REQUIRED \<longrightarrow>
        \<not> null_cell (members m (fd_offset g)) \<or> (\<exists>k. Some k \<in> sm_field ` set sms \<and> g = fs ! k) \<longrightarrow> \<not> null_cell (members m' (fd_offset g))))
      (parse_members (parse_member ups mgs (Msg_desc nm fs rs)) sms m)"
proof (induction sms arbitrary: m)
  case Nil
  then show ?case by simp
next
  case (Cons sm sms)
  show ?case unfolding parse_members.simps
  proof (rule returns_and_then [OF parse_member_returns [OF d Cons.prems(1) _ subs]])
    show "sm_fine ok fs sm" using Cons.prems(2) by simp
    fix m1 assume m1: "extends fs m (sm_field sm) m1"
    have "returns ok (\<lambda>m'. typed fs m' \<and> (\<forall>g \<in> set fs. fd_label g = REQUIRED \<longrightarrow>
        \<not> null_cell (members m1 (fd_offset g)) \<or> (\<exists>k. Some k \<in> sm_field ` set sms \<and> g = fs ! k) \<longrightarrow> \<not> null_cell (members m' (fd_offset g))))
      (parse_members (parse_member ups mgs (Msg_desc nm fs rs)) sms m1)"
      by (rule Cons.IH) (use m1 Cons.prems(2) in \<open>simp_all add: extends_def\<close>)
    then show "returns ok (\<lambda>m'. typed fs m' \<and> (\<forall>g \<in> set fs. fd_label g = REQUIRED \<longrightarrow>
        \<not> null_cell (members m (fd_offset g)) \<or> (\<exists>k. Some k \<in> sm_field ` set (sm # sms) \<and> g = fs ! k) \<longrightarrow> \<not> null_cell (members m' (fd_offset g))))
      (parse_members (parse_member ups mgs (Msg_desc nm fs rs)) sms m1)"
    proof (rule returns_mono)
      fix m' assume h: "typed fs m' \<and> (\<forall>g \<in> set fs. fd_label g = REQUIRED \<longrightarrow>
        \<not> null_cell (members m1 (fd_offset g)) \<or> (\<exists>k. Some k \<in> sm_field ` set sms \<and> g = fs ! k) \<longrightarrow> \<not> null_cell (members m' (fd_offset g)))"
      show "typed fs m' \<and> (\<forall>g \<in> set fs. fd_label g = REQUIRED \<longrightarrow>
        \<not> null_cell (members m (fd_offset g)) \<or> (\<exists>k. Some k \<in> sm_field ` set (sm # sms) \<and> g = fs ! k) \<longrightarrow> \<not> null_cell (members m' (fd_offset g)))"
      proof (intro conjI ballI impI)
        fix g assume g: "g \<in> set fs" "fd_label g = REQUIRED"
          and "\<not> null_cell (members m (fd_offset g)) \<or> (\<exists>k. Some k \<in> sm_field ` set (sm # sms) \<and> g = fs ! k)"
        then consider "\<not> null_cell (members m (fd_offset g))" | k where "sm_field sm = Some k" "g = fs ! k"
          | k where "Some k \<in> sm_field ` set sms" "g = fs ! k" by (auto dest: sym)
        then show "\<not> null_cell (members m' (fd_offset g))"
          by cases (use h g m1 in \<open>auto simp: extends_def\<close>)
      qed (use h in simp)
    qed
  qed
qed

section \<open>The initial message\<close>

lemma init_offset:
  assumes "fields_described fs" "f \<in> set fs"
  shows "members (message_init (Msg_desc nm fs rs)) (fd_offset f) = zero_cell f"
  unfolding message_init_def pb_msg.sel msg_desc.sel
proof (rule init_members)
  show "fd_offset f \<notin> fd_offset ` set fs \<Longrightarrow> U32 0 = zero_cell f" using assms(2) by simp
  fix g assume g: "g \<in> set fs" "fd_offset g = fd_offset f"
  show "zero_cell g = zero_cell f"
  proof (cases "g = f")
    case False
    have "writes f \<inter> writes g \<noteq> {}" using g(2) offset_writes [of f] offset_writes [of g] by auto
    with others_compatible [OF assms g(1) False] have "same_union f g" by blast
    with same_union_place [OF assms g(1)] show ?thesis
      by (auto simp: zero_cell_def same_union_def has_quantifier_def)
  qed simp
qed

lemma init_quantifier:
  assumes "fields_described fs" "f \<in> set fs" "has_quantifier f"
  shows "members (message_init (Msg_desc nm fs rs)) (fd_quantifier f) = U32 0"
  unfolding message_init_def pb_msg.sel msg_desc.sel
proof (rule init_members)
  fix g assume g: "g \<in> set fs" "fd_offset g = fd_quantifier f"
  have "writes f \<inter> writes g \<noteq> {}" using g(2) assms(3) offset_writes [of g] by (auto simp: writes_def)
  then have "g = f \<or> same_union f g" using others_compatible [OF assms(1,2) g(1)] by blast
  then have "fd_offset g = fd_offset f" using same_union_place [OF assms(1,2) g(1)] by blast
  with layout_apart [OF assms] g(2) show "zero_cell g = U32 0" by simp
qed simp

lemma init_typed:
  assumes "fields_described fs"
  shows "typed fs (message_init (Msg_desc nm fs rs))"
  unfolding typed_def typed_fields_iff
proof (intro conjI ballI)
  show "nothing_else fs (message_init (Msg_desc nm fs rs))"
    unfolding nothing_else_def message_init_def pb_msg.sel msg_desc.sel
  proof (intro allI impI)
    fix x assume x: "\<forall>f \<in> set fs. x \<notin> writes f"
    show "fold (\<lambda>f mem. mem(fd_offset f := zero_cell f)) fs (\<lambda>_. U32 0) x = U32 0"
      by (rule init_members [where P = "\<lambda>c. c = U32 0"]) (use x offset_writes in blast)+
  qed
  show "cases_known fs (message_init (Msg_desc nm fs rs))"
    using init_quantifier [OF assms] by (simp add: cases_known_def)
  fix f assume f: "f \<in> set fs"
  show "field_typed (complete_sub (fd_sub f)) f (message_init (Msg_desc nm fs rs))"
  proof (cases "fd_label f = REPEATED")
    case True
    with init_offset [OF assms f] show ?thesis by (simp add: field_typed_def zero_cell_def)
  next
    case False
    have "has_quantifier f" if "fd_label f \<noteq> REQUIRED" "fd_oneof f \<or> fd_quantifier f \<noteq> []"
      using False that by (cases "fd_label f") (auto simp: has_quantifier_def)
    with False init_offset [OF assms f] init_quantifier [OF assms f] value_typed_zero [OF False]
    show ?thesis by (auto simp: field_typed_def Let_def)
  qed
qed

section \<open>Scanning\<close>

lemma member_count_returns:
  assumes "sm_fine ok fs sm"
  shows "returns ok (\<lambda>_. True) (member_count f sm)"
proof -
  have c: "returns ok (\<lambda>_. True) (and_then (sm_content sm) (\<lambda>bs. Inr (h bs)))" for h :: "u8 list \<Rightarrow> nat"
    by (rule returns_and_then [OF sm_content_returns [OF assms]]) simp
  have "returns ok (\<lambda>_. True) (and_then (guard b) (\<lambda>_. and_then (sm_content sm) (\<lambda>bs. Inr (h bs))))" for b and h :: "u8 list \<Rightarrow> nat"
    using c by (cases b) simp_all
  with c show ?thesis by (auto simp: member_count_def count_packed_elements_def Let_def)
qed

lemma scan_member_returns:
  assumes "numbered fs rs" "\<forall>k. last_field = Some k \<longrightarrow> k < length fs" "ok \<longrightarrow> no_ff_run data"
  shows "returns ok (\<lambda>(sm, last_field', rest). sm_fine ok fs sm \<and> (\<forall>k. last_field' = Some k \<longrightarrow> k < length fs) \<and> (ok \<longrightarrow> no_ff_run rest))
    (scan_member (Msg_desc nm fs rs) last_field n data)"
proof (cases "parse_tag_and_wiretype data")
  case None
  then show ?thesis by (simp add: scan_member_def)
next
  case (Some p)
  obtain used tag wire where p: "p = (used, tag, wire)" by (cases p)
  define field where "field = (case last_field of
      Some k \<Rightarrow> if fd_id (fs ! k) = tag then Some k else int_range_lookup rs (sint tag)
    | None \<Rightarrow> int_range_lookup rs (sint tag))"
  have found: "k < length fs \<and> fd_id (fs ! k) = tag" if "field = Some k" for k
    using that assms(2) field_found [OF assms(1), of tag] by (auto simp: field_def split: option.splits if_splits)
  show ?thesis
  proof (cases "scan_data wire (drop used data)")
    case None
    with Some p show ?thesis by (simp add: scan_member_def Let_def)
  next
    case (Some lp)
    obtain len pref where lp: "lp = (len, pref)" by (cases lp)
    let ?sm = "\<lparr>sm_tag = tag, sm_wire_type = wire, sm_length_prefix_len = pref, sm_field = field, sm_len = len, sm_data = drop used data\<rparr>"
    let ?count = "case field of None \<Rightarrow> Inr 0 | Some k \<Rightarrow> member_count (fs ! k) ?sm"
    let ?last = "if field = None then last_field else field"
    have fine: "sm_fine ok fs ?sm"
      using found assms(3) scan_data_no_wrap [of wire "drop used data" len pref] Some lp
      by (auto simp: sm_fine_def intro: no_ff_run_cut)
    have "returns ok (\<lambda>_. True) ?count" using member_count_returns [OF fine] by (cases field) simp_all
    moreover have "\<forall>k. ?last = Some k \<longrightarrow> k < length fs" using found assms(2) by auto
    moreover have "ok \<longrightarrow> no_ff_run (drop len (drop used data))" using assms(3) by (auto simp del: drop_drop intro!: no_ff_run_cut)
    ultimately have "returns ok (\<lambda>(sm, last_field', rest). sm_fine ok fs sm \<and> (\<forall>k. last_field' = Some k \<longrightarrow> k < length fs) \<and> (ok \<longrightarrow> no_ff_run rest))
      (and_then ?count (\<lambda>_. Inr (?sm, ?last, drop len (drop used data))))"
      using fine by (auto intro!: returns_and_then)
    then have "returns ok (\<lambda>(sm, last_field', rest). sm_fine ok fs sm \<and> (\<forall>k. last_field' = Some k \<longrightarrow> k < length fs) \<and> (ok \<longrightarrow> no_ff_run rest))
      (and_then (guard (n < max_scanned_members)) (\<lambda>_. and_then ?count (\<lambda>_. Inr (?sm, ?last, drop len (drop used data)))))"
      by (cases "n < max_scanned_members") simp_all
    moreover have "scan_member (Msg_desc nm fs rs) last_field n data =
      and_then (guard (n < max_scanned_members)) (\<lambda>_. and_then ?count (\<lambda>_. Inr (?sm, ?last, drop len (drop used data))))"
      unfolding scan_member_def msg_desc.sel Let_def \<open>parse_tag_and_wiretype data = Some p\<close> p result_simps and_then.simps prod.case
        Some lp field_def ..
    ultimately show ?thesis by simp
  qed
qed

lemma scan_members_returns:
  assumes "numbered fs rs"
  shows "\<forall>k. last_field = Some k \<longrightarrow> k < length fs \<Longrightarrow> ok \<longrightarrow> no_ff_run data \<Longrightarrow>
    returns ok (\<lambda>sms. \<forall>sm \<in> set sms. sm_fine ok fs sm) (scan_members (Msg_desc nm fs rs) last_field n data)"
proof (induction "Msg_desc nm fs rs" last_field n data rule: scan_members.induct)
  case (1 last_field n data)
  note one = scan_member_returns [OF assms "1.prems", of nm n]
  show ?case
  proof (cases "data = []")
    case True
    then show ?thesis by (simp add: scan_members.simps)
  next
    case False
    show ?thesis
    proof (cases "scan_member (Msg_desc nm fs rs) last_field n data")
      case (Inl e)
      with one False show ?thesis by (subst scan_members.simps) (cases e; simp)
    next
      case (Inr r)
      obtain sm lf rest where r: "r = (sm, lf, rest)" by (cases r)
      with one Inr have s: "sm_fine ok fs sm" "\<forall>k. lf = Some k \<longrightarrow> k < length fs" "ok \<longrightarrow> no_ff_run rest" by simp_all
      have "returns ok (\<lambda>sms. \<forall>sm \<in> set sms. sm_fine ok fs sm)
          (and_then (scan_members (Msg_desc nm fs rs) lf (n + 1) rest) (\<lambda>sms. Inr (sm # sms)))"
        by (rule returns_and_then [OF "1.hyps" [OF False Inr r [symmetric] refl s(2,3)]]) (use s(1) in simp)
      with Inr r False show ?thesis by (subst scan_members.simps) simp
    qed
  qed
qed

section \<open>Unpacking\<close>

lemma unpack_with_returns:
  assumes "described (Msg_desc nm fs rs)" "subs_return ok fs ups (mergers fs)" "ok \<longrightarrow> no_ff_run data"
  shows "returns ok (complete_message (Msg_desc nm fs rs)) (unpack_with ups (Msg_desc nm fs rs) data)"
proof -
  note d = described_fields_described [OF assms(1)]
  have n: "numbered fs rs" using assms(1) by simp
  show ?thesis unfolding unpack_with_def msg_desc.sel
  proof (rule returns_and_then [OF scan_members_returns [OF n]])
    show "\<forall>k. (if fs = [] then None else Some 0) = Some k \<longrightarrow> k < length fs" by auto
    show "ok \<longrightarrow> no_ff_run data" by fact
    fix sms assume sms: "\<forall>sm \<in> set sms. sm_fine ok fs sm"
    show "returns ok (complete_message (Msg_desc nm fs rs)) (and_then (guard (required_fields_set (Msg_desc nm fs rs) sms))
        (\<lambda>_. parse_members (parse_member ups (mergers fs) (Msg_desc nm fs rs)) sms (message_init (Msg_desc nm fs rs))))"
    proof (cases "required_fields_set (Msg_desc nm fs rs) sms")
      case True
      have all: "complete_message (Msg_desc nm fs rs) m'" if "typed fs m' \<and> (\<forall>g \<in> set fs. fd_label g = REQUIRED \<longrightarrow>
          \<not> null_cell (members (message_init (Msg_desc nm fs rs)) (fd_offset g)) \<or> (\<exists>k. Some k \<in> sm_field ` set sms \<and> g = fs ! k) \<longrightarrow>
          \<not> null_cell (members m' (fd_offset g)))" for m'
        unfolding complete_iff required_there_def
      proof (intro conjI ballI impI)
        fix g assume g: "g \<in> set fs" "fd_label g = REQUIRED"
        then obtain k where "k < length fs" "g = fs ! k" by (auto simp: in_set_conv_nth)
        with g True have "Some k \<in> sm_field ` set sms \<and> g = fs ! k" by (simp add: required_fields_set_def)
        with that g show "\<not> null_cell (members m' (fd_offset g))" by blast
      qed (use that in simp)
      have "returns ok (complete_message (Msg_desc nm fs rs))
          (parse_members (parse_member ups (mergers fs) (Msg_desc nm fs rs)) sms (message_init (Msg_desc nm fs rs)))"
        by (rule returns_mono [OF parse_members_returns [OF d assms(2) init_typed [OF d] sms] all])
      with True show ?thesis by simp
    qed simp
  qed
qed

lemma unpack_returns:
  "described D \<Longrightarrow> ok \<longrightarrow> no_ff_run data \<Longrightarrow> returns ok (complete_message D) (protobuf_c_message_unpack D data)"
  "described_fields fs \<Longrightarrow> \<forall>f \<in> set fs. fd_type f = T_MESSAGE \<longrightarrow> (\<forall>bs. (ok \<longrightarrow> no_ff_run bs) \<longrightarrow>
     returns ok (complete_sub (fd_sub f)) (submessage_unpack (fd_sub f) bs))"
  "described_sub sub \<Longrightarrow> sub \<noteq> None \<Longrightarrow> ok \<longrightarrow> no_ff_run bs \<Longrightarrow> returns ok (complete_sub sub) (submessage_unpack sub bs)"
proof (induction D data and fs and sub bs rule: protobuf_c_message_unpack_unpackers_submessage_unpack.induct)
  case (1 nm fs rs data)
  have "described_fields fs" using "1.prems"(1) by simp
  then have "subs_return ok fs (unpackers fs) (mergers fs)"
    using "1.IH" merge_messages_returns(2) [of fs ok] by (auto simp: subs_return_def unpackers_eq mergers_eq)
  from unpack_with_returns [OF "1.prems"(1) this "1.prems"(2)] show ?case unfolding protobuf_c_message_unpack.simps .
qed simp_all


end
