(* ===== verification/Requests.thy ===== *)
theory Requests
  imports Server Pb_Typed
begin

text \<open>
  Requests of any bytes (\<^verbatim>\<open>connection_handler\<close> of \<^verbatim>\<open>server.c\<close>): what the handler reads of a message that
  was unpacked is there and of the right type.
\<close>

section \<open>The descriptors\<close>

lemma described_fields_simps:
  "described_fields (f # fs) \<longleftrightarrow> (fd_type f = T_MESSAGE \<longrightarrow> fd_sub f \<noteq> None) \<and>
     (fd_oneof f \<longrightarrow> fd_quantifier f \<noteq> [] \<and> (fd_label f = OPTIONAL \<or> fd_label f = NO_LABEL)) \<and>
     described_sub (fd_sub f) \<and> described_fields fs"
  by (cases f) simp

lemma protocol_described: "described analysis__protocol__descriptor"
  using protocol_ok by (simp add: analysis__protocol__descriptor_def same_union_def)

lemma net_int_described: "described analysis__net_int__descriptor"
  using net_int_ok by (simp add: analysis__net_int__descriptor_def same_union_def protocol_described)

lemma init_described: "described analysis__init__descriptor"
  using init_ok by (simp add: analysis__init__descriptor_def same_union_def net_int_described)

section \<open>Reading complete_message messages\<close>

lemma those_defined: "\<forall>x \<in> set xs. \<exists>y. g x = Some y \<Longrightarrow> \<exists>ys. those (map g xs) = Some ys"
  by (induction xs) auto

lemma read_array_defined:
  "\<forall>c \<in> set cs. \<exists>x. g c = Some x \<Longrightarrow> \<exists>xs. read_array g (Arr cs) = Some xs"
  using those_defined [of cs g] by (simp add: read_array_def)

lemma read_protocol_defined:
  assumes "complete_message analysis__protocol__descriptor m"
  shows "\<exists>pm. read_protocol m = Some pm"
proof -
  have m: "\<exists>s. members m ''id'' = Str (Some s)" "\<exists>v. members m ''activemetrics'' = U32 v" "\<exists>v. members m ''has_clientip'' = U32 v"
    "\<exists>v. members m ''clientip'' = U32 v" "\<exists>v. members m ''has_serverip'' = U32 v" "\<exists>v. members m ''serverip'' = U32 v"
    "\<exists>cs. members m ''clientports'' = Arr cs \<and> (\<forall>c \<in> set cs. \<exists>v. c = U32 v)"
    "\<exists>cs. members m ''serverports'' = Arr cs \<and> (\<forall>c \<in> set cs. \<exists>v. c = U32 v)"
    using assms
    by (simp_all add: analysis__protocol__descriptor_def required_there_def field_typed_def value_typed_def Let_def)
      (auto simp: null_cell_def)
  then obtain cps sps where "members m ''clientports'' = Arr cps" "\<forall>c \<in> set cps. \<exists>v. as_u32 c = Some v"
      "members m ''serverports'' = Arr sps" "\<forall>c \<in> set sps. \<exists>v. as_u32 c = Some v"
    by auto
  with m(1-6) read_array_defined [of cps as_u32] read_array_defined [of sps as_u32] show ?thesis
    by (auto simp: read_protocol_def read_optional_def read_string_def)
qed

text \<open>An array of embedded messages that can all be read.\<close>

lemma read_subs_defined:
  assumes "field_typed (complete_message D) f m" "fd_label f = REPEATED" "fd_type f = T_MESSAGE" "\<And>x. complete_message D x \<Longrightarrow> \<exists>y. g x = Some y"
  shows "\<exists>xs. read_array (read_sub g) (members m (fd_offset f)) = Some xs"
proof -
  obtain cs where cs: "members m (fd_offset f) = Arr cs" "\<forall>c \<in> set cs. value_typed (complete_message D) T_MESSAGE c \<and> \<not> null_cell c"
    using assms(1-3) by (auto simp: field_typed_def)
  have "\<exists>x. read_sub g c = Some x" if "c \<in> set cs" for c
  proof -
    from that have inc: "c \<in> set cs" .
    obtain x where x: "c = Sub x" "\<forall>m'. x = Some m' \<longrightarrow> complete_message D m'"
      using bspec [OF cs(2) inc] by (auto simp: value_typed_def)
    then obtain m' where "x = Some m'" using bspec [OF cs(2) inc] by (cases x) (auto simp: null_cell_def)
    with x assms(4) have "\<exists>y. g m' = Some y" by blast
    with x(1) \<open>x = Some m'\<close> show ?thesis by (simp add: read_sub_def)
  qed
  with cs(1) show ?thesis using read_array_defined [of cs "read_sub g"] by simp
qed

lemma read_netint_defined:
  assumes "complete_message analysis__net_int__descriptor m"
  shows "\<exists>n. read_netint m = Some n"
proof -
  obtain s where "members m ''id'' = Str (Some s)"
    using assms
    by (simp add: analysis__net_int__descriptor_def field_typed_def value_typed_def required_there_def Let_def)
      (auto simp: null_cell_def)
  moreover obtain ps where "read_array (read_sub read_protocol) (members m ''protocols'') = Some ps"
    using read_subs_defined [of analysis__protocol__descriptor "md_fields analysis__net_int__descriptor ! 1" m read_protocol]
      assms read_protocol_defined by (auto simp: analysis__net_int__descriptor_def)
  ultimately show ?thesis by (simp add: read_netint_def read_string_def)
qed

lemma read_init_defined:
  assumes "complete_message analysis__init__descriptor m"
  shows "\<exists>init. read_init m = Some init"
proof -
  obtain i d where "members m ''interval'' = U32 i" "members m ''duration'' = U32 d"
    using assms by (auto simp: analysis__init__descriptor_def field_typed_def value_typed_def Let_def)
  moreover obtain ns where "read_array (read_sub read_netint) (members m ''netints'') = Some ns"
    using read_subs_defined [of analysis__net_int__descriptor "md_fields analysis__init__descriptor ! 0" m read_netint]
      assms read_netint_defined by (auto simp: analysis__init__descriptor_def)
  ultimately show ?thesis by (simp add: read_init_def)
qed

section \<open>Serving any client\<close>

lemma decode_varint_loop_suffix: "decode_varint_loop v s bs = Some (n, rest) \<Longrightarrow> suffix rest bs"
  by (induction v s bs rule: decode_varint_loop.induct) (auto split: Option.bind_splits if_splits intro: suffix_ConsI)



end
