(* ===== verification/Pb_Buffer.thy ===== *)
theory Pb_Buffer
  imports Pb_Message
begin

unbundle bit_operations_syntax

text \<open>
  Packing into a buffer that is appended to (\<^verbatim>\<open>protobuf_c_message_pack_to_buffer\<close> of \<^verbatim>\<open>protobuf-c.c\<close>).  The
  buffer is a base class with one virtual method; the runtime has one implementation, which grows an array, and a
  program may have others, whose method is an argument here.  \<open>alloc\<close> tells whether the
  allocator has a block of a size.  \<^term>\<open>None\<close> is an access outside of what is there, a failed assertion, or not returning.
\<close>

section \<open>Growing buffers\<close>

text \<open>The bytes of the array that were written, whose number is the member \<^verbatim>\<open>len\<close>.\<close>

record simple_buffer =
  sb_alloced :: nat
  sb_data :: "u8 list"
  sb_must_free_data :: bool

definition SIMPLE_INIT :: "nat \<Rightarrow> simple_buffer" where
  "SIMPLE_INIT size_of_array_of_bytes = \<lparr>sb_alloced = size_of_array_of_bytes, sb_data = [], sb_must_free_data = False\<rparr>"

definition read_bytes :: "nat \<Rightarrow> u8 list \<Rightarrow> u8 list option" where
  "read_bytes n mem = (if n \<le> length mem then Some (take n mem) else None)"

partial_function (option) grow :: "nat \<Rightarrow> nat \<Rightarrow> nat option" where
  "grow new_alloced new_len = (if new_alloced < new_len then grow (new_alloced + new_alloced) new_len else Some new_alloced)"

declare grow.simps [code]

text \<open>\<open>mem\<close> is what can be read at \<^verbatim>\<open>data\<close>.\<close>

definition protobuf_c_buffer_simple_append :: "(nat \<Rightarrow> bool) \<Rightarrow> nat \<Rightarrow> u8 list \<Rightarrow> simple_buffer \<Rightarrow> simple_buffer option" where
  "protobuf_c_buffer_simple_append alloc n mem simp = do {
     let new_len = length (sb_data simp) + n;
     (if new_len > sb_alloced simp then do {
        new_alloced \<leftarrow> grow (sb_alloced simp * 2) new_len;
        (if \<not> alloc new_alloced then Some simp
         else do {
           bs \<leftarrow> read_bytes n mem;
           Some \<lparr>sb_alloced = new_alloced, sb_data = sb_data simp @ bs, sb_must_free_data = True\<rparr>
         })
      }
      else do {
        bs \<leftarrow> read_bytes n mem;
        Some (simp\<lparr>sb_data := sb_data simp @ bs\<rparr>)
      })
   }"

text \<open>A buffer of the runtime or one of the program, with its method.\<close>

datatype 'u buffer = is_simple: Simple_buffer simple_buffer | Other_buffer 'u

record 'u environment =
  env_alloc :: "nat \<Rightarrow> bool"
  env_append :: "nat \<Rightarrow> u8 list \<Rightarrow> 'u \<Rightarrow> 'u option"

definition buffer_append :: "'u environment \<Rightarrow> nat \<Rightarrow> u8 list \<Rightarrow> 'u buffer \<Rightarrow> 'u buffer option" where
  "buffer_append E n mem b =
     (case b of
        Simple_buffer s \<Rightarrow> map_option Simple_buffer (protobuf_c_buffer_simple_append (env_alloc E) n mem s)
      | Other_buffer u \<Rightarrow> map_option Other_buffer (env_append E n mem u))"

section \<open>Packing to a buffer\<close>

text \<open>Each function returns the number of bytes packed, and the buffer.  An embedded message is packed into a growing
  buffer that starts with 256 bytes, and copied from there by the length that was returned.\<close>

type_synonym 'u packer = "'u buffer \<Rightarrow> (nat \<times> 'u buffer) option"

text \<open>The tag and the value are put together and appended at once, the contents of strings, bytes and messages
  separately.\<close>

definition append_content :: "'u environment \<Rightarrow> u8 list \<Rightarrow> nat \<Rightarrow> u8 list \<Rightarrow> 'u packer" where
  "append_content E tag sublen mem buf = do {
     let scratch = tag @ uint32_pack (of_nat sublen);
     buf \<leftarrow> buffer_append E (length scratch) scratch buf;
     buf \<leftarrow> buffer_append E sublen mem buf;
     Some (length scratch + sublen, buf)
   }"

definition required_field_pack_to_buffer ::
    "'u environment \<Rightarrow> (pb_msg \<Rightarrow> 'u packer) \<Rightarrow> field_desc \<Rightarrow> cell \<Rightarrow> 'u packer" where
  "required_field_pack_to_buffer E pk f member buf =
     (let tag = with_wire (wire_type_of (fd_type f)) (tag_pack (fd_id f))
      in if fd_type f = T_STRING then do {
           s \<leftarrow> as_string member;
           let str = (case s of None \<Rightarrow> [] | Some s \<Rightarrow> str_bytes s);
           append_content E tag (length str) str buf
         }
         else if fd_type f = T_BYTES then do {
           bd \<leftarrow> as_bytes member;
           append_content E tag (length bd) bd buf
         }
         else if fd_type f = T_MESSAGE then do {
           msg \<leftarrow> as_message member;
           (sublen, simple_buffer) \<leftarrow> (case msg of
               None \<Rightarrow> Some (0, Simple_buffer (SIMPLE_INIT 256))
             | Some m \<Rightarrow> pk m (Simple_buffer (SIMPLE_INIT 256)));
           mem \<leftarrow> (case simple_buffer of Simple_buffer s \<Rightarrow> Some (sb_data s) | Other_buffer u \<Rightarrow> None);
           append_content E tag sublen mem buf
         }
         else do {
           bs \<leftarrow> value_pack (\<lambda>_. None) (fd_type f) member;
           buf \<leftarrow> buffer_append E (length (tag @ bs)) (tag @ bs) buf;
           Some (length (tag @ bs), buf)
         })"

definition oneof_field_pack_to_buffer ::
    "'u environment \<Rightarrow> (pb_msg \<Rightarrow> 'u packer) \<Rightarrow> field_desc \<Rightarrow> u32 \<Rightarrow> cell \<Rightarrow> 'u packer" where
  "oneof_field_pack_to_buffer E pk f oneof_case member buf =
     (if oneof_case \<noteq> fd_id f then Some (0, buf)
      else do {
        absent \<leftarrow> (if pointer_type (fd_type f) then null_pointer (fd_type f) member else Some False);
        (if absent then Some (0, buf) else required_field_pack_to_buffer E pk f member buf)
      })"

definition optional_field_pack_to_buffer ::
    "'u environment \<Rightarrow> (pb_msg \<Rightarrow> 'u packer) \<Rightarrow> field_desc \<Rightarrow> cell \<Rightarrow> cell \<Rightarrow> 'u packer" where
  "optional_field_pack_to_buffer E pk f qmember member buf = do {
     absent \<leftarrow> (if pointer_type (fd_type f) then null_pointer (fd_type f) member else map_option (\<lambda>h. h = 0) (as_u32 qmember));
     (if absent then Some (0, buf) else required_field_pack_to_buffer E pk f member buf)
   }"

definition unlabeled_field_pack_to_buffer ::
    "'u environment \<Rightarrow> (pb_msg \<Rightarrow> 'u packer) \<Rightarrow> field_desc \<Rightarrow> cell \<Rightarrow> 'u packer" where
  "unlabeled_field_pack_to_buffer E pk f member buf = do {
     zeroish \<leftarrow> field_is_zeroish (fd_type f) member;
     (if zeroish then Some (0, buf) else required_field_pack_to_buffer E pk f member buf)
   }"

text \<open>The length of the payload of a packed array is computed first, in 32 bits, as that of an array that is
  not packed.\<close>

definition fixed_width :: "pb_type \<Rightarrow> nat option" where
  "fixed_width t =
     (if t = T_SFIXED32 \<or> t = T_FIXED32 \<or> t = T_FLOAT then Some 4
      else if t = T_SFIXED64 \<or> t = T_FIXED64 \<or> t = T_DOUBLE then Some 8 else None)"

definition get_packed_payload_length :: "pb_type \<Rightarrow> cell list \<Rightarrow> u32 option" where
  "get_packed_payload_length t array =
     (case fixed_width t of
        Some w \<Rightarrow> Some (of_nat (length array) * of_nat w)
      | None \<Rightarrow> if t = T_BOOL then Some (of_nat (length array))
                else if is_packable_type t then map_option of_nat (sum_sizes (value_size (\<lambda>_. None) t) array)
                else None)"

fun append_elements :: "'u environment \<Rightarrow> (cell \<Rightarrow> u8 list option) \<Rightarrow> cell list \<Rightarrow> 'u packer" where
  "append_elements E g [] buf = Some (0, buf)"
| "append_elements E g (c # cs) buf = do {
     scratch \<leftarrow> g c;
     buf \<leftarrow> buffer_append E (length scratch) scratch buf;
     (rv, buf) \<leftarrow> append_elements E g cs buf;
     Some (length scratch + rv, buf)
   }"

text \<open>The memory of an array of fixed-width numbers is what is packed.\<close>

definition pack_buffer_packed_payload :: "'u environment \<Rightarrow> pb_type \<Rightarrow> cell list \<Rightarrow> 'u packer" where
  "pack_buffer_packed_payload E t array buf =
     (case fixed_width t of
        Some w \<Rightarrow> do {
          mem \<leftarrow> concat_packed (value_pack (\<lambda>_. None) t) array;
          let rv = unat (of_nat (length array) * of_nat w :: u32);
          buf \<leftarrow> buffer_append E rv mem buf;
          Some (rv, buf)
        }
      | None \<Rightarrow> if is_packable_type t then append_elements E (value_pack (\<lambda>_. None) t) array buf else None)"

fun pack_elements :: "(cell \<Rightarrow> 'u packer) \<Rightarrow> cell list \<Rightarrow> 'u packer" where
  "pack_elements g [] buf = Some (0, buf)"
| "pack_elements g (c # cs) buf = do {
     (n, buf) \<leftarrow> g c buf;
     (rv, buf) \<leftarrow> pack_elements g cs buf;
     Some (n + rv, buf)
   }"

definition repeated_field_pack_to_buffer ::
    "'u environment \<Rightarrow> (pb_msg \<Rightarrow> 'u packer) \<Rightarrow> field_desc \<Rightarrow> cell \<Rightarrow> 'u packer" where
  "repeated_field_pack_to_buffer E pk f member buf = do {
     array \<leftarrow> as_array member;
     (if array = [] then Some (0, buf)
      else if fd_packed f then do {
        payload_len \<leftarrow> get_packed_payload_length (fd_type f) array;
        let scratch = with_wire WIRE_LENGTH_PREFIXED (tag_pack (fd_id f)) @ uint32_pack payload_len;
        buf \<leftarrow> buffer_append E (length scratch) scratch buf;
        (tmp, buf) \<leftarrow> pack_buffer_packed_payload E (fd_type f) array buf;
        (if tmp = unat payload_len then Some (length scratch + unat payload_len, buf) else None)
      }
      else map_option (\<lambda>(rv, buf). (unat (of_nat rv :: u32), buf)) (pack_elements (required_field_pack_to_buffer E pk f) array buf))
   }"

definition unknown_field_pack_to_buffer :: "'u environment \<Rightarrow> u32 \<times> u8 \<times> u8 list \<Rightarrow> 'u packer" where
  "unknown_field_pack_to_buffer E u buf =
     (case u of (tag, wire, bs) \<Rightarrow> do {
        let header = with_wire wire (tag_pack tag);
        buf \<leftarrow> buffer_append E (length header) header buf;
        buf \<leftarrow> buffer_append E (length bs) bs buf;
        Some (length header + length bs, buf)
      })"

fun unknown_fields_pack_to_buffer :: "'u environment \<Rightarrow> (u32 \<times> u8 \<times> u8 list) list \<Rightarrow> 'u packer" where
  "unknown_fields_pack_to_buffer E [] buf = Some (0, buf)"
| "unknown_fields_pack_to_buffer E (u # us) buf = do {
     (n, buf) \<leftarrow> unknown_field_pack_to_buffer E u buf;
     (rv, buf) \<leftarrow> unknown_fields_pack_to_buffer E us buf;
     Some (n + rv, buf)
   }"

definition field_pack_to_buffer :: "'u environment \<Rightarrow> (pb_msg \<Rightarrow> 'u packer) \<Rightarrow> field_desc \<Rightarrow> pb_msg \<Rightarrow> 'u packer" where
  "field_pack_to_buffer E pk f m buf =
     (let member = members m (fd_offset f); qmember = members m (fd_quantifier f)
      in if fd_label f = REQUIRED then required_field_pack_to_buffer E pk f member buf
         else if (fd_label f = OPTIONAL \<or> fd_label f = NO_LABEL) \<and> fd_oneof f
         then do { oneof_case \<leftarrow> as_u32 qmember; oneof_field_pack_to_buffer E pk f oneof_case member buf }
         else if fd_label f = OPTIONAL then optional_field_pack_to_buffer E pk f qmember member buf
         else if fd_label f = NO_LABEL then unlabeled_field_pack_to_buffer E pk f member buf
         else repeated_field_pack_to_buffer E pk f member buf)"

fun protobuf_c_message_pack_to_buffer :: "'u environment \<Rightarrow> msg_desc \<Rightarrow> pb_msg \<Rightarrow> 'u packer"
  and fields_pack_to_buffer :: "'u environment \<Rightarrow> field_desc list \<Rightarrow> pb_msg \<Rightarrow> 'u packer"
  and submessage_pack_to_buffer :: "'u environment \<Rightarrow> msg_desc option \<Rightarrow> pb_msg \<Rightarrow> 'u packer" where
  "protobuf_c_message_pack_to_buffer E (Msg_desc nm fs rs) m buf = do {
     (rv, buf) \<leftarrow> fields_pack_to_buffer E fs m buf;
     (n, buf) \<leftarrow> unknown_fields_pack_to_buffer E (unknown m) buf;
     Some (rv + n, buf)
   }"
| "fields_pack_to_buffer E [] m buf = Some (0, buf)"
| "fields_pack_to_buffer E (Field_desc nm i l t q off sub pk one # fs) m buf = do {
     (n, buf) \<leftarrow> field_pack_to_buffer E (\<lambda>m' b'. submessage_pack_to_buffer E sub m' b') (Field_desc nm i l t q off sub pk one) m buf;
     (rv, buf) \<leftarrow> fields_pack_to_buffer E fs m buf;
     Some (n + rv, buf)
   }"
| "submessage_pack_to_buffer E None m buf = None"
| "submessage_pack_to_buffer E (Some D) m buf = protobuf_c_message_pack_to_buffer E D m buf"

section \<open>Buffers that take all bytes\<close>

text \<open>The contract of the method: what is appended comes after what was there.\<close>

locale byte_sink =
  fixes app :: "nat \<Rightarrow> u8 list \<Rightarrow> 'b \<Rightarrow> 'b option" and contents :: "'b \<Rightarrow> u8 list" and usable :: "'b \<Rightarrow> bool"
  assumes app: "usable b \<Longrightarrow> n \<le> length mem \<Longrightarrow> \<exists>b'. app n mem b = Some b' \<and> contents b' = contents b @ take n mem \<and> usable b'"

text \<open>The runtime's own buffer keeps it, if blocks can be allocated and the array is not empty at the start.\<close>

definition simple_usable :: "simple_buffer \<Rightarrow> bool" where
  "simple_usable s \<longleftrightarrow> 0 < sb_alloced s \<and> length (sb_data s) \<le> sb_alloced s"

lemma grow_returns: "0 < a \<Longrightarrow> \<exists>r. grow a n = Some r \<and> n \<le> r \<and> (a < n \<longrightarrow> r < 2 * n)"
proof (induction "n - a" arbitrary: a rule: less_induct)
  case less
  show ?case
  proof (cases "a < n")
    case True
    have "\<exists>r. grow (a + a) n = Some r \<and> n \<le> r \<and> (a + a < n \<longrightarrow> r < 2 * n)"
      by (rule less.hyps) (use True less.prems in simp_all)
    then obtain r where r: "grow (a + a) n = Some r" "n \<le> r" "a + a < n \<longrightarrow> r < 2 * n" by blast
    moreover have "r = a + a" if "\<not> a + a < n" using r(1) that by (simp add: grow.simps [of "a + a"])
    ultimately show ?thesis using True by (subst grow.simps) fastforce
  next
    case False
    then show ?thesis by (subst grow.simps) simp
  qed
qed

lemma simple_append:
  assumes "simple_usable s" "n \<le> length mem" "\<And>k. alloc k"
  shows "\<exists>s'. protobuf_c_buffer_simple_append alloc n mem s = Some s' \<and> sb_data s' = sb_data s @ take n mem \<and> simple_usable s' \<and>
    (s' = s\<lparr>sb_data := sb_data s'\<rparr> \<or> sb_alloced s' < 2 * length (sb_data s'))"
proof (cases "length (sb_data s) + n > sb_alloced s")
  case True
  have "0 < sb_alloced s * 2" using assms(1) by (simp add: simple_usable_def)
  from grow_returns [OF this] obtain r where r: "grow (sb_alloced s * 2) (length (sb_data s) + n) = Some r"
      "length (sb_data s) + n \<le> r" "sb_alloced s * 2 < length (sb_data s) + n \<longrightarrow> r < 2 * (length (sb_data s) + n)" by blast
  moreover have "r = sb_alloced s * 2" if "\<not> sb_alloced s * 2 < length (sb_data s) + n"
    using r(1) that by (simp add: grow.simps [of "sb_alloced s * 2"])
  ultimately show ?thesis using True assms
    by (auto simp: protobuf_c_buffer_simple_append_def read_bytes_def simple_usable_def Let_def)
next
  case False
  with assms show ?thesis by (auto simp: protobuf_c_buffer_simple_append_def read_bytes_def simple_usable_def)
qed

interpretation simple: byte_sink "protobuf_c_buffer_simple_append (\<lambda>_. True)" sb_data simple_usable
proof
  show "\<exists>b'. protobuf_c_buffer_simple_append (\<lambda>_. True) n mem b = Some b' \<and> sb_data b' = sb_data b @ take n mem \<and> simple_usable b'"
    if "simple_usable b" "n \<le> length mem" for b n mem
    using simple_append [OF that, of "\<lambda>_. True"] by blast
qed

section \<open>What is packed to a buffer\<close>

lemma value_pack_scalar: "t \<noteq> T_MESSAGE \<Longrightarrow> value_pack pk t c = value_pack pk' t c"
  by (cases t) (simp_all add: value_pack_def)

lemma uint32_pack_0: "uint32_pack 0 = [0]"
  by code_simp

lemma value_pack_size:
  "is_packable_type t \<Longrightarrow> value_pack pk t c = Some bs \<Longrightarrow> value_size sz t c = Some (length bs)"
  by (cases t) (auto simp: value_pack_def value_size_def is_packable_type_def)

lemma concat_packed_sizes:
  assumes "is_packable_type t"
  shows "concat_packed (value_pack pk t) cs = Some bs \<Longrightarrow> sum_sizes (value_size sz t) cs = Some (length bs)"
proof (induction cs arbitrary: bs)
  case (Cons c cs)
  then obtain as ds where "value_pack pk t c = Some as" "concat_packed (value_pack pk t) cs = Some ds" "bs = as @ ds"
    by (auto split: Option.bind_splits)
  with Cons.IH value_pack_size [OF assms] show ?case by fastforce
qed simp

lemma fixed_width_length:
  assumes "fixed_width t = Some w" "concat_packed (value_pack pk t) cs = Some bs"
  shows "length bs = length cs * w"
  using assms(2)
proof (induction cs arbitrary: bs)
  case (Cons c cs)
  then obtain as ds where "value_pack pk t c = Some as" "concat_packed (value_pack pk t) cs = Some ds" "bs = as @ ds"
    by (auto split: Option.bind_splits)
  moreover from this have "length as = w" using assms(1) by (auto simp: fixed_width_def value_pack_def split: if_splits)
  ultimately show ?case using Cons.IH by simp
qed simp

lemma packed_payload_length:
  assumes "is_packable_type t" "concat_packed (value_pack pk t) cs = Some bs"
  shows "get_packed_payload_length t cs = Some (of_nat (length bs))"
proof (cases "fixed_width t")
  case None
  have "length bs = length cs" if "t = T_BOOL"
    using assms(2) unfolding that
    by (induction cs arbitrary: bs) (auto simp: value_pack_def boolean_pack_def split: Option.bind_splits)
  with None assms(1) concat_packed_sizes [OF assms] show ?thesis by (simp add: get_packed_payload_length_def)
next
  case (Some w)
  with fixed_width_length [OF Some assms(2)] show ?thesis by (simp add: get_packed_payload_length_def)
qed

text \<open>A program's buffers keep the contract, and the allocator does not fail.\<close>

locale environment = byte_sink "env_append E" contents usable
  for E :: "'u environment" and contents :: "'u \<Rightarrow> u8 list" and usable :: "'u \<Rightarrow> bool" +
  assumes alloc: "env_alloc E n"
begin

definition bytes :: "'u buffer \<Rightarrow> u8 list" where
  "bytes b = (case b of Simple_buffer s \<Rightarrow> sb_data s | Other_buffer u \<Rightarrow> contents u)"

definition good :: "'u buffer \<Rightarrow> bool" where
  "good b = (case b of Simple_buffer s \<Rightarrow> simple_usable s | Other_buffer u \<Rightarrow> usable u)"

definition emits :: "(nat \<times> 'u buffer) option \<Rightarrow> 'u buffer \<Rightarrow> u8 list \<Rightarrow> bool" where
  "emits r b bs \<longleftrightarrow> (\<exists>b'. r = Some (length bs, b') \<and> bytes b' = bytes b @ bs \<and> good b' \<and> is_simple b' = is_simple b)"

lemma buffer_append_emits:
  assumes "good b" "n \<le> length mem"
  shows "\<exists>b'. buffer_append E n mem b = Some b' \<and> bytes b' = bytes b @ take n mem \<and> good b' \<and> is_simple b' = is_simple b"
proof (cases b)
  case (Simple_buffer s)
  with simple_append [of s n mem "env_alloc E"] assms alloc show ?thesis
    by (force simp: buffer_append_def bytes_def good_def)
next
  case (Other_buffer u)
  with app [of u n mem] assms show ?thesis by (force simp: buffer_append_def bytes_def good_def)
qed

lemma emits_nothing: "good b \<Longrightarrow> emits (Some (0, b)) b []"
  by (simp add: emits_def)

lemma emits_append:
  assumes "good b"
  shows "emits (Option.bind (buffer_append E (length bs) bs b) (\<lambda>b'. Some (length bs, b'))) b bs"
  using buffer_append_emits [OF assms, of "length bs" bs] by (auto simp: emits_def)

lemma emits_seq:
  assumes "emits r b bs" "\<And>b'. good b' \<Longrightarrow> emits (h b') b' ds"
  shows "emits (Option.bind r (\<lambda>(n, b'). Option.bind (h b') (\<lambda>(k, b''). Some (n + k, b'')))) b (bs @ ds)"
proof -
  obtain b1 where b1: "r = Some (length bs, b1)" "bytes b1 = bytes b @ bs" "good b1" "is_simple b1 = is_simple b"
    using assms(1) by (auto simp: emits_def)
  with assms(2) [OF b1(3)] show ?thesis by (auto simp: emits_def)
qed

lemma append_content_emits:
  assumes "good b" "n \<le> length mem" "bs = tag @ uint32_pack (of_nat n) @ take n mem"
  shows "emits (append_content E tag n mem b) b bs"
proof -
  let ?s = "tag @ uint32_pack (of_nat n)"
  obtain b1 where b1: "buffer_append E (length ?s) ?s b = Some b1" "bytes b1 = bytes b @ ?s" "good b1" "is_simple b1 = is_simple b"
    using buffer_append_emits [OF assms(1), of "length ?s" ?s] by auto
  obtain b2 where "buffer_append E n mem b1 = Some b2" "bytes b2 = bytes b1 @ take n mem" "good b2" "is_simple b2 = is_simple b1"
    using buffer_append_emits [OF b1(3) assms(2)] by auto
  with b1 assms(2,3) show ?thesis by (auto simp: append_content_def emits_def Let_def)
qed

definition packs_as :: "(pb_msg \<Rightarrow> 'u packer) \<Rightarrow> (pb_msg \<Rightarrow> u8 list option) \<Rightarrow> bool" where
  "packs_as bpk pk \<longleftrightarrow> (\<forall>m bs b. pk m = Some bs \<longrightarrow> length bs < 2 ^ 32 \<longrightarrow> good b \<longrightarrow> emits (bpk m b) b bs)"

lemma required_emits:
  assumes "packs_as bpk pk" "required_field_pack pk f c = Some bs" "length bs < 2 ^ 32" "good b"
  shows "emits (required_field_pack_to_buffer E bpk f c b) b bs"
proof -
  let ?tag = "with_wire (wire_type_of (fd_type f)) (tag_pack (fd_id f))"
  obtain v where v: "value_pack pk (fd_type f) c = Some v" "bs = ?tag @ v" using assms(2) by (auto simp: required_field_pack_def)
  consider "fd_type f = T_STRING" | "fd_type f = T_BYTES" | "fd_type f = T_MESSAGE" | "fd_type f \<notin> {T_STRING, T_BYTES, T_MESSAGE}" by blast
  then show ?thesis
  proof cases
    case 1
    obtain s where s: "c = Str s" "v = string_pack s" using v(1) 1 by (auto simp: value_pack_def)
    with 1 v(2) assms(4) show ?thesis
      by (cases s) (auto simp: required_field_pack_to_buffer_def string_pack_def uint32_pack_0 Let_def intro!: append_content_emits)
  next
    case 2
    obtain d where "c = Bytes d" "v = binary_data_pack d" using v(1) 2 by (auto simp: value_pack_def)
    with 2 v(2) assms(4) show ?thesis
      by (auto simp: required_field_pack_to_buffer_def binary_data_pack_def Let_def intro!: append_content_emits)
  next
    case 3
    obtain m where m: "c = Sub m" "prefixed_message_pack pk m = Some v" using v(1) 3 by (auto simp: value_pack_def split: Option.bind_splits)
    show ?thesis
    proof (cases m)
      case None
      with 3 m v(2) assms(4) show ?thesis
        by (auto simp: required_field_pack_to_buffer_def prefixed_message_pack_def SIMPLE_INIT_def uint32_pack_0 Let_def
            intro!: append_content_emits)
    next
      case (Some m')
      with m(2) obtain ds where ds: "pk m' = Some ds" "v = uint32_pack (of_nat (length ds)) @ ds"
        by (auto simp: prefixed_message_pack_def)
      let ?init = "Simple_buffer (SIMPLE_INIT 256) :: 'u buffer"
      have "emits (bpk m' ?init) ?init ds"
        using assms(1,3) ds v(2) by (auto simp: packs_as_def good_def simple_usable_def SIMPLE_INIT_def)
      then obtain b1 where b1: "bpk m' ?init = Some (length ds, b1)" "bytes b1 = ds" "is_simple b1"
        by (auto simp: emits_def bytes_def SIMPLE_INIT_def)
      then obtain s where "b1 = Simple_buffer s" "sb_data s = ds" by (cases b1) (auto simp: bytes_def)
      with 3 m(1) Some b1(1) v(2) ds(2) assms(4) show ?thesis
        by (auto simp: required_field_pack_to_buffer_def Let_def intro!: append_content_emits)
    qed
  next
    case 4
    then have "value_pack (\<lambda>_. None) (fd_type f) c = Some v" using v(1) value_pack_scalar [of "fd_type f" pk c "\<lambda>_. None"] by auto
    with 4 v(2) emits_append [OF assms(4), of bs] show ?thesis
      by (simp add: required_field_pack_to_buffer_def Let_def)
  qed
qed

lemma elements_emit:
  assumes "concat_packed g cs = Some bs" "good b" "length bs < 2 ^ 32"
    "\<And>c ds b. g c = Some ds \<Longrightarrow> good b \<Longrightarrow> length ds < 2 ^ 32 \<Longrightarrow> emits (h c b) b ds"
  shows "emits (pack_elements h cs b) b bs"
  using assms(1-3)
proof (induction cs arbitrary: b bs)
  case Nil
  then show ?case by (simp add: emits_nothing)
next
  case (Cons c cs)
  then obtain as ds where as: "g c = Some as" "concat_packed g cs = Some ds" "bs = as @ ds" by (auto split: Option.bind_splits)
  with Cons.prems have l: "length as < 2 ^ 32" "length ds < 2 ^ 32" by simp_all
  from emits_seq [OF assms(4) [OF as(1) Cons.prems(2) l(1)], of "pack_elements h cs" ds] Cons.IH [OF as(2) _ l(2)] as(3)
  show ?case by simp
qed

lemma append_elements_emit:
  assumes "concat_packed g cs = Some bs" "good b"
  shows "emits (append_elements E g cs b) b bs"
  using assms
proof (induction cs arbitrary: b bs)
  case Nil
  then show ?case by (simp add: emits_nothing)
next
  case (Cons c cs)
  then obtain as ds where as: "g c = Some as" "concat_packed g cs = Some ds" "bs = as @ ds" by (auto split: Option.bind_splits)
  from emits_seq [OF emits_append [OF Cons.prems(2), of as], of "append_elements E g cs" ds] Cons.IH [OF as(2)] as
  show ?case by simp
qed

lemma repeated_emits:
  assumes "packs_as bpk pk" "repeated_field_pack pk f c = Some bs" "length bs < 2 ^ 32" "good b"
  shows "emits (repeated_field_pack_to_buffer E bpk f c b) b bs"
proof -
  obtain array where a: "c = Arr array" using assms(2) by (auto simp: repeated_field_pack_def split: Option.bind_splits)
  consider "array = []" | "array \<noteq> []" "fd_packed f" | "array \<noteq> []" "\<not> fd_packed f" by blast
  then show ?thesis
  proof cases
    case 1
    with a assms(2,4) show ?thesis
      by (auto simp: repeated_field_pack_def repeated_field_pack_to_buffer_def emits_nothing split: if_splits)
  next
    case 2
    let ?t = "fd_type f" and ?tag = "with_wire WIRE_LENGTH_PREFIXED (tag_pack (fd_id f))"
    obtain payload where p: "is_packable_type ?t" "concat_packed (value_pack pk ?t) array = Some payload"
        "bs = ?tag @ uint32_pack (of_nat (length payload)) @ payload"
      using a assms(2) 2 by (auto simp: repeated_field_pack_def Let_def split: Option.bind_splits if_splits)
    have "?t \<noteq> T_MESSAGE" using p(1) by (simp add: is_packable_type_def)
    then have eq: "value_pack (\<lambda>_. None) ?t = value_pack pk ?t" using value_pack_scalar by blast
    have l: "unat (of_nat (length payload) :: u32) = length payload"
      using p(3) assms(3) by (simp add: unsigned_of_nat take_bit_nat_eq_self)
    let ?scratch = "?tag @ uint32_pack (of_nat (length payload))"
    obtain b1 where b1: "buffer_append E (length ?scratch) ?scratch b = Some b1" "bytes b1 = bytes b @ ?scratch" "good b1"
        "is_simple b1 = is_simple b"
      using buffer_append_emits [OF assms(4), of "length ?scratch" ?scratch] by auto
    have "emits (pack_buffer_packed_payload E ?t array b1) b1 payload"
    proof (cases "fixed_width ?t")
      case None
      with p(1) append_elements_emit [OF p(2) b1(3)] show ?thesis by (simp add: pack_buffer_packed_payload_def eq)
    next
      case (Some w)
      have "unat (of_nat (length array) * of_nat w :: u32) = length payload"
        using l fixed_width_length [OF Some p(2)] by simp
      with Some p(2) emits_append [OF b1(3), of payload] show ?thesis
        by (simp add: pack_buffer_packed_payload_def eq Let_def)
    qed
    then obtain b2 where "pack_buffer_packed_payload E ?t array b1 = Some (length payload, b2)"
        "bytes b2 = bytes b1 @ payload" "good b2" "is_simple b2 = is_simple b1" by (auto simp: emits_def)
    with 2 a b1 p(3) l packed_payload_length [OF p(1,2)] show ?thesis
      by (auto simp: repeated_field_pack_to_buffer_def emits_def Let_def)
  next
    case 3
    have c: "concat_packed (required_field_pack pk f) array = Some bs" using a 3 assms(2) by (simp add: repeated_field_pack_def)
    have "emits (pack_elements (required_field_pack_to_buffer E bpk f) array b) b bs"
      by (rule elements_emit [OF c assms(4,3)]) (rule required_emits [OF assms(1)])
    with a 3 assms(3) show ?thesis
      by (auto simp: repeated_field_pack_to_buffer_def emits_def unsigned_of_nat take_bit_nat_eq_self)
  qed
qed

lemma field_emits:
  assumes "packs_as bpk pk" "field_pack pk f m = Some bs" "length bs < 2 ^ 32" "good b"
  shows "emits (field_pack_to_buffer E bpk f m b) b bs"
proof -
  note r = required_emits [OF assms(1) _ assms(3,4)] repeated_emits [OF assms(1) _ assms(3,4)]
  show ?thesis
    using assms(2) r(1) [of f "members m (fd_offset f)"] r(2) [of f "members m (fd_offset f)"] emits_nothing [OF assms(4)]
    by (cases "fd_label f")
      (auto simp: field_pack_def field_pack_to_buffer_def oneof_field_pack_def oneof_field_pack_to_buffer_def
        optional_field_pack_def optional_field_pack_to_buffer_def unlabeled_field_pack_def unlabeled_field_pack_to_buffer_def
        Let_def split: Option.bind_splits if_splits)
qed

lemma unknown_fields_emit:
  "good b \<Longrightarrow> emits (unknown_fields_pack_to_buffer E us b) b (concat (map unknown_field_pack us))"
proof (induction us arbitrary: b)
  case Nil
  then show ?case by (simp add: emits_nothing)
next
  case (Cons u us)
  obtain tag wire ds where u: "u = (tag, wire, ds)" by (cases u)
  let ?header = "with_wire wire (tag_pack tag)"
  obtain b1 where b1: "buffer_append E (length ?header) ?header b = Some b1" "bytes b1 = bytes b @ ?header" "good b1"
      "is_simple b1 = is_simple b"
    using buffer_append_emits [OF Cons.prems, of "length ?header" ?header] by auto
  obtain b2 where "buffer_append E (length ds) ds b1 = Some b2" "bytes b2 = bytes b1 @ ds" "good b2" "is_simple b2 = is_simple b1"
    using buffer_append_emits [OF b1(3), of "length ds" ds] by auto
  with b1 u have "emits (unknown_field_pack_to_buffer E u b) b (unknown_field_pack u)"
    by (auto simp: unknown_field_pack_to_buffer_def unknown_field_pack_def emits_def Let_def)
  from emits_seq [OF this, of "unknown_fields_pack_to_buffer E us"] Cons.IH show ?case by simp
qed

lemma message_emits:
  "protobuf_c_message_pack D m = Some bs \<Longrightarrow> length bs < 2 ^ 32 \<Longrightarrow> good b \<Longrightarrow>
     emits (protobuf_c_message_pack_to_buffer E D m b) b bs"
  "fields_pack fs m = Some bs \<Longrightarrow> length bs < 2 ^ 32 \<Longrightarrow> good b \<Longrightarrow> emits (fields_pack_to_buffer E fs m b) b bs"
  "submessage_pack sub m = Some bs \<Longrightarrow> length bs < 2 ^ 32 \<Longrightarrow> good b \<Longrightarrow> emits (submessage_pack_to_buffer E sub m b) b bs"
proof (induction D m and fs m and sub m arbitrary: bs b and bs b and bs b
    rule: protobuf_c_message_pack_fields_pack_submessage_pack.induct)
  case (1 nm fs rs m)
  then obtain ds where ds: "fields_pack fs m = Some ds" "bs = ds @ concat (map unknown_field_pack (unknown m))"
    by (auto split: Option.bind_splits)
  with 1 have "emits (fields_pack_to_buffer E fs m b) b ds" by simp
  from emits_seq [OF this, of "unknown_fields_pack_to_buffer E (unknown m)"] unknown_fields_emit ds(2) show ?case by simp
next
  case (3 nm i l t q off sub pk one fs m)
  let ?f = "Field_desc nm i l t q off sub pk one"
  obtain as ds where as: "field_pack (\<lambda>m'. submessage_pack sub m') ?f m = Some as" "fields_pack fs m = Some ds" "bs = as @ ds"
    using "3.prems"(1) by (auto split: Option.bind_splits)
  have "packs_as (\<lambda>m' b'. submessage_pack_to_buffer E sub m' b') (\<lambda>m'. submessage_pack sub m')"
    using "3.IH"(1) by (auto simp: packs_as_def)
  from field_emits [OF this as(1) _ "3.prems"(3)] have "emits
      (field_pack_to_buffer E (\<lambda>m' b'. submessage_pack_to_buffer E sub m' b') ?f m b) b as"
    using as(3) "3.prems"(2) by simp
  from emits_seq [OF this, of "fields_pack_to_buffer E fs m" ds] "3.IH"(2) [OF as(1,2)] as(3) "3.prems"(2) show ?case by simp
next
  case 2
  then show ?case by (simp add: emits_nothing)
qed simp_all

lemma packs_to_both:
  assumes "protobuf_c_message_pack D m = Some bs" "length bs < 2 ^ 32" "simple_usable s" "usable u"
  shows "\<exists>s' u'. protobuf_c_message_pack_to_buffer E D m (Simple_buffer s) = Some (length bs, Simple_buffer s') \<and>
    sb_data s' = sb_data s @ bs \<and> length (sb_data s') \<le> sb_alloced s' \<and>
    protobuf_c_message_pack_to_buffer E D m (Other_buffer u) = Some (length bs, Other_buffer u') \<and> contents u' = contents u @ bs"
proof -
  have "good (Simple_buffer s)" "good (Other_buffer u)" using assms(3,4) by (simp_all add: good_def)
  from this [THEN message_emits(1) [OF assms(1,2)]] obtain b1 b2 where
    "protobuf_c_message_pack_to_buffer E D m (Simple_buffer s) = Some (length bs, b1)" "bytes b1 = sb_data s @ bs" "good b1" "is_simple b1"
    "protobuf_c_message_pack_to_buffer E D m (Other_buffer u) = Some (length bs, b2)" "bytes b2 = contents u @ bs" "\<not> is_simple b2"
    by (auto simp: emits_def bytes_def)
  then show ?thesis by (cases b1; cases b2) (simp_all add: bytes_def good_def simple_usable_def)
qed

end

text \<open>The environment in which the program's own buffers are the runtime's.\<close>

definition runtime :: "simple_buffer environment" where
  "runtime = \<lparr>env_alloc = (\<lambda>_. True), env_append = protobuf_c_buffer_simple_append (\<lambda>_. True)\<rparr>"

interpretation runtime: environment runtime sb_data simple_usable
  by unfold_locales (simp_all add: runtime_def simple.app)

text \<open>No block can be allocated.\<close>

definition no_memory :: "'u environment \<Rightarrow> 'u environment" where
  "no_memory E = E\<lparr>env_alloc := (\<lambda>_. False)\<rparr>"

lemma no_memory_append:
  "length (sb_data s) + n \<le> sb_alloced s \<Longrightarrow> n \<le> length mem \<Longrightarrow>
     buffer_append (no_memory E) n mem (Simple_buffer s) = Some (Simple_buffer (s\<lparr>sb_data := sb_data s @ take n mem\<rparr>))"
  "0 < sb_alloced s \<Longrightarrow> sb_alloced s < length (sb_data s) + n \<Longrightarrow>
     buffer_append (no_memory E) n mem (Simple_buffer s) = Some (Simple_buffer s)"
proof -
  show "buffer_append (no_memory E) n mem (Simple_buffer s) = Some (Simple_buffer (s\<lparr>sb_data := sb_data s @ take n mem\<rparr>))"
    if "length (sb_data s) + n \<le> sb_alloced s" "n \<le> length mem"
    using that by (simp add: buffer_append_def no_memory_def protobuf_c_buffer_simple_append_def read_bytes_def)
  show "buffer_append (no_memory E) n mem (Simple_buffer s) = Some (Simple_buffer s)"
    if "0 < sb_alloced s" "sb_alloced s < length (sb_data s) + n"
    using that grow_returns [of "sb_alloced s * 2" "length (sb_data s) + n"]
    by (auto simp: buffer_append_def no_memory_def protobuf_c_buffer_simple_append_def)
qed

text \<open>C15. With an allocator that does not fail, packing a message into a growing buffer appends the bytes that packing it
  into memory writes, and returns their number, for every descriptor and buffer that has room for at least
  one byte; the program's other buffers receive the same bytes if their method appends what it
  is given.\<close>

theorem packs_to_buffer_as_to_memory:
  assumes "protobuf_c_message_pack D m = Some bs" "length bs < 2 ^ 32" "simple_usable s"
    "\<And>n. env_alloc E n"
    "\<And>b n mem. usable b \<Longrightarrow> n \<le> length mem \<Longrightarrow>
       \<exists>b'. env_append E n mem b = Some b' \<and> contents b' = contents b @ take n mem \<and> usable b'"
    "usable u"
  shows "\<exists>s' u'. protobuf_c_message_pack_to_buffer E D m (Simple_buffer s) = Some (length bs, Simple_buffer s') \<and>
    sb_data s' = sb_data s @ bs \<and> length (sb_data s') \<le> sb_alloced s' \<and>
    protobuf_c_message_pack_to_buffer E D m (Other_buffer u) = Some (length bs, Other_buffer u') \<and> contents u' = contents u @ bs"
proof -
  have "environment E contents usable" by unfold_locales (use assms(4,5) in blast)+
  from environment.packs_to_both [OF this assms(1,2,3,6)] show ?thesis .
qed

end
