(* ===== verification/Pb_Lookup.thy ===== *)
theory Pb_Lookup
  imports Pb_Message Pb_Ranges "HOL-Library.List_Lexorder"
begin

text \<open>
  Looking up fields, enumeration values and methods by name and by number (the querying functions of
  \<^verbatim>\<open>protobuf-c.c\<close>).  The names are found by binary search in a table of indices that is sorted by
  \<^verbatim>\<open>strcmp\<close>; the table of a descriptor without fields is NULL.
\<close>

section \<open>Binary search by name\<close>

text \<open>The loop that the three functions share: \<open>names k\<close> is the name at position \<open>k\<close> of the sorted table; the
  value is the position.\<close>

function name_search :: "(nat \<Rightarrow> string) \<Rightarrow> string \<Rightarrow> nat \<Rightarrow> nat \<Rightarrow> nat option" where
  "name_search names name start n =
     (if n > 1 then
        (let mid = start + n div 2; rv = strcmp (names mid) name
         in if rv = 0 then Some mid
            else if rv < 0 then name_search names name (mid + 1) (start + n - (mid + 1))
            else name_search names name start (mid - start))
      else if n = 0 then None
      else if strcmp (names start) name = 0 then Some start
      else None)"
  by pat_completeness auto
termination by (relation "measure (\<lambda>(names, name, start, n). n)") auto

declare name_search.simps [simp del]

section \<open>Descriptors\<close>

text \<open>Values have names and numbers; the index of the sorted names has names of its own, and may have more, for aliases.\<close>

record enum_desc =
  en_values :: "(string \<times> int) list"
  en_values_by_name :: "(string \<times> nat) list option"
  en_value_ranges :: "(int \<times> nat) list"

record service_desc =
  sv_methods :: "string list"
  sv_method_indices_by_name :: "nat list option"

definition protobuf_c_enum_descriptor_get_value_by_name :: "enum_desc \<Rightarrow> string \<Rightarrow> (string \<times> int) option" where
  "protobuf_c_enum_descriptor_get_value_by_name desc name =
     (case en_values_by_name desc of
        None \<Rightarrow> None
      | Some by_name \<Rightarrow> map_option (\<lambda>k. en_values desc ! snd (by_name ! k))
          (name_search (\<lambda>k. fst (by_name ! k)) name 0 (length by_name)))"

definition protobuf_c_enum_descriptor_get_value :: "enum_desc \<Rightarrow> int \<Rightarrow> (string \<times> int) option" where
  "protobuf_c_enum_descriptor_get_value desc value' =
     map_option (\<lambda>rv. en_values desc ! rv) (int_range_lookup (en_value_ranges desc) value')"

text \<open>The table of a message's fields by name is kept with the generated code.\<close>

definition protobuf_c_message_descriptor_get_field_by_name :: "msg_desc \<Rightarrow> nat list option \<Rightarrow> string \<Rightarrow> field_desc option" where
  "protobuf_c_message_descriptor_get_field_by_name desc fields_sorted_by_name name =
     (case fields_sorted_by_name of
        None \<Rightarrow> None
      | Some idx \<Rightarrow> map_option (\<lambda>k. md_fields desc ! (idx ! k))
          (name_search (\<lambda>k. fd_name (md_fields desc ! (idx ! k))) name 0 (length (md_fields desc))))"

definition protobuf_c_message_descriptor_get_field :: "msg_desc \<Rightarrow> u32 \<Rightarrow> field_desc option" where
  "protobuf_c_message_descriptor_get_field desc value' =
     map_option (\<lambda>rv. md_fields desc ! rv) (int_range_lookup (md_ranges desc) (sint value'))"

definition protobuf_c_service_descriptor_get_method_by_name :: "service_desc \<Rightarrow> string \<Rightarrow> string option" where
  "protobuf_c_service_descriptor_get_method_by_name desc name =
     (case sv_method_indices_by_name desc of
        None \<Rightarrow> None
      | Some idx \<Rightarrow> map_option (\<lambda>k. sv_methods desc ! (idx ! k))
          (name_search (\<lambda>k. sv_methods desc ! (idx ! k)) name 0 (length (sv_methods desc))))"

text \<open>Calling a method of a service: the handlers follow the service in memory.  The index is asserted to be in range; a
  handler that is NULL is called nevertheless.\<close>

definition protobuf_c_service_invoke_internal :: "('s \<Rightarrow> 'i \<Rightarrow> 'r) option list \<Rightarrow> nat \<Rightarrow> 's \<Rightarrow> 'i \<Rightarrow> 'r option" where
  "protobuf_c_service_invoke_internal handlers method_index service input =
     (if method_index < length handlers then map_option (\<lambda>h. h service input) (handlers ! method_index) else None)"

definition protobuf_c_service_generated_init :: "service_desc \<Rightarrow> ('s \<Rightarrow> 'i \<Rightarrow> 'r) option list" where
  "protobuf_c_service_generated_init desc = replicate (length (sv_methods desc)) None"

section \<open>The order of names\<close>

definition key :: "string \<Rightarrow> nat list" where
  "key s = map code (c_str s)"

lemma c_str_Cons: "c_str (c # cs) = (if c = NUL then [] else c # c_str cs)"
  by (simp add: c_str_def)

lemma code_of_NUL: "code NUL = 0" "d \<noteq> NUL \<Longrightarrow> 0 < code d"
proof -
  show z: "code NUL = 0" by (simp add: code_def)
  show "0 < code d" if "d \<noteq> NUL" using that code_eq_iff [of d NUL] z by (metis gr0I)
qed

lemma strcmp_less: "strcmp a b < 0 \<longleftrightarrow> key a < key b"
  by (induction a b rule: strcmp.induct)
    (auto simp: key_def c_str_def code_eq_iff code_of_NUL simp flip: code_def)

lemma strcmp_eq: "strcmp a b = 0 \<longleftrightarrow> key a = key b"
  by (induction a b rule: strcmp.induct) (auto simp: key_def c_str_def code_eq_iff)

lemma strcmp_greater: "0 < strcmp a b \<longleftrightarrow> key b < key a"
  using strcmp_less [of a b] strcmp_eq [of a b] by (metis linorder_less_linear order_less_asym)

section \<open>What is found\<close>

lemma name_search_within:
  assumes "\<And>i j. start \<le> i \<Longrightarrow> i < j \<Longrightarrow> j < start + n \<Longrightarrow> key (names i) < key (names j)"
  shows "name_search names name start n = Some k \<longleftrightarrow> start \<le> k \<and> k < start + n \<and> key (names k) = key name"
  using assms
proof (induction names name start n rule: name_search.induct)
  case (1 names name start n)
  consider "n = 0" | "n = 1" | "n > 1" by linarith
  then show ?case
  proof cases
    case 1
    then show ?thesis by (simp add: name_search.simps)
  next
    case 2
    then show ?thesis by (subst name_search.simps) (auto simp: strcmp_eq le_less_Suc_eq)
  next
    case 3
    define mid where "mid = start + n div 2"
    have mid: "start \<le> mid" "mid < start + n" using 3 by (auto simp: mid_def)
    have below: "key (names i) < key (names mid)" if "start \<le> i" "i < mid" for i using "1.prems" that mid by blast
    have above: "key (names mid) < key (names i)" if "mid < i" "i < start + n" for i using "1.prems" that mid by blast
    note unf = name_search.simps [of names name start n] mid_def [symmetric]
    consider "key (names mid) = key name" | "key (names mid) < key name" | "key name < key (names mid)" by fastforce
    then show ?thesis
    proof cases
      case 1
      then have "name_search names name start n = Some mid" using 3 by (simp add: unf strcmp_eq Let_def)
      moreover have "k = mid" if "start \<le> k" "k < start + n" "key (names k) = key name"
        using that 1 below above by (metis linorder_neqE_nat order_less_irrefl)
      ultimately show ?thesis using 1 mid by auto
    next
      case 2
      then have c: "strcmp (names mid) name \<noteq> 0" "strcmp (names mid) name < 0" by (simp_all add: strcmp_eq strcmp_less)
      have "name_search names name start n = name_search names name (mid + 1) (start + n - (mid + 1))"
        using 3 c by (simp add: unf Let_def)
      also have "\<dots> = Some k \<longleftrightarrow> mid + 1 \<le> k \<and> k < mid + 1 + (start + n - (mid + 1)) \<and> key (names k) = key name"
        by (rule "1.IH"(1) [OF 3 mid_def refl c]) (use "1.prems" mid in auto)
      finally show ?thesis using mid below 2
        by (auto simp: Suc_le_eq) (metis linorder_neqE_nat order_less_asym order_less_irrefl)
    next
      case 3
      then have c: "strcmp (names mid) name \<noteq> 0" "\<not> strcmp (names mid) name < 0"
        using order_less_asym by (auto simp: strcmp_eq strcmp_less)
      have "name_search names name start n = name_search names name start (mid - start)"
        using \<open>n > 1\<close> c by (simp add: unf Let_def)
      also have "\<dots> = Some k \<longleftrightarrow> start \<le> k \<and> k < start + (mid - start) \<and> key (names k) = key name"
        by (rule "1.IH"(2) [OF \<open>n > 1\<close> mid_def refl c]) (use "1.prems" mid in auto)
      finally show ?thesis using mid above 3
        by auto (metis linorder_neqE_nat order_less_asym order_less_irrefl)
    qed
  qed
qed

lemma key_eq_iff: "key a = key b \<longleftrightarrow> c_str a = c_str b"
  by (simp flip: strcmp_eq add: strcmp_c_str)

text \<open>A table that lists the fields in the order of their names, each once.\<close>

definition table_sorted :: "msg_desc \<Rightarrow> nat list \<Rightarrow> bool" where
  "table_sorted D idx \<longleftrightarrow> set idx = {0..<length (md_fields D)} \<and> length idx = length (md_fields D) \<and>
     sorted_wrt (\<lambda>i j. key (fd_name (md_fields D ! i)) < key (fd_name (md_fields D ! j))) idx"

lemma find_unique:
  assumes "x \<in> set xs" "P x" "\<And>y. y \<in> set xs \<Longrightarrow> P y \<Longrightarrow> y = x"
  shows "find P xs = Some x"
proof -
  obtain y where y: "find P xs = Some y" using assms(1,2) find_None_iff [of P xs] by (cases "find P xs") auto
  then have "y \<in> set xs" "P y" by (auto simp: find_Some_iff)
  with assms(3) y show ?thesis by simp
qed

lemma table_positions:
  assumes "table_sorted D idx" "f \<in> set (md_fields D)"
  obtains k where "k < length idx" "f = md_fields D ! (idx ! k)"
proof -
  obtain i where i: "i < length (md_fields D)" "md_fields D ! i = f" using assms(2) by (auto simp: in_set_conv_nth)
  then have "i \<in> set idx" using assms(1) by (simp add: table_sorted_def)
  with i that show thesis by (auto simp: in_set_conv_nth)
qed

lemma field_by_name_linear:
  assumes "table_sorted D idx"
  shows "protobuf_c_message_descriptor_get_field_by_name D (Some idx) name =
    find (\<lambda>f. c_str (fd_name f) = c_str name) (md_fields D)"
proof -
  let ?name = "\<lambda>k. fd_name (md_fields D ! (idx ! k))"
  have n: "length idx = length (md_fields D)" using assms by (simp add: table_sorted_def)
  have less: "key (?name i) < key (?name j)" if "i < j" "j < length idx" for i j
    using assms that by (auto simp: table_sorted_def sorted_wrt_iff_nth_less)
  then have s: "name_search ?name name 0 (length idx) = Some k \<longleftrightarrow> k < length idx \<and> key (?name k) = key name" for k
    using name_search_within [of 0 "length idx" ?name name k] by simp
  show ?thesis
  proof (cases "name_search ?name name 0 (length idx)")
    case None
    have "c_str (fd_name f) \<noteq> c_str name" if "f \<in> set (md_fields D)" for f
      using table_positions [OF assms that] s None by (metis key_eq_iff option.distinct(1))
    with None show ?thesis
      by (simp add: protobuf_c_message_descriptor_get_field_by_name_def n find_None_iff2)
  next
    case (Some k)
    then have k: "k < length idx" "key (?name k) = key name" using s by auto
    have "idx ! k \<in> set idx" using k(1) by simp
    then have m: "md_fields D ! (idx ! k) \<in> set (md_fields D)" using assms by (auto simp: table_sorted_def)
    have "find (\<lambda>f. c_str (fd_name f) = c_str name) (md_fields D) = Some (md_fields D ! (idx ! k))"
    proof (rule find_unique [OF m])
      show "c_str (?name k) = c_str name" using k(2) by (simp add: key_eq_iff)
      fix f assume f: "f \<in> set (md_fields D)" "c_str (fd_name f) = c_str name"
      obtain j where j: "j < length idx" "f = md_fields D ! (idx ! j)" using table_positions [OF assms f(1)] .
      with f(2) k(2) have "key (?name j) = key (?name k)" by (simp add: key_eq_iff)
      with less [of j k] less [of k j] j k show "f = md_fields D ! (idx ! k)" by (metis linorder_neqE_nat order_less_irrefl)
    qed
    with Some show ?thesis by (simp add: protobuf_c_message_descriptor_get_field_by_name_def n)
  qed
qed

end
