(* ===== verification/Pb_Free.thy ===== *)
theory Pb_Free
  imports Pb_Typed
begin

text \<open>
  Checking and freeing messages (\<^verbatim>\<open>protobuf_c_message_check\<close> and \<^verbatim>\<open>protobuf_c_message_free_unpacked\<close> of
  \<^verbatim>\<open>protobuf-c.c\<close>).  The blocks of memory that a message consists of are named by the way to them
  from the message, and freeing yields the blocks in the order in which they are freed.
\<close>

section \<open>The blocks of a message\<close>

text \<open>A string, the data of bytes, an array or an embedded message hangs on a member, or on an element of an array; the
  data of unknown fields and their array on the message itself.\<close>

datatype place = Member string | Element string nat | Unknown_data nat | Unknown_fields

type_synonym block = "place list"

inductive block_of :: "pb_msg \<Rightarrow> block \<Rightarrow> bool" and cell_block :: "place \<Rightarrow> cell \<Rightarrow> block \<Rightarrow> bool" where
  Message: "block_of m []"
| In_member: "cell_block (Member x) (members m x) p \<Longrightarrow> block_of m p"
| In_array: "members m x = Arr cs \<Longrightarrow> i < length cs \<Longrightarrow> cell_block (Element x i) (cs ! i) p \<Longrightarrow> block_of m p"
| Unknown_data: "i < length (unknown m) \<Longrightarrow> block_of m [Unknown_data i]"
| Unknown_fields: "unknown m \<noteq> [] \<Longrightarrow> block_of m [Unknown_fields]"
| String: "cell_block y (Str (Some s)) [y]"
| Bytes: "b \<noteq> [] \<Longrightarrow> cell_block y (Bytes b) [y]"
| Embedded: "block_of m p \<Longrightarrow> cell_block y (Sub (Some m)) (y # p)"
| Array: "cs \<noteq> [] \<Longrightarrow> cell_block y (Arr cs) [y]"

inductive_simps cell_block_simps [simp]:
  "cell_block y (U32 v) p" "cell_block y (U64 w) p" "cell_block y (Str s) p" "cell_block y (Bytes b) p" "cell_block y (Sub e) p"
  "cell_block y (Arr cs) p"

section \<open>Freeing\<close>

text \<open>The blocks of one value; \<^verbatim>\<open>free\<close> and \<^verbatim>\<open>protobuf_c_message_free_unpacked\<close> do nothing with NULL, and empty
  bytes are NULL.  No field has a default value.\<close>

definition free_value :: "(pb_msg \<Rightarrow> block list option) \<Rightarrow> pb_type \<Rightarrow> place \<Rightarrow> cell \<Rightarrow> block list option" where
  "free_value fr t y c =
     (case t of
        T_STRING \<Rightarrow> do { s \<leftarrow> as_string c; Some (if s = None then [] else [[y]]) }
      | T_BYTES \<Rightarrow> do { b \<leftarrow> as_bytes c; Some (if b = [] then [] else [[y]]) }
      | T_MESSAGE \<Rightarrow> do {
          e \<leftarrow> as_message c;
          (case e of None \<Rightarrow> Some [] | Some m \<Rightarrow> do { ps \<leftarrow> fr m; Some (map (Cons y) ps) })
        }
      | _ \<Rightarrow> Some [])"

fun free_elements :: "(nat \<Rightarrow> cell \<Rightarrow> block list option) \<Rightarrow> nat \<Rightarrow> cell list \<Rightarrow> block list option" where
  "free_elements g i [] = Some []"
| "free_elements g i (c # cs) = do { ps \<leftarrow> g i c; qs \<leftarrow> free_elements g (Suc i) cs; Some (ps @ qs) }"

text \<open>The members of a union that its case does not select are skipped.\<close>

definition free_field :: "(pb_msg \<Rightarrow> block list option) \<Rightarrow> field_desc \<Rightarrow> pb_msg \<Rightarrow> block list option" where
  "free_field fr f m = do {
     skip \<leftarrow> (if fd_oneof f then do { v \<leftarrow> as_u32 (members m (fd_quantifier f)); Some (fd_id f \<noteq> v) } else Some False);
     (if skip then Some []
      else if fd_label f = REPEATED then do {
        arr \<leftarrow> as_array (members m (fd_offset f));
        ps \<leftarrow> free_elements (\<lambda>i. free_value fr (fd_type f) (Element (fd_offset f) i)) 0 arr;
        Some (ps @ (if arr = [] then [] else [[Member (fd_offset f)]]))
      }
      else free_value fr (fd_type f) (Member (fd_offset f)) (members m (fd_offset f)))
   }"

fun protobuf_c_message_free_unpacked :: "msg_desc \<Rightarrow> pb_msg \<Rightarrow> block list option"
  and fields_free :: "field_desc list \<Rightarrow> pb_msg \<Rightarrow> block list option"
  and submessage_free :: "msg_desc option \<Rightarrow> pb_msg \<Rightarrow> block list option" where
  "protobuf_c_message_free_unpacked (Msg_desc nm fs rs) m = do {
     ps \<leftarrow> fields_free fs m;
     Some (ps @ map (\<lambda>i. [Unknown_data i]) [0..<length (unknown m)] @ (if unknown m = [] then [] else [[Unknown_fields]]) @ [[]])
   }"
| "fields_free [] m = Some []"
| "fields_free (Field_desc nm i l t q off sub pk one # fs) m = do {
     ps \<leftarrow> free_field (\<lambda>m'. submessage_free sub m') (Field_desc nm i l t q off sub pk one) m;
     qs \<leftarrow> fields_free fs m;
     Some (ps @ qs)
   }"
| "submessage_free None m = None"
| "submessage_free (Some D) m = protobuf_c_message_free_unpacked D m"

section \<open>Checking\<close>

text \<open>One value that must be there; bytes of a positive length always have their data.\<close>

definition check_value :: "(pb_msg \<Rightarrow> bool option) \<Rightarrow> pb_type \<Rightarrow> cell \<Rightarrow> bool option" where
  "check_value ch t c =
     (case t of
        T_MESSAGE \<Rightarrow> do { e \<leftarrow> as_message c; (case e of None \<Rightarrow> Some False | Some m \<Rightarrow> ch m) }
      | T_STRING \<Rightarrow> do { s \<leftarrow> as_string c; Some (s \<noteq> None) }
      | T_BYTES \<Rightarrow> do { b \<leftarrow> as_bytes c; Some True }
      | _ \<Rightarrow> Some True)"

fun check_elements :: "(cell \<Rightarrow> bool option) \<Rightarrow> cell list \<Rightarrow> bool option" where
  "check_elements g [] = Some True"
| "check_elements g (c # cs) = do { ok \<leftarrow> g c; (if ok then check_elements g cs else Some False) }"

text \<open>An embedded message knows its own descriptor: in a union, that of the member which the case selects.\<close>

definition own_check :: "field_desc list \<Rightarrow> (pb_msg \<Rightarrow> bool option) list \<Rightarrow> nat \<Rightarrow> pb_msg \<Rightarrow> pb_msg \<Rightarrow> bool option" where
  "own_check fs chs i m e =
     (if fd_oneof (fs ! i) then do {
        v \<leftarrow> as_u32 (members m (fd_quantifier (fs ! i)));
        k \<leftarrow> List.find (\<lambda>k. fd_oneof (fs ! k) \<and> fd_quantifier (fs ! k) = fd_quantifier (fs ! i) \<and> fd_id (fs ! k) = v) [0..<length fs];
        (chs ! k) e
      }
      else (chs ! i) e)"

text \<open>Where a field has no quantifier its offset is 0, and what is read there is the address of the descriptor, which
  is not 1.\<close>

definition check_field :: "field_desc list \<Rightarrow> (pb_msg \<Rightarrow> bool option) list \<Rightarrow> nat \<Rightarrow> pb_msg \<Rightarrow> bool option" where
  "check_field fs chs i m =
     (let f = fs ! i; c = members m (fd_offset f); ch = own_check fs chs i m
      in if fd_label f = REPEATED then do {
           arr \<leftarrow> as_array c;
           (if is_packable_type (fd_type f) then Some True else check_elements (check_value ch (fd_type f)) arr)
         }
         else if fd_type f = T_MESSAGE then do {
           e \<leftarrow> as_message c;
           (if fd_label f = REQUIRED \<or> e \<noteq> None then check_value ch T_MESSAGE c else Some True)
         }
         else if fd_type f = T_STRING then (if fd_label f = REQUIRED then check_value ch T_STRING c else Some True)
         else if fd_type f = T_BYTES then do {
           has \<leftarrow> (if fd_label f = REQUIRED then Some True else if fd_quantifier f = [] then Some False
                  else map_option (\<lambda>h. h = 1) (as_u32 (members m (fd_quantifier f))));
           (if has then check_value ch T_BYTES c else Some True)
         }
         else Some True)"

fun check_fields :: "(nat \<Rightarrow> bool option) \<Rightarrow> nat list \<Rightarrow> bool option" where
  "check_fields g [] = Some True"
| "check_fields g (i # is) = do { ok \<leftarrow> g i; (if ok then check_fields g is else Some False) }"

fun protobuf_c_message_check :: "msg_desc \<Rightarrow> pb_msg \<Rightarrow> bool option"
  and checkers :: "field_desc list \<Rightarrow> (pb_msg \<Rightarrow> bool option) list"
  and submessage_check :: "msg_desc option \<Rightarrow> pb_msg \<Rightarrow> bool option" where
  "protobuf_c_message_check (Msg_desc nm fs rs) m = check_fields (\<lambda>i. check_field fs (checkers fs) i m) [0..<length fs]"
| "checkers [] = []"
| "checkers (Field_desc nm i l t q off sub pk one # fs) = (\<lambda>m. submessage_check sub m) # checkers fs"
| "submessage_check None m = None"
| "submessage_check (Some D) m = protobuf_c_message_check D m"

section \<open>Blocks of cells\<close>

lemma cell_block_at: "cell_block y c p \<Longrightarrow> \<exists>q. p = y # q"
  by (cases c) auto

definition blocks_at :: "string \<Rightarrow> pb_msg \<Rightarrow> block set" where
  "blocks_at x m = {p. cell_block (Member x) (members m x) p \<or>
     (\<exists>cs i. members m x = Arr cs \<and> i < length cs \<and> cell_block (Element x i) (cs ! i) p)}"

lemma blocks_at_place: "p \<in> blocks_at x m \<Longrightarrow> \<exists>q. p = Member x # q \<or> (\<exists>i. p = Element x i # q)"
  by (auto simp: blocks_at_def dest!: cell_block_at)

lemma not_at [simp]: "[] \<notin> blocks_at x m" "[Unknown_data i] \<notin> blocks_at x m" "[Unknown_fields] \<notin> blocks_at x m"
  by (auto dest!: blocks_at_place)

lemma blocks_at_apart: "x \<noteq> x' \<Longrightarrow> blocks_at x m \<inter> blocks_at x' m = {}"
  by (auto dest!: blocks_at_place)

lemma block_of_iff:
  "block_of m p \<longleftrightarrow> p = [] \<or> (\<exists>x. p \<in> blocks_at x m) \<or> (\<exists>i < length (unknown m). p = [Unknown_data i]) \<or>
     unknown m \<noteq> [] \<and> p = [Unknown_fields]"
  by (subst block_of.simps) (auto simp: blocks_at_def)

lemma blocks_at_simps [simp]: "members m x = U32 v \<Longrightarrow> blocks_at x m = {}"
  by (simp add: blocks_at_def)

lemma blocks_at_zero: "fd_label f \<noteq> REPEATED \<Longrightarrow> members m x = zero_cell f \<Longrightarrow> blocks_at x m = {}"
  by (cases "fd_type f") (simp_all add: blocks_at_def zero_cell_def)

lemma value_typed_no_array: "\<not> value_typed sg t (Arr cs)"
  by (cases t) (simp_all add: value_typed_def)

section \<open>Freeing frees every block once\<close>

definition frees_all :: "block list option \<Rightarrow> block set \<Rightarrow> bool" where
  "frees_all r B \<longleftrightarrow> (\<exists>ps. r = Some ps \<and> distinct ps \<and> set ps = B)"

lemma free_value_all:
  assumes "value_typed sg t c" "\<And>m. sg m \<Longrightarrow> frees_all (fr m) (Collect (block_of m))"
  shows "frees_all (free_value fr t y c) (Collect (cell_block y c))"
proof (cases "t = T_MESSAGE")
  case True
  then obtain e where e: "c = Sub e" "\<And>m. e = Some m \<Longrightarrow> sg m" using value_typedE(1) [OF assms(1)] by auto
  show ?thesis
  proof (cases e)
    case None
    with True e show ?thesis by (simp add: frees_all_def free_value_def)
  next
    case (Some m)
    then obtain ps where "fr m = Some ps" "distinct ps" "set ps = Collect (block_of m)"
      using e assms(2) by (auto simp: frees_all_def)
    with True e Some show ?thesis by (auto simp: frees_all_def free_value_def distinct_map)
  qed
next
  case False
  with assms(1) show ?thesis by (cases t) (auto simp: frees_all_def free_value_def value_typed_def)
qed

lemma free_elements_all:
  assumes "\<forall>c \<in> set cs. value_typed sg t c" "\<And>m. sg m \<Longrightarrow> frees_all (fr m) (Collect (block_of m))"
  shows "frees_all (free_elements (\<lambda>i. free_value fr t (Element x i)) k cs)
    {p. \<exists>i < length cs. cell_block (Element x (k + i)) (cs ! i) p}"
  using assms(1)
proof (induction cs arbitrary: k)
  case Nil
  then show ?case by (simp add: frees_all_def)
next
  case (Cons c cs)
  obtain ps where ps: "free_value fr t (Element x k) c = Some ps" "distinct ps" "set ps = Collect (cell_block (Element x k) c)"
    using free_value_all [of sg t c fr "Element x k"] Cons.prems assms(2) by (auto simp: frees_all_def)
  obtain qs where qs: "free_elements (\<lambda>i. free_value fr t (Element x i)) (Suc k) cs = Some qs" "distinct qs"
      "set qs = {p. \<exists>i < length cs. cell_block (Element x (Suc k + i)) (cs ! i) p}"
    using Cons.IH [of "Suc k"] Cons.prems by (auto simp: frees_all_def)
  have "set ps \<inter> set qs = {}" using ps(3) qs(3) by (auto dest!: cell_block_at)
  moreover have "set ps \<union> set qs = {p. \<exists>i < length (c # cs). cell_block (Element x (k + i)) ((c # cs) ! i) p}"
    unfolding ps(3) qs(3) by (auto simp: less_Suc_eq_0_disj)
  ultimately show ?case using ps(1,2) qs(1,2) by (simp add: frees_all_def)
qed

definition field_blocks :: "field_desc \<Rightarrow> pb_msg \<Rightarrow> block set" where
  "field_blocks f m = (if fd_oneof f \<and> members m (fd_quantifier f) \<noteq> U32 (fd_id f) then {} else blocks_at (fd_offset f) m)"

lemma free_field_all:
  assumes "fields_described fs" "typed fs m" "f \<in> set fs"
    "\<And>e. complete_sub (fd_sub f) e \<Longrightarrow> frees_all (fr e) (Collect (block_of e))"
  shows "frees_all (free_field fr f m) (field_blocks f m)"
proof -
  note ty = typed_field [OF assms(2,3)]
  have one: "fd_label f \<noteq> REPEATED" "fd_label f \<noteq> REQUIRED" if "fd_oneof f"
    using assms(1,3) that by (auto simp: fields_described_def)
  show ?thesis
  proof (cases "fd_label f = REPEATED")
    case True
    with ty obtain cs where cs: "members m (fd_offset f) = Arr cs" "\<forall>c \<in> set cs. value_typed (complete_sub (fd_sub f)) (fd_type f) c"
      by (auto simp: field_typed_def)
    obtain ps where ps: "free_elements (\<lambda>i. free_value fr (fd_type f) (Element (fd_offset f) i)) 0 cs = Some ps" "distinct ps"
        "set ps = {p. \<exists>i < length cs. cell_block (Element (fd_offset f) i) (cs ! i) p}"
      using free_elements_all [OF cs(2), of fr "fd_offset f" 0] assms(4) by (auto simp: frees_all_def)
    have "[Member (fd_offset f)] \<notin> set ps" using ps(3) by (auto dest!: cell_block_at)
    with True one cs(1) ps show ?thesis
      by (auto simp: frees_all_def free_field_def field_blocks_def blocks_at_def)
  next
    case False
    have v: "frees_all (free_value fr (fd_type f) (Member (fd_offset f)) (members m (fd_offset f))) (blocks_at (fd_offset f) m)"
      if "value_typed (complete_sub (fd_sub f)) (fd_type f) (members m (fd_offset f))"
    proof -
      have "members m (fd_offset f) \<noteq> Arr cs" for cs using that value_typed_no_array by metis
      then have "blocks_at (fd_offset f) m = Collect (cell_block (Member (fd_offset f)) (members m (fd_offset f)))"
        by (simp add: blocks_at_def)
      with free_value_all [OF that assms(4), of "Member (fd_offset f)"] show ?thesis by simp
    qed
    show ?thesis
    proof (cases "fd_oneof f")
      case True
      with ty False one obtain w where "members m (fd_quantifier f) = U32 w"
          "w = fd_id f \<longrightarrow> value_typed (complete_sub (fd_sub f)) (fd_type f) (members m (fd_offset f))"
        by (auto simp: field_typed_def Let_def)
      with v True False show ?thesis by (cases "w = fd_id f") (simp_all add: free_field_def field_blocks_def frees_all_def)
    next
      case no: False
      with ty False have "value_typed (complete_sub (fd_sub f)) (fd_type f) (members m (fd_offset f))"
        by (auto simp: field_typed_def Let_def)
      from v [OF this] no False show ?thesis by (simp add: free_field_def field_blocks_def)
    qed
  qed
qed

lemma field_blocks_apart:
  assumes "fields_described fs" "f \<in> set fs" "g \<in> set fs" "f \<noteq> g"
  shows "field_blocks f m \<inter> field_blocks g m = {}"
proof -
  consider "writes f \<inter> writes g = {}" | "same_union f g" using others_compatible [OF assms(1-3)] assms(4) by blast
  then show ?thesis
  proof cases
    case 1
    then have "fd_offset f \<noteq> fd_offset g" using offset_writes [of f] offset_writes [of g] by auto
    from blocks_at_apart [OF this, of m] show ?thesis by (auto simp: field_blocks_def)
  next
    case 2
    have "fd_id f \<noteq> fd_id g" using assms unfolding fields_described_def inj_on_def by blast
    with 2 show ?thesis by (auto simp: field_blocks_def same_union_def)
  qed
qed

lemma blocks_of_fields:
  assumes "fields_described fs" "typed fs m"
  shows "(\<Union>x. blocks_at x m) = (\<Union>f \<in> set fs. field_blocks f m)"
proof (intro equalityI UN_least)
  fix f assume "f \<in> set fs"
  show "field_blocks f m \<subseteq> (\<Union>x. blocks_at x m)" by (auto simp: field_blocks_def)
next
  fix x
  show "blocks_at x m \<subseteq> (\<Union>f \<in> set fs. field_blocks f m)"
  proof (cases "\<exists>f \<in> set fs. x \<in> writes f")
    case False
    with assms(2) have "members m x = U32 0" by (auto simp: typed_def nothing_else_def)
    then show ?thesis by simp
  next
    case True
    then obtain f where f: "f \<in> set fs" "x \<in> writes f" by blast
    note ty = typed_field [OF assms(2) f(1)]
    have one: "fd_quantifier f \<noteq> []" "fd_label f \<noteq> REPEATED" "fd_label f \<noteq> REQUIRED" "has_quantifier f" if "fd_oneof f"
      using assms(1) f(1) that by (auto simp: fields_described_def has_quantifier_def)
    have q: "\<exists>v. members m (fd_quantifier f) = U32 v" if "has_quantifier f"
    proof -
      have "fd_label f \<noteq> REPEATED" "fd_label f \<noteq> REQUIRED" using that by (auto simp: has_quantifier_def)
      from field_reads(2) [OF assms(2) f(1) this] that show ?thesis by (auto simp: has_quantifier_def)
    qed
    show ?thesis
    proof (cases "x = fd_offset f")
      case False
      with f(2) q show ?thesis by (auto simp: writes_def split: if_splits)
    next
      case x: True
      show ?thesis
      proof (cases "fd_oneof f \<and> members m (fd_quantifier f) \<noteq> U32 (fd_id f)")
        case False
        then have "field_blocks f m = blocks_at x m" by (auto simp: x field_blocks_def)
        with f(1) show ?thesis by blast
      next
        case True
        note o = one [OF conjunct1 [OF True]]
        from q [OF o(4)] obtain v where v: "members m (fd_quantifier f) = U32 v" by blast
        show ?thesis
        proof (cases "v = 0")
          case True
          with field_reads(4) [OF assms(2) f(1) o(2,3)] \<open>fd_oneof f \<and> _\<close> v have "members m x = zero_cell f" by (simp add: x)
          from blocks_at_zero [OF o(2) this] show ?thesis by simp
        next
          case False
          with assms(2) f(1) o(4) True v obtain g where g: "g \<in> set fs" "same_union f g" "fd_id g = v"
            by (force simp: typed_def cases_known_def)
          with same_union_place [OF assms(1) f(1)] have "fd_offset g = fd_offset f" "fd_quantifier g = fd_quantifier f" by blast+
          then have "field_blocks g m = blocks_at x m" using v g(3) by (simp add: field_blocks_def x)
          with g(1) show ?thesis by blast
        qed
      qed
    qed
  qed
qed

lemma fields_free_all:
  assumes "\<forall>f \<in> set fs. frees_all (free_field (submessage_free (fd_sub f)) f m) (B f)" "distinct fs"
    "\<And>f g. f \<in> set fs \<Longrightarrow> g \<in> set fs \<Longrightarrow> f \<noteq> g \<Longrightarrow> B f \<inter> B g = {}"
  shows "frees_all (fields_free fs m) (\<Union>f \<in> set fs. B f)"
  using assms
proof (induction fs)
  case Nil
  then show ?case by (simp add: frees_all_def)
next
  case (Cons f fs)
  have free: "fields_free (f # fs) m = do { ps \<leftarrow> free_field (submessage_free (fd_sub f)) f m; qs \<leftarrow> fields_free fs m; Some (ps @ qs) }"
    by (cases f) simp
  obtain ps where ps: "free_field (submessage_free (fd_sub f)) f m = Some ps" "distinct ps" "set ps = B f"
    using Cons.prems(1) by (auto simp: frees_all_def)
  obtain qs where qs: "fields_free fs m = Some qs" "distinct qs" "set qs = (\<Union>g \<in> set fs. B g)"
    using Cons.IH Cons.prems by (auto simp: frees_all_def)
  have "B f \<inter> B g = {}" if "g \<in> set fs" for g using that Cons.prems(2,3) by (metis distinct.simps(2) list.set_intros)
  then have "set ps \<inter> set qs = {}" using ps(3) qs(3) by blast
  with ps qs show ?case unfolding free by (simp add: frees_all_def)
qed

lemma numbered_distinct: "numbered fs rs \<Longrightarrow> distinct fs"
  by (auto simp: numbered_def distinct_conv_nth) (metis option.inject)

lemma free_unpacked_all:
  "described D \<Longrightarrow> complete_message D m \<Longrightarrow> frees_all (protobuf_c_message_free_unpacked D m) (Collect (block_of m))"
  "described_fields fs \<Longrightarrow> \<forall>f \<in> set fs. \<forall>e. complete_sub (fd_sub f) e \<longrightarrow> frees_all (submessage_free (fd_sub f) e) (Collect (block_of e))"
  "described_sub sub \<Longrightarrow> complete_sub sub m \<Longrightarrow> frees_all (submessage_free sub m) (Collect (block_of m))"
proof (induction D and fs and sub arbitrary: m and m and m rule: described_described_fields_described_sub.induct)
  case (1 nm fs rs m)
  note d = described_fields_described [OF "1.prems"(1)]
  have t: "typed fs m" using "1.prems"(2) unfolding complete_iff by simp
  have "distinct fs" "described_fields fs" using "1.prems"(1) numbered_distinct by auto
  then have "frees_all (fields_free fs m) (\<Union>f \<in> set fs. field_blocks f m)"
    using "1.IH" free_field_all [OF d t] field_blocks_apart [OF d] by (intro fields_free_all) auto
  then obtain ps where ps: "fields_free fs m = Some ps" "distinct ps" "set ps = (\<Union>x. blocks_at x m)"
    using blocks_of_fields [OF d t] by (auto simp: frees_all_def)
  then have "distinct (ps @ map (\<lambda>i. [Unknown_data i]) [0..<length (unknown m)] @ (if unknown m = [] then [] else [[Unknown_fields]]) @ [[]])"
    by (auto simp: distinct_map inj_on_def)
  with ps show ?case by (auto simp: frees_all_def block_of_iff)
next
  case (3 nm i l t q off sub pk one fs)
  then show ?case by auto
qed auto

text \<open>C13. A message that was unpacked, from any bytes, is freed completely: \<^verbatim>\<open>protobuf_c_message_free_unpacked\<close> frees
  every block of it - strings, bytes, arrays, embedded messages and their blocks, unknown fields - and none of them
  twice, also where it has unions, of which only the selected member is freed.\<close>

theorem unpacked_messages_are_freed:
  assumes "described D" "protobuf_c_message_unpack D data = Inr m"
  shows "\<exists>ps. protobuf_c_message_free_unpacked D m = Some ps \<and> distinct ps \<and> (\<forall>p. p \<in> set ps \<longleftrightarrow> block_of m p)"
proof -
  have "complete_message D m" using unpack_returns(1) [OF assms(1), of False data] assms(2) by (simp add: returns_def)
  from free_unpacked_all(1) [OF assms(1) this] show ?thesis by (auto simp: frees_all_def)
qed

section \<open>Unpacked messages pass the check\<close>

text \<open>Members of a union have values of its type, whichever is selected.\<close>

lemma cell_typed:
  assumes "fields_described fs" "typed fs m" "f \<in> set fs" "fd_label f \<noteq> REPEATED"
  shows "value_typed (\<lambda>_. True) (fd_type f) (members m (fd_offset f))"
proof -
  have mono: "value_typed (\<lambda>_. True) t c" if "value_typed sg t c" for sg t c
    using that by (cases t) (auto simp: value_typed_def)
  show ?thesis
  proof (cases "fd_oneof f")
    case False
    with typed_field [OF assms(2,3)] assms(4) show ?thesis by (auto simp: field_typed_def Let_def intro: mono)
  next
    case True
    then have o: "has_quantifier f" "fd_label f \<noteq> REQUIRED" "fd_quantifier f \<noteq> []"
      using assms(1,3) by (auto simp: fields_described_def has_quantifier_def)
    obtain v where v: "members m (fd_quantifier f) = U32 v" using field_reads(2) [OF assms(2,3,4) o(2)] o(3) by blast
    show ?thesis
    proof (cases "v = 0")
      case True
      with field_reads(4) [OF assms(2-4) o(2) \<open>fd_oneof f\<close>] v value_typed_zero [OF assms(4)] show ?thesis by simp
    next
      case False
      with assms(2,3) o(1) True v obtain g where g: "g \<in> set fs" "same_union f g" "fd_id g = v"
        by (force simp: typed_def cases_known_def)
      have l: "fd_label g \<noteq> REPEATED" "fd_label g \<noteq> REQUIRED" "fd_oneof g" using g(2) by (auto simp: same_union_def has_quantifier_def)
      note p = same_union_place [OF assms(1,3) g(1,2)]
      with field_reads(3) [OF assms(2) g(1) l(1,2,3)] v g(3) show ?thesis by (auto intro: mono)
    qed
  qed
qed

lemma check_elements_True: "\<forall>c \<in> set cs. g c = Some True \<Longrightarrow> check_elements g cs = Some True"
  by (induction cs) auto

lemma check_fields_True: "\<forall>i \<in> set is. g i = Some True \<Longrightarrow> check_fields g is = Some True"
  by (induction "is") auto

lemma checkers_eq: "checkers fs = map (\<lambda>f. submessage_check (fd_sub f)) fs"
proof (induction fs)
  case (Cons f fs)
  then show ?case by (cases f) (simp add: fun_eq_iff)
qed simp

text \<open>The check that an embedded message gets is the one of the field it was stored for.\<close>

lemma own_check_True:
  assumes d: "fields_described fs" and t: "typed fs m" and i: "i < length fs" "fd_label (fs ! i) \<noteq> REPEATED" "fd_type (fs ! i) = T_MESSAGE"
    and e: "members m (fd_offset (fs ! i)) = Sub (Some e)"
    and chs: "\<And>k e. k < length fs \<Longrightarrow> complete_sub (fd_sub (fs ! k)) e \<Longrightarrow> (chs ! k) e = Some True"
  shows "own_check fs chs i m e = Some True"
proof -
  let ?f = "fs ! i"
  have f: "?f \<in> set fs" using i by simp
  have val: "complete_sub (fd_sub g) e"
    if "g \<in> set fs" "fd_label g \<noteq> REPEATED" "fd_type g = T_MESSAGE" "fd_offset g = fd_offset ?f"
      "\<not> fd_oneof g \<or> members m (fd_quantifier g) = U32 (fd_id g)" for g
  proof -
    have "value_typed (complete_sub (fd_sub g)) (fd_type g) (members m (fd_offset g))"
      using typed_field [OF t that(1)] that(2,5) by (auto simp: field_typed_def Let_def split: if_splits)
    with that(3,4) e show ?thesis by (simp add: value_typed_def)
  qed
  show ?thesis
  proof (cases "fd_oneof ?f")
    case False
    with val [OF f] i chs show ?thesis by (simp add: own_check_def)
  next
    case True
    then have o: "has_quantifier ?f" "fd_label ?f \<noteq> REQUIRED" "fd_quantifier ?f \<noteq> []"
      using d f by (auto simp: fields_described_def has_quantifier_def)
    obtain v where v: "members m (fd_quantifier ?f) = U32 v" using field_reads(2) [OF t f i(2) o(2)] o(3) by blast
    have "v \<noteq> 0"
      using field_reads(4) [OF t f i(2) o(2) True] v e i(2,3) by (auto simp: zero_cell_def)
    with t f o(1) True v obtain g where g: "g \<in> set fs" "same_union ?f g" "fd_id g = v"
      by (force simp: typed_def cases_known_def)
    note p = same_union_place [OF d f g(1,2)]
    let ?P = "\<lambda>k. fd_oneof (fs ! k) \<and> fd_quantifier (fs ! k) = fd_quantifier ?f \<and> fd_id (fs ! k) = v"
    obtain j where j: "j < length fs" "fs ! j = g" using g(1) by (auto simp: in_set_conv_nth)
    then have "?P j" using g(2,3) by (auto simp: same_union_def)
    with j(1) have "find ?P [0..<length fs] \<noteq> None" by (auto simp: find_None_iff)
    then obtain k where k: "find ?P [0..<length fs] = Some k" by auto
    then have kp: "k < length fs" "fd_id (fs ! k) = v" by (auto simp: find_Some_iff)
    with d g have "fs ! k = g" unfolding fields_described_def inj_on_def by (metis nth_mem)
    moreover have "complete_sub (fd_sub g) e"
      using val [OF g(1)] p g v i(3) by (auto simp: same_union_def has_quantifier_def)
    ultimately show ?thesis using True v k chs [OF kp(1)] by (simp add: own_check_def)
  qed
qed

lemma check_field_True:
  assumes d: "fields_described fs" and t: "typed fs m" and r: "required_there fs m" and i: "i < length fs"
    and chs: "\<And>k e. k < length fs \<Longrightarrow> complete_sub (fd_sub (fs ! k)) e \<Longrightarrow> (chs ! k) e = Some True"
  shows "check_field fs chs i m = Some True"
proof -
  let ?f = "fs ! i"
  have f: "?f \<in> set fs" using i by simp
  have o: "fd_label ?f \<noteq> REPEATED \<and> fd_label ?f \<noteq> REQUIRED \<and> fd_quantifier ?f \<noteq> []" if "fd_oneof ?f"
    using d f that by (auto simp: fields_described_def)
  show ?thesis
  proof (cases "fd_label ?f = REPEATED")
    case True
    then have n: "\<not> fd_oneof ?f" using o by blast
    obtain cs where cs: "members m (fd_offset ?f) = Arr cs"
        "\<forall>c \<in> set cs. value_typed (complete_sub (fd_sub ?f)) (fd_type ?f) c \<and> \<not> null_cell c"
      using typed_field [OF t f] True by (auto simp: field_typed_def)
    have own: "own_check fs chs i m = chs ! i" using n by (simp add: own_check_def fun_eq_iff)
    have "check_elements (check_value (own_check fs chs i m) (fd_type ?f)) cs = Some True" if "\<not> is_packable_type (fd_type ?f)"
    proof (rule check_elements_True, rule ballI)
      fix c assume "c \<in> set cs"
      with cs(2) have "value_typed (complete_sub (fd_sub ?f)) (fd_type ?f) c" "\<not> null_cell c" by auto
      with that n chs [OF i] show "check_value (own_check fs chs i m) (fd_type ?f) c = Some True"
        by (cases "fd_type ?f") (auto simp: is_packable_type_def check_value_def value_typed_def null_cell_def own split: option.splits)
    qed
    with True cs(1) show ?thesis by (simp add: check_field_def Let_def)
  next
    case False
    note v = cell_typed [OF d t f False]
    have there: "\<not> null_cell (members m (fd_offset ?f))" if "fd_label ?f = REQUIRED" using r f that by (simp add: required_there_def)
    consider "fd_type ?f = T_MESSAGE" | "fd_type ?f = T_STRING" | "fd_type ?f = T_BYTES"
      | "fd_type ?f \<notin> {T_MESSAGE, T_STRING, T_BYTES}" by blast
    then show ?thesis
    proof cases
      case 1
      then obtain e where "members m (fd_offset ?f) = Sub e" using v by (auto simp: value_typed_def)
      with 1 False there own_check_True [OF d t i False 1 _ chs] show ?thesis
        by (auto simp: check_field_def check_value_def null_cell_def Let_def split: option.split)
    next
      case 2
      then obtain s where "members m (fd_offset ?f) = Str s" using v by (auto simp: value_typed_def)
      with 2 False there show ?thesis by (auto simp: check_field_def check_value_def null_cell_def Let_def)
    next
      case 3
      then obtain b where b: "members m (fd_offset ?f) = Bytes b" using v by (auto simp: value_typed_def)
      have "\<exists>w. members m (fd_quantifier ?f) = U32 w" if "fd_label ?f \<noteq> REQUIRED" "fd_quantifier ?f \<noteq> []"
        using field_reads(2) [OF t f False that(1)] that(2) by blast
      with b 3 False show ?thesis by (auto simp: check_field_def check_value_def Let_def)
    next
      case 4
      with False show ?thesis by (simp add: check_field_def Let_def)
    qed
  qed
qed

lemma check_complete:
  "described D \<Longrightarrow> complete_message D m \<Longrightarrow> protobuf_c_message_check D m = Some True"
  "described_fields fs \<Longrightarrow> \<forall>f \<in> set fs. \<forall>e. complete_sub (fd_sub f) e \<longrightarrow> submessage_check (fd_sub f) e = Some True"
  "described_sub sub \<Longrightarrow> complete_sub sub m \<Longrightarrow> submessage_check sub m = Some True"
proof (induction D m and fs and sub m rule: protobuf_c_message_check_checkers_submessage_check.induct)
  case (1 nm fs rs m)
  note d = described_fields_described [OF "1.prems"(1)]
  have t: "typed fs m" "required_there fs m" using "1.prems"(2) unfolding complete_iff by simp_all
  have "\<forall>f \<in> set fs. \<forall>e. complete_sub (fd_sub f) e \<longrightarrow> submessage_check (fd_sub f) e = Some True"
    using "1.IH" "1.prems"(1) by simp
  then have "check_field fs (checkers fs) i m = Some True" if "i < length fs" for i
    using that by (intro check_field_True [OF d t]) (simp_all add: checkers_eq)
  then show ?case by (simp add: check_fields_True)
next
  case (3 nm i l t q off sub pk one fs)
  then show ?case by auto
qed auto

text \<open>C14. What the unpacker returns for any bytes passes the check of messages, which every embedded message passes
  with the descriptor of its own.\<close>

theorem unpacked_messages_pass_check:
  assumes "described D" "protobuf_c_message_unpack D data = Inr m"
  shows "protobuf_c_message_check D m = Some True"
proof -
  have "complete_message D m" using unpack_returns(1) [OF assms(1), of False data] assms(2) by (simp add: returns_def)
  from check_complete(1) [OF assms(1) this] show ?thesis .
qed

end
