(* ===== verification/Pb_Generated.thy ===== *)
theory Pb_Generated
  imports Requests Reports Pb_Buffer Pb_Lookup Pb_Free
begin

unbundle bit_operations_syntax

text \<open>
  The rest of the code generated for \<^verbatim>\<open>analysis.proto\<close> (\<^verbatim>\<open>analysis.pb-c.c\<close>, \<^verbatim>\<open>analysis.pb-c.h\<close>): the initial structs, the
  functions of each message, and the tables of the fields' names.  What a growing buffer loses when no memory is left.
\<close>

section \<open>Initial structs\<close>

text \<open>The members of a struct in their order, with the values that the macro gives them; an array with its counter
  is one cell, as is a union.\<close>

definition initialised :: "(string \<times> cell) list \<Rightarrow> pb_msg" where
  "initialised kvs = Msg (\<lambda>x. case map_of kvs x of Some c \<Rightarrow> c | None \<Rightarrow> U32 0) []"

definition ANALYSIS__PROTOCOL__INIT :: pb_msg where
  "ANALYSIS__PROTOCOL__INIT = initialised
     [(''id'', Str None), (''activemetrics'', U32 0), (''has_clientip'', U32 0), (''clientip'', U32 0),
      (''clientports'', Arr []), (''has_serverip'', U32 0), (''serverip'', U32 0), (''serverports'', Arr [])]"

definition ANALYSIS__NET_INT__INIT :: pb_msg where
  "ANALYSIS__NET_INT__INIT = initialised
     [(''id'', Str None), (''protocols'', Arr [])]"

definition ANALYSIS__INIT__INIT :: pb_msg where
  "ANALYSIS__INIT__INIT = initialised
     [(''netints'', Arr []), (''interval'', U32 0), (''duration'', U32 0)]"

definition ANALYSIS__DATA__INIT :: pb_msg where
  "ANALYSIS__DATA__INIT = initialised
     [(''time'', U64 0), (''netint'', Str None), (''has_rstavg'', U32 0), (''rstavg'', U64 0),
      (''has_rstmin'', U32 0), (''rstmin'', U64 0), (''has_rstmax'', U32 0), (''rstmax'', U64 0),
      (''has_rstclient'', U32 0), (''rstclient'', U64 0), (''has_errrate'', U32 0), (''errrate'', U64 0),
      (''has_errratemin'', U32 0), (''errratemin'', U64 0), (''has_errratemax'', U32 0), (''errratemax'', U64 0),
      (''has_errrateclient'', U32 0), (''errrateclient'', U64 0), (''has_reqrate'', U32 0), (''reqrate'', U64 0),
      (''has_reqratemin'', U32 0), (''reqratemin'', U64 0), (''has_reqratemax'', U32 0), (''reqratemax'', U64 0),
      (''has_reqrateclient'', U32 0), (''reqrateclient'', U64 0), (''has_connrate'', U32 0), (''connrate'', U64 0),
      (''has_connratemin'', U32 0), (''connratemin'', U64 0), (''has_connratemax'', U32 0), (''connratemax'', U64 0),
      (''client'', Arr []), (''req_path'', Arr []), (''req_method'', Arr []), (''req_type'', Arr []),
      (''rsp_status'', Arr []), (''has_tpavg'', U32 0), (''tpavg'', U64 0), (''has_tpmin'', U32 0),
      (''tpmin'', U64 0), (''has_tpmax'', U32 0), (''tpmax'', U64 0), (''has_tprevavg'', U32 0),
      (''tprevavg'', U64 0), (''has_tprevmin'', U32 0), (''tprevmin'', U64 0), (''has_tprevmax'', U32 0),
      (''tprevmax'', U64 0)]"

definition ANALYSIS__METRIC_MSG__INIT :: pb_msg where
  "ANALYSIS__METRIC_MSG__INIT = initialised
     [(''name'', Str None), (''netint'', Str None), (''netintid'', U32 0), (''protocol'', Str None),
      (''protocolid'', U32 0), (''time'', U64 0), (''clientid'', U64 0), (''values_case'', U32 0),
      (''values'', Sub None)]"

definition ANALYSIS__METRIC_AVG_MSG__INIT :: pb_msg where
  "ANALYSIS__METRIC_AVG_MSG__INIT = initialised
     [(''avg'', U64 0), (''min'', U64 0), (''max'', U64 0)]"

definition ANALYSIS__FREQ__INIT :: pb_msg where
  "ANALYSIS__FREQ__INIT = initialised
     [(''name'', Str None), (''freq'', U64 0)]"

definition ANALYSIS__METRIC_CUM_DISTR_MSG__INIT :: pb_msg where
  "ANALYSIS__METRIC_CUM_DISTR_MSG__INIT = initialised
     [(''freqs'', Arr [])]"

definition ANALYSIS__CLOSE__INIT :: pb_msg where
  "ANALYSIS__CLOSE__INIT = initialised
     []"

section \<open>The functions of each message\<close>

definition analysis__protocol__init :: pb_msg where
  "analysis__protocol__init = ANALYSIS__PROTOCOL__INIT"

definition analysis__protocol__get_packed_size :: "pb_msg \<Rightarrow> nat option" where
  "analysis__protocol__get_packed_size m = protobuf_c_message_get_packed_size analysis__protocol__descriptor m"

definition analysis__protocol__pack :: "pb_msg \<Rightarrow> u8 list option" where
  "analysis__protocol__pack m = protobuf_c_message_pack analysis__protocol__descriptor m"

definition analysis__protocol__unpack :: "u8 list \<Rightarrow> failure + pb_msg" where
  "analysis__protocol__unpack data = protobuf_c_message_unpack analysis__protocol__descriptor data"

definition analysis__protocol__pack_to_buffer :: "'u environment \<Rightarrow> pb_msg \<Rightarrow> 'u packer" where
  "analysis__protocol__pack_to_buffer E m buf = protobuf_c_message_pack_to_buffer E analysis__protocol__descriptor m buf"

definition analysis__protocol__free_unpacked :: "pb_msg option \<Rightarrow> block list option" where
  "analysis__protocol__free_unpacked message = (case message of None \<Rightarrow> Some [] | Some m \<Rightarrow> protobuf_c_message_free_unpacked analysis__protocol__descriptor m)"

definition analysis__net_int__init :: pb_msg where
  "analysis__net_int__init = ANALYSIS__NET_INT__INIT"

definition analysis__net_int__get_packed_size :: "pb_msg \<Rightarrow> nat option" where
  "analysis__net_int__get_packed_size m = protobuf_c_message_get_packed_size analysis__net_int__descriptor m"

definition analysis__net_int__pack :: "pb_msg \<Rightarrow> u8 list option" where
  "analysis__net_int__pack m = protobuf_c_message_pack analysis__net_int__descriptor m"

definition analysis__net_int__unpack :: "u8 list \<Rightarrow> failure + pb_msg" where
  "analysis__net_int__unpack data = protobuf_c_message_unpack analysis__net_int__descriptor data"

definition analysis__net_int__pack_to_buffer :: "'u environment \<Rightarrow> pb_msg \<Rightarrow> 'u packer" where
  "analysis__net_int__pack_to_buffer E m buf = protobuf_c_message_pack_to_buffer E analysis__net_int__descriptor m buf"

definition analysis__net_int__free_unpacked :: "pb_msg option \<Rightarrow> block list option" where
  "analysis__net_int__free_unpacked message = (case message of None \<Rightarrow> Some [] | Some m \<Rightarrow> protobuf_c_message_free_unpacked analysis__net_int__descriptor m)"

definition analysis__init__init :: pb_msg where
  "analysis__init__init = ANALYSIS__INIT__INIT"

definition analysis__init__get_packed_size :: "pb_msg \<Rightarrow> nat option" where
  "analysis__init__get_packed_size m = protobuf_c_message_get_packed_size analysis__init__descriptor m"

definition analysis__init__pack_to_buffer :: "'u environment \<Rightarrow> pb_msg \<Rightarrow> 'u packer" where
  "analysis__init__pack_to_buffer E m buf = protobuf_c_message_pack_to_buffer E analysis__init__descriptor m buf"

definition analysis__init__free_unpacked :: "pb_msg option \<Rightarrow> block list option" where
  "analysis__init__free_unpacked message = (case message of None \<Rightarrow> Some [] | Some m \<Rightarrow> protobuf_c_message_free_unpacked analysis__init__descriptor m)"

definition analysis__data__init :: pb_msg where
  "analysis__data__init = ANALYSIS__DATA__INIT"

definition analysis__data__get_packed_size :: "pb_msg \<Rightarrow> nat option" where
  "analysis__data__get_packed_size m = protobuf_c_message_get_packed_size analysis__data__descriptor m"

definition analysis__data__pack :: "pb_msg \<Rightarrow> u8 list option" where
  "analysis__data__pack m = protobuf_c_message_pack analysis__data__descriptor m"

definition analysis__data__unpack :: "u8 list \<Rightarrow> failure + pb_msg" where
  "analysis__data__unpack data = protobuf_c_message_unpack analysis__data__descriptor data"

definition analysis__data__pack_to_buffer :: "'u environment \<Rightarrow> pb_msg \<Rightarrow> 'u packer" where
  "analysis__data__pack_to_buffer E m buf = protobuf_c_message_pack_to_buffer E analysis__data__descriptor m buf"

definition analysis__data__free_unpacked :: "pb_msg option \<Rightarrow> block list option" where
  "analysis__data__free_unpacked message = (case message of None \<Rightarrow> Some [] | Some m \<Rightarrow> protobuf_c_message_free_unpacked analysis__data__descriptor m)"

definition analysis__metric_msg__init :: pb_msg where
  "analysis__metric_msg__init = ANALYSIS__METRIC_MSG__INIT"

definition analysis__metric_msg__pack_to_buffer :: "'u environment \<Rightarrow> pb_msg \<Rightarrow> 'u packer" where
  "analysis__metric_msg__pack_to_buffer E m buf = protobuf_c_message_pack_to_buffer E analysis__metric_msg__descriptor m buf"

definition analysis__metric_msg__free_unpacked :: "pb_msg option \<Rightarrow> block list option" where
  "analysis__metric_msg__free_unpacked message = (case message of None \<Rightarrow> Some [] | Some m \<Rightarrow> protobuf_c_message_free_unpacked analysis__metric_msg__descriptor m)"

definition analysis__metric_avg_msg__init :: pb_msg where
  "analysis__metric_avg_msg__init = ANALYSIS__METRIC_AVG_MSG__INIT"

definition analysis__metric_avg_msg__get_packed_size :: "pb_msg \<Rightarrow> nat option" where
  "analysis__metric_avg_msg__get_packed_size m = protobuf_c_message_get_packed_size analysis__metric_avg_msg__descriptor m"

definition analysis__metric_avg_msg__pack :: "pb_msg \<Rightarrow> u8 list option" where
  "analysis__metric_avg_msg__pack m = protobuf_c_message_pack analysis__metric_avg_msg__descriptor m"

definition analysis__metric_avg_msg__unpack :: "u8 list \<Rightarrow> failure + pb_msg" where
  "analysis__metric_avg_msg__unpack data = protobuf_c_message_unpack analysis__metric_avg_msg__descriptor data"

definition analysis__metric_avg_msg__pack_to_buffer :: "'u environment \<Rightarrow> pb_msg \<Rightarrow> 'u packer" where
  "analysis__metric_avg_msg__pack_to_buffer E m buf = protobuf_c_message_pack_to_buffer E analysis__metric_avg_msg__descriptor m buf"

definition analysis__metric_avg_msg__free_unpacked :: "pb_msg option \<Rightarrow> block list option" where
  "analysis__metric_avg_msg__free_unpacked message = (case message of None \<Rightarrow> Some [] | Some m \<Rightarrow> protobuf_c_message_free_unpacked analysis__metric_avg_msg__descriptor m)"

definition analysis__freq__init :: pb_msg where
  "analysis__freq__init = ANALYSIS__FREQ__INIT"

definition analysis__freq__get_packed_size :: "pb_msg \<Rightarrow> nat option" where
  "analysis__freq__get_packed_size m = protobuf_c_message_get_packed_size analysis__freq__descriptor m"

definition analysis__freq__pack :: "pb_msg \<Rightarrow> u8 list option" where
  "analysis__freq__pack m = protobuf_c_message_pack analysis__freq__descriptor m"

definition analysis__freq__unpack :: "u8 list \<Rightarrow> failure + pb_msg" where
  "analysis__freq__unpack data = protobuf_c_message_unpack analysis__freq__descriptor data"

definition analysis__freq__pack_to_buffer :: "'u environment \<Rightarrow> pb_msg \<Rightarrow> 'u packer" where
  "analysis__freq__pack_to_buffer E m buf = protobuf_c_message_pack_to_buffer E analysis__freq__descriptor m buf"

definition analysis__freq__free_unpacked :: "pb_msg option \<Rightarrow> block list option" where
  "analysis__freq__free_unpacked message = (case message of None \<Rightarrow> Some [] | Some m \<Rightarrow> protobuf_c_message_free_unpacked analysis__freq__descriptor m)"

definition analysis__metric_cum_distr_msg__init :: pb_msg where
  "analysis__metric_cum_distr_msg__init = ANALYSIS__METRIC_CUM_DISTR_MSG__INIT"

definition analysis__metric_cum_distr_msg__get_packed_size :: "pb_msg \<Rightarrow> nat option" where
  "analysis__metric_cum_distr_msg__get_packed_size m = protobuf_c_message_get_packed_size analysis__metric_cum_distr_msg__descriptor m"

definition analysis__metric_cum_distr_msg__pack :: "pb_msg \<Rightarrow> u8 list option" where
  "analysis__metric_cum_distr_msg__pack m = protobuf_c_message_pack analysis__metric_cum_distr_msg__descriptor m"

definition analysis__metric_cum_distr_msg__unpack :: "u8 list \<Rightarrow> failure + pb_msg" where
  "analysis__metric_cum_distr_msg__unpack data = protobuf_c_message_unpack analysis__metric_cum_distr_msg__descriptor data"

definition analysis__metric_cum_distr_msg__pack_to_buffer :: "'u environment \<Rightarrow> pb_msg \<Rightarrow> 'u packer" where
  "analysis__metric_cum_distr_msg__pack_to_buffer E m buf = protobuf_c_message_pack_to_buffer E analysis__metric_cum_distr_msg__descriptor m buf"

definition analysis__metric_cum_distr_msg__free_unpacked :: "pb_msg option \<Rightarrow> block list option" where
  "analysis__metric_cum_distr_msg__free_unpacked message = (case message of None \<Rightarrow> Some [] | Some m \<Rightarrow> protobuf_c_message_free_unpacked analysis__metric_cum_distr_msg__descriptor m)"

definition analysis__close__init :: pb_msg where
  "analysis__close__init = ANALYSIS__CLOSE__INIT"

definition analysis__close__get_packed_size :: "pb_msg \<Rightarrow> nat option" where
  "analysis__close__get_packed_size m = protobuf_c_message_get_packed_size analysis__close__descriptor m"

definition analysis__close__pack :: "pb_msg \<Rightarrow> u8 list option" where
  "analysis__close__pack m = protobuf_c_message_pack analysis__close__descriptor m"

definition analysis__close__unpack :: "u8 list \<Rightarrow> failure + pb_msg" where
  "analysis__close__unpack data = protobuf_c_message_unpack analysis__close__descriptor data"

definition analysis__close__pack_to_buffer :: "'u environment \<Rightarrow> pb_msg \<Rightarrow> 'u packer" where
  "analysis__close__pack_to_buffer E m buf = protobuf_c_message_pack_to_buffer E analysis__close__descriptor m buf"

definition analysis__close__free_unpacked :: "pb_msg option \<Rightarrow> block list option" where
  "analysis__close__free_unpacked message = (case message of None \<Rightarrow> Some [] | Some m \<Rightarrow> protobuf_c_message_free_unpacked analysis__close__descriptor m)"

section \<open>The fields by name\<close>

definition analysis__protocol__field_indices_by_name :: "nat list option" where
  "analysis__protocol__field_indices_by_name = Some [1, 2, 3, 0, 4, 5]"

definition analysis__net_int__field_indices_by_name :: "nat list option" where
  "analysis__net_int__field_indices_by_name = Some [0, 1]"

definition analysis__init__field_indices_by_name :: "nat list option" where
  "analysis__init__field_indices_by_name = Some [2, 1, 0]"

definition analysis__data__field_indices_by_name :: "nat list option" where
  "analysis__data__field_indices_by_name = Some [17, 14, 16, 15, 6, 9, 8, 7, 1, 10, 13, 12, 11, 19, 18, 20, 21, 2, 5, 4, 3, 0, 22, 24, 23, 25, 27, 26]"

definition analysis__metric_msg__field_indices_by_name :: "nat list option" where
  "analysis__metric_msg__field_indices_by_name = Some [6, 7, 8, 0, 1, 2, 3, 4, 5]"

definition analysis__metric_avg_msg__field_indices_by_name :: "nat list option" where
  "analysis__metric_avg_msg__field_indices_by_name = Some [0, 2, 1]"

definition analysis__freq__field_indices_by_name :: "nat list option" where
  "analysis__freq__field_indices_by_name = Some [1, 0]"

definition analysis__metric_cum_distr_msg__field_indices_by_name :: "nat list option" where
  "analysis__metric_cum_distr_msg__field_indices_by_name = Some [0]"

definition analysis__close__field_indices_by_name :: "nat list option" where
  "analysis__close__field_indices_by_name = None"

section \<open>All messages\<close>

text \<open>Each message with its initial struct and its table of names.\<close>

definition all_messages :: "(msg_desc \<times> pb_msg \<times> nat list option) list" where
  "all_messages =
    [(analysis__protocol__descriptor, analysis__protocol__init, analysis__protocol__field_indices_by_name),
     (analysis__net_int__descriptor, analysis__net_int__init, analysis__net_int__field_indices_by_name),
     (analysis__init__descriptor, analysis__init__init, analysis__init__field_indices_by_name),
     (analysis__data__descriptor, analysis__data__init, analysis__data__field_indices_by_name),
     (analysis__metric_msg__descriptor, analysis__metric_msg__init, analysis__metric_msg__field_indices_by_name),
     (analysis__metric_avg_msg__descriptor, analysis__metric_avg_msg__init, analysis__metric_avg_msg__field_indices_by_name),
     (analysis__freq__descriptor, analysis__freq__init, analysis__freq__field_indices_by_name),
     (analysis__metric_cum_distr_msg__descriptor, analysis__metric_cum_distr_msg__init,
        analysis__metric_cum_distr_msg__field_indices_by_name),
     (analysis__close__descriptor, analysis__close__init, analysis__close__field_indices_by_name)]"

lemmas init_defs = analysis__protocol__init_def ANALYSIS__PROTOCOL__INIT_def analysis__net_int__init_def ANALYSIS__NET_INT__INIT_def
  analysis__init__init_def ANALYSIS__INIT__INIT_def analysis__data__init_def ANALYSIS__DATA__INIT_def
  analysis__metric_msg__init_def ANALYSIS__METRIC_MSG__INIT_def analysis__metric_avg_msg__init_def ANALYSIS__METRIC_AVG_MSG__INIT_def
  analysis__freq__init_def ANALYSIS__FREQ__INIT_def analysis__metric_cum_distr_msg__init_def ANALYSIS__METRIC_CUM_DISTR_MSG__INIT_def
  analysis__close__init_def ANALYSIS__CLOSE__INIT_def

lemmas table_defs = analysis__protocol__field_indices_by_name_def analysis__net_int__field_indices_by_name_def
  analysis__init__field_indices_by_name_def analysis__data__field_indices_by_name_def
  analysis__metric_msg__field_indices_by_name_def analysis__metric_avg_msg__field_indices_by_name_def
  analysis__freq__field_indices_by_name_def analysis__metric_cum_distr_msg__field_indices_by_name_def
  analysis__close__field_indices_by_name_def

lemma freq_described: "described analysis__freq__descriptor"
  using freq_ok by (simp add: analysis__freq__descriptor_def same_union_def)

lemma metric_avg_msg_described: "described analysis__metric_avg_msg__descriptor"
  using metric_avg_msg_ok by (simp add: analysis__metric_avg_msg__descriptor_def same_union_def)

lemma metric_cum_distr_msg_described: "described analysis__metric_cum_distr_msg__descriptor"
  using metric_cum_distr_msg_ok by (simp add: analysis__metric_cum_distr_msg__descriptor_def same_union_def freq_described)

lemma metric_msg_described: "described analysis__metric_msg__descriptor"
  using metric_msg_ok
  by (simp add: analysis__metric_msg__descriptor_def same_union_def metric_avg_msg_described metric_cum_distr_msg_described)

text \<open>Without unions there is less to check.\<close>

lemma described_plain:
  "desc_ok (Msg_desc nm fs rs) \<Longrightarrow> described_fields fs \<Longrightarrow> \<forall>f \<in> set fs. \<not> fd_oneof f \<Longrightarrow> described (Msg_desc nm fs rs)"
  by (simp add: same_union_def)

lemma data_described: "described analysis__data__descriptor"
  using data_ok unfolding analysis__data__descriptor_def
  by (rule described_plain) (simp_all add: freq_described)

lemma close_described: "described analysis__close__descriptor"
  using close_ok by (simp add: analysis__close__descriptor_def)

lemma all_described: "list_all (\<lambda>(D, i, t). described D) all_messages"
  by (simp add: all_messages_def protocol_described net_int_described init_described data_described metric_msg_described
    metric_avg_msg_described freq_described metric_cum_distr_msg_described close_described)

section \<open>The initial structs are those of the descriptors\<close>

definition struct_agrees :: "field_desc list \<Rightarrow> (string \<times> cell) list \<Rightarrow> bool" where
  "struct_agrees fs kvs \<longleftrightarrow> (\<forall>f \<in> set fs. map_of kvs (fd_offset f) = Some (zero_cell f)) \<and>
     (\<forall>(x, c) \<in> set kvs. c = U32 0 \<or> x \<in> fd_offset ` set fs)"

lemma initialised_agrees:
  assumes "described (Msg_desc nm fs rs)" "struct_agrees fs kvs"
  shows "initialised kvs = message_init (Msg_desc nm fs rs)"
proof (rule pb_msg_eqI)
  fix x
  show "members (initialised kvs) x = members (message_init (Msg_desc nm fs rs)) x"
  proof (cases "x \<in> fd_offset ` set fs")
    case True
    then obtain f where "f \<in> set fs" "x = fd_offset f" by blast
    with assms(2) init_offset [OF described_fields_described [OF assms(1)]] show ?thesis
      by (simp add: struct_agrees_def initialised_def)
  next
    case False
    then have "members (message_init (Msg_desc nm fs rs)) x = U32 0"
      unfolding message_init_def pb_msg.sel msg_desc.sel
      by (intro init_members [where P = "\<lambda>c. c = U32 0"]) (simp, blast)
    moreover have "map_of kvs x = None \<or> map_of kvs x = Some (U32 0)"
    proof (cases "map_of kvs x")
      case (Some c)
      then have "(x, c) \<in> set kvs" by (rule map_of_SomeD)
      with assms(2) False Some show ?thesis by (auto simp: struct_agrees_def)
    qed simp
    ultimately show ?thesis by (auto simp: initialised_def)
  qed
qed (simp add: initialised_def message_init_def)

text \<open>It is enough to compare neighbours.\<close>

lemma table_sorted_neighbours:
  assumes "length idx = length fs" "list_all (\<lambda>i. i < length fs) idx"
    "successively (\<lambda>a b. strcmp a b < 0) (map (\<lambda>i. fd_name (fs ! i)) idx)"
  shows "table_sorted (Msg_desc nm fs rs) idx"
proof -
  have "transp (\<lambda>a b. strcmp a b < 0)" by (rule transpI) (use order_less_trans in \<open>auto simp: strcmp_less\<close>)
  with assms(3) have s: "sorted_wrt (\<lambda>a b. strcmp a b < 0) (map (\<lambda>i. fd_name (fs ! i)) idx)"
    by (simp add: successively_conv_sorted_wrt)
  then have "distinct (map (\<lambda>i. fd_name (fs ! i)) idx)"
    by (auto simp: distinct_conv_nth sorted_wrt_iff_nth_less strcmp_less) (metis linorder_neqE_nat order_less_irrefl)
  then have "card (set idx) = length fs" using assms(1) by (simp add: distinct_map distinct_card)
  moreover have "set idx \<subseteq> {0..<length fs}" using assms(2) by (auto simp: list_all_iff)
  ultimately have "set idx = {0..<length fs}" by (intro card_subset_eq) simp_all
  with s assms(1) show ?thesis by (simp add: table_sorted_def sorted_wrt_map strcmp_less)
qed

lemmas agree_simps = struct_agrees_def zero_cell_def

lemma protocol_init_agrees: "analysis__protocol__init = message_init analysis__protocol__descriptor"
  unfolding analysis__protocol__descriptor_def init_defs
  by (rule initialised_agrees [OF protocol_described [unfolded analysis__protocol__descriptor_def]]) (simp add: agree_simps)

lemma net_int_init_agrees: "analysis__net_int__init = message_init analysis__net_int__descriptor"
  unfolding analysis__net_int__descriptor_def init_defs
  by (rule initialised_agrees [OF net_int_described [unfolded analysis__net_int__descriptor_def]]) (simp add: agree_simps)

lemma init_init_agrees: "analysis__init__init = message_init analysis__init__descriptor"
  unfolding analysis__init__descriptor_def init_defs
  by (rule initialised_agrees [OF init_described [unfolded analysis__init__descriptor_def]]) (simp add: agree_simps)

lemma data_init_agrees: "analysis__data__init = message_init analysis__data__descriptor"
  unfolding analysis__data__descriptor_def init_defs
  by (rule initialised_agrees [OF data_described [unfolded analysis__data__descriptor_def]]) (simp add: agree_simps)

lemma metric_msg_init_agrees: "analysis__metric_msg__init = message_init analysis__metric_msg__descriptor"
  unfolding analysis__metric_msg__descriptor_def init_defs
  by (rule initialised_agrees [OF metric_msg_described [unfolded analysis__metric_msg__descriptor_def]]) (simp add: agree_simps)

lemma metric_avg_msg_init_agrees: "analysis__metric_avg_msg__init = message_init analysis__metric_avg_msg__descriptor"
  unfolding analysis__metric_avg_msg__descriptor_def init_defs
  by (rule initialised_agrees [OF metric_avg_msg_described [unfolded analysis__metric_avg_msg__descriptor_def]]) (simp add: agree_simps)

lemma freq_init_agrees: "analysis__freq__init = message_init analysis__freq__descriptor"
  unfolding analysis__freq__descriptor_def init_defs
  by (rule initialised_agrees [OF freq_described [unfolded analysis__freq__descriptor_def]]) (simp add: agree_simps)

lemma metric_cum_distr_msg_init_agrees: "analysis__metric_cum_distr_msg__init = message_init analysis__metric_cum_distr_msg__descriptor"
  unfolding analysis__metric_cum_distr_msg__descriptor_def init_defs
  by (rule initialised_agrees [OF metric_cum_distr_msg_described [unfolded analysis__metric_cum_distr_msg__descriptor_def]]) (simp add: agree_simps)

lemma close_init_agrees: "analysis__close__init = message_init analysis__close__descriptor"
  unfolding analysis__close__descriptor_def init_defs
  by (rule initialised_agrees [OF close_described [unfolded analysis__close__descriptor_def]]) (simp add: agree_simps)

definition table_ok :: "msg_desc \<Rightarrow> nat list option \<Rightarrow> bool" where
  "table_ok D t \<longleftrightarrow> (case t of None \<Rightarrow> md_fields D = [] | Some idx \<Rightarrow> table_sorted D idx)"

lemma table_okI: "table_sorted (Msg_desc nm fs rs) idx \<Longrightarrow> table_ok (Msg_desc nm fs rs) (Some idx)"
  by (simp add: table_ok_def)

lemma protocol_table: "table_ok analysis__protocol__descriptor analysis__protocol__field_indices_by_name"
  unfolding analysis__protocol__descriptor_def table_defs by (intro table_okI table_sorted_neighbours) simp_all

lemma net_int_table: "table_ok analysis__net_int__descriptor analysis__net_int__field_indices_by_name"
  unfolding analysis__net_int__descriptor_def table_defs by (intro table_okI table_sorted_neighbours) simp_all

lemma init_table: "table_ok analysis__init__descriptor analysis__init__field_indices_by_name"
  unfolding analysis__init__descriptor_def table_defs by (intro table_okI table_sorted_neighbours) simp_all

lemma data_table: "table_ok analysis__data__descriptor analysis__data__field_indices_by_name"
  unfolding analysis__data__descriptor_def table_defs by (intro table_okI table_sorted_neighbours) simp_all

lemma metric_msg_table: "table_ok analysis__metric_msg__descriptor analysis__metric_msg__field_indices_by_name"
  unfolding analysis__metric_msg__descriptor_def table_defs by (intro table_okI table_sorted_neighbours) simp_all

lemma metric_avg_msg_table: "table_ok analysis__metric_avg_msg__descriptor analysis__metric_avg_msg__field_indices_by_name"
  unfolding analysis__metric_avg_msg__descriptor_def table_defs by (intro table_okI table_sorted_neighbours) simp_all

lemma freq_table: "table_ok analysis__freq__descriptor analysis__freq__field_indices_by_name"
  unfolding analysis__freq__descriptor_def table_defs by (intro table_okI table_sorted_neighbours) simp_all

lemma metric_cum_distr_msg_table: "table_ok analysis__metric_cum_distr_msg__descriptor analysis__metric_cum_distr_msg__field_indices_by_name"
  unfolding analysis__metric_cum_distr_msg__descriptor_def table_defs by (intro table_okI table_sorted_neighbours) simp_all

lemma close_table: "table_ok analysis__close__descriptor analysis__close__field_indices_by_name"
  by (simp add: table_ok_def analysis__close__descriptor_def table_defs)

text \<open>C32. For every message the initial struct of the generated code agrees with the one that its descriptor
  determines, and the table of names finds the field that trying all names finds.\<close>

theorem generated_tables_agree:
  assumes "(D, i, t) \<in> set all_messages"
  shows "i = message_init D \<and>
    protobuf_c_message_descriptor_get_field_by_name D t name = find (\<lambda>f. c_str (fd_name f) = c_str name) (md_fields D)"
proof -
  have "list_all (\<lambda>(D, i, t). i = message_init D \<and> table_ok D t) all_messages"
    by (simp add: all_messages_def
        protocol_init_agrees protocol_table
        net_int_init_agrees net_int_table
        init_init_agrees init_table
        data_init_agrees data_table
        metric_msg_init_agrees metric_msg_table
        metric_avg_msg_init_agrees metric_avg_msg_table
        freq_init_agrees freq_table
        metric_cum_distr_msg_init_agrees metric_cum_distr_msg_table
        close_init_agrees close_table)
  then have "i = message_init D" "table_ok D t" using assms by (auto simp: list_all_iff)
  then show ?thesis
    by (cases t) (simp_all add: field_by_name_linear table_ok_def, simp add: protobuf_c_message_descriptor_get_field_by_name_def)
qed

lemma generated_tables_agree_witness:
  "protobuf_c_message_descriptor_get_field_by_name analysis__init__descriptor analysis__init__field_indices_by_name ''interval'' =
     Some (md_fields analysis__init__descriptor ! 1)"
proof -
  have "(analysis__init__descriptor, analysis__init__init, analysis__init__field_indices_by_name) \<in> set all_messages"
    by (simp add: all_messages_def)
  from generated_tables_agree [OF this, of "''interval''"] show ?thesis
    by (simp add: analysis__init__descriptor_def c_str_def)
qed

section \<open>Growing buffers without memory\<close>

lemma long_name_is_dropped:
  assumes "256 < length s" "c_str s = s"
  shows "\<exists>n b. protobuf_c_message_pack_to_buffer (no_memory E) analysis__freq__descriptor (freq_struct ieee \<lparr>cf_name = Some s, c_freq = x\<rparr>)
      (Simple_buffer (SIMPLE_INIT 256)) = Some (n, Simple_buffer b) \<and> length (sb_data b) < n \<and> n \<le> length s + 20"
proof -
  have "s \<noteq> []" using assms(1) by auto
  with assms size_bounds(2) [of "of_nat (length s)"] show ?thesis
    by (simp add: analysis__freq__descriptor_def freq_struct_def struct_of_def init_simps field_pack_to_buffer_def
      required_field_pack_to_buffer_def append_content_def value_pack_def no_memory_append SIMPLE_INIT_def Let_def get_tag_size_def)
qed

text \<open>When a growing buffer gets no memory the bytes are dropped, but counted: packing a report in which the name of a client has
  more than 256 characters reads the counted number of bytes from a buffer that holds fewer, even where the buffer it
  is packed to has room for all of them.\<close>

theorem failed_allocation_reads_outside:
  assumes "256 < length s" "c_str s = s" "length (sb_data b) + length s + 30 \<le> sb_alloced b"
  shows "protobuf_c_message_pack_to_buffer (no_memory E) analysis__metric_cum_distr_msg__descriptor
    (cum_distr_struct ieee [\<lparr>cf_name = Some s, c_freq = x\<rparr>]) (Simple_buffer b) = None"
proof -
  obtain n d where f: "protobuf_c_message_pack_to_buffer (no_memory E) analysis__freq__descriptor
      (freq_struct ieee \<lparr>cf_name = Some s, c_freq = x\<rparr>) (Simple_buffer (SIMPLE_INIT 256)) = Some (n, Simple_buffer d)"
      "length (sb_data d) < n" "n \<le> length s + 20"
    using long_name_is_dropped [OF assms(1,2), of E ieee x] by blast
  let ?tag = "with_wire WIRE_LENGTH_PREFIXED (tag_pack 1) @ uint32_pack (of_nat n)"
  let ?b = "b\<lparr>sb_data := sb_data b @ ?tag\<rparr>"
  have t: "length ?tag \<le> 6" using size_bounds(2) [of "of_nat n"] by (simp add: get_tag_size_def)
  with assms(3) have "buffer_append (no_memory E) (length ?tag) ?tag (Simple_buffer b) = Some (Simple_buffer ?b)"
    by (subst no_memory_append(1)) simp_all
  moreover have "buffer_append (no_memory E) n (sb_data d) (Simple_buffer ?b) = None"
    using f(2,3) t assms(3) by (simp add: buffer_append_def protobuf_c_buffer_simple_append_def read_bytes_def)
  ultimately have "append_content (no_memory E) (with_wire WIRE_LENGTH_PREFIXED (tag_pack 1)) n (sb_data d) (Simple_buffer b) = None"
    by (simp only: append_content_def Let_def bind.bind_lunit bind.bind_lzero)
  with f(1) show ?thesis
    by (simp add: analysis__metric_cum_distr_msg__descriptor_def cum_distr_struct_def struct_of_def field_pack_to_buffer_def
      repeated_field_pack_to_buffer_def required_field_pack_to_buffer_def wire_type_of_def)
qed

lemma failed_allocation_reads_outside_witness:
  "protobuf_c_message_pack_to_buffer (no_memory runtime) analysis__metric_cum_distr_msg__descriptor
    (cum_distr_struct (\<lambda>_. 0) [\<lparr>cf_name = Some (replicate 300 CHR ''x''), c_freq = 1\<rparr>]) (Simple_buffer (SIMPLE_INIT 1000)) = None"
proof -
  have "c_str (replicate 300 CHR ''x'') = replicate 300 CHR ''x''" by (simp add: c_str_def)
  then show ?thesis by (intro failed_allocation_reads_outside) (simp_all add: SIMPLE_INIT_def)
qed

section \<open>Requests are freed\<close>

text \<open>What \<^verbatim>\<open>connection_handler\<close> frees after the analyses of a request: each block of it, once.\<close>

lemma requests_are_freed:
  assumes "analysis__init__unpack data = Inr m"
  shows "\<exists>ps. analysis__init__free_unpacked (Some m) = Some ps \<and> distinct ps \<and> (\<forall>p. p \<in> set ps \<longleftrightarrow> block_of m p)"
proof -
  have "complete_message analysis__init__descriptor m"
    using unpack_returns(1) [OF init_described, of False data] assms by (simp add: returns_def analysis__init__unpack_def)
  from free_unpacked_all(1) [OF init_described this] show ?thesis by (auto simp: frees_all_def analysis__init__free_unpacked_def)
qed

end
