(* ===== verification/Pb_Examples.thy ===== *)
theory Pb_Examples
  imports Pb_Generated "HOL-Library.Code_Target_Nat"
begin

unbundle bit_operations_syntax

text \<open>
  Concrete messages of the Protocol Buffers runtime (\<^verbatim>\<open>protobuf-c.c\<close>), computed by its model: one that is
  read back, one that is packed to a buffer, and one that makes it read outside its own.
\<close>

text \<open>A request to watch a MYSQL server at one address.\<close>

definition a_protocol :: protocol_msg where
  "a_protocol = \<lparr>pm_id = ''MYSQL'', pm_activemetrics = 3, pm_clientip = None, pm_clientports = [],
     pm_serverip = Some 0x0a000001, pm_serverports = [3307]\<rparr>"

lemma unpack_pack_witness:
  "\<exists>bs. protobuf_c_message_pack analysis__protocol__descriptor (protocol_struct a_protocol) = Some bs \<and> length bs = 17 \<and>
     protobuf_c_message_unpack analysis__protocol__descriptor bs = Inr (protocol_struct a_protocol)"
proof -
  have "c_str (pm_id a_protocol) = pm_id a_protocol" by (simp add: a_protocol_def c_str_def)
  moreover have "protobuf_c_message_get_packed_size analysis__protocol__descriptor (protocol_struct a_protocol) = Some 17"
    by code_simp
  ultimately show ?thesis using unpack_pack [OF protocol_ok protocol_struct_good, of a_protocol] by auto
qed

text \<open>Packing it to a buffer with room for ten bytes, of which one is used.\<close>

definition a_buffer :: simple_buffer where
  "a_buffer = \<lparr>sb_alloced = 10, sb_data = [7], sb_must_free_data = False\<rparr>"

lemma packs_to_buffer_as_to_memory_witness:
  "\<exists>s'. protobuf_c_message_pack_to_buffer runtime analysis__protocol__descriptor (protocol_struct a_protocol) (Simple_buffer a_buffer) =
       Some (17, Simple_buffer s') \<and>
     sb_data s' = [7, 10, 5, 77, 89, 83, 81, 76, 16, 3, 40, 129, 128, 128, 80, 48, 235, 25]"
proof -
  let ?bs = "[10, 5, 77, 89, 83, 81, 76, 16, 3, 40, 129, 128, 128, 80, 48, 235, 25] :: u8 list"
  have p: "protobuf_c_message_pack analysis__protocol__descriptor (protocol_struct a_protocol) = Some ?bs" by code_simp
  have u: "simple_usable a_buffer" by (simp add: simple_usable_def a_buffer_def)
  have a: "env_alloc runtime n" for n by (simp add: runtime_def)
  from packs_to_buffer_as_to_memory [OF p _ u a runtime.app u] show ?thesis by (auto simp: a_buffer_def)
qed

definition is_undefined :: "failure + 'a \<Rightarrow> bool" where
  "is_undefined r = (case r of Inl Undefined \<Rightarrow> True | _ \<Rightarrow> False)"

definition wrapping_request :: "u8 list" where
  "wrapping_request = [0x0A, 11, 0x0A, 1, 0x61, 0x12, 6, 0x22, 0xFF, 0xFF, 0xFF, 0xFF, 0x0F, 0x10, 5, 0x18, 60]"


text \<open>Two reports of a monitor.\<close>

definition a_report :: metric_msg where
  "a_report = \<lparr>mm_name = ''rst'', mm_netint = ''eth0'', mm_netintid = 0, mm_protocol = ''MYSQL'', mm_protocolid = 0,
     mm_time = 1700000000, mm_values = MetricAvgMsg (2, 1, 3)\<rparr>"

definition another_report :: metric_msg where
  "another_report = a_report\<lparr>mm_name := ''client'', mm_values := MetricCumDistrMsg [\<lparr>cf_name = Some ''10.0.0.1'', c_freq = 1\<rparr>]\<rparr>"



lemma unpacked_messages_are_freed_witness:
  "\<exists>m. protobuf_c_message_unpack analysis__init__descriptor [10, 3, 10, 1, 101, 16, 5, 24, 60] = Inr m \<and>
     (\<forall>p. block_of m p \<longleftrightarrow> p \<in> {[Element ''netints'' 0, Member ''id''], [Element ''netints'' 0], [Member ''netints''], []})"
proof -
  let ?D = analysis__init__descriptor and ?bs = "[10, 3, 10, 1, 101, 16, 5, 24, 60]"
  have "(case protobuf_c_message_unpack ?D ?bs of Inl e \<Rightarrow> False
     | Inr m \<Rightarrow> protobuf_c_message_free_unpacked ?D m =
         Some [[Element ''netints'' 0, Member ''id''], [Element ''netints'' 0], [Member ''netints''], []])"
    by code_simp
  then obtain m where m: "protobuf_c_message_unpack ?D ?bs = Inr m"
      "protobuf_c_message_free_unpacked ?D m =
         Some [[Element ''netints'' 0, Member ''id''], [Element ''netints'' 0], [Member ''netints''], []]"
    by (auto split: sum.splits)
  with unpacked_messages_are_freed [OF init_described m(1)] show ?thesis by auto
qed

lemma unpacked_messages_pass_check_witness:
  "\<exists>m. protobuf_c_message_unpack analysis__init__descriptor [10, 3, 10, 1, 101, 16, 5, 24, 60] = Inr m \<and>
     protobuf_c_message_check analysis__init__descriptor m = Some True"
proof -
  let ?D = analysis__init__descriptor and ?bs = "[10, 3, 10, 1, 101, 16, 5, 24, 60]"
  have "(case protobuf_c_message_unpack ?D ?bs of Inl e \<Rightarrow> False | Inr m \<Rightarrow> True)" by code_simp
  then obtain m where m: "protobuf_c_message_unpack ?D ?bs = Inr m" by (auto split: sum.splits)
  with unpacked_messages_pass_check [OF init_described m] show ?thesis by auto
qed

end
