(* ===== verification/Spec2Isabelle.thy ===== *)
theory Spec2Isabelle
  imports Varint Util Packet Tcp_Order Queues Flow_Table Hash_Table Http Memcached MySQL Pairing Conversation
    Metrics Monitor Delivery Capture Server Startup Pipeline Reports Requests Pb_Examples
begin

text \<open>
  A model of the C and C++ network monitor in \<^verbatim>\<open>src/c-http-sniffer\<close>, with the theorems that make it
  correct, and some that show where it is not.

  \<^bold>\<open>The program.\<close>  A client connects, sends a length-prefixed request (Protocol Buffers) and gets reports
  on the same socket.  The request names network interfaces and, for each, protocols to be watched: HTTP, Memcached or
  MySQL, with ports, addresses and metrics.  For every interface an analysis is run: a capture thread queues frames;
  a preprocessing thread parses them, classifies their payloads and gives each packet to the first monitor that owns one
  of its ports; a packet thread per monitor files packets under their TCP connection in the flow table, which
  keeps the segments of both directions in order; a closed flow is queued, and a flow thread pairs its
  requests with its responses and announces them as events; the metrics observe these events and the ticks of a timer, and
  report at the end of each interval; a scrubbing thread closes idle flows.

  \<^bold>\<open>Theories and sources\<close> (paths under \<^verbatim>\<open>src/c-http-sniffer\<close>).

  \<^item> \<^verbatim>\<open>Prelude\<close>, \<^verbatim>\<open>Clib\<close>: the machine integers (\<^verbatim>\<open>u8\<close> to \<^verbatim>\<open>u64\<close>, words of their width), pointers as optional
    addresses of explicit heaps, linked lists, and the C library's string functions on buffers, which are
    lists of the characters of an allocation.
  \<^item> \<^verbatim>\<open>Packet\<close> (\<^verbatim>\<open>packet.c\<close>), \<^verbatim>\<open>Capture\<close> (\<^verbatim>\<open>packet_preprocess\<close> of \<^verbatim>\<open>main.c\<close>): headers and classification.
  \<^item> \<^verbatim>\<open>Tcp_Order\<close> (\<^verbatim>\<open>order.c\<close>, \<^verbatim>\<open>tcp.c\<close>), \<^verbatim>\<open>Flow\<close> (\<^verbatim>\<open>flow.cpp\<close>), \<^verbatim>\<open>Bucket_List\<close> (the collision chains),
    \<^verbatim>\<open>Flow_Table\<close> (\<^verbatim>\<open>flowHashTable.cpp\<close>, and \<^verbatim>\<open>add_packet\<close> of \<^verbatim>\<open>flow.cpp\<close>), \<^verbatim>\<open>Queues\<close> (\<^verbatim>\<open>queue.cpp\<close>, \<^verbatim>\<open>packetQueue.cpp\<close>,
    \<^verbatim>\<open>flowQueue.cpp\<close>).
  \<^item> \<^verbatim>\<open>Lines\<close>, \<^verbatim>\<open>Messages\<close>, \<^verbatim>\<open>Http\<close>, \<^verbatim>\<open>Memcached\<close>, \<^verbatim>\<open>MySQL\<close>, \<^verbatim>\<open>Protocols\<close> (\<^verbatim>\<open>protocols/\<close>): the classifiers and parsers of the
    three protocols and their virtual methods, whose contract is the locale \<^verbatim>\<open>protocol\<close>.
  \<^item> \<^verbatim>\<open>Pairs\<close>, \<^verbatim>\<open>Pairing\<close>, \<^verbatim>\<open>Conversation\<close>: \<^verbatim>\<open>extractPair\<close> of \<^verbatim>\<open>protocol.cpp\<close>, what it guarantees for every flow, and
    what it computes for a complete conversation.
  \<^item> \<^verbatim>\<open>Values\<close> (\<^verbatim>\<open>analysis.cpp\<close>, \<^verbatim>\<open>value.cpp\<close>, \<^verbatim>\<open>cf_list.c\<close>), \<^verbatim>\<open>Hash_Table\<close> (\<^verbatim>\<open>hashTable.cpp\<close>), \<^verbatim>\<open>Metric_Avg\<close>, \<^verbatim>\<open>Metric_Distr\<close>,
    \<^verbatim>\<open>Metrics\<close> (\<^verbatim>\<open>metrics/\<close>, \<^verbatim>\<open>events/\<close>): the eleven metrics behind one datatype, with the events they observe.
  \<^item> \<^verbatim>\<open>Monitor\<close> (\<^verbatim>\<open>Protocol\<close> of \<^verbatim>\<open>protocol.cpp\<close>), \<^verbatim>\<open>Delivery\<close>: a monitor of one protocol, how it announces what it
    extracts, and that no observer faults.
  \<^item> \<^verbatim>\<open>Pb_Scalars\<close>, \<^verbatim>\<open>Pb_Message\<close>, \<^verbatim>\<open>Pb_Ranges\<close>, \<^verbatim>\<open>Pb_Unpack\<close> (\<^verbatim>\<open>protobuf-c.c\<close>): the Protocol Buffers runtime, which
    interprets descriptors; \<^verbatim>\<open>Pb_Wire\<close>, \<^verbatim>\<open>Pb_Roundtrip\<close>: its round trip; \<^verbatim>\<open>Pb_Typed\<close>: for any bytes, what is unpacked
    has the members that its descriptor promises; \<^verbatim>\<open>Pb_Free\<close>: it passes the check, and is freed completely;
    \<^verbatim>\<open>Pb_Buffer\<close>: packing to a buffer that grows, a byte sink; \<^verbatim>\<open>Pb_Lookup\<close>: the lookups in descriptors by
    name and number, enums and services; \<^verbatim>\<open>Pb_Messages\<close>, \<^verbatim>\<open>Pb_Generated\<close> (\<^verbatim>\<open>analysis.pb-c.c\<close>): the descriptors of the program's messages, the structs of requests, and the
    generated wrappers and tables; \<^verbatim>\<open>Pb_Examples\<close>: computed examples.
  \<^item> \<^verbatim>\<open>Varint\<close> (the length prefix, \<^verbatim>\<open>server.c\<close>), \<^verbatim>\<open>Server\<close> (\<^verbatim>\<open>connection_handler\<close>), \<^verbatim>\<open>Requests\<close>: on bytes
    in which no length can wrap it reads only what is there; \<^verbatim>\<open>Startup\<close> (\<^verbatim>\<open>main\<close>, \<^verbatim>\<open>start_server\<close>), \<^verbatim>\<open>Reports\<close> (\<^verbatim>\<open>sendMsg\<close>), \<^verbatim>\<open>Util\<close> (\<^verbatim>\<open>util.c\<close>).
  \<^item> \<^verbatim>\<open>Pipeline\<close> (\<^verbatim>\<open>main.c\<close>, \<^verbatim>\<open>timer.c\<close>): the threads as a step relation whose steps are the rounds of their loops.

  \<^bold>\<open>State and operations.\<close>  A C struct or C++ object is a record with the source's fields, a class with virtual methods a
  record of functions or a datatype; objects that are shared or linked live in explicit heaps.  An
  operation is a function from its state to the new one.  Its result is optional where the code may access what is not
  there (NULL, freed, or outside its buffer), and \<^const>\<open>None\<close> is that fault; a \<^verbatim>\<open>return\<close> of an error value or a call of
  \<^verbatim>\<open>error\<close> is a value.  What an allocation leaves uninitialised is an argument.

  \<^bold>\<open>What the lemmas show.\<close>  Invariants and refinements: the queues, the flow table and the counting table implement
  lists, a map of flows and multisets, and the sequence records stay sorted; one flow per connection at
  any time.  Functional correctness: ordering of segments with retransmissions, pairing, the parsers on all texts of their
  grammar, the reports of all metrics as functions of the events of their interval.  Round trips: requests, responses,
  addresses, every message of every well-formed descriptor, client requests and streams of reports.  Safety and termination:
  monitors that a request builds never fault, no bytes of a client with a readable prefix and without three
  bytes 255 in a row make its handler read what is not there, \<^verbatim>\<open>extractPair\<close> returns, what is queued as a message
  can be parsed.  Over the threads: no interleaving loses, duplicates or reorders packets.  The theorems on errors state
  behaviour that the code should not have: overflows, responses that are ignored, wrapped lengths.

  \<^bold>\<open>Bounds.\<close>  Requests and reports are below 64 MiB, which keeps the number of members below the runtime's limit and lengths
  below $2^{31}$, where \<^verbatim>\<open>decode_varint\<close> breaks; the texts of the segment times of a response fit the code's buffers of 256 bytes,
  which 36 records cannot exceed; a list of shares has 100 slots, and shares above a hundredth cannot be more.
  The loops that clear a bucket have fuel, one more than its elements; the walks through linked
  lists and the growing of a buffer are partial functions, which are proved to return where the lists are
  well-formed and the buffer is not empty; all other loops terminate by a measure.

  \<^bold>\<open>Not modelled.\<close>  Sockets beyond what calls on them return, \<^verbatim>\<open>libpcap\<close>, signals, files and printing; sends are assumed to take
  all bytes, and allocations to succeed but for those of growing buffers.
  Locks: each operation on shared state is one atomic step.  Freeing of memory, except of unpacked messages and where a freed flow
  is used.  Floating point: doubles are exact numbers, their representation is an argument where they
  are packed.  Of the Protocol Buffers runtime: default values, which no message of the program has.  After the end of
  an analysis the model's timer may tick more often than the code's.  The Rust back end and the web front end in other directories are separate programs.
\<close>

end
